(* ===== verification/Prelude.thy ===== *)
theory Prelude
  imports Main "HOL-Library.Word" "HOL-Library.AList"
begin

text \<open>
  Shared vocabulary of the development: names for Rust's machine integers, the result type
  of fallible operations, the standard-library containers the program uses
  (\<open>HashMap\<close> as an association list in iteration order, \<open>Vec::swap_remove\<close>,
  \<open>slice::binary_search\<close>, \<open>Ord::cmp\<close>), little-endian integer encoding, UTF-8, and the generic
  lemmas about them that the component theories use.
\<close>

unbundle bit_operations_syntax

section \<open>Machine integers\<close>

text \<open>
  A signed integer is kept as the word with the same bits; \<open>sint\<close> reads it. \<open>f32\<close> and
  \<open>f64\<close> are their IEEE 754 bit patterns. \<open>usize\<close> is 64 bits wide where its width
  matters and a natural number where it is a length.
\<close>

type_synonym u8 = "8 word"
type_synonym u16 = "16 word"
type_synonym u32 = "32 word"
type_synonym u64 = "64 word"
type_synonym i8 = "8 word"
type_synonym i16 = "16 word"
type_synonym i32 = "32 word"
type_synonym i64 = "64 word"
type_synonym f32 = "32 word"
type_synonym f64 = "64 word"
type_synonym bytes = "8 word list"

abbreviation u64_max :: u64 where
  "u64_max \<equiv> - 1"

lemma u64_max_top [simp]: "(x::u64) \<le> u64_max"
  by (simp add: word_order.extremum)

lemma min_u64_max [simp]: "min u64_max x = x" "min x u64_max = (x::u64)"
  by (simp_all add: min_absorb1 min_absorb2)

lemma unat_u64_max: "unat u64_max = 18446744073709551615"
  by (simp add: unsigned_minus_1_eq_mask mask_eq_exp_minus_1)

lemma unat_of_nat_lt: "k < 2 ^ LENGTH('a) \<Longrightarrow> unat (of_nat k :: 'a::len word) = k"
  by (rule of_nat_inverse [OF refl])

lemma unat_bump: "(x::u64) \<noteq> u64_max \<Longrightarrow> unat (x + 1) = Suc (unat x)"
  by (metis Suc_eq_plus1 add.commute eq_neg_iff_add_eq_0 unatSuc)

text \<open>\<open>saturating_add\<close>, \<open>saturating_sub\<close> and \<open>saturating_mul\<close> on \<open>u64\<close>.\<close>

definition sat_add :: "u64 \<Rightarrow> u64 \<Rightarrow> u64" where
  "sat_add a b = (if unat a + unat b < 2 ^ 64 then a + b else u64_max)"

definition sat_sub :: "u64 \<Rightarrow> u64 \<Rightarrow> u64" where
  "sat_sub a b = (if b \<le> a then a - b else 0)"

definition sat_mul :: "u64 \<Rightarrow> u64 \<Rightarrow> u64" where
  "sat_mul a b = (if unat a * unat b < 2 ^ 64 then a * b else u64_max)"

lemma unat_sat_add: "unat (sat_add a b) = min (unat a + unat b) (2 ^ 64 - 1)"
  by (simp add: sat_add_def unat_word_ariths unat_u64_max)

lemma unat_sat_sub: "unat (sat_sub a b) = unat a - unat b"
  by (auto simp: sat_sub_def unat_sub word_le_nat_alt)

section \<open>Fallible operations\<close>

text \<open>
  An operation that returns \<open>io::Result\<close> yields \<open>Inl\<close> of a failure or \<open>Inr\<close> of its value.
  An I/O error keeps its \<open>io::ErrorKind\<close> and the format string of its message. \<open>Panic\<close> is
  the failure of an operation that Rust aborts by unwinding (a slice or an index out of
  range).
\<close>

datatype error_kind =
    NotFound | PermissionDenied | AlreadyExists | WouldBlock | InvalidInput | InvalidData
  | TimedOut | UnexpectedEof

datatype failure = IoError error_kind string | Panic

type_synonym 'a result = "failure + 'a"

definition rbind :: "'e + 'a \<Rightarrow> ('a \<Rightarrow> 'e + 'b) \<Rightarrow> 'e + 'b" where
  "rbind m f = (case m of Inl e \<Rightarrow> Inl e | Inr x \<Rightarrow> f x)"

lemma rbind_simps [simp]:
  "rbind (Inr x) f = f x"
  "rbind (Inl e) f = Inl e"
  by (simp_all add: rbind_def)

lemma rbind_eq_Inr: "rbind m f = Inr y \<longleftrightarrow> (\<exists>x. m = Inr x \<and> f x = Inr y)"
  by (cases m) auto

lemma rbind_eq_Inl: "rbind m f = Inl e \<longleftrightarrow> m = Inl e \<or> (\<exists>x. m = Inr x \<and> f x = Inl e)"
  by (cases m) auto

text \<open>Loops whose body may fail.\<close>

fun rfold :: "('a \<Rightarrow> 'b \<Rightarrow> 'e + 'b) \<Rightarrow> 'a list \<Rightarrow> 'b \<Rightarrow> 'e + 'b" where
  "rfold f [] b = Inr b"
| "rfold f (x # xs) b = rbind (f x b) (rfold f xs)"

fun rmap :: "('a \<Rightarrow> 'e + 'b) \<Rightarrow> 'a list \<Rightarrow> 'e + 'b list" where
  "rmap f [] = Inr []"
| "rmap f (x # xs) = rbind (f x) (\<lambda>y. rbind (rmap f xs) (\<lambda>ys. Inr (y # ys)))"

lemma rmap_Inr: "rmap f xs = Inr ys \<longleftrightarrow> list_all2 (\<lambda>x y. f x = Inr y) xs ys"
  by (induction xs arbitrary: ys) (auto simp: rbind_eq_Inr list_all2_Cons1)

section \<open>Orderings\<close>

datatype ordering = Less | Equal | Greater

definition cmp_of :: "'a::linorder \<Rightarrow> 'a \<Rightarrow> ordering" where
  "cmp_of a b = (if a < b then Less else if a = b then Equal else Greater)"

lemma cmp_of_simps [simp]:
  "cmp_of a b = Less \<longleftrightarrow> a < b"
  "cmp_of a b = Equal \<longleftrightarrow> a = b"
  "cmp_of a b = Greater \<longleftrightarrow> b < a"
  by (auto simp: cmp_of_def)

fun flip_ord :: "ordering \<Rightarrow> ordering" where
  "flip_ord Less = Greater"
| "flip_ord Equal = Equal"
| "flip_ord Greater = Less"

lemma flip_cmp_of: "flip_ord (cmp_of a b) = cmp_of b a"
  by (auto simp: cmp_of_def)

text \<open>\<open>Ordering::then_with\<close> and the element-wise comparison of slices.\<close>

definition then_ord :: "ordering \<Rightarrow> ordering \<Rightarrow> ordering" where
  "then_ord a b = (if a = Equal then b else a)"

fun lex_cmp :: "('a \<Rightarrow> 'a \<Rightarrow> ordering) \<Rightarrow> 'a list \<Rightarrow> 'a list \<Rightarrow> ordering" where
  "lex_cmp c [] [] = Equal"
| "lex_cmp c [] (y # ys) = Less"
| "lex_cmp c (x # xs) [] = Greater"
| "lex_cmp c (x # xs) (y # ys) = then_ord (c x y) (lex_cmp c xs ys)"

lemma lex_cmp_map: "lex_cmp (\<lambda>a b. cmp_of (f a) (f b)) xs ys = lex_cmp cmp_of (map f xs) (map f ys)"
  by (induction "\<lambda>a b. cmp_of (f a) (f b)" xs ys rule: lex_cmp.induct) auto

lemma lex_le_less:
  fixes a b d :: "'a::linorder list"
  shows "lex_cmp cmp_of a b \<noteq> Greater \<Longrightarrow> lex_cmp cmp_of b d = Less \<Longrightarrow> lex_cmp cmp_of a d = Less"
proof (induction a arbitrary: b d)
  case Nil
  then show ?case by (cases b; cases d) auto
next
  case (Cons x a)
  obtain y b' where b: "b = y # b'" using Cons.prems(1) by (cases b) auto
  obtain z d' where d: "d = z # d'" using Cons.prems(2) b by (cases d) auto
  show ?case
    using Cons.prems Cons.IH [of b' d'] unfolding b d
    by (auto simp: then_ord_def cmp_of_def split: if_splits)
qed

section \<open>Hash maps\<close>

text \<open>
  A \<open>HashMap\<close> (or \<open>AHashMap\<close>) is an association list with distinct keys, in the order in
  which the map iterates. Rust leaves that order open; here a new key is iterated last.
\<close>

type_synonym ('k, 'v) hmap = "('k \<times> 'v) list"

abbreviation hm_get :: "('k, 'v) hmap \<Rightarrow> 'k \<Rightarrow> 'v option" where
  "hm_get \<equiv> map_of"

abbreviation hm_insert :: "'k \<Rightarrow> 'v \<Rightarrow> ('k, 'v) hmap \<Rightarrow> ('k, 'v) hmap" where
  "hm_insert \<equiv> AList.update"

abbreviation hm_remove :: "'k \<Rightarrow> ('k, 'v) hmap \<Rightarrow> ('k, 'v) hmap" where
  "hm_remove \<equiv> AList.delete"

abbreviation hm_keys :: "('k, 'v) hmap \<Rightarrow> 'k list" where
  "hm_keys \<equiv> map fst"

abbreviation hm_wf :: "('k, 'v) hmap \<Rightarrow> bool" where
  "hm_wf m \<equiv> distinct (map fst m)"

definition hm_contains :: "('k, 'v) hmap \<Rightarrow> 'k \<Rightarrow> bool" where
  "hm_contains m k = (hm_get m k \<noteq> None)"

text \<open>\<open>HashMap::entry(k).or_insert(v)\<close> followed by an update in place.\<close>

definition hm_upsert :: "'k \<Rightarrow> 'v \<Rightarrow> ('v \<Rightarrow> 'v) \<Rightarrow> ('k, 'v) hmap \<Rightarrow> ('k, 'v) hmap" where
  "hm_upsert k dflt f m = hm_insert k (f (case hm_get m k of None \<Rightarrow> dflt | Some v \<Rightarrow> v)) m"

definition hm_retain :: "('k \<Rightarrow> 'v \<Rightarrow> bool) \<Rightarrow> ('k, 'v) hmap \<Rightarrow> ('k, 'v) hmap" where
  "hm_retain P m = filter (\<lambda>(k, v). P k v) m"

definition hm_map :: "('v \<Rightarrow> 'w) \<Rightarrow> ('k, 'v) hmap \<Rightarrow> ('k, 'w) hmap" where
  "hm_map f m = map (\<lambda>(k, v). (k, f v)) m"

named_theorems hm_simps \<open>lookups and well-formedness of hash maps\<close>

lemma hm_get_insert [hm_simps]: "hm_get (hm_insert k v m) k' = (if k' = k then Some v else hm_get m k')"
  by (simp add: update_conv)

lemma hm_get_remove [hm_simps]: "hm_get (hm_remove k m) k' = (if k' = k then None else hm_get m k')"
  by (simp add: delete_conv')

lemma hm_get_upsert [hm_simps]:
  "hm_get (hm_upsert k d f m) k' =
     (if k' = k then Some (f (case hm_get m k of None \<Rightarrow> d | Some v \<Rightarrow> v)) else hm_get m k')"
  by (simp add: hm_upsert_def hm_simps)

lemma hm_wf_insert [hm_simps]: "hm_wf m \<Longrightarrow> hm_wf (hm_insert k v m)"
  by (rule distinct_update)

lemma hm_wf_remove [hm_simps]: "hm_wf m \<Longrightarrow> hm_wf (hm_remove k m)"
  by (rule distinct_delete)

lemma hm_wf_upsert [hm_simps]: "hm_wf m \<Longrightarrow> hm_wf (hm_upsert k d f m)"
  by (simp add: hm_upsert_def hm_simps)

lemma hm_wf_retain [hm_simps]: "hm_wf m \<Longrightarrow> hm_wf (hm_retain P m)"
  by (simp add: hm_retain_def distinct_map_filter)

lemma hm_keys_map [hm_simps]: "hm_keys (hm_map f m) = hm_keys m"
  by (simp add: hm_map_def case_prod_beta comp_def)

lemma hm_get_map [hm_simps]: "hm_get (hm_map f m) k = map_option f (hm_get m k)"
  by (simp add: hm_map_def map_of_map [unfolded comp_def])

lemma hm_get_None: "hm_get m k = None \<longleftrightarrow> k \<notin> set (hm_keys m)"
  by (simp add: map_of_eq_None_iff)

lemma hm_get_in_keys: "hm_get m k = Some v \<Longrightarrow> k \<in> set (hm_keys m)"
  by (metis hm_get_None option.distinct(1))

lemma hm_get_mem: "hm_wf m \<Longrightarrow> (k, v) \<in> set m \<longleftrightarrow> hm_get m k = Some v"
  by (metis map_of_SomeD map_of_is_SomeI)

lemma hm_get_retain [hm_simps]:
  assumes "hm_wf m"
  shows "hm_get (hm_retain P m) k =
    (case hm_get m k of None \<Rightarrow> None | Some v \<Rightarrow> if P k v then Some v else None)"
  using assms
  by (induction m)
     (auto simp: hm_retain_def hm_get_None [simplified] image_iff split: option.splits)

lemma hm_insert_fresh: "k \<notin> set (hm_keys m) \<Longrightarrow> hm_insert k v m = m @ [(k, v)]"
  by (induction m) auto

lemma hm_remove_fresh: "k \<notin> set (hm_keys m) \<Longrightarrow> hm_remove k m = m"
  by simp

lemma hm_keys_insert: "set (hm_keys (hm_insert k v m)) = insert k (set (hm_keys m))"
  by (simp add: dom_update)

lemma hm_keys_remove: "set (hm_keys (hm_remove k m)) = set (hm_keys m) - {k}"
  by (simp add: delete_keys flip: set_map)

text \<open>A \<open>HashSet\<close> is a list of its elements, in iteration order.\<close>

definition hs_insert :: "'a \<Rightarrow> 'a list \<Rightarrow> 'a list" where
  "hs_insert x xs = (if x \<in> set xs then xs else xs @ [x])"

lemma set_hs_insert [simp]: "set (hs_insert x xs) = insert x (set xs)"
  by (auto simp: hs_insert_def)

lemma distinct_hs_insert [simp]: "distinct (hs_insert x xs) = distinct xs"
  by (auto simp: hs_insert_def)

section \<open>Vectors\<close>

fun position :: "('a \<Rightarrow> bool) \<Rightarrow> 'a list \<Rightarrow> nat option" where
  "position P [] = None"
| "position P (x # xs) = (if P x then Some 0 else map_option Suc (position P xs))"

lemma position_Some:
  "position P xs = Some i \<Longrightarrow> i < length xs \<and> P (xs ! i) \<and> (\<forall>j < i. \<not> P (xs ! j))"
  by (induction xs arbitrary: i) (auto split: if_splits simp: less_Suc_eq_0_disj)

lemma position_None: "position P xs = None \<longleftrightarrow> (\<forall>x \<in> set xs. \<not> P x)"
  by (induction xs) auto

text \<open>\<open>rposition\<close>: the last match.\<close>

definition rposition :: "('a \<Rightarrow> bool) \<Rightarrow> 'a list \<Rightarrow> nat option" where
  "rposition P xs = map_option (\<lambda>i. length xs - 1 - i) (position P (rev xs))"

lemma rposition_Some:
  assumes "rposition P xs = Some i"
  shows "i < length xs" and "P (xs ! i)" and "\<And>j. i < j \<Longrightarrow> j < length xs \<Longrightarrow> \<not> P (xs ! j)"
proof -
  from assms obtain k where k: "position P (rev xs) = Some k" and i: "i = length xs - 1 - k"
    by (auto simp: rposition_def)
  from position_Some [OF k] have lt: "k < length xs" and Pk: "P (rev xs ! k)"
    and before: "\<forall>j < k. \<not> P (rev xs ! j)" by auto
  show "i < length xs" using lt i by auto
  show "P (xs ! i)" using Pk lt i by (simp add: rev_nth)
  show "\<not> P (xs ! j)" if "i < j" "j < length xs" for j
  proof -
    have lt': "length xs - 1 - j < k" using that lt i by auto
    then have "\<not> P (rev xs ! (length xs - 1 - j))" using before by blast
    then show ?thesis using that by (simp add: rev_nth Suc_diff_Suc)
  qed
qed

text \<open>\<open>Vec::swap_remove\<close>: the last element takes the removed element's place.\<close>

definition swap_remove :: "nat \<Rightarrow> 'a list \<Rightarrow> 'a list" where
  "swap_remove i xs = butlast (xs[i := last xs])"

lemma set_swap_remove:
  assumes "i < length xs" and "distinct xs"
  shows "set (swap_remove i xs) = set xs - {xs ! i}" and "distinct (swap_remove i xs)"
proof -
  obtain ys z where xs: "xs = ys @ [z]" using assms(1) by (cases xs rule: rev_cases) auto
  have sr: "swap_remove i xs = (if i < length ys then ys[i := z] else ys)"
    using assms(1) by (simp add: swap_remove_def xs list_update_append butlast_append)
  have d: "distinct ys" "z \<notin> set ys" using assms(2) by (simp_all add: xs)
  have i: "i < length ys \<or> i = length ys" using assms(1) by (simp add: xs less_Suc_eq)
  have upd: "set (ys[i := z]) = insert z (set ys - {ys ! i})" if "i < length ys"
    by (rule set_update_distinct [OF d(1) that])
  show "set (swap_remove i xs) = set xs - {xs ! i}"
  proof (cases "i < length ys")
    case True
    then have "xs ! i = ys ! i" "ys ! i \<noteq> z" using d nth_mem [of i ys] by (auto simp: xs nth_append)
    with True upd show ?thesis unfolding sr by (simp add: xs insert_Diff_if)
  next
    case False
    with i d show ?thesis unfolding sr by (simp add: xs)
  qed
  show "distinct (swap_remove i xs)"
    using d by (simp add: sr distinct_list_update)
qed

lemma length_swap_remove [simp]: "length (swap_remove i xs) = length xs - 1"
  by (simp add: swap_remove_def)

text \<open>
  \<open>slice::binary_search\<close> on a sorted slice without duplicates: \<open>Inr\<close> of the index of the
  element, or \<open>Inl\<close> of the index at which inserting it keeps the order.
\<close>

definition binary_search :: "'a::linorder list \<Rightarrow> 'a \<Rightarrow> nat + nat" where
  "binary_search xs x =
     (let p = length (takeWhile (\<lambda>y. y < x) xs)
      in if p < length xs \<and> xs ! p = x then Inr p else Inl p)"

definition vec_insert :: "nat \<Rightarrow> 'a \<Rightarrow> 'a list \<Rightarrow> 'a list" where
  "vec_insert p x xs = take p xs @ x # drop p xs"

definition vec_remove :: "nat \<Rightarrow> 'a list \<Rightarrow> 'a list" where
  "vec_remove p xs = take p xs @ drop (Suc p) xs"

lemma sorted_take: "sorted xs \<Longrightarrow> sorted (take n xs)"
  by (metis append_take_drop_id sorted_append)

lemma sorted_vec_remove: "sorted xs \<Longrightarrow> sorted (vec_remove p xs)"
proof -
  assume "sorted xs"
  then have "sorted (take p xs @ drop p xs)" by simp
  then have "sorted (take p xs)" "sorted (drop p xs)"
    and cross: "\<forall>x \<in> set (take p xs). \<forall>y \<in> set (drop p xs). x \<le> y"
    unfolding sorted_append by blast+
  moreover have tl: "drop (Suc p) xs = tl (drop p xs)" by (simp add: drop_Suc tl_drop)
  moreover have "set (tl (drop p xs)) \<subseteq> set (drop p xs)" by (cases "drop p xs") auto
  ultimately show ?thesis
    unfolding vec_remove_def tl sorted_append using sorted_tl [of "drop p xs"] by blast
qed

lemma map_vec_remove: "map f (vec_remove p xs) = vec_remove p (map f xs)"
  by (simp add: vec_remove_def take_map drop_map)

lemma set_vec_remove: "set (vec_remove p xs) \<subseteq> set xs"
  by (auto simp: vec_remove_def dest: in_set_takeD in_set_dropD)

text \<open>
  On a strictly sorted vector the search finds an element that is there, and otherwise the place
  where inserting keeps the order.
\<close>

lemma binary_search_alt:
  "binary_search xs x = (let p = length (takeWhile (\<lambda>y. y < x) xs)
     in case dropWhile (\<lambda>y. y < x) xs of [] \<Rightarrow> Inl p | y # _ \<Rightarrow> if y = x then Inr p else Inl p)"
proof -
  let ?p = "length (takeWhile (\<lambda>y. y < x) xs)"
  have "dropWhile (\<lambda>y. y < x) xs = (if ?p < length xs then xs ! ?p # drop (Suc ?p) xs else [])"
    by (simp add: dropWhile_eq_drop Cons_nth_drop_Suc)
  then show ?thesis by (simp add: binary_search_def Let_def)
qed

lemma binary_search_split:
  obtains t d where "xs = t @ d" "\<forall>y \<in> set t. y < x" "\<And>y ys. d = y # ys \<Longrightarrow> x \<le> y"
    "binary_search xs x = (case d of [] \<Rightarrow> Inl (length t) | y # _ \<Rightarrow> if y = x then Inr (length t) else Inl (length t))"
proof (rule that)
  show "xs = takeWhile (\<lambda>y. y < x) xs @ dropWhile (\<lambda>y. y < x) xs" by simp
  show "\<forall>y \<in> set (takeWhile (\<lambda>y. y < x) xs). y < x" by (auto dest: set_takeWhileD)
  show "x \<le> y" if "dropWhile (\<lambda>y. y < x) xs = y # ys" for y ys
    using that by (metis hd_dropWhile list.sel(1) list.distinct(1) not_less)
qed (simp add: binary_search_alt Let_def)

lemma binary_search_mem:
  assumes "sorted_wrt (<) xs"
  shows "(\<exists>p. binary_search xs x = Inr p) \<longleftrightarrow> x \<in> set xs"
proof (rule binary_search_split [of xs x])
  fix t d assume s: "xs = t @ d" "\<forall>y \<in> set t. y < x" "\<And>y ys. d = y # ys \<Longrightarrow> x \<le> y"
    "binary_search xs x = (case d of [] \<Rightarrow> Inl (length t) | y # _ \<Rightarrow> if y = x then Inr (length t) else Inl (length t))"
  show ?thesis
  proof (cases d)
    case (Cons y ys)
    then have "x \<le> y" "\<forall>z \<in> set ys. y < z" using s(1,3) assms by (auto simp: sorted_wrt_append)
    then show ?thesis using s Cons by force
  qed (use s in force)
qed

lemma binary_search_insert:
  assumes "sorted_wrt (<) xs" and "binary_search xs x = Inl p"
  shows "sorted_wrt (<) (vec_insert p x xs) \<and> set (vec_insert p x xs) = insert x (set xs)"
proof (rule binary_search_split [of xs x])
  fix t d assume s: "xs = t @ d" "\<forall>y \<in> set t. y < x" "\<And>y ys. d = y # ys \<Longrightarrow> x \<le> y"
    "binary_search xs x = (case d of [] \<Rightarrow> Inl (length t) | y # _ \<Rightarrow> if y = x then Inr (length t) else Inl (length t))"
  then have p: "p = length t" using assms(2) by (auto split: list.splits if_splits)
  have gt: "\<forall>z \<in> set d. x < z"
  proof (cases d)
    case (Cons y ys)
    then have "x < y" using s(3,4) assms(2) by (auto simp: less_le split: if_splits)
    then show ?thesis using s(1) assms(1) Cons by (auto simp: sorted_wrt_append)
  qed simp
  have "vec_insert p x xs = t @ x # d" by (simp add: vec_insert_def s(1) p)
  then show ?thesis using assms(1) s(1,2) gt by (auto simp: sorted_wrt_append)
qed

lemma binary_search_remove:
  assumes "sorted_wrt (<) xs" and "binary_search xs x = Inr p"
  shows "sorted_wrt (<) (vec_remove p xs) \<and> set (vec_remove p xs) = set xs - {x}"
proof (rule binary_search_split [of xs x])
  fix t d assume s: "xs = t @ d" "\<forall>y \<in> set t. y < x" "\<And>y ys. d = y # ys \<Longrightarrow> x \<le> y"
    "binary_search xs x = (case d of [] \<Rightarrow> Inl (length t) | y # _ \<Rightarrow> if y = x then Inr (length t) else Inl (length t))"
  then obtain ys where d: "d = x # ys" and p: "p = length t"
    using assms(2) by (auto split: list.splits if_splits)
  have "vec_remove p xs = t @ ys" by (simp add: vec_remove_def s(1) d p)
  then show ?thesis using assms(1) s(1,2) d by (auto simp: sorted_wrt_append)
qed

text \<open>\<open>sort_by\<close>: a stable sort by a comparison.\<close>

fun insert_by :: "('a \<Rightarrow> 'a \<Rightarrow> ordering) \<Rightarrow> 'a \<Rightarrow> 'a list \<Rightarrow> 'a list" where
  "insert_by c x [] = [x]"
| "insert_by c x (y # ys) = (if c x y = Greater then y # insert_by c x ys else x # y # ys)"

definition sort_by :: "('a \<Rightarrow> 'a \<Rightarrow> ordering) \<Rightarrow> 'a list \<Rightarrow> 'a list" where
  "sort_by c xs = foldr (insert_by c) xs []"

lemma set_sort_by [simp]: "set (sort_by c xs) = set xs"
proof -
  have "set (insert_by c x ys) = insert x (set ys)" for x ys
    by (induction ys) auto
  then show ?thesis unfolding sort_by_def by (induction xs) auto
qed

text \<open>\<open>str::to_lowercase\<close> and \<open>eq_ignore_ascii_case\<close> on ASCII.\<close>

definition ascii_lower :: "char \<Rightarrow> char" where
  "ascii_lower c =
     (let n = of_char c :: nat in if 65 \<le> n \<and> n \<le> 90 then char_of (n + 32) else c)"

definition eq_ignore_ascii_case :: "string \<Rightarrow> string \<Rightarrow> bool" where
  "eq_ignore_ascii_case a b = (map ascii_lower a = map ascii_lower b)"

section \<open>Files\<close>

text \<open>
  A file system is a hash map from paths to contents: reading a missing file fails and writing
  succeeds. The \<open>bincode\<close> package is a serializer and a deserializer, parameters of the
  operations that use it.
\<close>

type_synonym files = "(string, bytes) hmap"
type_synonym 'a ser = "'a \<Rightarrow> bytes option"
type_synonym 'a de = "bytes \<Rightarrow> 'a option"

definition read_file :: "files \<Rightarrow> string \<Rightarrow> bytes result" where
  "read_file fs p = (case hm_get fs p of
     None \<Rightarrow> Inl (IoError NotFound ''No such file or directory'') | Some d \<Rightarrow> Inr d)"

section \<open>Little-endian integers\<close>

fun le_nat :: "nat \<Rightarrow> nat \<Rightarrow> bytes" where
  "le_nat 0 x = []"
| "le_nat (Suc n) x = of_nat (x mod 256) # le_nat n (x div 256)"

fun nat_of_le :: "bytes \<Rightarrow> nat" where
  "nat_of_le [] = 0"
| "nat_of_le (b # bs) = unat b + 256 * nat_of_le bs"

definition to_le_bytes :: "'a::len word \<Rightarrow> bytes" where
  "to_le_bytes w = le_nat (LENGTH('a) div 8) (unat w)"

definition from_le_bytes :: "bytes \<Rightarrow> 'a::len word" where
  "from_le_bytes bs = of_nat (nat_of_le bs)"

lemma length_le_nat [simp]: "length (le_nat n x) = n"
  by (induction n arbitrary: x) auto

lemma nat_of_le_nat: "nat_of_le (le_nat n x) = x mod 256 ^ n"
proof (induction n arbitrary: x)
  case 0
  show ?case by simp
next
  case (Suc n)
  have "x mod 256 ^ Suc n = 256 * (x div 256 mod 256 ^ n) + x mod 256"
    by (simp add: mod_mult2_eq)
  moreover have "unat (of_nat (x mod 256) :: u8) = x mod 256"
    by (simp add: unat_of_nat)
  ultimately show ?case using Suc by simp
qed

lemma length_to_le_bytes [simp]: "length (to_le_bytes (w :: 'a::len word)) = LENGTH('a) div 8"
  by (simp add: to_le_bytes_def)

lemma from_to_le_bytes:
  assumes "8 dvd LENGTH('a::len)"
  shows "from_le_bytes (to_le_bytes (w :: 'a word)) = w"
proof -
  have "(256 :: nat) ^ (LENGTH('a) div 8) = (2 ^ 8) ^ (LENGTH('a) div 8)"
    by simp
  also have "\<dots> = 2 ^ LENGTH('a)"
    using assms by (simp only: dvd_mult_div_cancel flip: power_mult)
  finally have "(256 :: nat) ^ (LENGTH('a) div 8) = 2 ^ LENGTH('a)" .
  then show ?thesis
    by (simp add: from_le_bytes_def to_le_bytes_def nat_of_le_nat unsigned_less)
qed

lemmas from_to_le [simp] =
  from_to_le_bytes [where 'a = 8, simplified] from_to_le_bytes [where 'a = 16, simplified]
  from_to_le_bytes [where 'a = 32, simplified] from_to_le_bytes [where 'a = 64, simplified]

section \<open>Strings\<close>

text \<open>
  A Rust string is a list of bytes that is valid UTF-8; a \<open>string\<close> here holds those bytes.
  Validity is the automaton of the Unicode standard: the state is the list of ranges the
  following continuation bytes must lie in.
\<close>

definition as_bytes :: "string \<Rightarrow> bytes" where
  "as_bytes s = map (\<lambda>c. of_nat (of_char c)) s"

definition of_bytes :: "bytes \<Rightarrow> string" where
  "of_bytes bs = map (\<lambda>b. char_of (unat b)) bs"

definition utf8_lead :: "nat \<Rightarrow> (nat \<times> nat) list option" where
  "utf8_lead b =
     (if b < 128 then Some []
      else if 194 \<le> b \<and> b \<le> 223 then Some [(128, 191)]
      else if b = 224 then Some [(160, 191), (128, 191)]
      else if b = 237 then Some [(128, 159), (128, 191)]
      else if 225 \<le> b \<and> b \<le> 239 then Some [(128, 191), (128, 191)]
      else if b = 240 then Some [(144, 191), (128, 191), (128, 191)]
      else if 241 \<le> b \<and> b \<le> 243 then Some [(128, 191), (128, 191), (128, 191)]
      else if b = 244 then Some [(128, 143), (128, 191), (128, 191)]
      else None)"

definition utf8_next :: "u8 \<Rightarrow> (nat \<times> nat) list option \<Rightarrow> (nat \<times> nat) list option" where
  "utf8_next b st =
     (case st of
        None \<Rightarrow> None
      | Some [] \<Rightarrow> utf8_lead (unat b)
      | Some ((lo, hi) # rest) \<Rightarrow> if lo \<le> unat b \<and> unat b \<le> hi then Some rest else None)"

definition utf8_valid :: "bytes \<Rightarrow> bool" where
  "utf8_valid bs = (fold utf8_next bs (Some []) = Some [])"

definition from_utf8 :: "bytes \<Rightarrow> string result" where
  "from_utf8 bs =
     (if utf8_valid bs then Inr (of_bytes bs) else Inl (IoError InvalidData ''invalid utf-8''))"

lemma length_as_bytes [simp]: "length (as_bytes s) = length s"
  by (simp add: as_bytes_def)

lemma of_as_bytes [simp]: "of_bytes (as_bytes s) = s"
proof -
  have "char_of (unat (of_nat (of_char c) :: u8)) = c" for c
    by (subst unat_of_nat_lt) simp_all
  then show ?thesis by (simp add: of_bytes_def as_bytes_def comp_def)
qed

end
