(* ===== verification/Float_Bits.thy ===== *)
theory Float_Bits
  imports Prelude
begin

text \<open>
  The part of Rust's floating-point semantics the program relies on, on IEEE 754 bit
  patterns: \<open>f64::partial_cmp\<close>, \<open>==\<close> on \<open>f64\<close> and \<open>f32\<close>, the conversion of an integer by
  \<open>as f64\<close> (round to nearest, ties to even) and the widening of an \<open>f32\<close>. Theorems: the
  comparison is the comparison of the signed magnitudes, hence a total preorder away from
  NaN, and \<open>as f64\<close> is exact on integers of at most 53 bits.
\<close>

section \<open>Comparison\<close>

definition f64_mag :: "f64 \<Rightarrow> nat" where
  "f64_mag w = unat w mod 2 ^ 63"

definition f64_neg :: "f64 \<Rightarrow> bool" where
  "f64_neg w = (2 ^ 63 \<le> unat w)"

definition f64_is_nan :: "f64 \<Rightarrow> bool" where
  "f64_is_nan w = (0x7FF0000000000000 < f64_mag w)"

definition f64_key :: "f64 \<Rightarrow> int" where
  "f64_key w = (if f64_neg w then - int (f64_mag w) else int (f64_mag w))"

definition f64_partial_cmp :: "f64 \<Rightarrow> f64 \<Rightarrow> ordering option" where
  "f64_partial_cmp a b =
     (if f64_is_nan a \<or> f64_is_nan b then None else Some (cmp_of (f64_key a) (f64_key b)))"

definition f64_eq :: "f64 \<Rightarrow> f64 \<Rightarrow> bool" where
  "f64_eq a b = (f64_partial_cmp a b = Some Equal)"

definition f32_mag :: "f32 \<Rightarrow> nat" where
  "f32_mag w = unat w mod 2 ^ 31"

definition f32_is_nan :: "f32 \<Rightarrow> bool" where
  "f32_is_nan w = (0x7F800000 < f32_mag w)"

definition f32_eq :: "f32 \<Rightarrow> f32 \<Rightarrow> bool" where
  "f32_eq a b \<longleftrightarrow> \<not> f32_is_nan a \<and> \<not> f32_is_nan b \<and> (a = b \<or> f32_mag a = 0 \<and> f32_mag b = 0)"

lemma f64_partial_cmp_None: "f64_partial_cmp a b = None \<longleftrightarrow> f64_is_nan a \<or> f64_is_nan b"
  by (simp add: f64_partial_cmp_def)

lemma f64_partial_cmp_flip: "f64_partial_cmp b a = map_option flip_ord (f64_partial_cmp a b)"
  by (auto simp: f64_partial_cmp_def flip_cmp_of)

section \<open>Conversions\<close>

fun bit_len :: "nat \<Rightarrow> nat" where
  "bit_len m = (if m = 0 then 0 else Suc (bit_len (m div 2)))"

declare bit_len.simps [simp del]

text \<open>
  The significand (53 bits, leading bit set) and the bit length of a positive integer after
  rounding to nearest with ties to even.
\<close>

definition round_sig :: "nat \<Rightarrow> nat \<times> nat" where
  "round_sig m =
     (let n = bit_len m
      in if n \<le> 53 then (m * 2 ^ (53 - n), n)
         else let s = n - 53;
                  q = m div 2 ^ s;
                  r = m mod 2 ^ s;
                  half = 2 ^ (s - 1);
                  q' = (if half < r \<or> half = r \<and> odd q then q + 1 else q)
              in if q' = 2 ^ 53 then (2 ^ 52, n + 1) else (q', n))"

definition int_to_f64 :: "int \<Rightarrow> f64" where
  "int_to_f64 x =
     (if x = 0 then 0
      else let (sig, n) = round_sig (nat \<bar>x\<bar>)
           in of_nat ((if x < 0 then 2 ^ 63 else 0) + (n + 1022) * 2 ^ 52 + (sig - 2 ^ 52)))"

definition f32_to_f64 :: "f32 \<Rightarrow> f64" where
  "f32_to_f64 w =
     (let sign = (if 2 ^ 31 \<le> unat w then 2 ^ 63 else 0);
          e = f32_mag w div 2 ^ 23;
          m = f32_mag w mod 2 ^ 23
      in if e = 255 then
           of_nat (sign + 2047 * 2 ^ 52 + (if m = 0 then 0 else 2 ^ 51 + (m mod 2 ^ 22) * 2 ^ 29))
         else if e = 0 \<and> m = 0 then of_nat sign
         else if e = 0 then
           let n = bit_len m
           in of_nat (sign + (n + 873) * 2 ^ 52 + (m * 2 ^ (53 - n) - 2 ^ 52))
         else of_nat (sign + (e + 896) * 2 ^ 52 + m * 2 ^ 29))"

lemma bit_len_bounds: "0 < m \<Longrightarrow> 2 ^ (bit_len m - 1) \<le> m \<and> m < 2 ^ bit_len m \<and> 0 < bit_len m"
proof (induction m rule: bit_len.induct)
  case (1 m)
  show ?case
  proof (cases "m = 1")
    case True
    then show ?thesis by (simp add: bit_len.simps [of "Suc 0"] bit_len.simps [of 0])
  next
    case False
    with 1 have IH: "2 ^ (bit_len (m div 2) - 1) \<le> m div 2 \<and> m div 2 < 2 ^ bit_len (m div 2)
        \<and> 0 < bit_len (m div 2)" by simp
    then have p: "(2::nat) ^ bit_len (m div 2) = 2 * 2 ^ (bit_len (m div 2) - 1)"
      by (simp flip: power_Suc)
    define P :: nat where "P = 2 ^ (bit_len (m div 2) - 1)"
    have "P \<le> m div 2" "m div 2 < 2 * P" using IH by (simp_all add: p P_def)
    then have "2 * P \<le> m" "m < 2 * (2 * P)" by arith+
    with 1 IH show ?thesis by (simp add: bit_len.simps [of m] p P_def)
  qed
qed

lemma bit_len_unique: "2 ^ n \<le> m \<Longrightarrow> m < 2 ^ Suc n \<Longrightarrow> bit_len m = Suc n"
proof -
  assume a: "2 ^ n \<le> m" "m < 2 ^ Suc n"
  then have m: "0 < m" by (cases m) auto
  note b = bit_len_bounds [OF m]
  have "n < bit_len m" using a(1) b by (meson le_less_trans nat_power_less_imp_less zero_less_numeral)
  moreover have "bit_len m - 1 < Suc n"
    using a(2) b by (meson le_less_trans nat_power_less_imp_less zero_less_numeral)
  ultimately show ?thesis by simp
qed

lemma bit_len_mono: "m \<le> m' \<Longrightarrow> bit_len m \<le> bit_len m'"
proof (cases "m = 0")
  case True
  then show ?thesis by (simp add: bit_len.simps [of 0])
next
  case False
  assume le: "m \<le> m'"
  from False le bit_len_bounds [of m] bit_len_bounds [of m']
  have "(2::nat) ^ (bit_len m - 1) < 2 ^ bit_len m'" by (meson bot_nat_0.not_eq_extremum le_less_trans less_le_trans)
  then have "bit_len m - 1 < bit_len m'" by simp
  then show ?thesis by simp
qed

subsection \<open>Exactness on 53-bit integers\<close>

definition f64_of_small :: "nat \<Rightarrow> nat" where
  "f64_of_small m = (if m = 0 then 0 else (bit_len m + 1022) * 2 ^ 52 + (m * 2 ^ (53 - bit_len m) - 2 ^ 52))"

lemma bit_len_53: "m < 2 ^ 53 \<Longrightarrow> bit_len m \<le> 53"
  using bit_len_mono [of m "2 ^ 53 - 1"] bit_len_unique [of 52 "2 ^ 53 - 1"] by simp

lemma shifted_sig:
  assumes "0 < m" and "m < 2 ^ 53"
  shows "2 ^ 52 \<le> m * 2 ^ (53 - bit_len m)" and "m * 2 ^ (53 - bit_len m) < 2 ^ 53"
proof -
  let ?n = "bit_len m"
  have n: "0 < ?n" "?n \<le> 53" and lo: "2 ^ (?n - 1) \<le> m" and hi: "m < 2 ^ ?n"
    using assms bit_len_bounds [of m] bit_len_53 [of m] by auto
  have "(2::nat) ^ 52 = 2 ^ (?n - 1) * 2 ^ (53 - ?n)"
    using n by (simp flip: power_add)
  also have "\<dots> \<le> m * 2 ^ (53 - ?n)" using lo by (rule mult_le_mono1)
  finally show "2 ^ 52 \<le> m * 2 ^ (53 - ?n)" .
  have "m * 2 ^ (53 - ?n) < 2 ^ ?n * 2 ^ (53 - ?n)" using hi by simp
  also have "\<dots> = 2 ^ 53" using n by (simp flip: power_add)
  finally show "m * 2 ^ (53 - ?n) < 2 ^ 53" .
qed

lemma f64_of_small_bound: "m < 2 ^ 53 \<Longrightarrow> f64_of_small m < 2 ^ 63"
proof (cases "m = 0")
  case False
  assume m: "m < 2 ^ 53"
  have "f64_of_small m < (bit_len m + 1022) * 2 ^ 52 + 2 ^ 52"
    using False shifted_sig [of m] m by (simp add: f64_of_small_def)
  also have "\<dots> \<le> (53 + 1022) * 2 ^ 52 + 2 ^ 52" using bit_len_53 [OF m] by simp
  also have "\<dots> < 2 ^ 63" by simp
  finally show ?thesis .
qed (simp add: f64_of_small_def)

lemma f64_of_small_mono:
  assumes "m < m'" and "m' < 2 ^ 53"
  shows "f64_of_small m < f64_of_small m'"
proof (cases "m = 0")
  case True
  with assms show ?thesis by (simp add: f64_of_small_def)
next
  case False
  note s = shifted_sig [of m] and s' = shifted_sig [of m']
  have le: "bit_len m \<le> bit_len m'" using assms by (simp add: bit_len_mono)
  show ?thesis
  proof (cases "bit_len m = bit_len m'")
    case True
    then have "m * 2 ^ (53 - bit_len m) < m' * 2 ^ (53 - bit_len m')" using assms by simp
    then show ?thesis using True False assms s s' by (simp add: f64_of_small_def)
  next
    case False
    with le have "Suc (bit_len m) \<le> bit_len m'" by simp
    then have "(Suc (bit_len m) + 1022) * 2 ^ 52 \<le> (bit_len m' + 1022) * (2::nat) ^ 52" by simp
    then show ?thesis using \<open>m \<noteq> 0\<close> assms s s' by (simp add: f64_of_small_def)
  qed
qed

lemma int_to_f64_small:
  assumes "\<bar>x\<bar> < 2 ^ 53"
  shows "f64_key (int_to_f64 x) = sgn x * int (f64_of_small (nat \<bar>x\<bar>))"
    and "\<not> f64_is_nan (int_to_f64 x)"
proof -
  let ?m = "nat \<bar>x\<bar>" and ?b = "f64_of_small (nat \<bar>x\<bar>)"
  have m: "?m < 2 ^ 53" using assms by (simp add: nat_less_iff)
  note b = f64_of_small_bound [OF m]
  have bits: "int_to_f64 x = of_nat ((if x < 0 then 2 ^ 63 else 0) + ?b)"
    using bit_len_53 [OF m] by (simp add: int_to_f64_def round_sig_def f64_of_small_def Let_def add.assoc)
  have u: "unat (int_to_f64 x) = (if x < 0 then 2 ^ 63 else 0) + ?b"
    unfolding bits by (rule unat_of_nat_lt) (use b in auto)
  have mag: "f64_mag (int_to_f64 x) = ?b" and neg: "f64_neg (int_to_f64 x) = (x < 0)"
    using b by (auto simp: f64_mag_def f64_neg_def u)
  show "f64_key (int_to_f64 x) = sgn x * int ?b"
    by (simp add: f64_key_def mag neg sgn_if f64_of_small_def)
  have "?b < (53 + 1022) * 2 ^ 52 + 2 ^ 52"
    using shifted_sig [of ?m] m bit_len_53 [OF m] by (auto simp: f64_of_small_def)
  then show "\<not> f64_is_nan (int_to_f64 x)" by (simp add: f64_is_nan_def mag)
qed

lemma int_to_f64_cmp:
  assumes "\<bar>x\<bar> < 2 ^ 53" and "\<bar>y\<bar> < 2 ^ 53"
  shows "f64_partial_cmp (int_to_f64 x) (int_to_f64 y) = Some (cmp_of x y)"
proof -
  have mono: "f64_key (int_to_f64 a) < f64_key (int_to_f64 b)"
    if "a < b" "\<bar>a\<bar> < 2 ^ 53" "\<bar>b\<bar> < 2 ^ 53" for a b
  proof -
    have pos: "0 < f64_of_small m" if "0 < m" "m < 2 ^ 53" for m
      using f64_of_small_mono [of 0 m] that by simp
    have ba: "nat \<bar>a\<bar> < 2 ^ 53" "nat \<bar>b\<bar> < 2 ^ 53" using that by (simp_all add: nat_less_iff)
    consider "0 \<le> a" | "a < 0" "0 \<le> b" | "b < 0" using that by linarith
    then show ?thesis
    proof cases
      case 1
      then show ?thesis using that ba f64_of_small_mono [of "nat \<bar>a\<bar>" "nat \<bar>b\<bar>"]
        by (simp add: int_to_f64_small sgn_if)
    next
      case 2
      then show ?thesis using that ba pos [of "nat \<bar>a\<bar>"]
        by (simp add: int_to_f64_small sgn_if)
    next
      case 3
      then show ?thesis using that ba f64_of_small_mono [of "nat \<bar>b\<bar>" "nat \<bar>a\<bar>"]
        by (simp add: int_to_f64_small sgn_if)
    qed
  qed
  have "cmp_of (f64_key (int_to_f64 x)) (f64_key (int_to_f64 y)) = cmp_of x y"
    using mono [of x y] mono [of y x] assms by (cases x y rule: linorder_cases) (auto simp: cmp_of_def)
  then show ?thesis using assms by (simp add: f64_partial_cmp_def int_to_f64_small)
qed

end
