(* ===== verification/Data_Value.thy ===== *)
theory Data_Value
  imports Float_Bits
begin

text \<open>
  The data model (\<^verbatim>\<open>data/types.rs\<close>, \<^verbatim>\<open>data/value.rs\<close>): the SQL data types with their sizes,
  classes and names, and the dynamically typed value with its conversions and orderings. A
  JSON value is a \<open>serde_json::Value\<close>, a type of a third-party package: the parameter \<open>'j\<close>.
  A row is a hash map from column names to values.
\<close>

section \<open>Data types\<close>

datatype data_type =
    DtNull | DtBool | DtInt8 | DtInt16 | DtInt32 | DtInt64 | DtUInt8 | DtUInt16 | DtUInt32
  | DtUInt64 | DtFloat32 | DtFloat64 | DtString | DtBinary | DtJson | DtTimestamp | DtDate
  | DtArray | DtDecimal | DtFloat16Vector | DtBlob | DtFloat32Vector | DtBFloat16Vector
  | DtInt8Vector | DtUInt8Vector | DtBit1Vector | DtTurboQuant2Vector | DtTurboQuant3Vector
  | DtTurboQuant4Vector | DtUuid | DtDecimal128 | DtTime | DtInterval | DtTimestampTz

definition fixed_size :: "data_type \<Rightarrow> nat option" where
  "fixed_size t = (case t of
     DtNull \<Rightarrow> Some 0
   | DtBool \<Rightarrow> Some 1
   | DtInt8 \<Rightarrow> Some 1 | DtUInt8 \<Rightarrow> Some 1
   | DtInt16 \<Rightarrow> Some 2 | DtUInt16 \<Rightarrow> Some 2
   | DtInt32 \<Rightarrow> Some 4 | DtUInt32 \<Rightarrow> Some 4 | DtFloat32 \<Rightarrow> Some 4
   | DtInt64 \<Rightarrow> Some 8 | DtUInt64 \<Rightarrow> Some 8 | DtFloat64 \<Rightarrow> Some 8 | DtTimestamp \<Rightarrow> Some 8
   | DtTimestampTz \<Rightarrow> Some 8 | DtTime \<Rightarrow> Some 8 | DtInterval \<Rightarrow> Some 8
   | DtDate \<Rightarrow> Some 4
   | DtDecimal \<Rightarrow> Some 16 | DtUuid \<Rightarrow> Some 16 | DtDecimal128 \<Rightarrow> Some 16
   | DtString \<Rightarrow> None | DtBinary \<Rightarrow> None | DtJson \<Rightarrow> None | DtArray \<Rightarrow> None | DtBlob \<Rightarrow> None
   | DtFloat16Vector \<Rightarrow> None | DtFloat32Vector \<Rightarrow> None | DtBFloat16Vector \<Rightarrow> None
   | DtInt8Vector \<Rightarrow> None | DtUInt8Vector \<Rightarrow> None | DtBit1Vector \<Rightarrow> None
   | DtTurboQuant2Vector \<Rightarrow> None | DtTurboQuant3Vector \<Rightarrow> None | DtTurboQuant4Vector \<Rightarrow> None)"

definition is_numeric :: "data_type \<Rightarrow> bool" where
  "is_numeric t = (t \<in> {DtInt8, DtInt16, DtInt32, DtInt64, DtUInt8, DtUInt16, DtUInt32, DtUInt64,
     DtFloat32, DtFloat64, DtDecimal})"

definition is_variable_length :: "data_type \<Rightarrow> bool" where
  "is_variable_length t = (t \<in> {DtString, DtBinary, DtJson, DtArray, DtBlob})"

definition is_decimal :: "data_type \<Rightarrow> bool" where
  "is_decimal t = (t = DtDecimal)"

definition is_time_family :: "data_type \<Rightarrow> bool" where
  "is_time_family t = (t \<in> {DtTimestamp, DtTimestampTz, DtDate, DtTime, DtInterval})"

text \<open>
  \<open>str::to_uppercase\<close> on ASCII, the alphabet of SQL type names.
\<close>

definition ascii_upper :: "char \<Rightarrow> char" where
  "ascii_upper c =
     (let n = of_char c :: nat in if 97 \<le> n \<and> n \<le> 122 then char_of (n - 32) else c)"

definition sql_type_names :: "(string \<times> data_type) list" where
  "sql_type_names = [
     (''BOOLEAN'', DtBool), (''BOOL'', DtBool),
     (''TINYINT'', DtInt8), (''INT1'', DtInt8),
     (''SMALLINT'', DtInt16), (''INT2'', DtInt16),
     (''INTEGER'', DtInt32), (''INT'', DtInt32), (''INT4'', DtInt32),
     (''BIGINT'', DtInt64), (''INT8'', DtInt64), (''LONG'', DtInt64),
     (''UTINYINT'', DtUInt8), (''USMALLINT'', DtUInt16), (''UINTEGER'', DtUInt32),
     (''UBIGINT'', DtUInt64),
     (''FLOAT'', DtFloat32), (''REAL'', DtFloat32), (''FLOAT4'', DtFloat32),
     (''DOUBLE'', DtFloat64), (''FLOAT8'', DtFloat64),
     (''VARCHAR'', DtString), (''TEXT'', DtString), (''STRING'', DtString), (''CHAR'', DtString),
     (''BLOB'', DtBlob), (''LARGEBINARY'', DtBlob), (''LARGE_BINARY'', DtBlob), (''LONGBLOB'', DtBlob),
     (''BYTEA'', DtBinary), (''BINARY'', DtBinary), (''VARBINARY'', DtBinary), (''BYTES'', DtBinary),
     (''JSON'', DtJson),
     (''DECIMAL'', DtDecimal), (''NUMERIC'', DtDecimal),
     (''TIMESTAMP'', DtTimestamp), (''DATETIME'', DtTimestamp),
     (''TIMESTAMPTZ'', DtTimestampTz), (''TIMESTAMP WITH TIME ZONE'', DtTimestampTz),
     (''DATE'', DtDate), (''TIME'', DtTime), (''INTERVAL'', DtInterval),
     (''FLOAT32_VECTOR'', DtFloat32Vector), (''F32_VECTOR'', DtFloat32Vector),
     (''FLOAT16_VECTOR'', DtFloat16Vector), (''FLOAT16VECTOR'', DtFloat16Vector),
     (''F16_VECTOR'', DtFloat16Vector),
     (''BFLOAT16_VECTOR'', DtBFloat16Vector), (''BF16_VECTOR'', DtBFloat16Vector),
     (''INT8_VECTOR'', DtInt8Vector), (''I8_VECTOR'', DtInt8Vector),
     (''UINT8_VECTOR'', DtUInt8Vector), (''U8_VECTOR'', DtUInt8Vector),
     (''BIT1_VECTOR'', DtBit1Vector), (''BINARY1_VECTOR'', DtBit1Vector),
     (''TURBOQUANT2_VECTOR'', DtTurboQuant2Vector), (''TQ2_VECTOR'', DtTurboQuant2Vector),
     (''TURBOQUANT3_VECTOR'', DtTurboQuant3Vector), (''TQ3_VECTOR'', DtTurboQuant3Vector),
     (''TURBOQUANT4_VECTOR'', DtTurboQuant4Vector), (''TQ4_VECTOR'', DtTurboQuant4Vector)]"

definition from_sql_type :: "string \<Rightarrow> data_type option" where
  "from_sql_type s = map_of sql_type_names (map ascii_upper s)"

definition to_sql_type :: "data_type \<Rightarrow> string" where
  "to_sql_type t = (case t of
     DtNull \<Rightarrow> ''NULL'' | DtBool \<Rightarrow> ''BOOLEAN'' | DtInt8 \<Rightarrow> ''TINYINT'' | DtInt16 \<Rightarrow> ''SMALLINT''
   | DtInt32 \<Rightarrow> ''INTEGER'' | DtInt64 \<Rightarrow> ''BIGINT'' | DtUInt8 \<Rightarrow> ''UTINYINT''
   | DtUInt16 \<Rightarrow> ''USMALLINT'' | DtUInt32 \<Rightarrow> ''UINTEGER'' | DtUInt64 \<Rightarrow> ''UBIGINT''
   | DtFloat32 \<Rightarrow> ''FLOAT'' | DtFloat64 \<Rightarrow> ''DOUBLE'' | DtString \<Rightarrow> ''VARCHAR''
   | DtBinary \<Rightarrow> ''BINARY'' | DtBlob \<Rightarrow> ''BLOB'' | DtJson \<Rightarrow> ''JSON''
   | DtTimestamp \<Rightarrow> ''TIMESTAMP'' | DtTimestampTz \<Rightarrow> ''TIMESTAMPTZ'' | DtDate \<Rightarrow> ''DATE''
   | DtTime \<Rightarrow> ''TIME'' | DtInterval \<Rightarrow> ''INTERVAL'' | DtArray \<Rightarrow> ''ARRAY''
   | DtDecimal \<Rightarrow> ''DECIMAL'' | DtUuid \<Rightarrow> ''UUID'' | DtDecimal128 \<Rightarrow> ''DECIMAL128''
   | DtFloat16Vector \<Rightarrow> ''FLOAT16_VECTOR'' | DtFloat32Vector \<Rightarrow> ''FLOAT32_VECTOR''
   | DtBFloat16Vector \<Rightarrow> ''BFLOAT16_VECTOR'' | DtInt8Vector \<Rightarrow> ''INT8_VECTOR''
   | DtUInt8Vector \<Rightarrow> ''UINT8_VECTOR'' | DtBit1Vector \<Rightarrow> ''BIT1_VECTOR''
   | DtTurboQuant2Vector \<Rightarrow> ''TURBOQUANT2_VECTOR'' | DtTurboQuant3Vector \<Rightarrow> ''TURBOQUANT3_VECTOR''
   | DtTurboQuant4Vector \<Rightarrow> ''TURBOQUANT4_VECTOR'')"

section \<open>Values\<close>

datatype 'j val =
    Null | Bool bool | Int8 i8 | Int16 i16 | Int32 i32 | Int64 i64
  | UInt8 u8 | UInt16 u16 | UInt32 u32 | UInt64 u64
  | Float32 f32 | Float64 f64 | Str string | Binary bytes | Blob bytes | FixedList bytes
  | Json 'j | Timestamp i64 | Date i32 | Array "'j val list" | Time i64 | Interval i64

type_synonym 'j row = "(string, 'j val) hmap"

definition data_type_of :: "'j val \<Rightarrow> data_type" where
  "data_type_of v = (case v of
     Null \<Rightarrow> DtNull | Bool _ \<Rightarrow> DtBool | Int8 _ \<Rightarrow> DtInt8 | Int16 _ \<Rightarrow> DtInt16
   | Int32 _ \<Rightarrow> DtInt32 | Int64 _ \<Rightarrow> DtInt64 | UInt8 _ \<Rightarrow> DtUInt8 | UInt16 _ \<Rightarrow> DtUInt16
   | UInt32 _ \<Rightarrow> DtUInt32 | UInt64 _ \<Rightarrow> DtUInt64 | Float32 _ \<Rightarrow> DtFloat32
   | Float64 _ \<Rightarrow> DtFloat64 | Str _ \<Rightarrow> DtString | Binary _ \<Rightarrow> DtBinary | Blob _ \<Rightarrow> DtBlob
   | FixedList _ \<Rightarrow> DtBinary | Json _ \<Rightarrow> DtJson | Timestamp _ \<Rightarrow> DtTimestamp | Date _ \<Rightarrow> DtDate
   | Array _ \<Rightarrow> DtArray | Time _ \<Rightarrow> DtTime | Interval _ \<Rightarrow> DtInterval)"

definition is_null :: "'j val \<Rightarrow> bool" where
  "is_null v = (case v of Null \<Rightarrow> True | _ \<Rightarrow> False)"

definition as_i64 :: "'j val \<Rightarrow> i64 option" where
  "as_i64 v = (case v of
     Int8 x \<Rightarrow> Some (scast x) | Int16 x \<Rightarrow> Some (scast x) | Int32 x \<Rightarrow> Some (scast x)
   | Int64 x \<Rightarrow> Some x
   | UInt8 x \<Rightarrow> Some (ucast x) | UInt16 x \<Rightarrow> Some (ucast x) | UInt32 x \<Rightarrow> Some (ucast x)
   | UInt64 x \<Rightarrow> if x \<le> 0x7FFFFFFFFFFFFFFF then Some x else None
   | Timestamp x \<Rightarrow> Some x | Date x \<Rightarrow> Some (scast x) | Time x \<Rightarrow> Some x | Interval x \<Rightarrow> Some x
   | _ \<Rightarrow> None)"

definition as_f64 :: "'j val \<Rightarrow> f64 option" where
  "as_f64 v = (case v of
     Float32 x \<Rightarrow> Some (f32_to_f64 x) | Float64 x \<Rightarrow> Some x
   | Int8 x \<Rightarrow> Some (int_to_f64 (sint x)) | Int16 x \<Rightarrow> Some (int_to_f64 (sint x))
   | Int32 x \<Rightarrow> Some (int_to_f64 (sint x)) | Int64 x \<Rightarrow> Some (int_to_f64 (sint x))
   | UInt8 x \<Rightarrow> Some (int_to_f64 (uint x)) | UInt16 x \<Rightarrow> Some (int_to_f64 (uint x))
   | UInt32 x \<Rightarrow> Some (int_to_f64 (uint x)) | UInt64 x \<Rightarrow> Some (int_to_f64 (uint x))
   | _ \<Rightarrow> None)"

definition as_str :: "'j val \<Rightarrow> string option" where
  "as_str v = (case v of Str s \<Rightarrow> Some s | _ \<Rightarrow> None)"

definition as_bool :: "'j val \<Rightarrow> bool option" where
  "as_bool v = (case v of Bool b \<Rightarrow> Some b | _ \<Rightarrow> None)"

text \<open>The derived \<open>PartialEq\<close>: floats compare by IEEE equality, so NaN is not equal to itself.\<close>

fun val_eq :: "'j val \<Rightarrow> 'j val \<Rightarrow> bool"
and vals_eq :: "'j val list \<Rightarrow> 'j val list \<Rightarrow> bool" where
  "val_eq (Float32 a) w = (case w of Float32 b \<Rightarrow> f32_eq a b | _ \<Rightarrow> False)"
| "val_eq (Float64 a) w = (case w of Float64 b \<Rightarrow> f64_eq a b | _ \<Rightarrow> False)"
| "val_eq (Array xs) w = (case w of Array ys \<Rightarrow> vals_eq xs ys | _ \<Rightarrow> False)"
| "val_eq v w = (v = w)"
| "vals_eq [] ys = (ys = [])"
| "vals_eq (x # xs) ys = (case ys of [] \<Rightarrow> False | y # ys' \<Rightarrow> val_eq x y \<and> vals_eq xs ys')"

text \<open>Strings compare by their bytes.\<close>

definition str_cmp :: "string \<Rightarrow> string \<Rightarrow> ordering" where
  "str_cmp s t = lex_cmp (\<lambda>a b. cmp_of (of_char a :: nat) (of_char b)) s t"

definition partial_cmp :: "'j val \<Rightarrow> 'j val \<Rightarrow> ordering option" where
  "partial_cmp v w = (case (v, w) of
     (Null, Null) \<Rightarrow> Some Equal
   | (Null, _) \<Rightarrow> Some Less
   | (_, Null) \<Rightarrow> Some Greater
   | (Bool a, Bool b) \<Rightarrow> Some (cmp_of a b)
   | (Int64 a, Int64 b) \<Rightarrow> Some (cmp_of (sint a) (sint b))
   | (Timestamp a, Timestamp b) \<Rightarrow> Some (cmp_of (sint a) (sint b))
   | (Date a, Date b) \<Rightarrow> Some (cmp_of (sint a) (sint b))
   | (Time a, Time b) \<Rightarrow> Some (cmp_of (sint a) (sint b))
   | (Interval a, Interval b) \<Rightarrow> Some (cmp_of (sint a) (sint b))
   | (Float64 a, Float64 b) \<Rightarrow> f64_partial_cmp a b
   | (Str a, Str b) \<Rightarrow> Some (str_cmp a b)
   | (a, b) \<Rightarrow>
       (case (as_f64 a, as_f64 b) of
          (Some fa, Some fb) \<Rightarrow> f64_partial_cmp fa fb
        | _ \<Rightarrow> (case (as_str a, as_str b) of
                (Some sa, Some sb) \<Rightarrow> Some (str_cmp sa sb)
              | _ \<Rightarrow> None)))"

section \<open>Properties\<close>

text \<open>
  The SQL name of a data type parses back to it, for every type but the four whose printed
  names the parser does not know.
\<close>

theorem sql_type_round_trip:
  "from_sql_type (to_sql_type t) =
     (if t \<in> {DtNull, DtArray, DtUuid, DtDecimal128} then None else Some t)"
  by (induct t) code_simp+

text \<open>The number an integer value stands for.\<close>

definition int_value :: "'j val \<Rightarrow> int option" where
  "int_value v = (case v of
     Int8 x \<Rightarrow> Some (sint x) | Int16 x \<Rightarrow> Some (sint x) | Int32 x \<Rightarrow> Some (sint x)
   | Int64 x \<Rightarrow> Some (sint x) | UInt8 x \<Rightarrow> Some (uint x) | UInt16 x \<Rightarrow> Some (uint x)
   | UInt32 x \<Rightarrow> Some (uint x) | UInt64 x \<Rightarrow> Some (uint x) | _ \<Rightarrow> None)"

lemma int_value_f64: "int_value v = Some x \<Longrightarrow> as_f64 v = Some (int_to_f64 x)"
  by (auto simp: int_value_def as_f64_def split: val.splits)

text \<open>
  Comparing integer values of any two widths and signs gives the order of the numbers, as
  long as both are below \<open>2 ^ 53\<close> in magnitude (the comparison goes through \<open>f64\<close>).
\<close>

theorem mixed_int_cmp_exact:
  assumes "int_value v = Some x" and "int_value w = Some y"
    and "\<bar>x\<bar> < 2 ^ 53" and "\<bar>y\<bar> < 2 ^ 53"
  shows "partial_cmp v w = Some (cmp_of x y)"
  using assms int_value_f64 [OF assms(1)] int_value_f64 [OF assms(2)] int_to_f64_cmp [OF assms(3,4)]
  by (auto simp: partial_cmp_def int_value_def split: val.splits)

lemma mixed_int_cmp_exact_witness:
  "partial_cmp (UInt8 200 :: unit val) (Int64 (- 5)) = Some Greater"
  using mixed_int_cmp_exact [of "UInt8 200 :: unit val" 200 "Int64 (- 5)" "- 5"]
  by (simp add: int_value_def cmp_of_def)

text \<open>
  Beyond that bound two different integers of different types compare as equal.
\<close>

theorem mixed_int_cmp_collision:
  "partial_cmp (Int64 9007199254740992 :: unit val) (UInt64 9007199254740993) = Some Equal"
proof -
  have bl: "bit_len 9007199254740992 = 54" "bit_len 9007199254740993 = 54"
    using bit_len_unique [of 53] by simp_all
  have "int_to_f64 9007199254740992 = int_to_f64 9007199254740993"
    by (simp add: int_to_f64_def round_sig_def bl)
  moreover have "\<not> f64_is_nan (int_to_f64 9007199254740992)"
    by (simp add: int_to_f64_def round_sig_def bl f64_is_nan_def f64_mag_def)
  ultimately show ?thesis
    by (simp add: partial_cmp_def as_f64_def f64_partial_cmp_def cmp_of_def)
qed

end
