(* ===== verification/Version_Store.thy ===== *)
theory Version_Store
  imports Data_Value
begin

text \<open>
  Multi-version row storage (\<^verbatim>\<open>storage/mvcc/version_store.rs\<close>): row versions, the chain of
  versions of one row (newest first) and the store of all chains of a table. The lemmas show
  that a chain denotes a function from snapshot timestamps to row contents, that adding a
  version updates that function from the version's begin timestamp on, and that garbage
  collection does not change it from the oldest active timestamp on. The locale
  \<open>versioned_store\<close> states this contract; its clients obtain snapshot stability from it.
\<close>

section \<open>Row versions\<close>

definition TS_ACTIVE :: u64 where "TS_ACTIVE = u64_max"

definition TS_INF :: u64 where "TS_INF = u64_max - 1"

record 'j row_version =
  begin_ts :: u64
  end_ts :: u64
  rv_data :: "'j row"
  is_delete :: bool

definition new_insert :: "u64 \<Rightarrow> 'j row \<Rightarrow> 'j row_version" where
  "new_insert ts d = \<lparr>begin_ts = ts, end_ts = TS_INF, rv_data = d, is_delete = False\<rparr>"

definition new_update :: "u64 \<Rightarrow> 'j row \<Rightarrow> 'j row_version" where
  "new_update ts d = \<lparr>begin_ts = ts, end_ts = TS_INF, rv_data = d, is_delete = False\<rparr>"

definition new_delete :: "u64 \<Rightarrow> 'j row_version" where
  "new_delete ts = \<lparr>begin_ts = ts, end_ts = TS_INF, rv_data = [], is_delete = True\<rparr>"

definition is_visible_at :: "'j row_version \<Rightarrow> u64 \<Rightarrow> bool" where
  "is_visible_at v s = (begin_ts v \<le> s \<and> s < end_ts v)"

definition set_end :: "'j row_version \<Rightarrow> u64 \<Rightarrow> 'j row_version" where
  "set_end v e = v\<lparr>end_ts := e\<rparr>"

definition is_latest :: "'j row_version \<Rightarrow> bool" where
  "is_latest v = (end_ts v = TS_INF)"

section \<open>Version chains\<close>

record 'j version_chain =
  chain_row_id :: u64
  versions :: "'j row_version list"

definition chain_new :: "u64 \<Rightarrow> 'j row_version \<Rightarrow> 'j version_chain" where
  "chain_new r v = \<lparr>chain_row_id = r, versions = [v]\<rparr>"

definition add_version :: "'j version_chain \<Rightarrow> 'j row_version \<Rightarrow> 'j version_chain" where
  "add_version c v = c\<lparr>versions := v #
     (case versions c of
        [] \<Rightarrow> []
      | prev # rest \<Rightarrow>
          (if is_latest prev then set_end prev (begin_ts v) else prev) # rest)\<rparr>"

fun first_visible :: "'j row_version list \<Rightarrow> u64 \<Rightarrow> 'j row_version option" where
  "first_visible [] s = None"
| "first_visible (v # vs) s = (if is_visible_at v s then Some v else first_visible vs s)"

definition get_visible :: "'j version_chain \<Rightarrow> u64 \<Rightarrow> 'j row_version option" where
  "get_visible c s =
     (case first_visible (versions c) s of
        None \<Rightarrow> None
      | Some v \<Rightarrow> if is_delete v then None else Some v)"

definition latest :: "'j version_chain \<Rightarrow> 'j row_version option" where
  "latest c = (case versions c of [] \<Rightarrow> None | v # _ \<Rightarrow> Some v)"

definition is_deleted_at :: "'j version_chain \<Rightarrow> u64 \<Rightarrow> bool" where
  "is_deleted_at c s =
     (case first_visible (versions c) s of None \<Rightarrow> True | Some v \<Rightarrow> is_delete v)"

definition chain_gc :: "'j version_chain \<Rightarrow> u64 \<Rightarrow> 'j version_chain \<times> nat" where
  "chain_gc c oldest =
     (if length (versions c) \<le> 1 then (c, 0)
      else let kept = filter (\<lambda>v. is_latest v \<or> oldest < end_ts v) (versions c)
           in (c\<lparr>versions := kept\<rparr>, length (versions c) - length kept))"

definition version_count :: "'j version_chain \<Rightarrow> nat" where
  "version_count c = length (versions c)"

section \<open>The store\<close>

record 'j version_store =
  chains :: "(u64, 'j version_chain) hmap"
  total_versions :: u64

definition vs_new :: "'j version_store" where
  "vs_new = \<lparr>chains = [], total_versions = 0\<rparr>"

definition vs_insert :: "'j version_store \<Rightarrow> u64 \<Rightarrow> u64 \<Rightarrow> 'j row \<Rightarrow> 'j version_store" where
  "vs_insert st r ts d = st
     \<lparr>chains := hm_insert r (chain_new r (new_insert ts d)) (chains st),
      total_versions := total_versions st + 1\<rparr>"

definition vs_update :: "'j version_store \<Rightarrow> u64 \<Rightarrow> u64 \<Rightarrow> 'j row \<Rightarrow> 'j version_store result" where
  "vs_update st r ts d =
     (case hm_get (chains st) r of
        None \<Rightarrow> Inl (IoError NotFound ''Row {} not found'')
      | Some c \<Rightarrow> Inr (st
          \<lparr>chains := hm_insert r (add_version c (new_update ts d)) (chains st),
           total_versions := total_versions st + 1\<rparr>))"

definition vs_delete :: "'j version_store \<Rightarrow> u64 \<Rightarrow> u64 \<Rightarrow> 'j version_store result" where
  "vs_delete st r ts =
     (case hm_get (chains st) r of
        None \<Rightarrow> Inl (IoError NotFound ''Row {} not found'')
      | Some c \<Rightarrow> Inr (st
          \<lparr>chains := hm_insert r (add_version c (new_delete ts)) (chains st),
           total_versions := total_versions st + 1\<rparr>))"

definition vs_read :: "'j version_store \<Rightarrow> u64 \<Rightarrow> u64 \<Rightarrow> 'j row option" where
  "vs_read st r s =
     (case hm_get (chains st) r of
        None \<Rightarrow> None
      | Some c \<Rightarrow> map_option rv_data (get_visible c s))"

definition vs_exists :: "'j version_store \<Rightarrow> u64 \<Rightarrow> u64 \<Rightarrow> bool" where
  "vs_exists st r s =
     (case hm_get (chains st) r of None \<Rightarrow> False | Some c \<Rightarrow> \<not> is_deleted_at c s)"

definition vs_read_latest :: "'j version_store \<Rightarrow> u64 \<Rightarrow> 'j row option" where
  "vs_read_latest st r =
     (case hm_get (chains st) r of
        None \<Rightarrow> None
      | Some c \<Rightarrow>
          (case latest c of
             None \<Rightarrow> None
           | Some v \<Rightarrow> if is_delete v then None else Some (rv_data v)))"

definition vs_gc :: "'j version_store \<Rightarrow> u64 \<Rightarrow> 'j version_store \<times> nat" where
  "vs_gc st oldest =
     (let removed = sum_list (map (\<lambda>(r, c). snd (chain_gc c oldest)) (chains st));
          collected = hm_map (\<lambda>c. fst (chain_gc c oldest)) (chains st);
          kept = hm_retain (\<lambda>r c. case latest c of
                     Some v \<Rightarrow> \<not> (is_delete v \<and> end_ts v < oldest)
                   | None \<Rightarrow> False) collected
      in (st\<lparr>chains := kept, total_versions := total_versions st - of_nat removed\<rparr>, removed))"

definition row_count :: "'j version_store \<Rightarrow> nat" where
  "row_count st = length (chains st)"

definition needs_gc :: "'j version_store \<Rightarrow> bool" where
  "needs_gc st =
     (let rows = of_nat (row_count st) :: u64
      in 0 < rows \<and> rows * 3 < total_versions st)"

section \<open>What a chain denotes\<close>

lemmas version_defs = new_insert_def new_update_def new_delete_def is_visible_at_def
  set_end_def is_latest_def

lemma new_version_simps [simp]:
  "begin_ts (new_insert ts d) = ts" "end_ts (new_insert ts d) = TS_INF"
  "rv_data (new_insert ts d) = d" "\<not> is_delete (new_insert ts d)"
  "begin_ts (new_update ts d) = ts" "end_ts (new_update ts d) = TS_INF"
  "rv_data (new_update ts d) = d" "\<not> is_delete (new_update ts d)"
  "begin_ts (new_delete ts) = ts" "end_ts (new_delete ts) = TS_INF" "is_delete (new_delete ts)"
  by (simp_all add: version_defs)

text \<open>The contents of the row at a snapshot: \<open>None\<close> where it does not exist.\<close>

definition chain_at :: "'j version_chain \<Rightarrow> u64 \<Rightarrow> 'j row option" where
  "chain_at c s = map_option rv_data (get_visible c s)"

definition payload :: "'j row_version \<Rightarrow> 'j row option" where
  "payload v = (if is_delete v then None else Some (rv_data v))"

text \<open>
  The shape the operations keep: newest first, each version ending where the next newer one
  begins, and only the newest open-ended.
\<close>

fun linked :: "'j row_version list \<Rightarrow> bool" where
  "linked [] = True"
| "linked [v] = True"
| "linked (v # w # vs) = (end_ts w = begin_ts v \<and> begin_ts w \<le> begin_ts v \<and> linked (w # vs))"

definition chain_ok :: "'j version_chain \<Rightarrow> bool" where
  "chain_ok c =
     (case versions c of
        [] \<Rightarrow> False
      | v # vs \<Rightarrow> is_latest v \<and> begin_ts v < TS_INF \<and> linked (v # vs))"

definition head_ts :: "'j version_chain \<Rightarrow> u64" where
  "head_ts c = (case versions c of [] \<Rightarrow> 0 | v # _ \<Rightarrow> begin_ts v)"

lemma TS_INF_less_max: "TS_INF < u64_max"
  unfolding TS_INF_def by (subst word_order.not_eq_extremum [symmetric]) simp

lemma linked_tl: "linked (v # vs) \<Longrightarrow> linked vs"
  by (cases vs) auto

lemma linked_end_le: "linked (v # vs) \<Longrightarrow> w \<in> set vs \<Longrightarrow> end_ts w \<le> begin_ts v"
proof (induction vs arbitrary: v)
  case Nil
  then show ?case by simp
next
  case (Cons u us)
  then show ?case by force
qed

lemma chain_ok_new: "ts < TS_INF \<Longrightarrow> chain_ok (chain_new r (new_insert ts d))"
  by (simp add: chain_ok_def chain_new_def is_latest_def)

lemma chain_ok_add:
  assumes "chain_ok c" and "head_ts c \<le> begin_ts v" and "begin_ts v < TS_INF" and "is_latest v"
  shows "chain_ok (add_version c v)"
proof -
  from assms(1) obtain p ps where c: "versions c = p # ps" and p: "is_latest p" "linked (p # ps)"
    by (auto simp: chain_ok_def split: list.splits)
  have "linked (set_end p (begin_ts v) # ps)"
    using p(2) by (cases ps) (auto simp: set_end_def)
  then show ?thesis
    using assms c p by (simp add: chain_ok_def add_version_def head_ts_def set_end_def)
qed

lemma head_ts_add [simp]: "head_ts (add_version c v) = begin_ts v"
  by (simp add: head_ts_def add_version_def)

lemma row_id_add [simp]: "chain_row_id (add_version c v) = chain_row_id c"
  by (simp add: add_version_def)

text \<open>Adding a version updates the denotation from its begin timestamp on.\<close>

lemma chain_at_add:
  assumes "chain_ok c" and "head_ts c \<le> begin_ts v" and "is_latest v" and "begin_ts v < TS_INF"
  shows "chain_at (add_version c v) s =
     (if begin_ts v \<le> s \<and> s < TS_INF then payload v else chain_at c s)"
proof -
  from assms(1) obtain p ps where c: "versions c = p # ps" and p: "is_latest p" "linked (p # ps)"
    by (auto simp: chain_ok_def split: list.splits)
  have v: "is_visible_at v s \<longleftrightarrow> begin_ts v \<le> s \<and> s < TS_INF"
    using assms(3) by (simp add: version_defs)
  have p': "is_visible_at (set_end p (begin_ts v)) s \<longleftrightarrow> begin_ts p \<le> s \<and> s < begin_ts v"
    by (simp add: version_defs)
  have "is_visible_at (set_end p (begin_ts v)) s \<longleftrightarrow> is_visible_at p s"
    if "\<not> (begin_ts v \<le> s \<and> s < TS_INF)"
    using that p(1) assms(4) unfolding p' by (auto simp: version_defs)
  then show ?thesis
    using p by (auto simp: chain_at_def get_visible_def add_version_def c v payload_def
        set_end_def is_latest_def split: option.splits)
qed

lemma chain_at_new:
  "chain_at (chain_new r (new_insert ts d)) s = (if ts \<le> s \<and> s < TS_INF then Some d else None)"
  by (simp add: chain_at_def get_visible_def chain_new_def is_visible_at_def)

lemma first_visible_filter:
  "(\<And>v. v \<in> set vs \<Longrightarrow> is_visible_at v s \<Longrightarrow> P v) \<Longrightarrow>
   first_visible (filter P vs) s = first_visible vs s"
  by (induction vs) auto

lemma first_visible_None: "first_visible vs s = None \<longleftrightarrow> (\<forall>v \<in> set vs. \<not> is_visible_at v s)"
  by (induction vs) auto

lemma chain_at_gc:
  assumes "oldest \<le> s"
  shows "chain_at (fst (chain_gc c oldest)) s = chain_at c s"
proof -
  have "first_visible (filter (\<lambda>v. is_latest v \<or> oldest < end_ts v) (versions c)) s =
      first_visible (versions c) s"
    using assms by (intro first_visible_filter) (auto simp: is_visible_at_def)
  then show ?thesis
    by (simp add: chain_at_def get_visible_def chain_gc_def Let_def)
qed

lemma linked_filter:
  "linked vs \<Longrightarrow> linked (filter (\<lambda>v. oldest < end_ts v) vs)"
proof (induction vs rule: linked.induct)
  case (3 v w vs)
  then have l: "linked (w # vs)" and e: "end_ts w = begin_ts v" "begin_ts w \<le> begin_ts v" by auto
  have none: "filter (\<lambda>v. oldest < end_ts v) vs = []" if "\<not> oldest < end_ts w"
    unfolding filter_empty_conv
  proof
    fix u assume "u \<in> set vs"
    then have "end_ts u \<le> begin_ts w" by (rule linked_end_le [OF l])
    then have "end_ts u \<le> end_ts w" using e by simp
    then show "\<not> oldest < end_ts u" using that by simp
  qed
  then show ?case using 3 l e by (cases "oldest < end_ts w") auto
qed auto

lemma chain_ok_gc: assumes "chain_ok c" shows "chain_ok (fst (chain_gc c oldest))"
proof -
  from assms obtain p ps where c: "versions c = p # ps" and p: "is_latest p" "linked (p # ps)"
      "begin_ts p < TS_INF"
    by (auto simp: chain_ok_def split: list.splits)
  have nl: "\<not> is_latest w" if "w \<in> set ps" for w
    using linked_end_le [OF p(2) that] p(3) by (auto simp: is_latest_def)
  then have "filter (\<lambda>v. is_latest v \<or> oldest < end_ts v) ps = filter (\<lambda>v. oldest < end_ts v) ps"
    by (auto intro: filter_cong)
  moreover have "linked (p # filter (\<lambda>v. oldest < end_ts v) ps)"
  proof (cases ps)
    case (Cons q qs)
    have "linked (filter (\<lambda>v. oldest < end_ts v) ps)"
      using p(2) by (intro linked_filter) (rule linked_tl)
    then show ?thesis
    proof (cases "oldest < end_ts q")
      case True
      with Cons p(2) \<open>linked (filter _ ps)\<close> show ?thesis by simp
    next
      case False
      then have "filter (\<lambda>v. oldest < end_ts v) ps = []"
        using Cons p(2) linked_end_le [of q qs]
        by (fastforce simp: filter_empty_conv)
      then show ?thesis by simp
    qed
  qed simp
  ultimately show ?thesis
    using p c by (simp add: chain_ok_def chain_gc_def Let_def)
qed

lemma latest_gc: "chain_ok c \<Longrightarrow> latest (fst (chain_gc c oldest)) = latest c"
  by (auto simp: chain_ok_def chain_gc_def latest_def Let_def split: list.splits)

lemma chain_gc_count:
  "length (versions (fst (chain_gc c oldest))) + snd (chain_gc c oldest) = length (versions c)"
  by (simp add: chain_gc_def Let_def)

lemma deleted_iff_invisible: "is_deleted_at c s \<longleftrightarrow> chain_at c s = None"
  by (auto simp: is_deleted_at_def chain_at_def get_visible_def split: option.splits)

section \<open>The store's invariant\<close>

text \<open>
  Every chain is well-formed, sits under its own row identifier and was last written no later
  than the clock.
\<close>

definition store_ok :: "u64 \<Rightarrow> 'j version_store \<Rightarrow> bool" where
  "store_ok clk st =
     (hm_wf (chains st) \<and>
      (\<forall>(r, c) \<in> set (chains st). chain_ok c \<and> chain_row_id c = r \<and> head_ts c \<le> clk))"

definition version_sum :: "'j version_store \<Rightarrow> nat" where
  "version_sum st = sum_list (map (\<lambda>(r, c). length (versions c)) (chains st))"

lemma store_ok_get:
  "store_ok clk st \<Longrightarrow> hm_get (chains st) r = Some c \<Longrightarrow>
   chain_ok c \<and> chain_row_id c = r \<and> head_ts c \<le> clk"
  by (auto simp: store_ok_def dest: map_of_SomeD)

lemma store_okI:
  assumes "hm_wf (chains st)"
    and "\<And>r c. hm_get (chains st) r = Some c \<Longrightarrow> chain_ok c \<and> chain_row_id c = r \<and> head_ts c \<le> clk"
  shows "store_ok clk st"
  unfolding store_ok_def using assms by (blast dest: map_of_is_SomeI)

lemma store_ok_wf: "store_ok clk st \<Longrightarrow> hm_wf (chains st)"
  by (simp add: store_ok_def)

lemma store_ok_new: "store_ok clk vs_new"
  by (simp add: store_ok_def vs_new_def)

lemma store_ok_later: "store_ok clk st \<Longrightarrow> clk \<le> clk' \<Longrightarrow> store_ok clk' st"
  by (auto simp: store_ok_def intro: order_trans)

lemma store_ok_put:
  assumes "store_ok clk st" and "clk \<le> clk'"
    and "chain_ok c" and "chain_row_id c = r" and "head_ts c \<le> clk'"
    and "chains st' = hm_insert r c (chains st)"
  shows "store_ok clk' st'"
proof (rule store_okI)
  show "hm_wf (chains st')" using assms by (simp add: hm_simps store_ok_wf)
  show "chain_ok c' \<and> chain_row_id c' = r' \<and> head_ts c' \<le> clk'"
    if "hm_get (chains st') r' = Some c'" for r' c'
    using that assms store_ok_get [OF assms(1)]
    by (auto simp: hm_simps split: if_splits intro: order_trans)
qed

lemma vs_read_chain: "vs_read st r s = (case hm_get (chains st) r of None \<Rightarrow> None | Some c \<Rightarrow> chain_at c s)"
  by (simp add: vs_read_def chain_at_def cong: option.case_cong)

lemma vs_exists_read: "vs_exists st r s \<longleftrightarrow> vs_read st r s \<noteq> None"
  by (auto simp: vs_exists_def vs_read_chain deleted_iff_invisible split: option.splits)

lemma chain_new_simps:
  "chain_row_id (chain_new r v) = r" "head_ts (chain_new r v) = begin_ts v"
  by (simp_all add: chain_new_def head_ts_def)

lemma store_ok_insert:
  "store_ok clk st \<Longrightarrow> clk \<le> ts \<Longrightarrow> ts < TS_INF \<Longrightarrow> store_ok ts (vs_insert st r ts d)"
  by (rule store_ok_put [where c = "chain_new r (new_insert ts d)" and r = r and clk = clk])
     (simp_all add: vs_insert_def chain_ok_new chain_new_simps)

lemma store_ok_base:
  "store_ok clk st \<Longrightarrow> ts \<le> clk \<Longrightarrow> ts < TS_INF \<Longrightarrow> store_ok clk (vs_insert st r ts d)"
  by (rule store_ok_put [where c = "chain_new r (new_insert ts d)" and r = r and clk = clk])
     (simp_all add: vs_insert_def chain_ok_new chain_new_simps)

lemma store_ok_update:
  assumes "store_ok clk st" and "clk \<le> ts" and "ts < TS_INF" and "vs_update st r ts d = Inr st'"
  shows "store_ok ts st'"
proof -
  from assms(4) obtain c where c: "hm_get (chains st) r = Some c"
    and st': "chains st' = hm_insert r (add_version c (new_update ts d)) (chains st)"
    by (auto simp: vs_update_def split: option.splits)
  note ok = store_ok_get [OF assms(1) c]
  show ?thesis
    by (rule store_ok_put [OF assms(1,2) _ _ _ st'])
       (use ok assms in \<open>auto intro!: chain_ok_add simp: is_latest_def\<close>)
qed

lemma store_ok_delete:
  assumes "store_ok clk st" and "clk \<le> ts" and "ts < TS_INF" and "vs_delete st r ts = Inr st'"
  shows "store_ok ts st'"
proof -
  from assms(4) obtain c where c: "hm_get (chains st) r = Some c"
    and st': "chains st' = hm_insert r (add_version c (new_delete ts)) (chains st)"
    by (auto simp: vs_delete_def split: option.splits)
  note ok = store_ok_get [OF assms(1) c]
  show ?thesis
    by (rule store_ok_put [OF assms(1,2) _ _ _ st'])
       (use ok assms in \<open>auto intro!: chain_ok_add simp: is_latest_def\<close>)
qed

lemma vs_read_insert:
  "vs_read (vs_insert st r ts d) r' s =
     (if r' = r then if ts \<le> s \<and> s < TS_INF then Some d else None else vs_read st r' s)"
  by (simp add: vs_read_chain vs_insert_def hm_simps chain_at_new)

lemma vs_read_put:
  assumes "store_ok clk st" and "clk \<le> begin_ts v" and "begin_ts v < TS_INF" and "is_latest v"
    and "hm_get (chains st) r = Some c" and "chains st' = hm_insert r (add_version c v) (chains st)"
  shows "vs_read st' r' s =
    (if r' = r \<and> begin_ts v \<le> s \<and> s < TS_INF then payload v else vs_read st r' s)"
proof (cases "r' = r")
  case True
  note ok = store_ok_get [OF assms(1,5)]
  have "chain_at (add_version c v) s =
      (if begin_ts v \<le> s \<and> s < TS_INF then payload v else chain_at c s)"
    using ok assms by (intro chain_at_add) auto
  with True assms(5,6) show ?thesis by (simp add: vs_read_chain hm_simps)
next
  case False
  with assms(6) show ?thesis by (simp add: vs_read_chain hm_simps)
qed

lemma vs_read_update:
  assumes "store_ok clk st" and "clk \<le> ts" and "ts < TS_INF" and "vs_update st r ts d = Inr st'"
  shows "vs_read st' r' s =
    (if r' = r \<and> ts \<le> s \<and> s < TS_INF then Some d else vs_read st r' s)"
proof -
  from assms(4) obtain c where c: "hm_get (chains st) r = Some c"
    "chains st' = hm_insert r (add_version c (new_update ts d)) (chains st)"
    by (auto simp: vs_update_def split: option.splits)
  from vs_read_put [OF assms(1) _ _ _ c] assms(2,3) show ?thesis
    by (simp add: is_latest_def payload_def)
qed

lemma vs_read_delete:
  assumes "store_ok clk st" and "clk \<le> ts" and "ts < TS_INF" and "vs_delete st r ts = Inr st'"
  shows "vs_read st' r' s =
    (if r' = r \<and> ts \<le> s \<and> s < TS_INF then None else vs_read st r' s)"
proof -
  from assms(4) obtain c where c: "hm_get (chains st) r = Some c"
    "chains st' = hm_insert r (add_version c (new_delete ts)) (chains st)"
    by (auto simp: vs_delete_def split: option.splits)
  from vs_read_put [OF assms(1) _ _ _ c] assms(2,3) show ?thesis
    by (simp add: is_latest_def payload_def)
qed

subsection \<open>Garbage collection\<close>

lemma chains_gc:
  "chains (fst (vs_gc st oldest)) =
     hm_retain (\<lambda>r c. case latest c of Some v \<Rightarrow> \<not> (is_delete v \<and> end_ts v < oldest) | None \<Rightarrow> False)
       (hm_map (\<lambda>c. fst (chain_gc c oldest)) (chains st))"
  by (simp add: vs_gc_def Let_def)

lemma hm_get_gc:
  assumes "store_ok clk st" and "hm_get (chains st) r = Some c"
  shows "hm_get (chains (fst (vs_gc st oldest))) r =
    (case latest c of
       Some v \<Rightarrow> if is_delete v \<and> TS_INF < oldest then None else Some (fst (chain_gc c oldest))
     | None \<Rightarrow> None)"
proof -
  have ok: "chain_ok c" using store_ok_get [OF assms] by blast
  then obtain v where v: "latest c = Some v" "end_ts v = TS_INF"
    by (auto simp: chain_ok_def latest_def is_latest_def split: list.splits)
  have wf: "hm_wf (hm_map (\<lambda>c. fst (chain_gc c oldest)) (chains st))"
    using store_ok_wf [OF assms(1)] by (simp add: hm_simps)
  show ?thesis
    using assms(2) v by (simp add: chains_gc hm_get_retain [OF wf] hm_get_map latest_gc [OF ok])
qed

lemma hm_get_gc_None:
  assumes "store_ok clk st" and "hm_get (chains st) r = None"
  shows "hm_get (chains (fst (vs_gc st oldest))) r = None"
proof -
  have wf: "hm_wf (hm_map (\<lambda>c. fst (chain_gc c oldest)) (chains st))"
    using store_ok_wf [OF assms(1)] by (simp add: hm_simps)
  show ?thesis using assms(2) by (simp add: chains_gc hm_get_retain [OF wf] hm_get_map)
qed

lemma chain_at_end: "chain_ok c \<Longrightarrow> TS_INF \<le> s \<Longrightarrow> chain_at c s = None"
proof -
  assume ok: "chain_ok c" and s: "TS_INF \<le> s"
  from ok obtain v vs where c: "versions c = v # vs" and v: "is_latest v" "begin_ts v < TS_INF"
      "linked (v # vs)" by (auto simp: chain_ok_def split: list.splits)
  have "end_ts w \<le> TS_INF" if "w \<in> set (versions c)" for w
    using that v linked_end_le [OF v(3)] by (force simp: c is_latest_def)
  then have "\<not> is_visible_at w s" if "w \<in> set (versions c)" for w
    using s that by (fastforce simp: is_visible_at_def)
  then have "first_visible (versions c) s = None" by (simp add: first_visible_None)
  then show ?thesis by (simp add: chain_at_def get_visible_def)
qed

lemma vs_read_gc:
  assumes "store_ok clk st" and "oldest \<le> s"
  shows "vs_read (fst (vs_gc st oldest)) r s = vs_read st r s"
proof (cases "hm_get (chains st) r")
  case None
  with hm_get_gc_None [OF assms(1) None] show ?thesis by (simp add: vs_read_chain)
next
  case (Some c)
  have ok: "chain_ok c" using store_ok_get [OF assms(1) Some] by blast
  have "chain_at c s = None" if "TS_INF < oldest"
    using that assms(2) by (intro chain_at_end [OF ok]) simp
  moreover have "latest c \<noteq> None" using ok by (auto simp: chain_ok_def latest_def split: list.splits)
  ultimately show ?thesis
    using Some assms(2) by (auto simp: vs_read_chain hm_get_gc [OF assms(1) Some] chain_at_gc
        split: option.splits)
qed

lemma head_ts_gc: "chain_ok c \<Longrightarrow> head_ts (fst (chain_gc c oldest)) = head_ts c"
  by (auto simp: chain_ok_def chain_gc_def head_ts_def Let_def split: list.splits)

lemma row_id_gc [simp]: "chain_row_id (fst (chain_gc c oldest)) = chain_row_id c"
  by (simp add: chain_gc_def Let_def)

lemma store_ok_gc:
  assumes "store_ok clk st"
  shows "store_ok clk (fst (vs_gc st oldest))"
proof (rule store_okI)
  show "hm_wf (chains (fst (vs_gc st oldest)))"
    using store_ok_wf [OF assms] by (simp add: chains_gc hm_simps)
  show "chain_ok c \<and> chain_row_id c = r \<and> head_ts c \<le> clk"
    if g: "hm_get (chains (fst (vs_gc st oldest))) r = Some c" for r c
  proof (cases "hm_get (chains st) r")
    case None
    with hm_get_gc_None [OF assms None] g show ?thesis by simp
  next
    case (Some c0)
    note ok = store_ok_get [OF assms Some]
    from g have "c = fst (chain_gc c0 oldest)"
      by (auto simp: hm_get_gc [OF assms Some] split: option.splits if_splits)
    with ok show ?thesis by (simp add: chain_ok_gc head_ts_gc)
  qed
qed

section \<open>Version accounting\<close>

text \<open>
  \<open>total_versions\<close> never falls below the number of versions the chains hold, so the
  subtraction of a collection cannot wrap around.
\<close>

definition counter_ok :: "'j version_store \<Rightarrow> bool" where
  "counter_ok st = (version_sum st \<le> unat (total_versions st))"

lemma sum_list_hm_insert:
  fixes f :: "'v \<Rightarrow> nat"
  assumes "hm_wf m"
  shows "sum_list (map (\<lambda>(k, v). f v) (hm_insert k v m)) +
       (case hm_get m k of None \<Rightarrow> 0 | Some w \<Rightarrow> f w) =
     sum_list (map (\<lambda>(k, v). f v) m) + f v"
  using assms
proof (induction m)
  case (Cons p m)
  then show ?case
    by (cases p) (auto simp: image_iff split: option.splits dest: map_of_SomeD)
qed simp

lemma sum_list_hm_retain:
  fixes f :: "'v \<Rightarrow> nat"
  shows "sum_list (map (\<lambda>(k, v). f v) (hm_retain P m)) \<le> sum_list (map (\<lambda>(k, v). f v) m)"
  by (induction m) (auto simp: hm_retain_def)

lemma version_sum_put:
  assumes "hm_wf (chains st)" and "hm_get (chains st) r = Some c"
    and "chains st' = hm_insert r (add_version c v) (chains st)" and "chain_ok c"
  shows "version_sum st' = Suc (version_sum st)"
proof -
  have "length (versions (add_version c v)) = Suc (length (versions c))"
    using assms(4) by (auto simp: add_version_def chain_ok_def split: list.splits)
  then show ?thesis
    using sum_list_hm_insert [OF assms(1), of "\<lambda>c. length (versions c)" r "add_version c v"] assms
    by (simp add: version_sum_def)
qed

lemma version_sum_insert:
  "hm_wf (chains st) \<Longrightarrow> version_sum (vs_insert st r ts d) \<le> Suc (version_sum st)"
  using sum_list_hm_insert [of "chains st" "\<lambda>c. length (versions c)" r "chain_new r (new_insert ts d)"]
  by (simp add: version_sum_def vs_insert_def chain_new_def)

lemma gc_split_sum:
  "sum_list (map (\<lambda>(r, c). length (versions c)) (hm_map (\<lambda>c. fst (chain_gc c oldest)) m)) +
     sum_list (map (\<lambda>(r, c). snd (chain_gc c oldest)) m) =
   sum_list (map (\<lambda>(r, c). length (versions c)) m)"
proof (induction m)
  case (Cons p m)
  then show ?case
    using chain_gc_count [of "snd p" oldest] by (cases p) (simp add: hm_map_def)
qed (simp add: hm_map_def)

lemma gc_removed_le:
  "version_sum (fst (vs_gc st oldest)) + snd (vs_gc st oldest) \<le> version_sum st"
proof -
  let ?f = "\<lambda>c :: 'a version_chain. length (versions c)"
  have rem: "snd (vs_gc st oldest) = sum_list (map (\<lambda>(r, c). snd (chain_gc c oldest)) (chains st))"
    by (simp add: vs_gc_def Let_def)
  have "version_sum (fst (vs_gc st oldest)) \<le>
      sum_list (map (\<lambda>(r, c). ?f c) (hm_map (\<lambda>c. fst (chain_gc c oldest)) (chains st)))"
    unfolding version_sum_def chains_gc by (rule sum_list_hm_retain)
  with gc_split_sum [of oldest "chains st"] show ?thesis by (simp add: rem version_sum_def)
qed

lemma counter_ok_gc: "counter_ok st \<Longrightarrow> counter_ok (fst (vs_gc st oldest))
    \<and> unat (total_versions (fst (vs_gc st oldest))) = unat (total_versions st) - snd (vs_gc st oldest)"
proof -
  assume c: "counter_ok st"
  let ?n = "snd (vs_gc st oldest)" and ?t = "total_versions st"
  have le: "version_sum (fst (vs_gc st oldest)) + ?n \<le> unat ?t"
    using c gc_removed_le [of st oldest] by (simp add: counter_ok_def)
  then have "unat (of_nat ?n :: u64) = ?n"
    by (intro unat_of_nat_lt) (use unsigned_less [of ?t, where 'a = nat] in simp)
  moreover have "(of_nat ?n :: u64) \<le> ?t"
    using le calculation by (simp add: word_le_nat_alt)
  ultimately have "unat (?t - of_nat ?n) = unat ?t - ?n"
    by (simp add: unat_sub)
  then show ?thesis
    using le by (simp add: counter_ok_def) (simp add: vs_gc_def Let_def)
qed

section \<open>The contract of a versioned store\<close>

datatype 'd store_op =
    OpInsert u64 u64 'd | OpUpdate u64 u64 'd | OpDelete u64 u64 | OpGc u64

fun op_ts :: "u64 \<Rightarrow> 'd store_op \<Rightarrow> u64" where
  "op_ts clk (OpInsert r ts d) = ts"
| "op_ts clk (OpUpdate r ts d) = ts"
| "op_ts clk (OpDelete r ts) = ts"
| "op_ts clk (OpGc oldest) = clk"

fun op_timely :: "u64 \<Rightarrow> 'd store_op \<Rightarrow> bool" where
  "op_timely clk (OpInsert r ts d) = (clk \<le> ts \<and> ts < TS_INF)"
| "op_timely clk (OpUpdate r ts d) = (clk \<le> ts \<and> ts < TS_INF)"
| "op_timely clk (OpDelete r ts) = (clk \<le> ts \<and> ts < TS_INF)"
| "op_timely clk (OpGc oldest) = True"

text \<open>
  An operation that happens after the snapshot \<open>t\<close> was taken: it writes at a later timestamp
  (an insert only to a row the store does not track), or it collects garbage no snapshot as
  old as \<open>t\<close> needs.
\<close>

fun op_later :: "('s \<Rightarrow> u64 \<Rightarrow> bool) \<Rightarrow> u64 \<Rightarrow> u64 \<Rightarrow> 's \<Rightarrow> 'd store_op \<Rightarrow> bool" where
  "op_later present t clk s (OpInsert r ts d) =
     (\<not> present s r \<and> t < ts \<and> clk \<le> ts \<and> ts < TS_INF)"
| "op_later present t clk s (OpUpdate r ts d) = (t < ts \<and> clk \<le> ts \<and> ts < TS_INF)"
| "op_later present t clk s (OpDelete r ts) = (t < ts \<and> clk \<le> ts \<and> ts < TS_INF)"
| "op_later present t clk s (OpGc oldest) = (oldest \<le> t)"

fun later_run :: "('s \<Rightarrow> u64 \<Rightarrow> bool) \<Rightarrow> ('s \<Rightarrow> 'd store_op \<Rightarrow> 's) \<Rightarrow> u64 \<Rightarrow> u64 \<Rightarrow> 's \<Rightarrow>
    'd store_op list \<Rightarrow> bool" where
  "later_run present step t clk s [] = True"
| "later_run present step t clk s (op # ops) =
     (op_later present t clk s op \<and> later_run present step t (op_ts clk op) (step s op) ops)"

locale versioned_store =
  fixes inv :: "u64 \<Rightarrow> 's \<Rightarrow> bool"
    and present :: "'s \<Rightarrow> u64 \<Rightarrow> bool"
    and read :: "'s \<Rightarrow> u64 \<Rightarrow> u64 \<Rightarrow> 'd option"
    and step :: "'s \<Rightarrow> 'd store_op \<Rightarrow> 's"
  assumes inv_step: "inv clk s \<Longrightarrow> op_timely clk op \<Longrightarrow> inv (op_ts clk op) (step s op)"
    and read_absent: "inv clk s \<Longrightarrow> \<not> present s r \<Longrightarrow> read s r t = None"
    and read_insert: "inv clk s \<Longrightarrow> read (step s (OpInsert r ts d)) r' t =
        (if r' = r then if ts \<le> t \<and> t < TS_INF then Some d else None else read s r' t)"
    and read_update: "inv clk s \<Longrightarrow> clk \<le> ts \<Longrightarrow> ts < TS_INF \<Longrightarrow>
        read (step s (OpUpdate r ts d)) r' t =
        (if r' = r \<and> present s r \<and> ts \<le> t \<and> t < TS_INF then Some d else read s r' t)"
    and read_delete: "inv clk s \<Longrightarrow> clk \<le> ts \<Longrightarrow> ts < TS_INF \<Longrightarrow>
        read (step s (OpDelete r ts)) r' t =
        (if r' = r \<and> present s r \<and> ts \<le> t \<and> t < TS_INF then None else read s r' t)"
    and read_collect: "inv clk s \<Longrightarrow> oldest \<le> t \<Longrightarrow> read (step s (OpGc oldest)) r t = read s r t"
begin

lemma read_later: "inv clk s \<Longrightarrow> op_later present t clk s op \<Longrightarrow> read (step s op) r t = read s r t"
  by (cases op) (auto simp: read_insert read_update read_delete read_collect read_absent)

lemma inv_later: "inv clk s \<Longrightarrow> op_later present t clk s op \<Longrightarrow> inv (op_ts clk op) (step s op)"
  by (rule inv_step, assumption, cases op) auto

lemma snapshot_stable:
  "inv clk s \<Longrightarrow> later_run present step t clk s ops \<Longrightarrow> read (foldl step s ops) r t = read s r t"
proof (induction ops arbitrary: clk s)
  case (Cons op ops)
  from Cons.prems have later: "op_later present t clk s op"
    and rest: "later_run present step t (op_ts clk op) (step s op) ops" by auto
  have "inv (op_ts clk op) (step s op)" using Cons.prems(1) later by (rule inv_later)
  from Cons.IH [OF this rest] read_later [OF Cons.prems(1) later] show ?case by simp
qed simp

end

definition vs_present :: "'j version_store \<Rightarrow> u64 \<Rightarrow> bool" where
  "vs_present st r = hm_contains (chains st) r"

text \<open>Applying an operation the way the transaction manager does: a failure is dropped.\<close>

fun vs_step :: "'j version_store \<Rightarrow> 'j row store_op \<Rightarrow> 'j version_store" where
  "vs_step st (OpInsert r ts d) = vs_insert st r ts d"
| "vs_step st (OpUpdate r ts d) = (case vs_update st r ts d of Inl e \<Rightarrow> st | Inr st' \<Rightarrow> st')"
| "vs_step st (OpDelete r ts) = (case vs_delete st r ts of Inl e \<Rightarrow> st | Inr st' \<Rightarrow> st')"
| "vs_step st (OpGc oldest) = fst (vs_gc st oldest)"

lemma vs_update_result: "vs_present st r \<longleftrightarrow> (\<exists>st'. vs_update st r ts d = Inr st')"
  by (auto simp: vs_present_def hm_contains_def vs_update_def split: option.splits)

lemma vs_delete_result: "vs_present st r \<longleftrightarrow> (\<exists>st'. vs_delete st r ts = Inr st')"
  by (auto simp: vs_present_def hm_contains_def vs_delete_def split: option.splits)

interpretation mvcc: versioned_store store_ok vs_present vs_read vs_step
proof (unfold_locales, goal_cases)
  case (1 clk st op)
  then show ?case
    by (cases op)
       (auto intro: store_ok_insert store_ok_update store_ok_delete store_ok_gc
          dest: store_ok_later split: sum.splits)
next
  case (2 clk st r t)
  then show ?case by (simp add: vs_present_def hm_contains_def vs_read_def)
next
  case (3 clk st r ts d r' t)
  show ?case by (simp add: vs_read_insert)
next
  case (4 clk st ts r d r' t)
  then show ?case
    using vs_update_result [of st r ts d]
    by (auto simp: vs_read_update split: sum.splits)
next
  case (5 clk st ts r r' t)
  then show ?case
    using vs_delete_result [of st r ts]
    by (auto simp: vs_read_delete split: sum.splits)
next
  case (6 clk st oldest t r)
  then show ?case by (simp add: vs_read_gc)
qed

section \<open>Properties\<close>

definition sample_row :: "nat \<Rightarrow> unit row" where
  "sample_row n = [(''v'', Int64 (of_nat n))]"

text \<open>
  C7. A snapshot is stable: writes at later timestamps and garbage collections that respect the
  snapshot, in any order and number, do not change what a read at the snapshot's timestamp
  returns for any row.
\<close>

theorem snapshot_reads_stable:
  assumes "store_ok clk st" and "later_run vs_present vs_step t clk st ops"
  shows "vs_read (foldl vs_step st ops) r t = vs_read st r t"
  using assms by (rule mvcc.snapshot_stable)

lemma snapshot_reads_stable_witness:
  "vs_read (foldl vs_step (vs_insert vs_new 1 1 (sample_row 1))
      [OpUpdate 1 3 (sample_row 2), OpInsert 2 4 (sample_row 3), OpDelete 1 5, OpGc 2]) 1 2
    = Some (sample_row 1)"
proof -
  have "store_ok 1 (vs_insert vs_new 1 1 (sample_row 1))"
    by (intro store_ok_base store_ok_new) (simp_all add: TS_INF_def word_less_nat_alt unsigned_minus_1_eq_mask)
  moreover have "later_run vs_present vs_step 2 1 (vs_insert vs_new 1 1 (sample_row 1))
      [OpUpdate 1 3 (sample_row 2), OpInsert 2 4 (sample_row 3), OpDelete 1 5, OpGc 2]"
    by code_simp
  ultimately have "vs_read (foldl vs_step (vs_insert vs_new 1 1 (sample_row 1))
      [OpUpdate 1 3 (sample_row 2), OpInsert 2 4 (sample_row 3), OpDelete 1 5, OpGc 2]) 1 2
    = vs_read (vs_insert vs_new 1 1 (sample_row 1)) 1 2"
    by (rule snapshot_reads_stable)
  also have "\<dots> = Some (sample_row 1)" by code_simp
  finally show ?thesis .
qed

text \<open>
  The version counter never wraps below zero: as long as it counts at least the stored
  versions, a collection subtracts exactly the number it reports, without underflow.
\<close>

theorem gc_counter_exact:
  assumes "counter_ok st"
  shows "counter_ok (fst (vs_gc st oldest))
    \<and> unat (total_versions (fst (vs_gc st oldest))) = unat (total_versions st) - snd (vs_gc st oldest)"
  using assms by (rule counter_ok_gc)

lemma gc_counter_exact_witness:
  "unat (total_versions (fst (vs_gc (vs_step (vs_insert vs_new 1 1 (sample_row 1)) (OpUpdate 1 2 (sample_row 2))) 5))) = 1"
proof -
  let ?st = "vs_step (vs_insert vs_new 1 1 (sample_row 1)) (OpUpdate 1 2 (sample_row 2))"
  have "version_sum ?st = 2" "unat (total_versions ?st) = 2" "snd (vs_gc ?st 5) = 1" by code_simp+
  then have "counter_ok ?st" by (simp add: counter_ok_def)
  from gc_counter_exact [OF this, of 5] \<open>unat (total_versions ?st) = 2\<close> \<open>snd (vs_gc ?st 5) = 1\<close>
  show ?thesis by simp
qed

text \<open>
  The collector drops the chain of a deleted row without counting the tombstone it removes
  with it, so a store that has become empty still reports a version and is never pruned.
\<close>

theorem gc_strands_counter:
  "row_count (fst (vs_gc (foldl vs_step vs_new [OpInsert 1 1 (sample_row 1), OpDelete 1 2]) u64_max)) = 0
   \<and> total_versions (fst (vs_gc (foldl vs_step vs_new [OpInsert 1 1 (sample_row 1), OpDelete 1 2]) u64_max)) = 1"
  by code_simp

end
