(* ===== verification/Snapshot_Manager.thy ===== *)
theory Snapshot_Manager
  imports Version_Store
begin

text \<open>
  Active snapshots (\<^verbatim>\<open>storage/mvcc/snapshot.rs\<close>) and the garbage collector that consults them
  (\<^verbatim>\<open>storage/mvcc/gc.rs\<close>). The cached oldest active timestamp is the minimum over the active
  snapshots, and a collection run therefore leaves every active snapshot's reads unchanged.
  The process-wide counters (timestamps, snapshot identifiers) are passed in and returned.
\<close>

section \<open>Timestamps\<close>

text \<open>The global timestamp counter: \<open>fetch_add\<close> returns the old value and wraps.\<close>

definition next_timestamp :: "u64 \<Rightarrow> u64 \<times> u64" where
  "next_timestamp g = (g, g + 1)"

definition current_timestamp :: "u64 \<Rightarrow> u64" where
  "current_timestamp g = g"

section \<open>Snapshots\<close>

record snapshot =
  snap_id :: u64
  read_ts :: u64
  snap_read_only :: bool

definition snap_is_visible :: "snapshot \<Rightarrow> u64 \<Rightarrow> u64 \<Rightarrow> bool" where
  "snap_is_visible s b e = (b \<le> read_ts s \<and> read_ts s < e)"

text \<open>\<open>active\<close> is a \<open>BTreeMap\<close>; only its set of entries matters.\<close>

record snapshot_manager =
  active :: "(u64, snapshot) hmap"
  oldest_active_ts :: u64

definition sm_new :: snapshot_manager where
  "sm_new = \<lparr>active = [], oldest_active_ts = u64_max\<rparr>"

definition register :: "snapshot_manager \<Rightarrow> snapshot \<Rightarrow> snapshot_manager" where
  "register m s = m
     \<lparr>active := hm_insert (snap_id s) s (active m),
      oldest_active_ts := min (oldest_active_ts m) (read_ts s)\<rparr>"

definition create_snapshot :: "snapshot_manager \<Rightarrow> u64 \<Rightarrow> u64 \<Rightarrow> snapshot \<times> snapshot_manager" where
  "create_snapshot m ts next_id =
     (let s = \<lparr>snap_id = next_id, read_ts = current_timestamp ts, snap_read_only = True\<rparr>
      in (s, register m s))"

definition create_rw_snapshot ::
    "snapshot_manager \<Rightarrow> u64 \<Rightarrow> u64 \<Rightarrow> snapshot \<times> snapshot_manager \<times> u64" where
  "create_rw_snapshot m ts next_id =
     (let (t, ts') = next_timestamp ts;
          s = \<lparr>snap_id = next_id, read_ts = t, snap_read_only = False\<rparr>
      in (s, register m s, ts'))"

definition min_read_ts :: "(u64, snapshot) hmap \<Rightarrow> u64" where
  "min_read_ts a = fold (\<lambda>(i, s) acc. min acc (read_ts s)) a u64_max"

definition release :: "snapshot_manager \<Rightarrow> u64 \<Rightarrow> snapshot_manager" where
  "release m i =
     (let a = hm_remove i (active m)
      in m\<lparr>active := a, oldest_active_ts := min_read_ts a\<rparr>)"

definition oldest_active_timestamp :: "snapshot_manager \<Rightarrow> u64" where
  "oldest_active_timestamp m = oldest_active_ts m"

definition sm_active_count :: "snapshot_manager \<Rightarrow> nat" where
  "sm_active_count m = length (active m)"

definition has_active_snapshots :: "snapshot_manager \<Rightarrow> bool" where
  "has_active_snapshots m = (active m \<noteq> [])"

definition get_snapshot :: "snapshot_manager \<Rightarrow> u64 \<Rightarrow> snapshot option" where
  "get_snapshot m i = hm_get (active m) i"

section \<open>Garbage collector\<close>

text \<open>\<open>interval\<close> is in milliseconds; \<open>now\<close> is the wall clock in milliseconds.\<close>

record gc_config =
  interval :: u64
  min_versions :: u64
  enabled :: bool

definition gc_default :: gc_config where
  "gc_default = \<lparr>interval = 60000, min_versions = 1000, enabled = True\<rparr>"

record collector =
  config :: gc_config
  last_run :: u64
  running :: bool
  total_removed :: u64

record gc_stats =
  versions_removed :: nat
  stats_oldest :: u64

definition gc_new :: collector where
  "gc_new = \<lparr>config = gc_default, last_run = 0, running = False, total_removed = 0\<rparr>"

definition should_run :: "collector \<Rightarrow> 'j version_store \<Rightarrow> u64 \<Rightarrow> bool" where
  "should_run g st now =
     (if \<not> enabled (config g) then False
      else if running g then False
      else if total_versions st < min_versions (config g) then False
      else interval (config g) \<le> (if last_run g \<le> now then now - last_run g else 0))"

definition gc_run :: "collector \<Rightarrow> 'j version_store \<Rightarrow> snapshot_manager \<Rightarrow> u64 \<Rightarrow>
    gc_stats option \<times> collector \<times> 'j version_store" where
  "gc_run g st m now =
     (if running g then (None, g, st)
      else let oldest = oldest_active_timestamp m;
               (st', removed) = vs_gc st oldest
           in (Some \<lparr>versions_removed = removed, stats_oldest = oldest\<rparr>,
               g\<lparr>total_removed := total_removed g + of_nat removed, last_run := now,
                 running := False\<rparr>,
               st'))"

definition maybe_run :: "collector \<Rightarrow> 'j version_store \<Rightarrow> snapshot_manager \<Rightarrow> u64 \<Rightarrow>
    gc_stats option \<times> collector \<times> 'j version_store" where
  "maybe_run g st m now = (if should_run g st now then gc_run g st m now else (None, g, st))"

section \<open>The cached minimum\<close>

definition sm_ok :: "snapshot_manager \<Rightarrow> bool" where
  "sm_ok m \<longleftrightarrow> hm_wf (active m) \<and> oldest_active_ts m = min_read_ts (active m)
     \<and> (\<forall>(i, s) \<in> set (active m). snap_id s = i)"

lemma min_read_ts_fold:
  "fold (\<lambda>(i, s) acc. min acc (read_ts s)) a x = min x (min_read_ts a)"
proof (induction a arbitrary: x)
  case Nil
  show ?case by (simp add: min_read_ts_def)
next
  case (Cons p a)
  obtain i s where p: "p = (i, s)" by (cases p)
  have "min_read_ts (p # a) = min (read_ts s) (min_read_ts a)"
    using Cons [of "min u64_max (read_ts s)"] by (simp add: min_read_ts_def p)
  then show ?case using Cons [of "min x (read_ts s)"] by (simp add: p min.assoc)
qed

lemma min_read_ts_simps [simp]:
  "min_read_ts [] = u64_max"
  "min_read_ts ((i, s) # a) = min (read_ts s) (min_read_ts a)"
  "min_read_ts (a @ b) = min (min_read_ts a) (min_read_ts b)"
proof -
  show nil: "min_read_ts [] = u64_max" by (simp add: min_read_ts_def)
  show "min_read_ts ((i, s) # a) = min (read_ts s) (min_read_ts a)"
    using min_read_ts_fold [of a "min u64_max (read_ts s)"] by (simp add: min_read_ts_def)
  show "min_read_ts (a @ b) = min (min_read_ts a) (min_read_ts b)"
    using min_read_ts_fold [of b "min_read_ts a"] by (simp add: min_read_ts_def)
qed

lemma min_read_ts_le: "(i, s) \<in> set a \<Longrightarrow> min_read_ts a \<le> read_ts s"
  by (induction a) (auto simp: min_le_iff_disj)

lemma min_read_ts_attained: "a = [] \<or> (\<exists>(i, s) \<in> set a. min_read_ts a = read_ts s)"
proof (induction a)
  case (Cons p a)
  then show ?case
  proof (cases "a = []")
    case True
    then show ?thesis by (cases p) simp
  next
    case False
    with Cons obtain i s where "(i, s) \<in> set a" "min_read_ts a = read_ts s" by auto
    then show ?thesis by (cases p) (auto simp: min_def intro!: bexI [of _ "(i, s)"])
  qed
qed simp

lemma sm_ok_new: "sm_ok sm_new"
  by (simp add: sm_ok_def sm_new_def)

lemma sm_ok_register:
  assumes "sm_ok m" and "hm_get (active m) (snap_id s) = None"
  shows "sm_ok (register m s)"
proof -
  have "hm_insert (snap_id s) s (active m) = active m @ [(snap_id s, s)]"
    using assms(2) by (intro hm_insert_fresh) (simp add: hm_get_None)
  moreover have "snap_id s \<notin> set (hm_keys (active m))" using assms(2) by (simp add: hm_get_None)
  ultimately show ?thesis
    using assms(1) by (auto simp: sm_ok_def register_def split: prod.splits)
qed

lemma sm_ok_release: "sm_ok m \<Longrightarrow> sm_ok (release m i)"
  by (auto simp: sm_ok_def release_def Let_def AList.delete_eq distinct_map_filter)

lemma oldest_le_active:
  "sm_ok m \<Longrightarrow> hm_get (active m) i = Some s \<Longrightarrow> oldest_active_timestamp m \<le> read_ts s"
  by (auto simp: sm_ok_def oldest_active_timestamp_def dest: map_of_SomeD intro: min_read_ts_le)

lemma register_get [simp]: "hm_get (active (register m s)) i = (if i = snap_id s then Some s else hm_get (active m) i)"
  by (simp add: register_def hm_simps)

lemma release_get [simp]: "hm_get (active (release m i)) j = (if j = i then None else hm_get (active m) j)"
  by (simp add: release_def Let_def hm_simps)

lemma maybe_run_store:
  "snd (snd (maybe_run g st m now)) = st \<or>
   snd (snd (maybe_run g st m now)) = fst (vs_gc st (oldest_active_timestamp m))"
  by (simp add: maybe_run_def gc_run_def Let_def split: prod.splits)

end
