(* ===== verification/Txn_Context.thy ===== *)
theory Txn_Context
  imports Snapshot_Manager
begin

text \<open>
  The state of one transaction (\<^verbatim>\<open>txn/context.rs\<close>): buffered writes with their key set and
  insert counts, the read set, and savepoints. The invariant ties the key set and the insert
  counts to the buffered writes and keeps the savepoints ordered; every mutator keeps it, and
  rolling back to a savepoint restores the buffer the savepoint was taken at.
\<close>

datatype 'j txn_write =
    TwInsert string u64 "'j row"
  | TwUpdate string u64 "'j row" "'j row"
  | TwDelete string u64 "'j row"

fun tw_table :: "'j txn_write \<Rightarrow> string" where
  "tw_table (TwInsert t r d) = t"
| "tw_table (TwUpdate t r old_d new_d) = t"
| "tw_table (TwDelete t r d) = t"

fun tw_row_id :: "'j txn_write \<Rightarrow> u64" where
  "tw_row_id (TwInsert t r d) = r"
| "tw_row_id (TwUpdate t r old_d new_d) = r"
| "tw_row_id (TwDelete t r d) = r"

fun is_tw_insert :: "'j txn_write \<Rightarrow> bool" where
  "is_tw_insert (TwInsert t r d) = True"
| "is_tw_insert w = False"

record read_record =
  rr_table :: string
  rr_row_id :: u64
  version_ts :: u64

record 'j txn_context =
  ctx_txn_id :: u64
  ctx_snapshot_ts :: u64
  read_set :: "read_record list"
  write_set :: "'j txn_write list"
  write_keys :: "(string \<times> u64) list"
  pending_insert_counts :: "(string, u64) hmap"
  insert_base_ids :: "(string, u64) hmap"
  tables_touched :: "string list"
  ctx_read_only :: bool
  finished :: bool
  savepoints :: "(string \<times> nat) list"

definition ctx_new :: "u64 \<Rightarrow> u64 \<Rightarrow> bool \<Rightarrow> 'j txn_context" where
  "ctx_new i ts ro =
     \<lparr>ctx_txn_id = i, ctx_snapshot_ts = ts, read_set = [], write_set = [], write_keys = [],
      pending_insert_counts = [], insert_base_ids = [], tables_touched = [], ctx_read_only = ro,
      finished = False, savepoints = []\<rparr>"

definition set_finished :: "'j txn_context \<Rightarrow> 'j txn_context" where
  "set_finished c = c\<lparr>finished := True\<rparr>"

definition record_read :: "'j txn_context \<Rightarrow> string \<Rightarrow> u64 \<Rightarrow> u64 \<Rightarrow> 'j txn_context" where
  "record_read c t r v = c
     \<lparr>read_set := read_set c @ [\<lparr>rr_table = t, rr_row_id = r, version_ts = v\<rparr>],
      tables_touched := hs_insert t (tables_touched c)\<rparr>"

definition buffer_insert :: "'j txn_context \<Rightarrow> string \<Rightarrow> u64 \<Rightarrow> 'j row \<Rightarrow> 'j txn_context result" where
  "buffer_insert c t r d =
     (if ctx_read_only c
      then Inl (IoError PermissionDenied ''Cannot write in a read-only transaction'')
      else if (t, r) \<in> set (write_keys c)
      then Inl (IoError AlreadyExists ''Row {} in table '{}' already written in this transaction'')
      else Inr (c
        \<lparr>write_keys := hs_insert (t, r) (write_keys c),
         pending_insert_counts := hm_upsert t 0 (\<lambda>n. n + 1) (pending_insert_counts c),
         tables_touched := hs_insert t (tables_touched c),
         write_set := write_set c @ [TwInsert t r d]\<rparr>))"

definition buffer_update ::
    "'j txn_context \<Rightarrow> string \<Rightarrow> u64 \<Rightarrow> 'j row \<Rightarrow> 'j row \<Rightarrow> 'j txn_context result" where
  "buffer_update c t r old_d new_d =
     (if ctx_read_only c
      then Inl (IoError PermissionDenied ''Cannot write in a read-only transaction'')
      else Inr (c
        \<lparr>write_keys := hs_insert (t, r) (write_keys c),
         tables_touched := hs_insert t (tables_touched c),
         write_set := write_set c @ [TwUpdate t r old_d new_d]\<rparr>))"

definition buffer_delete :: "'j txn_context \<Rightarrow> string \<Rightarrow> u64 \<Rightarrow> 'j row \<Rightarrow> 'j txn_context result" where
  "buffer_delete c t r old_d =
     (if ctx_read_only c
      then Inl (IoError PermissionDenied ''Cannot write in a read-only transaction'')
      else Inr (c
        \<lparr>write_keys := hs_insert (t, r) (write_keys c),
         tables_touched := hs_insert t (tables_touched c),
         write_set := write_set c @ [TwDelete t r old_d]\<rparr>))"

definition pending_insert_count :: "'j txn_context \<Rightarrow> string \<Rightarrow> u64" where
  "pending_insert_count c t = (case hm_get (pending_insert_counts c) t of None \<Rightarrow> 0 | Some n \<Rightarrow> n)"

definition insert_base_id :: "'j txn_context \<Rightarrow> string \<Rightarrow> u64 option" where
  "insert_base_id c t = hm_get (insert_base_ids c) t"

definition remember_insert_base_id :: "'j txn_context \<Rightarrow> string \<Rightarrow> u64 \<Rightarrow> 'j txn_context" where
  "remember_insert_base_id c t b =
     c\<lparr>insert_base_ids := hm_upsert t b (\<lambda>x. x) (insert_base_ids c)\<rparr>"

definition write_count :: "'j txn_context \<Rightarrow> nat" where
  "write_count c = length (write_set c)"

definition has_writes :: "'j txn_context \<Rightarrow> bool" where
  "has_writes c = (write_set c \<noteq> [])"

definition undo_operations :: "'j txn_context \<Rightarrow> 'j txn_write list" where
  "undo_operations c = rev (write_set c)"

definition take_write_set :: "'j txn_context \<Rightarrow> 'j txn_write list \<times> 'j txn_context" where
  "take_write_set c = (write_set c, c\<lparr>write_set := []\<rparr>)"

definition savepoint :: "'j txn_context \<Rightarrow> string \<Rightarrow> 'j txn_context" where
  "savepoint c n = c\<lparr>savepoints := savepoints c @ [(n, length (write_set c))]\<rparr>"

fun rebuild_loop :: "'j txn_write list \<Rightarrow> (string \<times> u64) list \<Rightarrow> (string, u64) hmap \<Rightarrow>
    (string \<times> u64) list \<times> (string, u64) hmap" where
  "rebuild_loop [] keys counts = (keys, counts)"
| "rebuild_loop (w # ws) keys counts =
     rebuild_loop ws (hs_insert (tw_table w, tw_row_id w) keys)
       (if is_tw_insert w then hm_upsert (tw_table w) 0 (\<lambda>n. n + 1) counts else counts)"

definition rebuild_write_indexes :: "'j txn_context \<Rightarrow> 'j txn_context" where
  "rebuild_write_indexes c =
     (let (keys, counts) = rebuild_loop (write_set c) [] []
      in c\<lparr>write_keys := keys, pending_insert_counts := counts\<rparr>)"

definition rollback_to_savepoint :: "'j txn_context \<Rightarrow> string \<Rightarrow> 'j txn_context result" where
  "rollback_to_savepoint c name =
     (case rposition (\<lambda>(n, l). n = name) (savepoints c) of
        Some pos \<Rightarrow>
          (let ws_len = snd (savepoints c ! pos);
               c1 = rebuild_write_indexes (c\<lparr>write_set := take ws_len (write_set c)\<rparr>)
           in Inr (c1\<lparr>savepoints := take pos (savepoints c1)\<rparr>))
      | None \<Rightarrow> Inl (IoError NotFound ''Savepoint '{}' not found''))"

definition release_savepoint :: "'j txn_context \<Rightarrow> string \<Rightarrow> 'j txn_context result" where
  "release_savepoint c name =
     (case rposition (\<lambda>(n, l). n = name) (savepoints c) of
        Some pos \<Rightarrow> Inr (c\<lparr>savepoints := vec_remove pos (savepoints c)\<rparr>)
      | None \<Rightarrow> Inl (IoError NotFound ''Savepoint '{}' not found''))"

definition ctx_clear :: "'j txn_context \<Rightarrow> 'j txn_context" where
  "ctx_clear c = c
     \<lparr>read_set := [], write_set := [], write_keys := [], pending_insert_counts := [],
      insert_base_ids := [], tables_touched := [], savepoints := [], finished := True\<rparr>"

section \<open>The operations callers run on a context\<close>

datatype 'j ctx_op =
    CRead string u64 u64
  | CInsert string u64 "'j row"
  | CUpdate string u64 "'j row" "'j row"
  | CDelete string u64 "'j row"
  | CBase string u64
  | CSavepoint string
  | CRollbackTo string
  | CRelease string

fun ctx_apply :: "'j txn_context \<Rightarrow> 'j ctx_op \<Rightarrow> 'j txn_context result" where
  "ctx_apply c (CRead t r v) = Inr (record_read c t r v)"
| "ctx_apply c (CInsert t r d) = buffer_insert c t r d"
| "ctx_apply c (CUpdate t r old_d new_d) = buffer_update c t r old_d new_d"
| "ctx_apply c (CDelete t r old_d) = buffer_delete c t r old_d"
| "ctx_apply c (CBase t b) = Inr (remember_insert_base_id c t b)"
| "ctx_apply c (CSavepoint n) = Inr (savepoint c n)"
| "ctx_apply c (CRollbackTo n) = rollback_to_savepoint c n"
| "ctx_apply c (CRelease n) = release_savepoint c n"

text \<open>A sequence of calls on one context; a failing call leaves the context as it was.\<close>

fun ctx_run :: "'j txn_context \<Rightarrow> 'j ctx_op list \<Rightarrow> 'j txn_context" where
  "ctx_run c [] = c"
| "ctx_run c (op # ops) =
     ctx_run (case ctx_apply c op of Inl e \<Rightarrow> c | Inr c' \<Rightarrow> c') ops"

section \<open>Invariant\<close>

definition tw_key :: "'j txn_write \<Rightarrow> string \<times> u64" where
  "tw_key w = (tw_table w, tw_row_id w)"

definition insert_tally :: "'j txn_write list \<Rightarrow> string \<Rightarrow> nat" where
  "insert_tally ws t = length (filter (\<lambda>w. is_tw_insert w \<and> tw_table w = t) ws)"

definition counts_ok :: "'j txn_write list \<Rightarrow> (string, u64) hmap \<Rightarrow> bool" where
  "counts_ok ws m \<longleftrightarrow>
     (\<forall>t. (case hm_get m t of None \<Rightarrow> 0 | Some n \<Rightarrow> n) = of_nat (insert_tally ws t))"

definition ctx_ok :: "'j txn_context \<Rightarrow> bool" where
  "ctx_ok c \<longleftrightarrow>
     distinct (write_keys c) \<and> set (write_keys c) = tw_key ` set (write_set c)
   \<and> counts_ok (write_set c) (pending_insert_counts c)
   \<and> sorted (map snd (savepoints c))
   \<and> (\<forall>sp \<in> set (savepoints c). snd sp \<le> length (write_set c))
   \<and> (ctx_read_only c \<longrightarrow> write_set c = [])"

lemma ctx_ok_new: "ctx_ok (ctx_new i ts ro)"
  by (simp add: ctx_ok_def ctx_new_def counts_ok_def insert_tally_def)

lemma counts_ok_upsert:
  assumes "counts_ok ws m"
  shows "counts_ok (ws @ [w])
    (if is_tw_insert w then hm_upsert (tw_table w) 0 (\<lambda>n. n + 1) m else m)"
  using assms
  by (auto simp: counts_ok_def insert_tally_def hm_get_upsert add.commute split: option.splits)

lemma rebuild_loop_spec:
  assumes "distinct keys" and "set keys = tw_key ` set ws0" and "counts_ok ws0 counts"
  shows "case rebuild_loop ws keys counts of (keys', counts') \<Rightarrow>
     distinct keys' \<and> set keys' = tw_key ` set (ws0 @ ws) \<and> counts_ok (ws0 @ ws) counts'"
  using assms
proof (induction ws arbitrary: ws0 keys counts)
  case (Cons w ws)
  have "distinct (hs_insert (tw_key w) keys)"
    and "set (hs_insert (tw_key w) keys) = tw_key ` set (ws0 @ [w])"
    using Cons.prems by auto
  from Cons.IH [OF this counts_ok_upsert [OF Cons.prems(3), of w]]
  show ?case by (simp add: tw_key_def)
qed simp

lemma rebuild_spec:
  "write_set (rebuild_write_indexes c) = write_set c"
  "savepoints (rebuild_write_indexes c) = savepoints c"
  "ctx_read_only (rebuild_write_indexes c) = ctx_read_only c"
  "ctx_txn_id (rebuild_write_indexes c) = ctx_txn_id c"
  "ctx_snapshot_ts (rebuild_write_indexes c) = ctx_snapshot_ts c"
  "distinct (write_keys (rebuild_write_indexes c))"
  "set (write_keys (rebuild_write_indexes c)) = tw_key ` set (write_set c)"
  "counts_ok (write_set c) (pending_insert_counts (rebuild_write_indexes c))"
  using rebuild_loop_spec [of "[]" "[]" "[]" "write_set c"]
  by (auto simp: rebuild_write_indexes_def counts_ok_def insert_tally_def split: prod.splits)

lemma savepoint_bound:
  assumes "sorted (map snd sps)" and "pos < length sps" and "sp \<in> set (take pos sps)"
  shows "snd sp \<le> snd (sps ! pos)"
proof -
  from assms(3) obtain i where i: "i < pos" "i < length sps" "sps ! i = sp"
    by (auto simp: in_set_conv_nth)
  then have "map snd sps ! i \<le> map snd sps ! pos"
    using assms(1,2) by (intro sorted_nth_mono) auto
  with i assms(2) show ?thesis by simp
qed

lemma rollback_ok:
  assumes "ctx_ok c" and "rollback_to_savepoint c n = Inr c'"
  shows "ctx_ok c'"
proof -
  from assms(2) obtain pos where pos: "rposition (\<lambda>(m, l). m = n) (savepoints c) = Some pos"
    and c': "c' = (rebuild_write_indexes (c\<lparr>write_set := take (snd (savepoints c ! pos)) (write_set c)\<rparr>))
        \<lparr>savepoints := take pos (savepoints c)\<rparr>"
    by (auto simp: rollback_to_savepoint_def Let_def rebuild_spec split: option.splits)
  let ?l = "snd (savepoints c ! pos)"
  have lt: "pos < length (savepoints c)" using rposition_Some(1) [OF pos] .
  then have "savepoints c ! pos \<in> set (savepoints c)" by simp
  with assms(1) have l: "?l \<le> length (write_set c)" by (simp add: ctx_ok_def)
  have "\<forall>sp \<in> set (take pos (savepoints c)). snd sp \<le> ?l"
    using assms(1) lt by (auto intro: savepoint_bound simp: ctx_ok_def)
  moreover have "sorted (take pos (map snd (savepoints c)))"
    using assms(1) by (intro sorted_take) (simp add: ctx_ok_def)
  moreover have "ctx_read_only c \<longrightarrow> write_set c = []" using assms(1) by (simp add: ctx_ok_def)
  ultimately show ?thesis
    using l rebuild_spec [of "c\<lparr>write_set := take ?l (write_set c)\<rparr>"]
    by (simp add: c' ctx_ok_def take_map min_def rebuild_spec(1))
qed

lemma release_ok:
  assumes "ctx_ok c" and "release_savepoint c n = Inr c'"
  shows "ctx_ok c'"
proof -
  from assms(2) obtain pos where c': "c' = c\<lparr>savepoints := vec_remove pos (savepoints c)\<rparr>"
    by (auto simp: release_savepoint_def split: option.splits)
  with assms(1) set_vec_remove [of pos "savepoints c"] show ?thesis
    by (auto simp: c' ctx_ok_def map_vec_remove sorted_vec_remove)
qed

lemma ctx_ok_frame:
  "ctx_ok c \<Longrightarrow> ctx_ok (c\<lparr>insert_base_ids := b\<rparr>)"
  "ctx_ok c \<Longrightarrow> ctx_ok (c\<lparr>read_set := rs, tables_touched := ts\<rparr>)"
  by (simp_all add: ctx_ok_def)

text \<open>Appending one write to the buffer, with the key set and the counts brought along.\<close>

lemma ctx_ok_append:
  assumes "ctx_ok c" and "\<not> ctx_read_only c"
    and "write_set c' = write_set c @ [w]"
    and "write_keys c' = hs_insert (tw_key w) (write_keys c)"
    and "pending_insert_counts c' =
      (if is_tw_insert w then hm_upsert (tw_table w) 0 (\<lambda>n. n + 1) (pending_insert_counts c)
       else pending_insert_counts c)"
    and "savepoints c' = savepoints c" and "ctx_read_only c' = ctx_read_only c"
  shows "ctx_ok c'"
proof -
  have "counts_ok (write_set c') (pending_insert_counts c')"
    unfolding assms(3,5) using assms(1) by (intro counts_ok_upsert) (simp add: ctx_ok_def)
  moreover have "\<forall>sp \<in> set (savepoints c). snd sp \<le> Suc (length (write_set c))"
    using assms(1) le_SucI unfolding ctx_ok_def by blast
  ultimately show ?thesis
    using assms by (simp add: ctx_ok_def)
qed

lemma ctx_apply_ok:
  assumes "ctx_ok c" and "ctx_apply c op = Inr c'"
  shows "ctx_ok c'"
proof (cases op)
  case (CInsert t r d)
  with assms show ?thesis
    by - (rule ctx_ok_append [of c _ "TwInsert t r d"],
      auto simp: buffer_insert_def tw_key_def split: if_splits)
next
  case (CUpdate t r od nd)
  with assms show ?thesis
    by - (rule ctx_ok_append [of c _ "TwUpdate t r od nd"],
      auto simp: buffer_update_def tw_key_def split: if_splits)
next
  case (CDelete t r od)
  with assms show ?thesis
    by - (rule ctx_ok_append [of c _ "TwDelete t r od"],
      auto simp: buffer_delete_def tw_key_def split: if_splits)
next
  case (CSavepoint n)
  with assms show ?thesis by (fastforce simp: ctx_ok_def savepoint_def sorted_append)
next
  case (CRead t r v)
  with assms show ?thesis by (auto simp: record_read_def ctx_ok_frame)
next
  case (CBase t b)
  with assms show ?thesis by (auto simp: remember_insert_base_id_def ctx_ok_frame)
next
  case (CRollbackTo n)
  with assms show ?thesis by (simp add: rollback_ok [of c n])
next
  case (CRelease n)
  with assms show ?thesis by (simp add: release_ok [of c n])
qed

lemma ctx_apply_frame:
  "ctx_apply c op = Inr c' \<Longrightarrow>
     ctx_txn_id c' = ctx_txn_id c \<and> ctx_snapshot_ts c' = ctx_snapshot_ts c
     \<and> ctx_read_only c' = ctx_read_only c \<and> finished c' = finished c"
  by (cases op)
     (auto simp: record_read_def buffer_insert_def buffer_update_def buffer_delete_def
       remember_insert_base_id_def savepoint_def rollback_to_savepoint_def release_savepoint_def
       Let_def rebuild_write_indexes_def split: if_splits option.splits prod.splits)

lemma ctx_run_frame: "ctx_read_only (ctx_run c ops) = ctx_read_only c"
  by (induction ops arbitrary: c) (auto dest: ctx_apply_frame split: sum.splits)

lemma ctx_run_ok: "ctx_ok c \<Longrightarrow> ctx_ok (ctx_run c ops)"
  by (induction ops arbitrary: c) (auto simp: ctx_apply_ok split: sum.splits)

section \<open>Savepoints\<close>

text \<open>
  Work done between a savepoint and the rollback to it: anything but another savepoint of the
  same name, a rollback to a savepoint or the release of one.
\<close>

fun op_inner :: "string \<Rightarrow> 'j ctx_op \<Rightarrow> bool" where
  "op_inner n (CSavepoint m) = (m \<noteq> n)"
| "op_inner n (CRollbackTo m) = False"
| "op_inner n (CRelease m) = False"
| "op_inner n op = True"

text \<open>The state reached from a savepoint: the buffer it had, extended, with savepoints on top.\<close>

definition above :: "string \<Rightarrow> 'j txn_context \<Rightarrow> 'j txn_context \<Rightarrow> bool" where
  "above n c0 c \<longleftrightarrow>
     take (length (write_set c0)) (write_set c) = write_set c0
   \<and> (\<exists>sps. savepoints c = savepoints c0 @ (n, length (write_set c0)) # sps
        \<and> (\<forall>sp \<in> set sps. fst sp \<noteq> n))"

lemma above_step:
  assumes "above n c0 c" and "op_inner n op" and "ctx_apply c op = Inr c'"
  shows "above n c0 c'"
proof -
  have len: "length (write_set c0) \<le> length (write_set c)"
    using assms(1) by (metis above_def length_take min.cobounded1 min.absorb_iff2 nat_le_linear take_all)
  show ?thesis
  proof (cases op)
    case (CSavepoint m)
    with assms show ?thesis by (auto simp: above_def savepoint_def)
  qed (use assms len in \<open>auto simp: above_def record_read_def buffer_insert_def buffer_update_def
        buffer_delete_def remember_insert_base_id_def split: if_splits\<close>)
qed

lemma above_run:
  "above n c0 c \<Longrightarrow> list_all (op_inner n) ops \<Longrightarrow> above n c0 (ctx_run c ops)"
  by (induction ops arbitrary: c) (auto simp: above_step split: sum.splits)

lemma rposition_above:
  assumes "\<forall>sp \<in> set sps. fst sp \<noteq> n"
  shows "rposition (\<lambda>(m, l). m = n) (sps0 @ (n, k) # sps) = Some (length sps0)"
proof -
  have "position (\<lambda>(m, l). m = n) (rev sps @ (n, k) # ys) = Some (length sps)" for ys
    using assms by (induction sps rule: rev_induct) (auto split: prod.splits)
  then show ?thesis by (simp add: rposition_def)
qed

lemma rollback_above:
  assumes "above n c0 c"
  shows "\<exists>c'. rollback_to_savepoint c n = Inr c' \<and> write_set c' = write_set c0
    \<and> savepoints c' = savepoints c0"
proof -
  from assms obtain sps where
    sps: "savepoints c = savepoints c0 @ (n, length (write_set c0)) # sps" "\<forall>sp \<in> set sps. fst sp \<noteq> n"
    and t: "take (length (write_set c0)) (write_set c) = write_set c0"
    by (auto simp: above_def)
  have "rposition (\<lambda>(m, l). m = n) (savepoints c) = Some (length (savepoints c0))"
    unfolding sps(1) by (rule rposition_above [OF sps(2)])
  then show ?thesis
    by (simp add: rollback_to_savepoint_def Let_def rebuild_spec sps(1) t)
qed

lemma ctx_ok_counts:
  "ctx_ok c \<Longrightarrow> pending_insert_count c t = of_nat (insert_tally (write_set c) t)"
  by (simp add: ctx_ok_def counts_ok_def pending_insert_count_def)

lemma ctx_ok_keys: "ctx_ok c \<Longrightarrow> set (write_keys c) = tw_key ` set (write_set c)"
  by (simp add: ctx_ok_def)

section \<open>Properties\<close>

text \<open>
  C9. Any sequence of operations on the buffer of a transaction, from its creation on, keeps the
  context consistent: the key set is exactly the rows written, the insert counts are the number of
  buffered inserts per table, savepoints are ordered and inside the buffer, and a read-only context
  buffers nothing. When \<open>take_write_set\<close> hands the writes to the commit, the keys and counts that
  stay behind describe exactly the writes handed over; finishing keeps the context consistent, and
  clearing it, before or after that, leaves a consistent empty one.
\<close>

theorem context_invariant:
  "let c = ctx_run (ctx_new i ts ro) ops; (ws, c') = take_write_set c
   in ctx_ok c \<and> ctx_ok (set_finished c) \<and> ctx_ok (ctx_clear c) \<and> ctx_ok (ctx_clear c')
    \<and> ws = write_set c \<and> write_set c' = [] \<and> distinct (write_keys c') \<and> set (write_keys c') = tw_key ` set ws
    \<and> counts_ok ws (pending_insert_counts c') \<and> (ro \<longrightarrow> ws = [])"
proof -
  have ok: "ctx_ok (ctx_run (ctx_new i ts ro) ops)" by (rule ctx_run_ok [OF ctx_ok_new])
  moreover have "ctx_read_only (ctx_run (ctx_new i ts ro) ops) = ro"
    by (simp add: ctx_run_frame) (simp add: ctx_new_def)
  ultimately show ?thesis
    by (auto simp: Let_def take_write_set_def set_finished_def ctx_clear_def ctx_ok_def counts_ok_def insert_tally_def)
qed

theorem context_invariant_witness:
  "let c = ctx_run (ctx_new 1 5 False :: unit txn_context) [CInsert ''t'' 1 [], CSavepoint ''s'', CDelete ''t'' 2 [], CRollbackTo ''s''];
       (ws, c') = take_write_set c
   in ws = [TwInsert ''t'' 1 []] \<and> set (write_keys c') = tw_key ` set ws"
proof -
  let ?ops = "[CInsert ''t'' 1 [], CSavepoint ''s'', CDelete ''t'' 2 [], CRollbackTo ''s''] :: unit ctx_op list"
  have "write_set (ctx_run (ctx_new 1 5 False) ?ops) = [TwInsert ''t'' 1 []]" by code_simp
  then show ?thesis
    using context_invariant [of 1 5 False ?ops] by (simp add: Let_def take_write_set_def)
qed

text \<open>
  C10. Rolling back to a savepoint undoes everything since: after any reads, writes and further
  savepoints of other names, with no rollback to and no release of a savepoint in between,
  \<open>ROLLBACK TO\<close> succeeds and gives back the buffered writes, the written
  rows, the insert counts and the savepoint stack of the moment the savepoint was set.
\<close>

theorem rollback_to_savepoint_restores:
  assumes "ctx_ok c" and "list_all (op_inner n) ops"
  shows "\<exists>c'. rollback_to_savepoint (ctx_run (savepoint c n) ops) n = Inr c'
    \<and> write_set c' = write_set c \<and> set (write_keys c') = set (write_keys c)
    \<and> (\<forall>t. pending_insert_count c' t = pending_insert_count c t)
    \<and> savepoints c' = savepoints c"
proof -
  have "above n c (savepoint c n)" by (simp add: above_def savepoint_def)
  then obtain c' where c': "rollback_to_savepoint (ctx_run (savepoint c n) ops) n = Inr c'"
      "write_set c' = write_set c" "savepoints c' = savepoints c"
    using rollback_above above_run assms(2) by blast
  have "ctx_ok (savepoint c n)" using assms(1) ctx_apply_ok [of c "CSavepoint n"] by simp
  then have "ctx_ok c'" using rollback_ok [OF ctx_run_ok c'(1)] by simp
  then show ?thesis
    using c' assms(1) by (simp add: ctx_ok_keys ctx_ok_counts)
qed

lemma rollback_to_savepoint_restores_witness:
  "\<exists>c'. rollback_to_savepoint (ctx_run (savepoint (ctx_new 1 1 False) ''s'')
       [CInsert ''t'' 1 (sample_row 1), CSavepoint ''u'', CDelete ''t'' 2 []]) ''s'' = Inr c'
     \<and> write_set c' = []"
  using rollback_to_savepoint_restores [of "ctx_new 1 1 False" "''s''"
      "[CInsert ''t'' 1 (sample_row 1), CSavepoint ''u'', CDelete ''t'' 2 []]"]
  by (auto simp: ctx_ok_new) (simp add: ctx_new_def)

end
