(* ===== verification/Txn_Manager.thy ===== *)
theory Txn_Manager
  imports Conflict_Detector
begin

text \<open>
  The transaction manager (\<^verbatim>\<open>txn/manager.rs\<close>): begin, buffered operations, two-phase commit,
  rollback and timeouts, over the snapshot manager, the conflict detector and one version store
  per table. The process-wide counters are fields of the state, and the monotonic clock
  (milliseconds) is an argument of the operations that read it.
\<close>

section \<open>State\<close>

datatype txn_status = Active | Validating | Committed | Aborted

record 'j prepared_commit =
  pc_txn_id :: u64
  pc_writes :: "'j txn_write list"

record 'j active_txn =
  at_context :: "'j txn_context"
  at_snapshot :: snapshot
  status :: txn_status
  last_activity :: u64

record 'j txn_manager =
  active_txns :: "(u64, 'j active_txn) hmap"
  snapshots :: snapshot_manager
  detector :: conflict_detector
  version_stores :: "(string, 'j version_store) hmap"
  gc :: collector
  total_committed :: u64
  total_aborted :: u64
  txn_timeout :: u64
  next_txn :: u64
  next_snap :: u64
  global_ts :: u64

definition tm_new :: "'j txn_manager" where
  "tm_new =
     \<lparr>active_txns = [], snapshots = sm_new, detector = cd_new, version_stores = [], gc = gc_new,
      total_committed = 0, total_aborted = 0, txn_timeout = 30000,
      next_txn = 1, next_snap = 1, global_ts = 1\<rparr>"

section \<open>Version stores\<close>

definition get_version_store :: "'j txn_manager \<Rightarrow> string \<Rightarrow> 'j version_store \<times> 'j txn_manager" where
  "get_version_store m t =
     (case hm_get (version_stores m) t of
        Some st \<Rightarrow> (st, m)
      | None \<Rightarrow> (vs_new, m\<lparr>version_stores := hm_insert t vs_new (version_stores m)\<rparr>))"

text \<open>\<open>get_version_store\<close> followed by a change of the store it returns.\<close>

definition on_store :: "string \<Rightarrow> ('j version_store \<Rightarrow> 'j version_store) \<Rightarrow> 'j txn_manager \<Rightarrow>
    'j txn_manager" where
  "on_store t f m =
     (let (st, m') = get_version_store m t
      in m'\<lparr>version_stores := hm_insert t (f st) (version_stores m')\<rparr>)"

definition prune_empty_version_stores :: "'j txn_manager \<Rightarrow> 'j txn_manager" where
  "prune_empty_version_stores m =
     m\<lparr>version_stores := hm_retain (\<lambda>t st. 0 < row_count st \<or> 0 < total_versions st) (version_stores m)\<rparr>"

definition version_store_count :: "'j txn_manager \<Rightarrow> nat" where
  "version_store_count m = length (version_stores m)"

text \<open>Publishing one committed write: the version store learns the old image of an untracked row.\<close>

definition before_image :: "u64 \<Rightarrow> 'j row \<Rightarrow> 'j version_store \<Rightarrow> 'j version_store" where
  "before_image r old_d st =
     (if vs_read_latest st r = None \<and> old_d \<noteq> [] then vs_insert st r 1 old_d else st)"

fun write_store :: "u64 \<Rightarrow> 'j txn_write \<Rightarrow> 'j version_store \<Rightarrow> 'j version_store" where
  "write_store ts (TwInsert t r d) st = vs_insert st r ts d"
| "write_store ts (TwDelete t r old_d) st =
     (let st1 = before_image r old_d st
      in case vs_delete st1 r ts of Inl e \<Rightarrow> st1 | Inr st2 \<Rightarrow> st2)"
| "write_store ts (TwUpdate t r old_d new_d) st =
     (let st1 = before_image r old_d st
      in case vs_update st1 r ts new_d of Inl e \<Rightarrow> st1 | Inr st2 \<Rightarrow> st2)"

definition apply_write :: "u64 \<Rightarrow> 'j txn_write \<Rightarrow> 'j txn_manager \<Rightarrow> 'j txn_manager" where
  "apply_write ts w m = on_store (tw_table w) (write_store ts w) m"

text \<open>The collector visits every store in turn.\<close>

fun gc_stores :: "collector \<Rightarrow> snapshot_manager \<Rightarrow> u64 \<Rightarrow> (string, 'j version_store) hmap \<Rightarrow>
    collector \<times> (string, 'j version_store) hmap" where
  "gc_stores g sm now [] = (g, [])"
| "gc_stores g sm now ((t, st) # rest) =
     (let (_, g1, st1) = maybe_run g st sm now;
          (g2, rest1) = gc_stores g1 sm now rest
      in (g2, (t, st1) # rest1))"

section \<open>Life cycle\<close>

text \<open>Aborting one entry: intents, entry, snapshot and counter.\<close>

definition abort_txn :: "u64 \<Rightarrow> 'j active_txn \<Rightarrow> 'j txn_manager \<Rightarrow> 'j txn_manager" where
  "abort_txn x t m = m
     \<lparr>detector := record_abort (detector m) (set_finished (at_context t)),
      active_txns := hm_remove x (active_txns m),
      snapshots := release (snapshots m) (snap_id (at_snapshot t)),
      total_aborted := total_aborted m + 1\<rparr>"

definition idle :: "'j active_txn \<Rightarrow> u64 \<Rightarrow> u64" where
  "idle t now = (if last_activity t \<le> now then now - last_activity t else 0)"

definition abort_if_present :: "u64 \<Rightarrow> 'j txn_manager \<Rightarrow> 'j txn_manager" where
  "abort_if_present x m =
     (case hm_get (active_txns m) x of Some t \<Rightarrow> abort_txn x t m | None \<Rightarrow> m)"

definition abort_timed_out_txns :: "'j txn_manager \<Rightarrow> u64 \<Rightarrow> 'j txn_manager" where
  "abort_timed_out_txns m now =
     fold abort_if_present
       (map fst (filter (\<lambda>(x, t). status t = Active \<and> txn_timeout m < idle t now) (active_txns m))) m"

definition begin_txn :: "'j txn_manager \<Rightarrow> u64 \<Rightarrow> u64 \<times> 'j txn_manager" where
  "begin_txn m now =
     (let x = next_txn m;
          (s, sm, g) = create_rw_snapshot (snapshots m) (global_ts m) (next_snap m);
          entry = \<lparr>at_context = ctx_new x (read_ts s) False, at_snapshot = s, status = Active,
                   last_activity = now\<rparr>;
          m1 = m\<lparr>next_txn := x + 1, next_snap := next_snap m + 1, global_ts := g, snapshots := sm,
                 active_txns := hm_insert x entry (active_txns m)\<rparr>
      in (x, abort_timed_out_txns m1 now))"

text \<open>
  \<open>begin\<close> is not one atomic step: it draws its identifiers and its timestamp first, registers
  the snapshot and the entry afterwards, and aborts the idle transactions last.
\<close>

definition begin_draw :: "'j txn_manager \<Rightarrow> (u64 \<times> snapshot) \<times> 'j txn_manager" where
  "begin_draw m =
     (let (ts, g) = next_timestamp (global_ts m)
      in ((next_txn m, \<lparr>snap_id = next_snap m, read_ts = ts, snap_read_only = False\<rparr>),
          m\<lparr>next_txn := next_txn m + 1, next_snap := next_snap m + 1, global_ts := g\<rparr>))"

definition begin_enter :: "'j txn_manager \<Rightarrow> u64 \<times> snapshot \<Rightarrow> u64 \<Rightarrow> 'j txn_manager" where
  "begin_enter m d now =
     (case d of (x, s) \<Rightarrow>
        let entry = \<lparr>at_context = ctx_new x (read_ts s) (snap_read_only s), at_snapshot = s,
                     status = Active, last_activity = now\<rparr>
        in m\<lparr>snapshots := register (snapshots m) s,
             active_txns := hm_insert x entry (active_txns m)\<rparr>)"

lemma begin_txn_split:
  "begin_txn m now =
     (case begin_draw m of (d, m1) \<Rightarrow> (fst d, abort_timed_out_txns (begin_enter m1 d now) now))"
  by (simp add: begin_txn_def begin_draw_def begin_enter_def create_rw_snapshot_def next_timestamp_def
      Let_def)

definition begin_read_only :: "'j txn_manager \<Rightarrow> u64 \<Rightarrow> u64 \<times> 'j txn_manager" where
  "begin_read_only m now =
     (let x = next_txn m;
          (s, sm) = create_snapshot (snapshots m) (global_ts m) (next_snap m);
          entry = \<lparr>at_context = ctx_new x (read_ts s) True, at_snapshot = s, status = Active,
                   last_activity = now\<rparr>
      in (x, m\<lparr>next_txn := x + 1, next_snap := next_snap m + 1, snapshots := sm,
               active_txns := hm_insert x entry (active_txns m)\<rparr>))"

definition begin_read_only_draw :: "'j txn_manager \<Rightarrow> (u64 \<times> snapshot) \<times> 'j txn_manager" where
  "begin_read_only_draw m =
     ((next_txn m, \<lparr>snap_id = next_snap m, read_ts = current_timestamp (global_ts m), snap_read_only = True\<rparr>),
      m\<lparr>next_txn := next_txn m + 1, next_snap := next_snap m + 1\<rparr>)"

lemma begin_read_only_split:
  "begin_read_only m now =
     (case begin_read_only_draw m of (d, m1) \<Rightarrow> (fst d, begin_enter m1 d now))"
  by (simp add: begin_read_only_def begin_read_only_draw_def begin_enter_def create_snapshot_def Let_def)

definition txn_not_found :: failure where
  "txn_not_found = IoError NotFound ''Transaction {} not found''"

definition prepare_commit :: "'j txn_manager \<Rightarrow> u64 \<Rightarrow> 'j prepared_commit result \<times> 'j txn_manager" where
  "prepare_commit m x =
     (case hm_get (active_txns m) x of
        None \<Rightarrow> (Inl txn_not_found, m)
      | Some t \<Rightarrow>
          if status t \<noteq> Active
          then (Inl (IoError InvalidInput ''Transaction {} is not active (status: {:?})''), m)
          else
            let c = at_context t;
                prepared = (\<lambda>d. let (ws, c1) = take_write_set c
                  in (Inr \<lparr>pc_txn_id = x, pc_writes = ws\<rparr>,
                      m\<lparr>detector := d,
                        active_txns := hm_insert x (t\<lparr>status := Validating, at_context := c1\<rparr>)
                          (active_txns m)\<rparr>))
            in if has_writes c
               then let v = validate (detector m) c
                    in if \<not> cr_is_ok v
                       then (case to_io_result v of
                               Inl e \<Rightarrow> (Inl e, abort_txn x t m)
                             | Inr u \<Rightarrow> (Inl Panic, abort_txn x t m))
                       else let (i, d) = acquire_write_intent (detector m) c
                            in if \<not> cr_is_ok i
                               then (case to_io_result i of
                                       Inl e \<Rightarrow> (Inl e, abort_txn x t m)
                                     | Inr u \<Rightarrow> (Inl Panic, abort_txn x t m))
                               else prepared d
               else prepared (detector m))"

text \<open>
  \<open>finalize_commit\<close> in its two stages: under the lock on \<open>active_txns\<close>, and after it is
  dropped.
\<close>

definition publish_commit :: "'j prepared_commit \<Rightarrow> 'j active_txn \<Rightarrow> 'j txn_manager \<Rightarrow> 'j txn_manager" where
  "publish_commit p t m =
     (let (commit_ts, g) = next_timestamp (global_ts m)
      in m\<lparr>global_ts := g,
           detector := record_prepared_commit (detector m) (pc_txn_id p) (pc_writes p)
             (write_keys (at_context t)) commit_ts,
           active_txns := hm_remove (pc_txn_id p) (active_txns m)\<rparr>)"

definition trim_log :: "conflict_detector \<Rightarrow> u64 \<Rightarrow> conflict_detector" where
  "trim_log d oldest =
     (if oldest \<noteq> u64_max then advance_watermark d oldest
      else clear_committed_writes (advance_watermark d u64_max))"

definition settle_commit :: "'j txn_write list \<Rightarrow> u64 \<Rightarrow> u64 \<Rightarrow> u64 \<Rightarrow> 'j txn_manager \<Rightarrow> 'j txn_manager" where
  "settle_commit ws commit_ts i now m =
     (let m1 = fold (apply_write commit_ts) ws m;
          m2 = m1\<lparr>snapshots := release (snapshots m1) i,
                  total_committed := total_committed m1 + 1\<rparr>;
          m3 = m2\<lparr>detector := trim_log (detector m2) (oldest_active_timestamp (snapshots m2))\<rparr>;
          (g, stores) = gc_stores (gc m3) (snapshots m3) now (version_stores m3)
      in prune_empty_version_stores (m3\<lparr>gc := g, version_stores := stores\<rparr>))"

definition finalize_commit ::
    "'j txn_manager \<Rightarrow> 'j prepared_commit \<Rightarrow> u64 \<Rightarrow> 'j txn_write list result \<times> 'j txn_manager" where
  "finalize_commit m p now =
     (case hm_get (active_txns m) (pc_txn_id p) of
        None \<Rightarrow> (Inl txn_not_found, m)
      | Some t \<Rightarrow>
          if status t \<noteq> Validating
          then (Inl (IoError InvalidInput ''Transaction {} is not prepared (status: {:?})''), m)
          else (Inr (pc_writes p),
                settle_commit (pc_writes p) (global_ts m) (snap_id (at_snapshot t)) now
                  (publish_commit p t m)))"

definition commit_with_writes ::
    "'j txn_manager \<Rightarrow> u64 \<Rightarrow> u64 \<Rightarrow> 'j txn_write list result \<times> 'j txn_manager" where
  "commit_with_writes m x now =
     (case prepare_commit m x of
        (Inl e, m1) \<Rightarrow> (Inl e, m1)
      | (Inr p, m1) \<Rightarrow> finalize_commit m1 p now)"

definition commit :: "'j txn_manager \<Rightarrow> u64 \<Rightarrow> u64 \<Rightarrow> unit result \<times> 'j txn_manager" where
  "commit m x now =
     (case commit_with_writes m x now of
        (Inl e, m1) \<Rightarrow> (Inl e, m1)
      | (Inr ws, m1) \<Rightarrow> (Inr (), m1))"

definition rollback :: "'j txn_manager \<Rightarrow> u64 \<Rightarrow> unit result \<times> 'j txn_manager" where
  "rollback m x =
     (case hm_get (active_txns m) x of
        None \<Rightarrow> (Inl txn_not_found, m)
      | Some t \<Rightarrow> (Inr (), abort_txn x t m))"

section \<open>Context access\<close>

definition get_snapshot_ts :: "'j txn_manager \<Rightarrow> u64 \<Rightarrow> u64 result" where
  "get_snapshot_ts m x =
     (case hm_get (active_txns m) x of
        None \<Rightarrow> Inl txn_not_found
      | Some t \<Rightarrow> Inr (read_ts (at_snapshot t)))"

definition tm_is_visible :: "'j txn_manager \<Rightarrow> u64 \<Rightarrow> string \<Rightarrow> u64 \<Rightarrow> bool result \<times> 'j txn_manager" where
  "tm_is_visible m x t r =
     (case get_snapshot_ts m x of
        Inl e \<Rightarrow> (Inl e, m)
      | Inr ts \<Rightarrow> let (st, m1) = get_version_store m t in (Inr (vs_exists st r ts), m1))"

definition read_versioned ::
    "'j txn_manager \<Rightarrow> u64 \<Rightarrow> string \<Rightarrow> u64 \<Rightarrow> 'j row option result \<times> 'j txn_manager" where
  "read_versioned m x t r =
     (case get_snapshot_ts m x of
        Inl e \<Rightarrow> (Inl e, m)
      | Inr ts \<Rightarrow> let (st, m1) = get_version_store m t in (Inr (vs_read st r ts), m1))"

text \<open>The closure is one of the context's operations; its effect on the context is kept.\<close>

definition with_context ::
    "'j txn_manager \<Rightarrow> u64 \<Rightarrow> 'j ctx_op \<Rightarrow> u64 \<Rightarrow> unit result \<times> 'j txn_manager" where
  "with_context m x op now =
     (case hm_get (active_txns m) x of
        None \<Rightarrow> (Inl txn_not_found, m)
      | Some t \<Rightarrow>
          if status t \<noteq> Active then (Inl (IoError InvalidInput ''Transaction is not active''), m)
          else if txn_timeout m < idle t now
          then (Inl (IoError TimedOut ''Transaction {} timed out (idle > {:?})''), abort_txn x t m)
          else case ctx_apply (at_context t) op of
                 Inl e \<Rightarrow> (Inl e, m\<lparr>active_txns := hm_insert x (t\<lparr>last_activity := now\<rparr>) (active_txns m)\<rparr>)
               | Inr c \<Rightarrow> (Inr (), m\<lparr>active_txns :=
                   hm_insert x (t\<lparr>last_activity := now, at_context := c\<rparr>) (active_txns m)\<rparr>))"

section \<open>Monitoring\<close>

definition active_count :: "'j txn_manager \<Rightarrow> nat" where
  "active_count m = length (active_txns m)"

definition is_live_txn :: "'j txn_manager \<Rightarrow> u64 \<Rightarrow> bool" where
  "is_live_txn m x = hm_contains (active_txns m) x"

definition is_active :: "'j txn_manager \<Rightarrow> u64 \<Rightarrow> bool" where
  "is_active m x = (case hm_get (active_txns m) x of None \<Rightarrow> False | Some t \<Rightarrow> status t = Active)"

definition is_timed_out :: "'j txn_manager \<Rightarrow> u64 \<Rightarrow> u64 \<Rightarrow> bool" where
  "is_timed_out m x now =
     (case hm_get (active_txns m) x of None \<Rightarrow> False | Some t \<Rightarrow> txn_timeout m < idle t now)"

end
