(* ===== verification/Txn_Safety.thy ===== *)
theory Txn_Safety
  imports Txn_Manager
begin

text \<open>
  The transaction manager as a transition system: any number of sessions call its operations in
  any order, one call after the other. The code holds the lock on \<open>active_txns\<close> throughout
  \<open>prepare_commit\<close> and \<open>with_context\<close> but not throughout \<open>begin\<close> and \<open>finalize_commit\<close>, whose stages
  the theory \<open>Txn_Interleaving\<close> takes apart. The state adds the prepared commits the sessions
  hold and a history of the commits. The invariant has two parts: \<open>conflict_ok\<close> relates the entries,
  snapshots, locks and log, \<open>stores_ok\<close> is about the version stores.
\<close>

section \<open>The transition system\<close>

record commit_record =
  h_txn :: u64
  h_snap :: u64
  h_ts :: u64
  h_keys :: "(string \<times> u64) list"

record 'j world =
  mgr :: "'j txn_manager"
  prepared :: "'j prepared_commit list"
  history :: "commit_record list"

definition world_new :: "'j world" where
  "world_new = \<lparr>mgr = tm_new, prepared = [], history = []\<rparr>"

definition history_entry :: "'j txn_manager \<Rightarrow> 'j prepared_commit \<Rightarrow> commit_record list" where
  "history_entry m p =
     (case hm_get (active_txns m) (pc_txn_id p) of
        None \<Rightarrow> []
      | Some t \<Rightarrow> if status t = Validating
          then [\<lparr>h_txn = pc_txn_id p, h_snap = read_ts (at_snapshot t), h_ts = global_ts m,
                 h_keys = map tw_key (pc_writes p)\<rparr>]
          else [])"

inductive tm_step :: "'j world \<Rightarrow> 'j world \<Rightarrow> bool" where
  begin_rw: "tm_step w (w\<lparr>mgr := snd (begin_txn (mgr w) now)\<rparr>)"
| begin_ro: "tm_step w (w\<lparr>mgr := snd (begin_read_only (mgr w) now)\<rparr>)"
| on_context: "tm_step w (w\<lparr>mgr := snd (with_context (mgr w) x op now)\<rparr>)"
| prepare_ok: "prepare_commit (mgr w) x = (Inr p, m) \<Longrightarrow>
    tm_step w (w\<lparr>mgr := m, prepared := p # prepared w\<rparr>)"
| prepare_err: "prepare_commit (mgr w) x = (Inl e, m) \<Longrightarrow> tm_step w (w\<lparr>mgr := m\<rparr>)"
| finalize: "p \<in> set (prepared w) \<Longrightarrow>
    tm_step w (w\<lparr>mgr := snd (finalize_commit (mgr w) p now), prepared := remove1 p (prepared w),
      history := history w @ history_entry (mgr w) p\<rparr>)"
| roll_back: "tm_step w (w\<lparr>mgr := snd (rollback (mgr w) x)\<rparr>)"
| versioned: "tm_step w (w\<lparr>mgr := snd (read_versioned (mgr w) x t r)\<rparr>)"

text \<open>States reachable in \<open>n\<close> calls.\<close>

inductive reachable :: "nat \<Rightarrow> 'j world \<Rightarrow> bool" where
  start: "reachable 0 world_new"
| step: "reachable n w \<Longrightarrow> tm_step w w' \<Longrightarrow> reachable (Suc n) w'"

text \<open>The counters do not wrap in fewer calls than this.\<close>

definition call_bound :: nat where
  "call_bound = 2 ^ 64 - 4"

section \<open>Invariant\<close>

definition keys_of :: "'j active_txn \<Rightarrow> (string \<times> u64) set" where
  "keys_of t = set (write_keys (at_context t))"

definition entry_ok :: "'j txn_manager \<Rightarrow> u64 \<Rightarrow> 'j active_txn \<Rightarrow> bool" where
  "entry_ok m x t \<longleftrightarrow>
     ctx_txn_id (at_context t) = x \<and> ctx_snapshot_ts (at_context t) = read_ts (at_snapshot t)
   \<and> hm_get (active (snapshots m)) (snap_id (at_snapshot t)) = Some (at_snapshot t)
   \<and> distinct (write_keys (at_context t))
   \<and> x < next_txn m
   \<and> (status t = Active \<and> ctx_ok (at_context t)
      \<or> status t = Validating \<and> (\<forall>k \<in> keys_of t. hm_get (active_writes (detector m)) k = Some x))"

definition entries_ok :: "'j txn_manager \<Rightarrow> bool" where
  "entries_ok m \<longleftrightarrow> hm_wf (active_txns m)
   \<and> (\<forall>x t. hm_get (active_txns m) x = Some t \<longrightarrow> entry_ok m x t)
   \<and> (\<forall>x y t u. hm_get (active_txns m) x = Some t \<longrightarrow> hm_get (active_txns m) y = Some u \<longrightarrow>
        snap_id (at_snapshot t) = snap_id (at_snapshot u) \<longrightarrow> x = y)"

definition snapshots_ok :: "'j txn_manager \<Rightarrow> bool" where
  "snapshots_ok m \<longleftrightarrow> sm_ok (snapshots m)
   \<and> (\<forall>i s. hm_get (active (snapshots m)) i = Some s \<longrightarrow> i < next_snap m \<and> 1 \<le> read_ts s \<and> read_ts s \<le> global_ts m
        \<and> (\<not> snap_read_only s \<longrightarrow> read_ts s < global_ts m))"

definition locks_ok :: "'j txn_manager \<Rightarrow> bool" where
  "locks_ok m \<longleftrightarrow>
     (\<forall>k x. hm_get (active_writes (detector m)) k = Some x \<longrightarrow>
        (\<exists>t. hm_get (active_txns m) x = Some t \<and> status t = Validating \<and> k \<in> keys_of t))"

definition stores_ok :: "'j txn_manager \<Rightarrow> bool" where
  "stores_ok m \<longleftrightarrow> hm_wf (version_stores m)
   \<and> (\<forall>t st. hm_get (version_stores m) t = Some st \<longrightarrow> store_ok (global_ts m) st)"

definition counters_ok :: "nat \<Rightarrow> 'j txn_manager \<Rightarrow> bool" where
  "counters_ok n m \<longleftrightarrow> unat (next_txn m) \<le> Suc n \<and> unat (next_snap m) \<le> Suc n
   \<and> unat (global_ts m) \<le> Suc n \<and> 1 \<le> global_ts m"

definition prepared_ok :: "'j txn_manager \<Rightarrow> 'j prepared_commit list \<Rightarrow> bool" where
  "prepared_ok m ps \<longleftrightarrow> distinct (map pc_txn_id ps)
   \<and> (\<forall>p \<in> set ps. pc_txn_id p < next_txn m
        \<and> (\<forall>t. hm_get (active_txns m) (pc_txn_id p) = Some t \<longrightarrow>
             status t = Validating \<and> keys_of t = tw_key ` set (pc_writes p)))"

definition logged :: "conflict_detector \<Rightarrow> commit_record \<Rightarrow> bool" where
  "logged d h \<longleftrightarrow>
     (\<forall>(t, r) \<in> set (h_keys h). \<exists>cw \<in> set (committed_writes d).
        cw_table cw = t \<and> cw_row_id cw = r \<and> cw_commit_ts cw = h_ts h \<and> cw_txn_id cw = h_txn h)"

definition history_ok :: "'j txn_manager \<Rightarrow> commit_record list \<Rightarrow> bool" where
  "history_ok m hs \<longleftrightarrow>
     (\<forall>h \<in> set hs. h_ts h < global_ts m \<and> h_txn h < next_txn m
        \<and> hm_get (active_txns m) (h_txn h) = None)
   \<and> (\<forall>x t. hm_get (active_txns m) x = Some t \<longrightarrow> (\<forall>h \<in> set hs. read_ts (at_snapshot t) < h_ts h \<longrightarrow>
        (status t = Active \<longrightarrow> logged (detector m) h)
      \<and> (status t = Validating \<longrightarrow> keys_of t \<inter> set (h_keys h) = {})))"

definition first_wins :: "commit_record list \<Rightarrow> bool" where
  "first_wins hs \<longleftrightarrow>
     (\<forall>a \<in> set hs. \<forall>b \<in> set hs. h_txn a \<noteq> h_txn b \<longrightarrow> set (h_keys a) \<inter> set (h_keys b) \<noteq> {} \<longrightarrow>
        h_ts a \<le> h_snap b \<or> h_ts b \<le> h_snap a)"

definition conflict_ok :: "nat \<Rightarrow> ('j, 'e) world_scheme \<Rightarrow> bool" where
  "conflict_ok n w \<longleftrightarrow> entries_ok (mgr w) \<and> snapshots_ok (mgr w) \<and> locks_ok (mgr w)
   \<and> counters_ok n (mgr w) \<and> prepared_ok (mgr w) (prepared w) \<and> history_ok (mgr w) (history w)
   \<and> first_wins (history w)"

lemma conflict_okI:
  "entries_ok (mgr w) \<Longrightarrow> snapshots_ok (mgr w) \<Longrightarrow> locks_ok (mgr w) \<Longrightarrow>
   counters_ok n (mgr w) \<Longrightarrow> prepared_ok (mgr w) (prepared w) \<Longrightarrow> history_ok (mgr w) (history w) \<Longrightarrow>
   first_wins (history w) \<Longrightarrow> conflict_ok n w"
  by (simp add: conflict_ok_def)

lemma conflict_okD:
  assumes "conflict_ok n w"
  shows "entries_ok (mgr w)" "snapshots_ok (mgr w)" "locks_ok (mgr w)" "counters_ok n (mgr w)"
    "prepared_ok (mgr w) (prepared w)" "history_ok (mgr w) (history w)" "first_wins (history w)"
  using assms by (simp_all add: conflict_ok_def)

lemma conflict_ok_new: "conflict_ok 0 world_new"
  by (simp add: conflict_ok_def world_new_def tm_new_def entries_ok_def snapshots_ok_def locks_ok_def
      counters_ok_def prepared_ok_def history_ok_def first_wins_def cd_new_def sm_ok_new) (simp add: sm_new_def)

lemma stores_ok_new: "stores_ok (mgr world_new)"
  by (simp add: world_new_def tm_new_def stores_ok_def)

text \<open>
  The conflict state depends on the manager's entries, snapshots, detector and counters, not on
  its version stores, collector and statistics.
\<close>

lemma conflict_ok_managers:
  assumes "active_txns m' = active_txns m" "snapshots m' = snapshots m" "detector m' = detector m"
    "next_txn m' = next_txn m" "next_snap m' = next_snap m" "global_ts m' = global_ts m"
    "conflict_ok n (w\<lparr>mgr := m\<rparr>)"
  shows "conflict_ok n (w\<lparr>mgr := m'\<rparr>)"
  using assms by (simp add: conflict_ok_def entries_ok_def entry_ok_def snapshots_ok_def locks_ok_def
      counters_ok_def prepared_ok_def history_ok_def del: map_of_eq_Some_iff)

lemma conflict_ok_stores [simp]:
  "conflict_ok n (w\<lparr>mgr := (mgr w)\<lparr>version_stores := vs\<rparr>\<rparr>) = conflict_ok n w"
  "conflict_ok n (w\<lparr>mgr := (mgr w)\<lparr>gc := g, version_stores := vs\<rparr>\<rparr>) = conflict_ok n w"
  "conflict_ok n (w\<lparr>mgr := (mgr w)\<lparr>total_committed := c\<rparr>\<rparr>) = conflict_ok n w"
  by (simp_all add: conflict_ok_def entries_ok_def entry_ok_def snapshots_ok_def locks_ok_def counters_ok_def
      prepared_ok_def history_ok_def)

lemma stores_ok_same:
  "version_stores m' = version_stores m \<Longrightarrow> global_ts m' = global_ts m \<Longrightarrow> stores_ok m' = stores_ok m"
  by (simp add: stores_ok_def)

section \<open>Aborting\<close>

lemma abort_frames [simp]:
  "version_stores (abort_txn x t m) = version_stores m" "global_ts (abort_txn x t m) = global_ts m"
  "next_txn (abort_txn x t m) = next_txn m" "next_snap (abort_txn x t m) = next_snap m"
  "txn_timeout (abort_txn x t m) = txn_timeout m" "gc (abort_txn x t m) = gc m"
  "committed_writes (detector (abort_txn x t m)) = committed_writes (detector m)"
  "hm_get (active_txns (abort_txn x t m)) y = (if y = x then None else hm_get (active_txns m) y)"
  "snapshots (abort_txn x t m) = release (snapshots m) (snap_id (at_snapshot t))"
  by (simp_all add: abort_txn_def hm_simps)

lemma abort_locks:
  assumes "entries_ok m" and "hm_get (active_txns m) x = Some t"
  shows "hm_get (active_writes (detector (abort_txn x t m))) k =
    (if k \<in> keys_of t \<and> hm_get (active_writes (detector m)) k = Some x then None
     else hm_get (active_writes (detector m)) k)"
proof -
  from assms have "entry_ok m x t" by (simp add: entries_ok_def)
  then show ?thesis
    by (simp add: abort_txn_def record_abort_def release_intents_get set_finished_def keys_of_def
        entry_ok_def)
qed

lemma abort_entries:
  assumes ok: "entries_ok m" and x: "hm_get (active_txns m) x = Some t"
  shows "entries_ok (abort_txn x t m)"
proof -
  have "entry_ok (abort_txn x t m) y u" if y: "hm_get (active_txns m) y = Some u" "y \<noteq> x" for y u
  proof -
    have u: "entry_ok m y u" using ok y by (simp add: entries_ok_def)
    have "snap_id (at_snapshot u) \<noteq> snap_id (at_snapshot t)" using ok x y by (auto simp: entries_ok_def)
    then show ?thesis using u y(2) by (auto simp: entry_ok_def abort_locks [OF ok x])
  qed
  moreover have "hm_wf (active_txns (abort_txn x t m))"
    using ok by (simp add: entries_ok_def abort_txn_def hm_simps)
  ultimately show ?thesis using ok by (auto simp: entries_ok_def)
qed

lemma abort_conflict:
  assumes ok: "conflict_ok n w" and x: "hm_get (active_txns (mgr w)) x = Some t"
  shows "conflict_ok n (w\<lparr>mgr := abort_txn x t (mgr w)\<rparr>)"
proof (rule conflict_okI)
  note ent = conflict_okD(1) [OF ok]
  show "entries_ok (mgr (w\<lparr>mgr := abort_txn x t (mgr w)\<rparr>))"
    using abort_entries [OF ent x] by simp
  show "snapshots_ok (mgr (w\<lparr>mgr := abort_txn x t (mgr w)\<rparr>))"
    using conflict_okD(2) [OF ok] by (simp add: snapshots_ok_def sm_ok_release)
  show "locks_ok (mgr (w\<lparr>mgr := abort_txn x t (mgr w)\<rparr>))"
    using conflict_okD(3) [OF ok] x
    by (fastforce simp: locks_ok_def abort_locks [OF ent x] split: if_splits)
  show "counters_ok n (mgr (w\<lparr>mgr := abort_txn x t (mgr w)\<rparr>))"
    using conflict_okD(4) [OF ok] by (simp add: counters_ok_def)
  show "prepared_ok (mgr (w\<lparr>mgr := abort_txn x t (mgr w)\<rparr>)) (prepared (w\<lparr>mgr := abort_txn x t (mgr w)\<rparr>))"
    using conflict_okD(5) [OF ok] by (simp add: prepared_ok_def)
  show "history_ok (mgr (w\<lparr>mgr := abort_txn x t (mgr w)\<rparr>)) (history (w\<lparr>mgr := abort_txn x t (mgr w)\<rparr>))"
    using conflict_okD(6) [OF ok] by (simp add: history_ok_def logged_def)
  show "first_wins (history (w\<lparr>mgr := abort_txn x t (mgr w)\<rparr>))"
    using conflict_okD(7) [OF ok] by simp
qed

lemma abort_if_present_conflict:
  "conflict_ok n w \<Longrightarrow> conflict_ok n (w\<lparr>mgr := abort_if_present x (mgr w)\<rparr>)"
  by (auto simp: abort_if_present_def abort_conflict split: option.splits)

lemma abort_fold_conflict:
  "conflict_ok n w \<Longrightarrow> conflict_ok n (w\<lparr>mgr := fold abort_if_present xs (mgr w)\<rparr>)"
proof (induction xs arbitrary: w)
  case (Cons x xs)
  from Cons.IH [OF abort_if_present_conflict [OF Cons.prems]] show ?case by simp
qed simp

section \<open>Beginning a transaction\<close>

lemma counter_bump:
  assumes "unat (a :: u64) \<le> Suc n" and "n < call_bound"
  shows "unat (a + 1) = Suc (unat a)" and "a < a + 1" and "b \<le> a \<Longrightarrow> b < a + 1"
    and "a < TS_INF" and "a + 1 < TS_INF \<or> unat a = Suc n"
proof -
  have lt: "unat a < 2 ^ 64 - 2" using assms by (simp add: call_bound_def)
  then have ne: "a \<noteq> u64_max" by (auto simp: unat_u64_max)
  show S: "unat (a + 1) = Suc (unat a)" by (rule unat_bump [OF ne])
  then show "a < a + 1" by (simp add: word_less_nat_alt)
  show "b < a + 1" if "b \<le> a" using that S by (simp add: word_less_nat_alt word_le_nat_alt)
  have inf: "unat TS_INF = 2 ^ 64 - 2" by (simp add: TS_INF_def)
  show "a < TS_INF" using lt inf by (simp add: word_less_nat_alt)
  show "a + 1 < TS_INF \<or> unat a = Suc n"
    using assms inf S by (auto simp: word_less_nat_alt call_bound_def)
qed

lemma fresh_ids:
  assumes "conflict_ok n w" and "n < call_bound"
  shows "hm_get (active_txns (mgr w)) (next_txn (mgr w)) = None"
    and "hm_get (active (snapshots (mgr w))) (next_snap (mgr w)) = None"
proof -
  show "hm_get (active_txns (mgr w)) (next_txn (mgr w)) = None"
    using conflict_okD(1) [OF assms(1)] unfolding entries_ok_def entry_ok_def
    by (metis not_None_eq order_less_irrefl)
  show "hm_get (active (snapshots (mgr w))) (next_snap (mgr w)) = None"
    using conflict_okD(2) [OF assms(1)] unfolding snapshots_ok_def
    by (metis not_None_eq order_less_irrefl)
qed

text \<open>
  A transaction that is starting: it holds fresh identifiers and a timestamp, and the log has
  everything committed since.
\<close>

definition starting_ok :: "('j, 'e) world_scheme \<Rightarrow> u64 \<times> snapshot \<Rightarrow> bool" where
  "starting_ok w d \<longleftrightarrow> (case d of (x, s) \<Rightarrow>
     x < next_txn (mgr w) \<and> hm_get (active_txns (mgr w)) x = None
   \<and> (\<forall>p \<in> set (prepared w). pc_txn_id p \<noteq> x) \<and> (\<forall>h \<in> set (history w). h_txn h \<noteq> x)
   \<and> snap_id s < next_snap (mgr w) \<and> hm_get (active (snapshots (mgr w))) (snap_id s) = None
   \<and> 1 \<le> read_ts s \<and> read_ts s \<le> global_ts (mgr w)
   \<and> (\<not> snap_read_only s \<longrightarrow> read_ts s < global_ts (mgr w))
   \<and> (\<forall>h \<in> set (history w). read_ts s < h_ts h \<longrightarrow> logged (detector (mgr w)) h))"

lemma enter_conflict:
  assumes ok: "conflict_ok n w" and d: "starting_ok w d"
  shows "conflict_ok n (w\<lparr>mgr := begin_enter (mgr w) d now\<rparr>)"
proof -
  obtain x s where xs: "d = (x, s)" by (cases d)
  let ?m = "mgr w"
  define t :: "'a active_txn" where "t = \<lparr>at_context = ctx_new x (read_ts s) (snap_read_only s), at_snapshot = s,
    status = Active, last_activity = now\<rparr>"
  define m' where "m' = begin_enter ?m d now"
  note parts = conflict_okD [OF ok] and new = d [unfolded starting_ok_def xs prod.case]
  have m': "m' = ?m\<lparr>snapshots := register (snapshots ?m) s, active_txns := hm_insert x t (active_txns ?m)\<rparr>"
    by (simp add: m'_def begin_enter_def xs t_def)
  have get: "hm_get (active_txns m') y = (if y = x then Some t else hm_get (active_txns ?m) y)" for y
    by (simp add: m' hm_simps)
  have same: "detector m' = detector ?m" "next_txn m' = next_txn ?m" "global_ts m' = global_ts ?m"
    "next_snap m' = next_snap ?m" "snapshots m' = register (snapshots ?m) s"
    by (simp_all add: m')
  have old: "y \<noteq> x \<and> entry_ok ?m y u" if "hm_get (active_txns ?m) y = Some u" for y u
    using that new parts(1) by (auto simp: entries_ok_def)
  have "entry_ok m' x t"
    using new by (simp add: entry_ok_def same t_def ctx_ok_new) (simp add: ctx_new_def)
  moreover have "entry_ok m' y u \<and> snap_id (at_snapshot u) \<noteq> snap_id s"
    if "hm_get (active_txns ?m) y = Some u" for y u
    using old [OF that] new by (auto simp: entry_ok_def same)
  moreover have "hm_wf (active_txns m')" using parts(1) by (simp add: m' entries_ok_def hm_simps)
  moreover have "at_snapshot t = s" by (simp add: t_def)
  ultimately have E: "entries_ok m'"
    using parts(1) unfolding entries_ok_def get by (metis option.inject)
  have S: "snapshots_ok m'"
    using parts(2) new by (auto simp: snapshots_ok_def same sm_ok_register)
  have L: "locks_ok m'"
    using parts(3) unfolding locks_ok_def get same by (metis old)
  have P: "prepared_ok m' (prepared w)"
    using parts(5) new unfolding prepared_ok_def get same by simp
  have "status t = Active" by (simp add: t_def)
  then have H: "history_ok m' (history w)"
    using parts(6) new \<open>at_snapshot t = s\<close> by (auto simp: history_ok_def get same)
  show ?thesis
    unfolding m'_def [symmetric]
    using E S L P H parts(4,7) by (auto intro!: conflict_okI simp: counters_ok_def same)
qed

text \<open>Drawing the identifiers, with or without a new timestamp.\<close>

lemma draw_conflict:
  assumes ok: "conflict_ok n w" and n: "n < call_bound"
    and g: "g = global_ts (mgr w) \<and> snap_read_only s \<or> g = global_ts (mgr w) + 1"
    and s: "snap_id s = next_snap (mgr w)" "read_ts s = global_ts (mgr w)"
    and m': "m' = (mgr w)\<lparr>next_txn := next_txn (mgr w) + 1, next_snap := next_snap (mgr w) + 1,
      global_ts := g\<rparr>"
  shows "conflict_ok (Suc n) (w\<lparr>mgr := m'\<rparr>)" and "starting_ok (w\<lparr>mgr := m'\<rparr>) (next_txn (mgr w), s)"
proof -
  let ?m = "mgr w"
  note parts = conflict_okD [OF ok]
  have cnt: "unat (next_txn ?m) \<le> Suc n" "unat (next_snap ?m) \<le> Suc n" "unat (global_ts ?m) \<le> Suc n"
    and one: "1 \<le> global_ts ?m"
    using parts(4) by (simp_all add: counters_ok_def)
  note bump = counter_bump [OF cnt(1) n] counter_bump [OF cnt(2) n] counter_bump [OF cnt(3) n]
  have gle: "global_ts ?m \<le> g" using g bump(12) by auto
  have same: "detector m' = detector ?m" "active_txns m' = active_txns ?m" "global_ts m' = g"
    "next_txn m' = next_txn ?m + 1" "next_snap m' = next_snap ?m + 1" "snapshots m' = snapshots ?m"
    by (simp_all add: m')
  have later: "a < next_txn m'" if "a < next_txn ?m" for a
    using that bump(3) [OF less_imp_le] by (simp add: same)
  have E: "entries_ok m'"
    using parts(1) later by (auto simp: entries_ok_def entry_ok_def same)
  have S: "snapshots_ok m'"
    using parts(2) gle bump(8) [OF less_imp_le] by (fastforce simp: snapshots_ok_def same)
  have L: "locks_ok m'" using parts(3) by (simp add: locks_ok_def same)
  have C: "counters_ok (Suc n) m'"
    using parts(4) g gle bump(1,6,11) by (auto simp: counters_ok_def same)
  have P: "prepared_ok m' (prepared w)" using parts(5) later by (simp add: prepared_ok_def same)
  have H: "history_ok m' (history w)"
    using parts(6) later gle by (fastforce simp: history_ok_def same)
  show "conflict_ok (Suc n) (w\<lparr>mgr := m'\<rparr>)"
    using E S L C P H parts(7) by (auto intro: conflict_okI)
  have "pc_txn_id p \<noteq> next_txn ?m" if "p \<in> set (prepared w)" for p
    using parts(5) that by (auto simp: prepared_ok_def)
  moreover have "h_txn h \<noteq> next_txn ?m \<and> \<not> read_ts s < h_ts h" if "h \<in> set (history w)" for h
    using parts(6) that by (auto simp: history_ok_def s(2))
  moreover have "\<not> snap_read_only s \<Longrightarrow> read_ts s < g" using g bump(12) by (auto simp: s(2))
  ultimately show "starting_ok (w\<lparr>mgr := m'\<rparr>) (next_txn ?m, s)"
    using fresh_ids [OF ok n] bump(2,7) one gle by (simp add: starting_ok_def same s)
qed

lemma begin_draw_conflict:
  assumes "conflict_ok n w" and "n < call_bound" and "begin_draw (mgr w) = (d, m')"
  shows "conflict_ok (Suc n) (w\<lparr>mgr := m'\<rparr>)" and "starting_ok (w\<lparr>mgr := m'\<rparr>) d"
  using assms(3) draw_conflict [OF assms(1,2),
      of "global_ts (mgr w) + 1" "\<lparr>snap_id = next_snap (mgr w), read_ts = global_ts (mgr w), snap_read_only = False\<rparr>"]
  by (auto simp: begin_draw_def next_timestamp_def)

lemma begin_read_only_draw_conflict:
  assumes "conflict_ok n w" and "n < call_bound" and "begin_read_only_draw (mgr w) = (d, m')"
  shows "conflict_ok (Suc n) (w\<lparr>mgr := m'\<rparr>)" and "starting_ok (w\<lparr>mgr := m'\<rparr>) d"
  using assms(3) draw_conflict [OF assms(1,2),
      of "global_ts (mgr w)" "\<lparr>snap_id = next_snap (mgr w), read_ts = global_ts (mgr w), snap_read_only = True\<rparr>"]
  by (auto simp: begin_read_only_draw_def current_timestamp_def)

lemma conflict_ok_mono: "conflict_ok n w \<Longrightarrow> n \<le> n' \<Longrightarrow> conflict_ok n' w"
  by (auto simp: conflict_ok_def counters_ok_def)

lemma abort_idle_conflict:
  "conflict_ok n w \<Longrightarrow> conflict_ok n (w\<lparr>mgr := abort_timed_out_txns (mgr w) now\<rparr>)"
  unfolding abort_timed_out_txns_def by (rule abort_fold_conflict)

lemma begin_rw_conflict:
  assumes "conflict_ok n w" and "n < call_bound"
  shows "conflict_ok (Suc n) (w\<lparr>mgr := snd (begin_txn (mgr w) now)\<rparr>)"
proof -
  obtain d m1 where d: "begin_draw (mgr w) = (d, m1)" by (cases "begin_draw (mgr w)")
  note drawn = begin_draw_conflict [OF assms d]
  from abort_idle_conflict [OF enter_conflict [OF drawn]] show ?thesis
    by (simp add: begin_txn_split d)
qed

lemma begin_ro_conflict:
  assumes "conflict_ok n w" and "n < call_bound"
  shows "conflict_ok (Suc n) (w\<lparr>mgr := snd (begin_read_only (mgr w) now)\<rparr>)"
proof -
  obtain d m1 where d: "begin_read_only_draw (mgr w) = (d, m1)" by (cases "begin_read_only_draw (mgr w)")
  note drawn = begin_read_only_draw_conflict [OF assms d]
  from enter_conflict [OF drawn] show ?thesis by (simp add: begin_read_only_split d)
qed

section \<open>Working in a transaction\<close>

lemma entry_update_conflict:
  assumes ok: "conflict_ok n w" and x: "hm_get (active_txns (mgr w)) x = Some t" "status t = Active"
    and t': "at_snapshot t' = at_snapshot t" "status t' = Active"
    and c: "ctx_ok (at_context t')" "ctx_txn_id (at_context t') = ctx_txn_id (at_context t)"
      "ctx_snapshot_ts (at_context t') = ctx_snapshot_ts (at_context t)"
    and m': "m' = (mgr w)\<lparr>active_txns := hm_insert x t' (active_txns (mgr w))\<rparr>"
  shows "conflict_ok n (w\<lparr>mgr := m'\<rparr>)"
proof -
  let ?m = "mgr w"
  note parts = conflict_okD [OF ok]
  have get: "hm_get (active_txns m') y = (if y = x then Some t' else hm_get (active_txns ?m) y)" for y
    by (simp add: m' hm_simps)
  have same: "snapshots m' = snapshots ?m" "detector m' = detector ?m" "next_txn m' = next_txn ?m"
    "version_stores m' = version_stores ?m" "global_ts m' = global_ts ?m" "next_snap m' = next_snap ?m"
    by (simp_all add: m')
  have wf: "hm_wf (active_txns m')" using parts(1) by (simp add: m' entries_ok_def hm_simps)
  have t: "entry_ok ?m x t" using parts(1) x by (simp add: entries_ok_def)
  have "entry_ok m' x t'"
    using t x(2) t' c by (simp add: entry_ok_def same) (simp add: ctx_ok_def)
  moreover have "entry_ok m' y u" if "hm_get (active_txns ?m) y = Some u" for y u
    using parts(1) that by (simp add: entries_ok_def entry_ok_def same)
  ultimately have E: "entries_ok m'"
    using parts(1) wf x(1) t'(1) unfolding entries_ok_def get by (metis option.inject)
  have L: "locks_ok m'"
    using parts(3) x unfolding locks_ok_def get same by (metis option.inject txn_status.distinct(1))
  have P: "prepared_ok m' (prepared w)"
    using parts(5) x unfolding prepared_ok_def get same by (metis option.inject txn_status.distinct(1))
  have H: "history_ok m' (history w)"
    using parts(6) x t' unfolding history_ok_def get same
    by (metis option.distinct(1) option.inject txn_status.distinct(1))
  show ?thesis
    using parts E L P H
    by (auto intro!: conflict_okI simp: snapshots_ok_def counters_ok_def same)
qed

lemma with_context_conflict:
  assumes ok: "conflict_ok n w"
  shows "conflict_ok n (w\<lparr>mgr := snd (with_context (mgr w) x op now)\<rparr>)"
proof (cases "hm_get (active_txns (mgr w)) x")
  case (Some t)
  show ?thesis
  proof (cases "status t = Active \<and> \<not> txn_timeout (mgr w) < idle t now")
    case True
    have c: "ctx_ok (at_context t)"
      using conflict_okD(1) [OF ok] Some True by (fastforce simp: entries_ok_def entry_ok_def)
    show ?thesis
    proof (cases "ctx_apply (at_context t) op")
      case (Inl e)
      then show ?thesis using Some True c
        by (simp add: with_context_def entry_update_conflict [OF ok Some, where t' = "t\<lparr>last_activity := now\<rparr>"])
    next
      case (Inr c')
      with c have "ctx_ok c'" "ctx_txn_id c' = ctx_txn_id (at_context t)"
        "ctx_snapshot_ts c' = ctx_snapshot_ts (at_context t)"
        by (auto dest: ctx_apply_ok ctx_apply_frame)
      then show ?thesis using Some True Inr
        by (simp add: with_context_def
            entry_update_conflict [OF ok Some, where t' = "t\<lparr>last_activity := now, at_context := c'\<rparr>"])
    qed
  next
    case False
    then show ?thesis using Some ok abort_conflict [OF ok Some] by (auto simp: with_context_def)
  qed
qed (simp add: with_context_def ok)

lemma rollback_conflict: "conflict_ok n w \<Longrightarrow> conflict_ok n (w\<lparr>mgr := snd (rollback (mgr w) x)\<rparr>)"
  by (auto simp: rollback_def abort_conflict split: option.splits)

lemma get_version_store_conflict: "conflict_ok n (w\<lparr>mgr := snd (get_version_store (mgr w) t)\<rparr>) = conflict_ok n w"
  by (simp add: get_version_store_def split: option.split)

lemma read_versioned_conflict:
  "conflict_ok n w \<Longrightarrow> conflict_ok n (w\<lparr>mgr := snd (read_versioned (mgr w) x t r)\<rparr>)"
  by (auto simp: read_versioned_def get_version_store_conflict split: sum.splits prod.splits)
     (metis get_version_store_conflict snd_conv)

section \<open>Preparing a commit\<close>

lemma no_later_commit:
  assumes ok: "conflict_ok n w" and x: "hm_get (active_txns (mgr w)) x = Some t" "status t = Active"
    and v: "cr_is_ok (validate (detector (mgr w)) (at_context t))"
    and h: "h \<in> set (history w)" "read_ts (at_snapshot t) < h_ts h"
  shows "keys_of t \<inter> set (h_keys h) = {}"
proof (rule ccontr)
  assume "keys_of t \<inter> set (h_keys h) \<noteq> {}"
  then obtain a b where k: "(a, b) \<in> keys_of t" "(a, b) \<in> set (h_keys h)" by fastforce
  have t: "entry_ok (mgr w) x t" using conflict_okD(1) [OF ok] x by (simp add: entries_ok_def)
  have "logged (detector (mgr w)) h" and hx: "hm_get (active_txns (mgr w)) (h_txn h) = None"
    using conflict_okD(6) [OF ok] x h by (simp_all add: history_ok_def)
  then obtain cw where cw: "cw \<in> set (committed_writes (detector (mgr w)))" "cw_table cw = a"
      "cw_row_id cw = b" "cw_commit_ts cw = h_ts h" "cw_txn_id cw = h_txn h"
    using k(2) by (fastforce simp: logged_def)
  have "h_txn h \<noteq> x" using hx x by auto
  with cw t h(2) have "clashes (at_context t) a b cw" by (simp add: clashes_def entry_ok_def)
  with v k(1) cw(1) show False by (fastforce simp: validate_ok_iff keys_of_def)
qed

lemma prepared_conflict:
  assumes ok: "conflict_ok n w" and x: "hm_get (active_txns (mgr w)) x = Some t" "status t = Active"
    and d: "\<And>k. hm_get (active_writes d) k =
        (if k \<in> keys_of t then Some x else hm_get (active_writes (detector (mgr w))) k)"
      "committed_writes d = committed_writes (detector (mgr w))"
    and free: "\<And>k. k \<in> keys_of t \<Longrightarrow> hm_get (active_writes (detector (mgr w))) k \<in> {None, Some x}"
    and clear: "\<And>h. h \<in> set (history w) \<Longrightarrow> read_ts (at_snapshot t) < h_ts h \<Longrightarrow>
        keys_of t \<inter> set (h_keys h) = {}"
    and p: "p = \<lparr>pc_txn_id = x, pc_writes = write_set (at_context t)\<rparr>"
    and m': "m' = (mgr w)\<lparr>detector := d, active_txns := hm_insert x
        (t\<lparr>status := Validating, at_context := (at_context t)\<lparr>write_set := []\<rparr>\<rparr>) (active_txns (mgr w))\<rparr>"
  shows "conflict_ok n (w\<lparr>mgr := m', prepared := p # prepared w\<rparr>)"
proof -
  let ?m = "mgr w" and ?t = "t\<lparr>status := Validating, at_context := (at_context t)\<lparr>write_set := []\<rparr>\<rparr>"
  note parts = conflict_okD [OF ok]
  have get: "hm_get (active_txns m') y = (if y = x then Some ?t else hm_get (active_txns ?m) y)" for y
    by (simp add: m' hm_simps)
  have same: "snapshots m' = snapshots ?m" "detector m' = d" "next_txn m' = next_txn ?m"
    "version_stores m' = version_stores ?m" "global_ts m' = global_ts ?m" "next_snap m' = next_snap ?m"
    by (simp_all add: m')
  have keys: "keys_of ?t = keys_of t" by (simp add: keys_of_def)
  have wf: "hm_wf (active_txns m')" using parts(1) by (simp add: m' entries_ok_def hm_simps)
  have t: "entry_ok ?m x t" using parts(1) x by (simp add: entries_ok_def)
  have "entry_ok m' x ?t"
    using t x(2) d(1) by (simp add: entry_ok_def same keys)
  moreover have "entry_ok m' y u" if y: "hm_get (active_txns ?m) y = Some u" "y \<noteq> x" for y u
  proof -
    have u: "entry_ok ?m y u" using parts(1) y(1) by (simp add: entries_ok_def)
    have "k \<notin> keys_of t" if "hm_get (active_writes (detector ?m)) k = Some y" for k
      using free [of k] that y(2) by auto
    with u show ?thesis by (auto simp: entry_ok_def same d(1))
  qed
  moreover have "snap_id (at_snapshot ?t) = snap_id (at_snapshot t)" by simp
  ultimately have E: "entries_ok m'"
    using parts(1) wf x(1) unfolding entries_ok_def get by (metis option.inject)
  have L: "locks_ok m'"
    using parts(3) x keys unfolding locks_ok_def get same d(1) by (simp) (metis option.inject txn_status.distinct(1))
  have new: "pc_txn_id q \<noteq> x" if "q \<in> set (prepared w)" for q
    using parts(5) that x by (auto simp: prepared_ok_def)
  have "keys_of t = tw_key ` set (pc_writes p)" using t x(2) by (simp add: p entry_ok_def keys_of_def ctx_ok_keys)
  moreover have "x < next_txn ?m" using t by (simp add: entry_ok_def)
  ultimately have P: "prepared_ok m' (p # prepared w)"
    using parts(5) new keys by (auto simp: prepared_ok_def get same p)
  have log: "logged d h = logged (detector ?m) h" for h by (simp add: logged_def d(2))
  have H: "history_ok m' (history w)"
    using parts(6) x(1) clear keys by (auto simp: history_ok_def get same log)
  show ?thesis
    using parts E L P H
    by (auto intro!: conflict_okI simp: snapshots_ok_def counters_ok_def same)
qed

lemma prepare_ok_cases:
  assumes "prepare_commit m x = (Inr p, m')"
  obtains t d where "hm_get (active_txns m) x = Some t" "status t = Active"
    "p = \<lparr>pc_txn_id = x, pc_writes = write_set (at_context t)\<rparr>"
    "m' = m\<lparr>detector := d, active_txns := hm_insert x
        (t\<lparr>status := Validating, at_context := (at_context t)\<lparr>write_set := []\<rparr>\<rparr>) (active_txns m)\<rparr>"
    "write_set (at_context t) = [] \<and> d = detector m
     \<or> cr_is_ok (validate (detector m) (at_context t))
       \<and> acquire_write_intent (detector m) (at_context t) = (NoConflict, d)"
proof -
  have ok: "cr_is_ok r \<longleftrightarrow> r = NoConflict" for r by (cases r) auto
  from assms obtain t where t: "hm_get (active_txns m) x = Some t" "status t = Active"
    by (auto simp: prepare_commit_def split: option.splits if_splits)
  show ?thesis
  proof (cases "write_set (at_context t) = []")
    case True
    with assms t show ?thesis
      by (intro that [of t "detector m"]) (auto simp: prepare_commit_def has_writes_def take_write_set_def)
  next
    case False
    with assms t that show ?thesis
      by (auto simp: prepare_commit_def Let_def has_writes_def take_write_set_def ok
          split: if_splits sum.splits prod.splits)
  qed
qed

lemma prepare_ok_conflict:
  assumes ok: "conflict_ok n w" and "prepare_commit (mgr w) x = (Inr p, m')"
  shows "conflict_ok n (w\<lparr>mgr := m', prepared := p # prepared w\<rparr>)"
  using assms(2)
proof (rule prepare_ok_cases)
  fix t d
  assume x: "hm_get (active_txns (mgr w)) x = Some t" "status t = Active"
    and p: "p = \<lparr>pc_txn_id = x, pc_writes = write_set (at_context t)\<rparr>"
    and m': "m' = (mgr w)\<lparr>detector := d, active_txns := hm_insert x
        (t\<lparr>status := Validating, at_context := (at_context t)\<lparr>write_set := []\<rparr>\<rparr>) (active_txns (mgr w))\<rparr>"
    and cases: "write_set (at_context t) = [] \<and> d = detector (mgr w)
     \<or> cr_is_ok (validate (detector (mgr w)) (at_context t))
       \<and> acquire_write_intent (detector (mgr w)) (at_context t) = (NoConflict, d)"
  have t: "entry_ok (mgr w) x t" using conflict_okD(1) [OF ok] x by (simp add: entries_ok_def)
  then have c: "ctx_ok (at_context t)" "ctx_txn_id (at_context t) = x" using x(2) by (auto simp: entry_ok_def)
  from cases show ?thesis
  proof
    assume none: "write_set (at_context t) = [] \<and> d = detector (mgr w)"
    then have "keys_of t = {}" using ctx_ok_keys [OF c(1)] by (simp add: keys_of_def)
    with none show ?thesis by (intro prepared_conflict [OF ok x _ _ _ _ p m']) auto
  next
    assume v: "cr_is_ok (validate (detector (mgr w)) (at_context t))
       \<and> acquire_write_intent (detector (mgr w)) (at_context t) = (NoConflict, d)"
    note acq = acquire_ok [OF conjunct2 [OF v], unfolded c(2), folded keys_of_def]
    show ?thesis
      using acq(1) no_later_commit [OF ok x conjunct1 [OF v]]
      by (intro prepared_conflict [OF ok x acq(2) acq(3) _ _ p m']) auto
  qed
qed

lemma prepare_err_conflict:
  assumes ok: "conflict_ok n w" and "prepare_commit (mgr w) x = (Inl e, m')"
  shows "conflict_ok n (w\<lparr>mgr := m'\<rparr>)"
proof -
  have "m' = mgr w \<or> (\<exists>t. hm_get (active_txns (mgr w)) x = Some t \<and> m' = abort_txn x t (mgr w))"
    using assms(2)
    by (auto simp: prepare_commit_def Let_def take_write_set_def
        split: option.splits if_splits sum.splits prod.splits)
  then show ?thesis using ok abort_conflict by auto
qed

section \<open>Publishing a commit\<close>

lemma one_less_inf: "(1 :: u64) < TS_INF"
  by (simp add: TS_INF_def word_less_nat_alt unsigned_minus_1_eq_mask)

lemma before_image_ok: "store_ok c st \<Longrightarrow> 1 \<le> c \<Longrightarrow> store_ok c (before_image r d st)"
  by (simp add: before_image_def store_ok_base one_less_inf)

lemma write_store_ok:
  assumes "store_ok c st" and "1 \<le> c" and "c < TS_INF"
  shows "store_ok c (write_store c w st)"
proof -
  have b: "store_ok c (before_image r d st)" for r d using assms(1,2) by (rule before_image_ok)
  show ?thesis
    using b assms store_ok_update [OF b order_refl assms(3)] store_ok_delete [OF b order_refl assms(3)]
    by (cases w) (auto simp: Let_def store_ok_insert split: sum.splits)
qed

lemma on_store_get:
  "hm_get (version_stores (on_store t f m)) t' =
     (if t' = t then Some (f (case hm_get (version_stores m) t of None \<Rightarrow> vs_new | Some st \<Rightarrow> st))
      else hm_get (version_stores m) t')"
  by (auto simp: on_store_def get_version_store_def hm_simps split: option.splits)

lemma apply_write_frames [simp]:
  "active_txns (apply_write ts w m) = active_txns m" "snapshots (apply_write ts w m) = snapshots m"
  "detector (apply_write ts w m) = detector m" "gc (apply_write ts w m) = gc m"
  "next_txn (apply_write ts w m) = next_txn m" "next_snap (apply_write ts w m) = next_snap m"
  "global_ts (apply_write ts w m) = global_ts m"
  by (auto simp: apply_write_def on_store_def get_version_store_def Let_def split: option.splits)

lemma fold_apply_frames [simp]:
  "active_txns (fold (apply_write ts) ws m) = active_txns m"
  "snapshots (fold (apply_write ts) ws m) = snapshots m"
  "detector (fold (apply_write ts) ws m) = detector m" "gc (fold (apply_write ts) ws m) = gc m"
  "next_txn (fold (apply_write ts) ws m) = next_txn m"
  "next_snap (fold (apply_write ts) ws m) = next_snap m"
  "global_ts (fold (apply_write ts) ws m) = global_ts m"
  by (induction ws arbitrary: m) auto

text \<open>Every store satisfies a property.\<close>

definition all_stores :: "('j version_store \<Rightarrow> bool) \<Rightarrow> (string, 'j version_store) hmap \<Rightarrow> bool" where
  "all_stores P vs \<longleftrightarrow> hm_wf vs \<and> (\<forall>t st. hm_get vs t = Some st \<longrightarrow> P st)"

lemma stores_ok_all: "stores_ok m \<longleftrightarrow> all_stores (store_ok (global_ts m)) (version_stores m)"
  by (simp add: stores_ok_def all_stores_def)

lemma apply_write_stores:
  assumes "all_stores (store_ok c) (version_stores m)" and "1 \<le> c" and "c < TS_INF"
  shows "all_stores (store_ok c) (version_stores (apply_write c w m))"
proof -
  have "hm_wf (version_stores (apply_write c w m))"
    using assms(1) by (auto simp: all_stores_def apply_write_def on_store_def get_version_store_def
        hm_simps split: option.splits)
  moreover have "store_ok c st" if "hm_get (version_stores (apply_write c w m)) t = Some st" for t st
  proof -
    have old: "hm_get (version_stores m) t' = Some st' \<Longrightarrow> store_ok c st'" for t' st'
      using assms(1) unfolding all_stores_def by blast
    have "store_ok c (case hm_get (version_stores m) (tw_table w) of None \<Rightarrow> vs_new | Some st \<Rightarrow> st)"
      using old by (auto simp: store_ok_new split: option.split)
    from write_store_ok [OF this assms(2,3), of w] show ?thesis
      using that old by (auto simp: apply_write_def on_store_get split: if_splits)
  qed
  ultimately show ?thesis unfolding all_stores_def by blast
qed

lemma fold_apply_stores:
  "all_stores (store_ok c) (version_stores m) \<Longrightarrow> 1 \<le> c \<Longrightarrow> c < TS_INF \<Longrightarrow>
   all_stores (store_ok c) (version_stores (fold (apply_write c) ws m))"
  by (induction ws arbitrary: m) (auto simp: apply_write_stores)

lemma gc_stores_get:
  "hm_keys (snd (gc_stores g sm now vs)) = hm_keys vs"
  "hm_get (snd (gc_stores g sm now vs)) t = None \<longleftrightarrow> hm_get vs t = None"
  "hm_get (snd (gc_stores g sm now vs)) t = Some st' \<Longrightarrow>
     \<exists>st. hm_get vs t = Some st \<and> (st' = st \<or> st' = fst (vs_gc st (oldest_active_timestamp sm)))"
proof -
  have step: "gc_stores g sm now ((u, st) # rest) =
      (fst (gc_stores (fst (snd (maybe_run g st sm now))) sm now rest),
       (u, snd (snd (maybe_run g st sm now))) # snd (gc_stores (fst (snd (maybe_run g st sm now))) sm now rest))"
    for g u st and rest :: "(string, 'a version_store) hmap"
    by (simp add: Let_def split: prod.splits)
  show "hm_keys (snd (gc_stores g sm now vs)) = hm_keys vs"
    by (induction vs arbitrary: g) (auto simp: step simp del: gc_stores.simps(2))
  then show "hm_get (snd (gc_stores g sm now vs)) t = None \<longleftrightarrow> hm_get vs t = None"
    by (simp only: hm_get_None)
  show "hm_get (snd (gc_stores g sm now vs)) t = Some st' \<Longrightarrow>
     \<exists>st. hm_get vs t = Some st \<and> (st' = st \<or> st' = fst (vs_gc st (oldest_active_timestamp sm)))"
  proof (induction vs arbitrary: g)
    case (Cons p vs)
    obtain u st where p: "p = (u, st)" by (cases p)
    show ?case using Cons maybe_run_store [of g st sm now]
      by (auto simp: step p simp del: gc_stores.simps(2) split: if_splits)
  qed simp
qed

lemma gc_stores_ok:
  assumes "all_stores (store_ok c) vs"
  shows "all_stores (store_ok c) (snd (gc_stores g sm now vs))"
  unfolding all_stores_def
proof (intro conjI allI impI)
  show "hm_wf (snd (gc_stores g sm now vs))" using assms by (simp add: all_stores_def gc_stores_get(1))
  fix t st assume "hm_get (snd (gc_stores g sm now vs)) t = Some st"
  from gc_stores_get(3) [OF this] show "store_ok c st"
    using assms store_ok_gc unfolding all_stores_def by blast
qed

lemma prune_get:
  assumes "hm_wf (version_stores m)"
  shows "hm_get (version_stores (prune_empty_version_stores m)) t =
    (case hm_get (version_stores m) t of
       None \<Rightarrow> None
     | Some st \<Rightarrow> if 0 < row_count st \<or> 0 < total_versions st then Some st else None)"
  using assms by (simp add: prune_empty_version_stores_def hm_get_retain)

lemma prune_ok:
  assumes "all_stores P (version_stores m)"
  shows "all_stores P (version_stores (prune_empty_version_stores m))"
proof -
  have wf: "hm_wf (version_stores m)" using assms by (simp add: all_stores_def)
  have "hm_wf (version_stores (prune_empty_version_stores m))"
    using wf by (simp add: prune_empty_version_stores_def hm_wf_retain)
  moreover have "P st" if "hm_get (version_stores (prune_empty_version_stores m)) t = Some st" for t st
    using that assms unfolding prune_get [OF wf] all_stores_def
    by (auto split: option.splits if_splits)
  ultimately show ?thesis unfolding all_stores_def by blast
qed

text \<open>What a successful \<open>finalize_commit\<close> leaves behind.\<close>

lemma finalize_frames:
  assumes x: "hm_get (active_txns m) (pc_txn_id p) = Some t" "status t = Validating"
    and m': "m' = snd (finalize_commit m p now)"
  shows "active_txns m' = hm_remove (pc_txn_id p) (active_txns m)"
    and "snapshots m' = release (snapshots m) (snap_id (at_snapshot t))"
    and "global_ts m' = global_ts m + 1" and "next_txn m' = next_txn m" and "next_snap m' = next_snap m"
    and "detector m' = trim_log (record_prepared_commit (detector m) (pc_txn_id p) (pc_writes p)
           (write_keys (at_context t)) (global_ts m)) (oldest_active_timestamp (snapshots m'))"
    and "version_stores m' = version_stores (prune_empty_version_stores (m\<lparr>version_stores :=
           snd (gc_stores (gc m) (snapshots m') now
             (version_stores (fold (apply_write (global_ts m)) (pc_writes p) (publish_commit p t m))))\<rparr>))"
  using x unfolding m'
  by (simp_all add: finalize_commit_def settle_commit_def publish_commit_def next_timestamp_def Let_def
      prune_empty_version_stores_def split: prod.splits)

lemma finalize_stores:
  assumes x: "hm_get (active_txns m) (pc_txn_id p) = Some t" "status t = Validating"
    and ok: "stores_ok m" and c: "1 \<le> global_ts m" "global_ts m < TS_INF" "global_ts m < global_ts m + 1"
  shows "stores_ok (snd (finalize_commit m p now))"
proof -
  let ?c = "global_ts m"
  have "all_stores (store_ok ?c) (version_stores (publish_commit p t m))"
    using ok by (simp add: stores_ok_all publish_commit_def next_timestamp_def)
  from fold_apply_stores [OF this c(1,2)]
  have "all_stores (store_ok ?c) (version_stores (snd (finalize_commit m p now)))"
    unfolding finalize_frames(7) [OF x refl] by (intro prune_ok) (simp add: gc_stores_ok)
  then show ?thesis
    using store_ok_later [OF _ less_imp_le [OF c(3)]]
    unfolding stores_ok_all finalize_frames(3) [OF x refl] all_stores_def by blast
qed

lemma logged_advance: "logged d h \<Longrightarrow> oldest \<le> h_ts h \<Longrightarrow> logged (advance_watermark d oldest) h"
  by (fastforce simp: logged_def advance_watermark_def)

lemma logged_record: "logged d h \<Longrightarrow> logged (record_prepared_commit d x ws ks ts) h"
  by (fastforce simp: logged_def record_prepared_commit_def)

lemma logged_new:
  "logged (record_prepared_commit d x ws ks ts) \<lparr>h_txn = x, h_snap = s, h_ts = ts, h_keys = map tw_key ws\<rparr>"
  by (auto simp: logged_def record_prepared_commit_def tw_key_def bex_Un)

text \<open>A session publishes the prepared commit \<open>p\<close> of the entry \<open>t\<close> in the state \<open>w\<close>.\<close>

definition publishing :: "nat \<Rightarrow> ('j, 'e) world_scheme \<Rightarrow> 'j prepared_commit \<Rightarrow> 'j active_txn \<Rightarrow> bool" where
  "publishing n w p t \<longleftrightarrow> conflict_ok n w \<and> n < call_bound \<and> p \<in> set (prepared w)
   \<and> hm_get (active_txns (mgr w)) (pc_txn_id p) = Some t \<and> status t = Validating"

definition new_commit :: "'j txn_manager \<Rightarrow> 'j prepared_commit \<Rightarrow> 'j active_txn \<Rightarrow> commit_record" where
  "new_commit m p t = \<lparr>h_txn = pc_txn_id p, h_snap = read_ts (at_snapshot t), h_ts = global_ts m,
     h_keys = map tw_key (pc_writes p)\<rparr>"

lemma publishingD:
  assumes "publishing n w p t"
  shows "conflict_ok n w" "n < call_bound" "p \<in> set (prepared w)"
    "hm_get (active_txns (mgr w)) (pc_txn_id p) = Some t" "status t = Validating"
    "entry_ok (mgr w) (pc_txn_id p) t" "keys_of t = tw_key ` set (pc_writes p)"
    "unat (global_ts (mgr w)) \<le> Suc n" "1 \<le> global_ts (mgr w)"
    "set (h_keys (new_commit (mgr w) p t)) = keys_of t"
proof -
  show all: "conflict_ok n w" "n < call_bound" "p \<in> set (prepared w)"
    "hm_get (active_txns (mgr w)) (pc_txn_id p) = Some t" "status t = Validating"
    using assms by (simp_all add: publishing_def)
  show "entry_ok (mgr w) (pc_txn_id p) t" using conflict_okD(1) [OF all(1)] all(4) by (simp add: entries_ok_def)
  show k: "keys_of t = tw_key ` set (pc_writes p)"
    using conflict_okD(5) [OF all(1)] all(3,4) by (auto simp: prepared_ok_def)
  show "unat (global_ts (mgr w)) \<le> Suc n" "1 \<le> global_ts (mgr w)"
    using conflict_okD(4) [OF all(1)] by (simp_all add: counters_ok_def)
  show "set (h_keys (new_commit (mgr w) p t)) = keys_of t" by (simp add: new_commit_def k)
qed

lemma publish_frames [simp]:
  "snapshots (publish_commit p t m) = snapshots m" "version_stores (publish_commit p t m) = version_stores m"
  "global_ts (publish_commit p t m) = global_ts m + 1" "next_txn (publish_commit p t m) = next_txn m"
  "next_snap (publish_commit p t m) = next_snap m" "gc (publish_commit p t m) = gc m"
  "active_txns (publish_commit p t m) = hm_remove (pc_txn_id p) (active_txns m)"
  "detector (publish_commit p t m) = record_prepared_commit (detector m) (pc_txn_id p) (pc_writes p)
     (write_keys (at_context t)) (global_ts m)"
  by (simp_all add: publish_commit_def next_timestamp_def)

lemma publish_locks:
  assumes f: "publishing n w p t"
  shows "hm_get (active_writes (detector (publish_commit p t (mgr w)))) k =
      (if k \<in> keys_of t then None else hm_get (active_writes (detector (mgr w))) k)"
  using publishingD [OF f]
  by (auto simp: record_prepared_commit_def release_intents_get entry_ok_def keys_of_def)

lemma publish_other:
  assumes f: "publishing n w p t" and y: "hm_get (active_txns (mgr w)) y = Some u" "y \<noteq> pc_txn_id p"
  shows "entry_ok (publish_commit p t (mgr w)) y u"
    and "status u = Validating \<Longrightarrow> keys_of u \<inter> keys_of t = {}"
    and "snap_id (at_snapshot u) \<noteq> snap_id (at_snapshot t)"
proof -
  note fD = publishingD [OF f]
  have u: "entry_ok (mgr w) y u" using conflict_okD(1) [OF fD(1)] y(1) by (simp add: entries_ok_def)
  show "snap_id (at_snapshot u) \<noteq> snap_id (at_snapshot t)"
    using conflict_okD(1) [OF fD(1)] fD(4) y by (auto simp: entries_ok_def)
  have t: "\<forall>k \<in> keys_of t. hm_get (active_writes (detector (mgr w))) k = Some (pc_txn_id p)"
    using fD(5,6) by (simp add: entry_ok_def)
  have "k \<notin> keys_of t" if "hm_get (active_writes (detector (mgr w))) k = Some y" for k
    using t that y(2) by auto
  with u show "entry_ok (publish_commit p t (mgr w)) y u"
    by (auto simp: entry_ok_def publish_locks [OF f] simp del: publish_frames(8))
  assume "status u = Validating"
  with u have "\<forall>k \<in> keys_of u. hm_get (active_writes (detector (mgr w))) k = Some y"
    by (simp add: entry_ok_def)
  with t show "keys_of u \<inter> keys_of t = {}" using y(2) by (metis disjoint_iff option.inject)
qed

lemma publish_logged:
  assumes "logged (detector (mgr w)) h \<or> h = new_commit (mgr w) p t"
  shows "logged (detector (publish_commit p t (mgr w))) h"
  using assms by (auto simp: new_commit_def logged_record logged_new)

lemma publish_history:
  assumes f: "publishing n w p t"
  shows "history_ok (publish_commit p t (mgr w)) (history w @ [new_commit (mgr w) p t])"
proof -
  note fD = publishingD [OF f]
  note H = conflict_okD(6) [OF fD(1)]
  let ?m' = "publish_commit p t (mgr w)" and ?hs = "set (history w) \<union> {new_commit (mgr w) p t}"
  have get: "hm_get (active_txns ?m') y = (if y = pc_txn_id p then None else hm_get (active_txns (mgr w)) y)" for y
    by (simp add: hm_simps)
  have "keys_of u \<inter> set (h_keys h) = {}"
    if y: "hm_get (active_txns (mgr w)) y = Some u" "y \<noteq> pc_txn_id p" "status u = Validating"
      and h: "h \<in> ?hs" "read_ts (at_snapshot u) < h_ts h" for y u h
  proof -
    have "keys_of u \<inter> set (h_keys h) = {}" if "h \<in> set (history w)"
      using H y(1,3) that h(2) by (simp add: history_ok_def)
    then show ?thesis using h(1) publish_other(2) [OF f y] fD(10) by auto
  qed
  moreover have "h_ts h < global_ts ?m' \<and> h_txn h < next_txn ?m' \<and> hm_get (active_txns ?m') (h_txn h) = None"
    if "h \<in> ?hs" for h
    using that H fD(6) counter_bump(2) [OF fD(8,2)] counter_bump(3) [OF fD(8,2) less_imp_le]
    by (auto simp: history_ok_def get new_commit_def entry_ok_def simp del: publish_frames(7))
  moreover have "logged (detector ?m') h"
    if "hm_get (active_txns (mgr w)) y = Some u" "status u = Active" "h \<in> ?hs" "read_ts (at_snapshot u) < h_ts h"
    for y u h
    using that H by (intro publish_logged) (auto simp: history_ok_def)
  ultimately show ?thesis unfolding history_ok_def get by simp
qed

lemma publish_first_wins:
  assumes f: "publishing n w p t"
  shows "first_wins (history w @ [new_commit (mgr w) p t])"
proof -
  note fD = publishingD [OF f]
  have "h_ts a \<le> h_snap (new_commit (mgr w) p t)"
    if "a \<in> set (history w)" "set (h_keys a) \<inter> set (h_keys (new_commit (mgr w) p t)) \<noteq> {}" for a
    using conflict_okD(6) [OF fD(1)] fD(4,5) that unfolding fD(10)
    by (fastforce simp: history_ok_def new_commit_def)
  then show ?thesis
    using conflict_okD(7) [OF fD(1)] unfolding first_wins_def by (auto simp: Int_commute)
qed

lemma unprepare_ok: "prepared_ok m ps \<Longrightarrow> prepared_ok m (remove1 p ps)"
  by (auto simp: prepared_ok_def distinct_map distinct_remove1 dest: notin_set_remove1 intro: inj_on_subset)

lemma publish_conflict:
  assumes f: "publishing n w p t"
  shows "conflict_ok (Suc n) (w\<lparr>mgr := publish_commit p t (mgr w), prepared := remove1 p (prepared w),
    history := history w @ [new_commit (mgr w) p t]\<rparr>)"
proof -
  let ?m' = "publish_commit p t (mgr w)"
  note fD = publishingD [OF f]
  note parts = conflict_okD [OF fD(1)]
  have get: "hm_get (active_txns ?m') y = (if y = pc_txn_id p then None else hm_get (active_txns (mgr w)) y)" for y
    by (simp add: hm_simps)
  have E: "entries_ok ?m'"
    using parts(1) publish_other(1) [OF f] unfolding entries_ok_def get by (auto simp: hm_simps)
  have S: "snapshots_ok ?m'"
    using parts(2) counter_bump(3) [OF fD(8,2)] less_imp_le [OF counter_bump(3) [OF fD(8,2)]]
    by (simp add: snapshots_ok_def)
  have L: "locks_ok ?m'"
    using parts(3) fD(4) unfolding locks_ok_def get publish_locks [OF f]
    by (metis option.distinct(1) option.inject)
  have C: "counters_ok (Suc n) ?m'"
    using parts(4) counter_bump(1,2) [OF fD(8,2)] by (auto simp: counters_ok_def dest: less_imp_le)
  have P: "prepared_ok ?m' (remove1 p (prepared w))"
    using unprepare_ok [OF parts(5), of p] unfolding prepared_ok_def get by simp
  show ?thesis
    using E S L C P publish_history [OF f] publish_first_wins [OF f] by (auto intro!: conflict_okI)
qed

section \<open>After the lock is dropped\<close>

text \<open>The writes go to the version stores only.\<close>

lemma apply_write_only_stores: "\<exists>vs. apply_write c x m = m\<lparr>version_stores := vs\<rparr>"
  by (auto simp: apply_write_def on_store_def get_version_store_def Let_def split: option.splits)

lemma apply_write_conflict [simp]:
  "conflict_ok n (w\<lparr>mgr := apply_write c x (mgr w)\<rparr>) = conflict_ok n w"
  using apply_write_only_stores [of c x "mgr w"] by auto

lemma fold_apply_conflict [simp]:
  "conflict_ok n (w\<lparr>mgr := fold (apply_write c) ws (mgr w)\<rparr>) = conflict_ok n w"
proof (induction ws arbitrary: w)
  case (Cons x ws)
  have "conflict_ok n (w\<lparr>mgr := fold (apply_write c) (x # ws) (mgr w)\<rparr>) =
      conflict_ok n (w\<lparr>mgr := apply_write c x (mgr w)\<rparr>)"
    using Cons.IH [of "w\<lparr>mgr := apply_write c x (mgr w)\<rparr>"] by simp
  then show ?case by simp
qed simp

text \<open>A snapshot is released that no open transaction owns.\<close>

definition unowned :: "'j txn_manager \<Rightarrow> u64 \<Rightarrow> bool" where
  "unowned m i \<longleftrightarrow> (\<forall>y u. hm_get (active_txns m) y = Some u \<longrightarrow> snap_id (at_snapshot u) \<noteq> i)"

lemma release_conflict:
  assumes ok: "conflict_ok n w" and i: "unowned (mgr w) i"
  shows "conflict_ok n (w\<lparr>mgr := (mgr w)\<lparr>snapshots := release (snapshots (mgr w)) i, total_committed := c\<rparr>\<rparr>)"
  using conflict_okD [OF ok] i
  by (intro conflict_okI)
    (auto simp: entries_ok_def entry_ok_def snapshots_ok_def sm_ok_release locks_ok_def counters_ok_def
      prepared_ok_def history_ok_def unowned_def)

text \<open>The log may be trimmed up to a timestamp that no active transaction's snapshot precedes.\<close>

definition trimmable :: "'j txn_manager \<Rightarrow> u64 \<Rightarrow> bool" where
  "trimmable m oldest \<longleftrightarrow> (\<forall>y u. hm_get (active_txns m) y = Some u \<longrightarrow> status u = Active \<longrightarrow>
     oldest \<le> read_ts (at_snapshot u))"

lemma detector_conflict:
  assumes ok: "conflict_ok n w" and d: "active_writes d = active_writes (detector (mgr w))"
    and keep: "\<And>y u h. hm_get (active_txns (mgr w)) y = Some u \<Longrightarrow> status u = Active \<Longrightarrow>
      h \<in> set (history w) \<Longrightarrow> read_ts (at_snapshot u) < h_ts h \<Longrightarrow> logged (detector (mgr w)) h \<Longrightarrow> logged d h"
  shows "conflict_ok n (w\<lparr>mgr := (mgr w)\<lparr>detector := d\<rparr>\<rparr>)"
  using conflict_okD [OF ok] d keep
  by (intro conflict_okI)
    (auto simp: entries_ok_def entry_ok_def snapshots_ok_def locks_ok_def counters_ok_def prepared_ok_def
      history_ok_def)

lemma advance_conflict:
  assumes "conflict_ok n w" and "trimmable (mgr w) oldest"
  shows "conflict_ok n (w\<lparr>mgr := (mgr w)\<lparr>detector := advance_watermark (detector (mgr w)) oldest\<rparr>\<rparr>)"
proof (intro detector_conflict [OF assms(1)] logged_advance)
  fix y u h
  assume "hm_get (active_txns (mgr w)) y = Some u" "status u = Active" "read_ts (at_snapshot u) < h_ts h"
  then show "oldest \<le> h_ts h" using assms(2) unfolding trimmable_def by (meson less_imp_le order_trans)
qed simp_all

lemma active_snapshot:
  assumes "conflict_ok n w" and "hm_get (active_txns (mgr w)) y = Some u"
  shows "entry_ok (mgr w) y u"
    and "hm_get (active (snapshots (mgr w))) (snap_id (at_snapshot u)) = Some (at_snapshot u)"
    and "1 \<le> read_ts (at_snapshot u)" and "read_ts (at_snapshot u) \<le> global_ts (mgr w)"
    and "\<not> snap_read_only (at_snapshot u) \<Longrightarrow> read_ts (at_snapshot u) < global_ts (mgr w)"
proof -
  show e: "entry_ok (mgr w) y u" using conflict_okD(1) [OF assms(1)] assms(2) unfolding entries_ok_def by blast
  then show s: "hm_get (active (snapshots (mgr w))) (snap_id (at_snapshot u)) = Some (at_snapshot u)"
    by (simp add: entry_ok_def)
  note ok = conflict_okD(2) [OF assms(1), unfolded snapshots_ok_def, THEN conjunct2, rule_format, OF s]
  show "1 \<le> read_ts (at_snapshot u)" "read_ts (at_snapshot u) \<le> global_ts (mgr w)"
    "\<not> snap_read_only (at_snapshot u) \<Longrightarrow> read_ts (at_snapshot u) < global_ts (mgr w)"
    using ok by auto
qed

lemma trimmable_max:
  assumes "conflict_ok n w" and "n \<le> call_bound" and "trimmable (mgr w) u64_max"
    and "hm_get (active_txns (mgr w)) y = Some u"
  shows "status u \<noteq> Active"
proof
  assume "status u = Active"
  then have "u64_max \<le> read_ts (at_snapshot u)" using assms(3,4) by (simp add: trimmable_def)
  also have "read_ts (at_snapshot u) \<le> global_ts (mgr w)"
    by (rule active_snapshot(4) [OF assms(1,4)])
  finally have "unat u64_max \<le> unat (global_ts (mgr w))" by (simp add: word_le_nat_alt)
  then show False
    using conflict_okD(4) [OF assms(1)] assms(2) by (simp add: counters_ok_def call_bound_def unat_u64_max)
qed

lemma clear_conflict:
  assumes "conflict_ok n w" and "n \<le> call_bound" and "trimmable (mgr w) u64_max"
  shows "conflict_ok n (w\<lparr>mgr := (mgr w)\<lparr>detector := clear_committed_writes (detector (mgr w))\<rparr>\<rparr>)"
  using trimmable_max [OF assms] by (intro detector_conflict [OF assms(1)]) auto

lemma trim_conflict:
  assumes ok: "conflict_ok n w" and n: "n \<le> call_bound" and t: "trimmable (mgr w) oldest"
  shows "conflict_ok n (w\<lparr>mgr := (mgr w)\<lparr>detector := trim_log (detector (mgr w)) oldest\<rparr>\<rparr>)"
proof (cases "oldest = u64_max")
  case True
  let ?w = "w\<lparr>mgr := (mgr w)\<lparr>detector := advance_watermark (detector (mgr w)) u64_max\<rparr>\<rparr>"
  have "trimmable (mgr ?w) u64_max" using t by (simp add: trimmable_def True)
  from clear_conflict [OF advance_conflict [OF ok t [unfolded True]] n this] show ?thesis
    by (simp add: trim_log_def True)
qed (simp add: trim_log_def advance_conflict [OF ok t])

text \<open>The oldest active timestamp, when it is current, is such a timestamp.\<close>

lemma oldest_trimmable:
  assumes "conflict_ok n w"
  shows "trimmable (mgr w) (oldest_active_timestamp (snapshots (mgr w)))"
  using conflict_okD(2) [OF assms] oldest_le_active active_snapshot(2) [OF assms]
  unfolding trimmable_def snapshots_ok_def by blast

lemma settle_conflict:
  assumes ok: "conflict_ok n w" and n: "n \<le> call_bound" and i: "unowned (mgr w) i"
  shows "conflict_ok n (w\<lparr>mgr := settle_commit ws c i now (mgr w)\<rparr>)"
proof -
  let ?w1 = "w\<lparr>mgr := fold (apply_write c) ws (mgr w)\<rparr>"
  let ?w2 = "?w1\<lparr>mgr := (mgr ?w1)\<lparr>snapshots := release (snapshots (mgr ?w1)) i,
    total_committed := total_committed (mgr ?w1) + 1\<rparr>\<rparr>"
  have "unowned (mgr ?w1) i" using i by (simp add: unowned_def)
  then have ok2: "conflict_ok n ?w2" by (intro release_conflict) (simp add: ok)
  show ?thesis
    by (rule conflict_ok_managers [OF _ _ _ _ _ _
          trim_conflict [OF ok2 n oldest_trimmable [OF ok2], simplified]])
       (simp_all add: settle_commit_def Let_def prune_empty_version_stores_def split: prod.splits)
qed

lemma history_entry_new:
  "hm_get (active_txns m) (pc_txn_id p) = Some t \<Longrightarrow> status t = Validating \<Longrightarrow>
   history_entry m p = [new_commit m p t]"
  by (simp add: history_entry_def new_commit_def)

lemma finalize_conflict:
  assumes f: "publishing n w p t"
  shows "conflict_ok (Suc n) (w\<lparr>mgr := snd (finalize_commit (mgr w) p now),
     prepared := remove1 p (prepared w), history := history w @ history_entry (mgr w) p\<rparr>)"
proof -
  note fD = publishingD [OF f]
  have "unowned (publish_commit p t (mgr w)) (snap_id (at_snapshot t))"
    using publish_other(3) [OF f] by (auto simp: unowned_def hm_simps split: if_splits)
  then show ?thesis
    using settle_conflict [OF publish_conflict [OF f], of "snap_id (at_snapshot t)" "pc_writes p" "global_ts (mgr w)" now]
      fD(2,4,5)
    by (simp add: finalize_commit_def history_entry_new) (simp add: conflict_ok_def)
qed

lemma finalize_refused:
  assumes ok: "conflict_ok n w"
    and r: "\<not> (\<exists>t. hm_get (active_txns (mgr w)) (pc_txn_id p) = Some t \<and> status t = Validating)"
  shows "snd (finalize_commit (mgr w) p now) = mgr w"
    and "conflict_ok n (w\<lparr>mgr := snd (finalize_commit (mgr w) p now),
     prepared := remove1 p (prepared w), history := history w @ history_entry (mgr w) p\<rparr>)"
proof -
  show same: "snd (finalize_commit (mgr w) p now) = mgr w"
    using r by (auto simp: finalize_commit_def split: option.splits)
  have "history_entry (mgr w) p = []" using r by (auto simp: history_entry_def split: option.splits)
  then show "conflict_ok n (w\<lparr>mgr := snd (finalize_commit (mgr w) p now),
     prepared := remove1 p (prepared w), history := history w @ history_entry (mgr w) p\<rparr>)"
    using conflict_okD [OF ok] unprepare_ok same by (auto intro!: conflict_okI)
qed

section \<open>The version stores\<close>

lemma stores_ok_later:
  "stores_ok m \<Longrightarrow> version_stores m' = version_stores m \<Longrightarrow> global_ts m \<le> global_ts m' \<Longrightarrow> stores_ok m'"
  using store_ok_later unfolding stores_ok_def by metis

lemma abort_fold_frames [simp]:
  "version_stores (fold abort_if_present xs m) = version_stores m"
  "global_ts (fold abort_if_present xs m) = global_ts m"
proof -
  have one: "version_stores (abort_if_present x m) = version_stores m"
    "global_ts (abort_if_present x m) = global_ts m" for x and m :: "'a txn_manager"
    by (simp_all add: abort_if_present_def split: option.split)
  show "version_stores (fold abort_if_present xs m) = version_stores m"
    "global_ts (fold abort_if_present xs m) = global_ts m"
    by (induction xs arbitrary: m) (simp_all add: one)
qed

lemma get_version_store_stores: "stores_ok m \<Longrightarrow> stores_ok (snd (get_version_store m t))"
  by (simp add: get_version_store_def stores_ok_def hm_get_insert hm_wf_insert store_ok_new
      del: map_of_eq_Some_iff split: option.split)

lemma prepare_frames:
  assumes "prepare_commit m x = (r, m')"
  shows "version_stores m' = version_stores m" and "global_ts m' = global_ts m"
  using assms
  by (auto simp: prepare_commit_def Let_def take_write_set_def split: option.splits if_splits sum.splits prod.splits)

lemma step_stores:
  assumes "tm_step w w'" and "conflict_ok n w" and "stores_ok (mgr w)" and "n < call_bound"
  shows "stores_ok (mgr w')"
  using assms
proof (induction rule: tm_step.induct)
  case (begin_rw w now)
  have "global_ts (mgr w) \<le> global_ts (mgr w) + 1"
    using conflict_okD(4) [OF begin_rw(1)] counter_bump(2) [OF _ begin_rw(3)] by (simp add: counters_ok_def less_imp_le)
  then show ?case using begin_rw(2)
    by (intro stores_ok_later [OF begin_rw(2)])
       (simp_all add: begin_txn_def create_rw_snapshot_def next_timestamp_def Let_def abort_timed_out_txns_def)
next
  case (begin_ro w now)
  then show ?case
    by (simp add: begin_read_only_def create_snapshot_def Let_def stores_ok_def)
next
  case (on_context w x op now)
  then show ?case
    by (auto simp: with_context_def stores_ok_def split: option.splits sum.splits)
next
  case (prepare_ok w x p m)
  then show ?case using prepare_frames [OF prepare_ok(1)] by (simp add: stores_ok_def)
next
  case (prepare_err w x e m)
  then show ?case using prepare_frames [OF prepare_err(1)] by (simp add: stores_ok_def)
next
  case (finalize p w now)
  show ?case
  proof (cases "\<exists>t. hm_get (active_txns (mgr w)) (pc_txn_id p) = Some t \<and> status t = Validating")
    case True
    then obtain t where "hm_get (active_txns (mgr w)) (pc_txn_id p) = Some t" "status t = Validating" by blast
    moreover have "unat (global_ts (mgr w)) \<le> Suc n" "1 \<le> global_ts (mgr w)"
      using conflict_okD(4) [OF finalize(2)] by (simp_all add: counters_ok_def)
    ultimately show ?thesis
      using finalize_stores [OF _ _ finalize(3)] counter_bump [OF _ finalize(4)] by simp
  next
    case False
    then show ?thesis using finalize_refused(1) [OF finalize(2)] finalize(3) by simp
  qed
next
  case (roll_back w x)
  then show ?case by (auto simp: rollback_def stores_ok_def split: option.splits)
next
  case (versioned w x t r)
  then show ?case using get_version_store_stores [of "mgr w" t]
    by (auto simp: read_versioned_def split: sum.splits prod.splits)
qed

section \<open>Every reachable state\<close>

lemma step_conflict: "tm_step w w' \<Longrightarrow> conflict_ok n w \<Longrightarrow> n < call_bound \<Longrightarrow> conflict_ok (Suc n) w'"
proof (induction rule: tm_step.induct)
  case (finalize p w now)
  show ?case
  proof (cases "\<exists>t. hm_get (active_txns (mgr w)) (pc_txn_id p) = Some t \<and> status t = Validating")
    case True
    then obtain t where "publishing n w p t" using finalize by (auto simp: publishing_def)
    then show ?thesis by (rule finalize_conflict)
  next
    case False
    then show ?thesis using finalize_refused(2) finalize(2) by (blast intro: conflict_ok_mono le_SucI)
  qed
qed (auto intro: begin_rw_conflict begin_ro_conflict
    conflict_ok_mono [OF with_context_conflict] conflict_ok_mono [OF prepare_ok_conflict]
    conflict_ok_mono [OF prepare_err_conflict] conflict_ok_mono [OF rollback_conflict]
    conflict_ok_mono [OF read_versioned_conflict])

lemma reachable_world: "reachable n w \<Longrightarrow> n \<le> call_bound \<Longrightarrow> conflict_ok n w \<and> stores_ok (mgr w)"
proof (induction rule: reachable.induct)
  case start
  show ?case by (simp add: conflict_ok_new stores_ok_new)
next
  case (step n w w')
  then show ?case using step_conflict step_stores by (metis Suc_le_eq less_imp_le)
qed

end
