(* ===== verification/Txn_Interleaving.thy ===== *)
theory Txn_Interleaving
  imports Txn_Safety
begin

text \<open>
  Commits and begins of many sessions interleaved at the points where \<^verbatim>\<open>txn/manager.rs\<close> holds
  no lock on \<open>active_txns\<close>. A \<open>begin\<close> draws its numbers and enters its transaction later; a
  \<open>finalize_commit\<close> publishes the commit under the lock and then writes the version stores,
  releases its snapshot, reads the oldest active timestamp, trims the conflict log and collects
  garbage, each as a step of its own. The timestamp it trims to may therefore be out of date:
  the flag \<open>late\<close> records that the log was ever trimmed past the snapshot of a transaction that
  is open or starting. While it never was, the first committer wins; the code has nothing that
  keeps it from happening.
\<close>

section \<open>Steps\<close>

text \<open>What is left of a \<open>finalize_commit\<close> after the lock is dropped.\<close>

datatype 'j tail =
    Writing u64 "'j txn_write list" u64
  | Released
  | Trimming u64
  | Clearing
  | Collecting
  | Finished

record 'j fine = "'j world" +
  drawn :: "(u64 \<times> snapshot) list"
  tails :: "'j tail list"
  late :: bool

definition fine_new :: "'j fine" where
  "fine_new = \<lparr>mgr = tm_new, prepared = [], history = [], drawn = [], tails = [], late = False\<rparr>"

definition timely :: "'j fine \<Rightarrow> u64 \<Rightarrow> bool" where
  "timely w oldest \<longleftrightarrow>
     list_all (\<lambda>(y, u). status u = Active \<longrightarrow> oldest \<le> read_ts (at_snapshot u)) (active_txns (mgr w))
   \<and> list_all (\<lambda>(x, s). oldest \<le> read_ts s) (drawn w)"

text \<open>
  The locked stage: the commit is stamped, logged and leaves \<open>active_txns\<close>.
\<close>

definition publish_stage :: "'j fine \<Rightarrow> 'j prepared_commit \<Rightarrow> 'j fine" where
  "publish_stage w p =
     (case hm_get (active_txns (mgr w)) (pc_txn_id p) of
        None \<Rightarrow> w\<lparr>prepared := remove1 p (prepared w)\<rparr>
      | Some t \<Rightarrow>
          if status t \<noteq> Validating then w\<lparr>prepared := remove1 p (prepared w)\<rparr>
          else w\<lparr>mgr := publish_commit p t (mgr w), prepared := remove1 p (prepared w),
            history := history w @ [new_commit (mgr w) p t],
            tails := tails w @ [Writing (global_ts (mgr w)) (pc_writes p) (snap_id (at_snapshot t))]\<rparr>)"

text \<open>
  The next step of an unlocked stage. The value of \<open>oldest_active_timestamp\<close> may be lower than
  the minimum over the snapshots of the entered transactions, because a \<open>begin\<close> registers its
  snapshot before its entry and an abort drops its entry before its snapshot: \<open>bound\<close> is an
  arbitrary cap on it.
\<close>

definition tail_stage :: "'j fine \<Rightarrow> nat \<Rightarrow> u64 \<Rightarrow> u64 \<Rightarrow> 'j fine" where
  "tail_stage w k bound now =
     (case tails w ! k of
        Writing ts (x # ws) i \<Rightarrow>
          w\<lparr>mgr := apply_write ts x (mgr w), tails := (tails w)[k := Writing ts ws i]\<rparr>
      | Writing ts [] i \<Rightarrow>
          w\<lparr>mgr := (mgr w)\<lparr>snapshots := release (snapshots (mgr w)) i,
              total_committed := total_committed (mgr w) + 1\<rparr>,
            tails := (tails w)[k := Released]\<rparr>
      | Released \<Rightarrow>
          w\<lparr>tails := (tails w)[k := Trimming (min bound (oldest_active_timestamp (snapshots (mgr w))))]\<rparr>
      | Trimming oldest \<Rightarrow>
          w\<lparr>mgr := (mgr w)\<lparr>detector := advance_watermark (detector (mgr w)) oldest\<rparr>,
            tails := (tails w)[k := if oldest \<noteq> u64_max then Collecting else Clearing],
            late := (late w \<or> \<not> timely w oldest)\<rparr>
      | Clearing \<Rightarrow>
          w\<lparr>mgr := (mgr w)\<lparr>detector := clear_committed_writes (detector (mgr w))\<rparr>,
            tails := (tails w)[k := Collecting],
            late := (late w \<or> \<not> timely w u64_max)\<rparr>
      | Collecting \<Rightarrow>
          (let (g, stores) = gc_stores (gc (mgr w)) (snapshots (mgr w)) now (version_stores (mgr w))
           in w\<lparr>mgr := prune_empty_version_stores ((mgr w)\<lparr>gc := g, version_stores := stores\<rparr>),
                tails := (tails w)[k := Finished]\<rparr>)
      | Finished \<Rightarrow> w)"

datatype 'j stage =
    Draw
  | DrawReadOnly
  | Enter nat u64
  | AbortIdle u64
  | InContext u64 "'j ctx_op" u64
  | Validate u64
  | PublishCommit u64
  | Continue nat u64 u64
  | RollBack u64
  | ReadRow u64 string u64

fun fine_exec :: "'j fine \<Rightarrow> 'j stage \<Rightarrow> 'j fine" where
  "fine_exec w Draw =
     (case begin_draw (mgr w) of (d, m) \<Rightarrow> w\<lparr>mgr := m, drawn := drawn w @ [d]\<rparr>)"
| "fine_exec w DrawReadOnly =
     (case begin_read_only_draw (mgr w) of (d, m) \<Rightarrow> w\<lparr>mgr := m, drawn := drawn w @ [d]\<rparr>)"
| "fine_exec w (Enter k now) =
     (if k < length (drawn w)
      then w\<lparr>mgr := begin_enter (mgr w) (drawn w ! k) now, drawn := remove1 (drawn w ! k) (drawn w)\<rparr>
      else w)"
| "fine_exec w (AbortIdle now) = w\<lparr>mgr := abort_timed_out_txns (mgr w) now\<rparr>"
| "fine_exec w (InContext x op now) = w\<lparr>mgr := snd (with_context (mgr w) x op now)\<rparr>"
| "fine_exec w (Validate x) =
     (case prepare_commit (mgr w) x of
        (Inl e, m) \<Rightarrow> w\<lparr>mgr := m\<rparr>
      | (Inr p, m) \<Rightarrow> w\<lparr>mgr := m, prepared := p # prepared w\<rparr>)"
| "fine_exec w (PublishCommit x) =
     (case List.find (\<lambda>p. pc_txn_id p = x) (prepared w) of
        None \<Rightarrow> w
      | Some p \<Rightarrow> publish_stage w p)"
| "fine_exec w (Continue k bound now) = (if k < length (tails w) then tail_stage w k bound now else w)"
| "fine_exec w (RollBack x) = w\<lparr>mgr := snd (rollback (mgr w) x)\<rparr>"
| "fine_exec w (ReadRow x t r) = w\<lparr>mgr := snd (read_versioned (mgr w) x t r)\<rparr>"

text \<open>States reachable in \<open>n\<close> steps of any sessions.\<close>

inductive fine_reachable :: "nat \<Rightarrow> 'j fine \<Rightarrow> bool" where
  start: "fine_reachable 0 fine_new"
| step: "fine_reachable n w \<Longrightarrow> fine_reachable (Suc n) (fine_exec w c)"

lemma fine_run: "fine_reachable n w \<Longrightarrow> fine_reachable (n + length cs) (foldl fine_exec w cs)"
proof (induction cs arbitrary: n w)
  case (Cons c cs)
  from Cons.IH [OF fine_reachable.step [OF Cons.prems]] show ?case by simp
qed simp

section \<open>Invariant\<close>

definition closing_ids :: "'j tail list \<Rightarrow> u64 set" where
  "closing_ids ts = {i. \<exists>c ws. Writing c ws i \<in> set ts}"

definition fine_ok :: "nat \<Rightarrow> 'j fine \<Rightarrow> bool" where
  "fine_ok n w \<longleftrightarrow> conflict_ok n w
   \<and> (\<forall>d \<in> set (drawn w). starting_ok w d)
   \<and> distinct (map fst (drawn w)) \<and> distinct (map (snap_id \<circ> snd) (drawn w))
   \<and> (\<forall>i \<in> closing_ids (tails w). i < next_snap (mgr w) \<and> unowned (mgr w) i
        \<and> (\<forall>d \<in> set (drawn w). snap_id (snd d) \<noteq> i))"

lemma fine_okD:
  assumes "fine_ok n w"
  shows "conflict_ok n w" "d \<in> set (drawn w) \<Longrightarrow> starting_ok w d"
    "distinct (map fst (drawn w))" "distinct (map (snap_id \<circ> snd) (drawn w))"
    "i \<in> closing_ids (tails w) \<Longrightarrow> i < next_snap (mgr w) \<and> unowned (mgr w) i"
    "i \<in> closing_ids (tails w) \<Longrightarrow> d \<in> set (drawn w) \<Longrightarrow> snap_id (snd d) \<noteq> i"
  using assms by (auto simp: fine_ok_def)

lemma fine_ok_new: "fine_ok 0 fine_new"
  using conflict_ok_new by (simp add: fine_ok_def fine_new_def closing_ids_def conflict_ok_def world_new_def)

text \<open>
  A step that takes nothing from the log, closes or keeps transactions and snapshots, and only
  moves the counters forward.
\<close>

definition follows :: "'j txn_manager \<Rightarrow> 'j txn_manager \<Rightarrow> bool" where
  "follows m m' \<longleftrightarrow> next_txn m \<le> next_txn m' \<and> next_snap m \<le> next_snap m' \<and> global_ts m \<le> global_ts m'
   \<and> (\<forall>y u'. hm_get (active_txns m') y = Some u' \<longrightarrow>
        (\<exists>u. hm_get (active_txns m) y = Some u \<and> at_snapshot u' = at_snapshot u))
   \<and> (\<forall>i. hm_get (active (snapshots m)) i = None \<longrightarrow> hm_get (active (snapshots m')) i = None)
   \<and> set (committed_writes (detector m)) \<subseteq> set (committed_writes (detector m'))"

lemma follows_refl [simp]: "follows m m"
  by (simp add: follows_def)

lemma follows_trans: "follows a b \<Longrightarrow> follows b c \<Longrightarrow> follows a c"
  unfolding follows_def by (intro conjI allI impI; metis order_trans)

lemma follows_logged: "follows m m' \<Longrightarrow> logged (detector m) h \<Longrightarrow> logged (detector m') h"
  unfolding follows_def logged_def by fast

lemma follows_absent:
  "follows m m' \<Longrightarrow> hm_get (active_txns m) x = None \<Longrightarrow> hm_get (active_txns m') x = None"
  unfolding follows_def by (metis not_None_eq)

lemma follows_unowned: "follows m m' \<Longrightarrow> unowned m i \<Longrightarrow> unowned m' i"
  unfolding follows_def unowned_def by metis

lemma follows_starting:
  assumes f: "follows (mgr w) (mgr w')" and d: "starting_ok w d"
    and p: "\<And>p. p \<in> set (prepared w') \<Longrightarrow> p \<in> set (prepared w) \<or> hm_get (active_txns (mgr w)) (pc_txn_id p) \<noteq> None"
    and h: "\<And>h. h \<in> set (history w') \<Longrightarrow> h \<in> set (history w)
      \<or> hm_get (active_txns (mgr w)) (h_txn h) \<noteq> None \<and> logged (detector (mgr w')) h"
  shows "starting_ok w' d"
proof -
  obtain x s where xs: "d = (x, s)" by (cases d)
  note D = d [unfolded starting_ok_def xs prod.case]
  have "x < next_txn (mgr w') \<and> snap_id s < next_snap (mgr w') \<and> read_ts s \<le> global_ts (mgr w')
      \<and> (\<not> snap_read_only s \<longrightarrow> read_ts s < global_ts (mgr w'))
      \<and> hm_get (active (snapshots (mgr w'))) (snap_id s) = None"
    using f D unfolding follows_def by (meson order_less_le_trans order_trans)
  moreover have "pc_txn_id q \<noteq> x" if "q \<in> set (prepared w')" for q
    using p [OF that] D by auto
  moreover have "h_txn g \<noteq> x \<and> (read_ts s < h_ts g \<longrightarrow> logged (detector (mgr w')) g)"
    if "g \<in> set (history w')" for g
    using h [OF that] D follows_logged [OF f] by auto
  ultimately show ?thesis
    using D follows_absent [OF f] by (simp add: starting_ok_def xs)
qed

lemma follows_fine:
  assumes ok: "fine_ok n w" and c: "conflict_ok n' w'" and f: "follows (mgr w) (mgr w')"
    and p: "\<And>p. p \<in> set (prepared w') \<Longrightarrow> p \<in> set (prepared w) \<or> hm_get (active_txns (mgr w)) (pc_txn_id p) \<noteq> None"
    and h: "\<And>h. h \<in> set (history w') \<Longrightarrow> h \<in> set (history w)
      \<or> hm_get (active_txns (mgr w)) (h_txn h) \<noteq> None \<and> logged (detector (mgr w')) h"
    and d: "drawn w' = drawn w"
    and i: "\<And>i. i \<in> closing_ids (tails w') \<Longrightarrow> i \<in> closing_ids (tails w)
      \<or> unowned (mgr w') i \<and> hm_get (active (snapshots (mgr w))) i \<noteq> None"
  shows "fine_ok n' w'"
proof -
  have start: "starting_ok w d" if "d \<in> set (drawn w)" for d using fine_okD(2) [OF ok that] .
  have "starting_ok w' d" if "d \<in> set (drawn w)" for d
    using follows_starting [OF f start [OF that] p h] .
  moreover have "j < next_snap (mgr w') \<and> unowned (mgr w') j \<and> (\<forall>d \<in> set (drawn w). snap_id (snd d) \<noteq> j)"
    if "j \<in> closing_ids (tails w')" for j
    using i [OF that]
  proof
    assume "j \<in> closing_ids (tails w)"
    then show ?thesis using fine_okD(5,6) [OF ok] follows_unowned [OF f] f
      unfolding follows_def by (meson order_less_le_trans)
  next
    assume new: "unowned (mgr w') j \<and> hm_get (active (snapshots (mgr w))) j \<noteq> None"
    then have "j < next_snap (mgr w)"
      using conflict_okD(2) [OF fine_okD(1) [OF ok]] unfolding snapshots_ok_def by auto
    then have "j < next_snap (mgr w')" using f unfolding follows_def by (meson order_less_le_trans)
    moreover have "snap_id (snd d) \<noteq> j" if "d \<in> set (drawn w)" for d
      using start [OF that] new by (auto simp: starting_ok_def)
    ultimately show ?thesis using new by blast
  qed
  ultimately show ?thesis using c fine_okD(3,4) [OF ok] by (simp add: fine_ok_def d)
qed

section \<open>Steps under the lock\<close>

lemma abort_follows: "hm_get (active_txns m) x = Some t \<Longrightarrow> follows m (abort_txn x t m)"
  by (auto simp: follows_def)

lemma abort_fold_follows: "follows m (fold abort_if_present xs m)"
proof (induction xs arbitrary: m)
  case (Cons x xs)
  have "follows m (abort_if_present x m)"
    by (auto simp: abort_if_present_def abort_follows split: option.split)
  from follows_trans [OF this Cons] show ?case by simp
qed simp

lemma abort_idle_follows: "follows m (abort_timed_out_txns m now)"
  unfolding abort_timed_out_txns_def by (rule abort_fold_follows)

lemma entry_update_follows:
  "hm_get (active_txns m) x = Some t \<Longrightarrow> at_snapshot t' = at_snapshot t \<Longrightarrow>
   follows m (m\<lparr>active_txns := hm_insert x t' (active_txns m)\<rparr>)"
  by (auto simp: follows_def hm_simps)

lemma with_context_follows: "follows m (snd (with_context m x op now))"
  by (auto simp: with_context_def intro: abort_follows entry_update_follows split: option.split sum.split)

lemma rollback_follows: "follows m (snd (rollback m x))"
  by (auto simp: rollback_def intro: abort_follows split: option.split)

lemma get_version_store_follows: "follows m (snd (get_version_store m t))"
  by (simp add: get_version_store_def follows_def split: option.split)

lemma read_versioned_follows: "follows m (snd (read_versioned m x t r))"
  using get_version_store_follows [of m t] by (auto simp: read_versioned_def split: sum.split prod.split)

lemma prepare_follows:
  assumes "prepare_commit m x = (r, m')"
  shows "follows m m'" and "r = Inr p \<Longrightarrow> hm_get (active_txns m) (pc_txn_id p) \<noteq> None"
proof -
  have "follows m m'" if r: "r = Inr p" for p
    using assms [unfolded r]
  proof (rule prepare_ok_cases)
    fix t d
    assume x: "hm_get (active_txns m) x = Some t" and m': "m' = m\<lparr>detector := d, active_txns := hm_insert x
        (t\<lparr>status := Validating, at_context := (at_context t)\<lparr>write_set := []\<rparr>\<rparr>) (active_txns m)\<rparr>"
      and "write_set (at_context t) = [] \<and> d = detector m
       \<or> cr_is_ok (validate (detector m) (at_context t))
         \<and> acquire_write_intent (detector m) (at_context t) = (NoConflict, d)"
    then have "committed_writes d = committed_writes (detector m)" using acquire_ok(3) by blast
    then show ?thesis using x by (auto simp: m' follows_def hm_simps)
  qed
  moreover have "follows m m'" if "r = Inl e" for e
  proof -
    have "m' = m \<or> (\<exists>t. hm_get (active_txns m) x = Some t \<and> m' = abort_txn x t m)"
      using assms that
      by (auto simp: prepare_commit_def Let_def take_write_set_def
          split: option.splits if_splits sum.splits prod.splits)
    then show ?thesis using abort_follows by auto
  qed
  ultimately show "follows m m'" by (cases r) auto
  assume "r = Inr p"
  with assms have "prepare_commit m x = (Inr p, m')" by simp
  then show "hm_get (active_txns m) (pc_txn_id p) \<noteq> None" by (rule prepare_ok_cases) simp
qed

lemma publish_follows:
  assumes "global_ts m \<le> global_ts m + 1"
  shows "follows m (publish_commit p t m)"
  using assms by (auto simp: follows_def hm_simps record_prepared_commit_def split: if_splits)

section \<open>Steps\<close>

lemma draw_fine:
  assumes ok: "fine_ok n w" and c: "conflict_ok n' (w\<lparr>mgr := m'\<rparr>)" and new: "starting_ok (w\<lparr>mgr := m'\<rparr>) d"
    and d: "fst d = next_txn (mgr w)" "snap_id (snd d) = next_snap (mgr w)"
    and f: "follows (mgr w) m'"
  shows "fine_ok n' (w\<lparr>mgr := m', drawn := drawn w @ [d]\<rparr>)"
proof -
  let ?w = "w\<lparr>mgr := m'\<rparr>" and ?w' = "w\<lparr>mgr := m', drawn := drawn w @ [d]\<rparr>"
  have "fine_ok n' ?w" using f by (intro follows_fine [OF ok c]) auto
  moreover have "fst d \<notin> fst ` set (drawn w) \<and> snap_id (snd d) \<notin> (snap_id \<circ> snd) ` set (drawn w)"
    using fine_okD(2) [OF ok] by (force simp: starting_ok_def d)
  moreover have "snap_id (snd d) \<noteq> i" if "i \<in> closing_ids (tails w)" for i
    using fine_okD(5) [OF ok that] by (auto simp: d)
  moreover have "starting_ok ?w' e = starting_ok ?w e" for e by (simp add: starting_ok_def)
  moreover have "conflict_ok n' ?w'" using c by (simp add: conflict_ok_def)
  ultimately show ?thesis using new by (simp add: fine_ok_def)
qed

lemma enter_fine:
  assumes ok: "fine_ok n w" and d: "d \<in> set (drawn w)"
  shows "fine_ok n (w\<lparr>mgr := begin_enter (mgr w) d now, drawn := remove1 d (drawn w)\<rparr>)"
proof -
  obtain x s where xs: "d = (x, s)" by (cases d)
  define m' where "m' = begin_enter (mgr w) d now"
  let ?m = "mgr w" and ?w' = "w\<lparr>mgr := m', drawn := remove1 d (drawn w)\<rparr>"
  note dist = fine_okD(3,4) [OF ok]
  have set1: "set (remove1 d (drawn w)) = set (drawn w) - {d}"
    using dist(1) by (intro set_remove1_eq) (simp add: distinct_map)
  have other: "fst e \<noteq> x \<and> snap_id (snd e) \<noteq> snap_id s" if "e \<in> set (drawn w)" "e \<noteq> d" for e
    using dist that d by (auto simp: distinct_map inj_on_def xs)
  have c: "conflict_ok n ?w'"
    using enter_conflict [OF fine_okD(1,2) [OF ok], OF d, of now] by (simp add: conflict_ok_def m'_def)
  have same: "next_txn m' = next_txn ?m" "next_snap m' = next_snap ?m"
    "global_ts m' = global_ts ?m" "detector m' = detector ?m"
    "hm_get (active (snapshots m')) i = (if i = snap_id s then Some s else hm_get (active (snapshots ?m)) i)"
    for i by (simp_all add: begin_enter_def xs m'_def)
  obtain t where get: "at_snapshot t = s"
      "\<And>y. hm_get (active_txns m') y = (if y = x then Some t else hm_get (active_txns ?m) y)"
    by (rule that [of "\<lparr>at_context = ctx_new x (read_ts s) (snap_read_only s), at_snapshot = s, status = Active,
        last_activity = now\<rparr>"]) (simp_all add: begin_enter_def xs hm_simps m'_def)
  have "starting_ok ?w' e" if "e \<in> set (drawn w)" "e \<noteq> d" for e
    using fine_okD(2) [OF ok that(1)] other [OF that] by (cases e) (auto simp: starting_ok_def same get(2))
  moreover have "unowned m' i" if "i \<in> closing_ids (tails w)" for i
    using fine_okD(5) [OF ok that] fine_okD(6) [OF ok that d] get(1) by (auto simp: unowned_def xs get(2) split: if_splits)
  ultimately have "fine_ok n ?w'"
    using c fine_okD(5,6) [OF ok] dist
    by (auto simp: fine_ok_def set1 same distinct_map distinct_remove1 intro: inj_on_subset)
  then show ?thesis by (simp add: m'_def)
qed

lemma publish_fine:
  assumes ok: "fine_ok n w" and n: "n < call_bound" and p: "p \<in> set (prepared w)"
  shows "fine_ok (Suc n) (publish_stage w p)"
proof (cases "\<exists>t. hm_get (active_txns (mgr w)) (pc_txn_id p) = Some t \<and> status t = Validating")
  case True
  then obtain t where t: "hm_get (active_txns (mgr w)) (pc_txn_id p) = Some t" "status t = Validating" by blast
  have f: "publishing n w p t" using fine_okD(1) [OF ok] n p t by (simp add: publishing_def)
  note fD = publishingD [OF f]
  let ?w' = "publish_stage w p"
  have w': "?w' = w\<lparr>mgr := publish_commit p t (mgr w), prepared := remove1 p (prepared w),
      history := history w @ [new_commit (mgr w) p t],
      tails := tails w @ [Writing (global_ts (mgr w)) (pc_writes p) (snap_id (at_snapshot t))]\<rparr>"
    using t by (simp add: publish_stage_def)
  show ?thesis
  proof (rule follows_fine [OF ok])
    show "conflict_ok (Suc n) ?w'" using publish_conflict [OF f] by (simp add: w' conflict_ok_def)
    show "follows (mgr w) (mgr ?w')"
      using counter_bump(2) [OF fD(8,2)] by (simp add: w' publish_follows less_imp_le)
    show "q \<in> set (prepared w) \<or> hm_get (active_txns (mgr w)) (pc_txn_id q) \<noteq> None"
      if "q \<in> set (prepared ?w')" for q
      using that by (auto simp: w' dest: notin_set_remove1)
    show "h \<in> set (history w) \<or> hm_get (active_txns (mgr w)) (h_txn h) \<noteq> None \<and> logged (detector (mgr ?w')) h"
      if "h \<in> set (history ?w')" for h
    proof (cases "h = new_commit (mgr w) p t")
      case True
      then show ?thesis using publish_logged [of w h p t] t(1) by (auto simp: w' new_commit_def)
    qed (use that in \<open>auto simp: w'\<close>)
    have "unowned (publish_commit p t (mgr w)) (snap_id (at_snapshot t))"
      using publish_other(3) [OF f] by (auto simp: unowned_def hm_simps split: if_splits)
    then show "i \<in> closing_ids (tails w) \<or> unowned (mgr ?w') i \<and> hm_get (active (snapshots (mgr w))) i \<noteq> None"
      if "i \<in> closing_ids (tails ?w')" for i
      using that active_snapshot(2) [OF fD(1,4)] by (auto simp: w' closing_ids_def)
  qed (simp add: w')
next
  case False
  then have w': "publish_stage w p = w\<lparr>prepared := remove1 p (prepared w)\<rparr>"
    by (auto simp: publish_stage_def split: option.split)
  have "conflict_ok n (w\<lparr>prepared := remove1 p (prepared w)\<rparr>)"
    using conflict_okD [OF fine_okD(1) [OF ok]] unprepare_ok by (auto intro!: conflict_okI)
  then have "conflict_ok (Suc n) (w\<lparr>prepared := remove1 p (prepared w)\<rparr>)" by (rule conflict_ok_mono) simp
  then show ?thesis unfolding w'
    by (rule follows_fine [OF ok]) (auto dest: notin_set_remove1)
qed

lemma closing_update:
  "i \<in> closing_ids (ts[k := x]) \<Longrightarrow> i \<in> closing_ids ts \<or> (\<exists>c ws. x = Writing c ws i)"
  using set_update_subset_insert [of ts k x] unfolding closing_ids_def by blast

text \<open>Trimming in time keeps what open and starting transactions are checked against.\<close>

lemma timelyD:
  assumes "timely w oldest"
  shows "trimmable (mgr w) oldest" and "(x, s) \<in> set (drawn w) \<Longrightarrow> oldest \<le> read_ts s"
  using assms by (auto simp: timely_def trimmable_def list_all_iff dest: map_of_SomeD)

lemma trim_fine:
  assumes ok: "fine_ok n w" and c: "conflict_ok n (w\<lparr>mgr := (mgr w)\<lparr>detector := d\<rparr>\<rparr>)"
    and keep: "\<And>x s h. (x, s) \<in> set (drawn w) \<Longrightarrow> h \<in> set (history w) \<Longrightarrow> read_ts s < h_ts h \<Longrightarrow>
      logged (detector (mgr w)) h \<Longrightarrow> logged d h"
    and w': "w' = w\<lparr>mgr := (mgr w)\<lparr>detector := d\<rparr>, tails := ts, late := l\<rparr>"
    and ts: "closing_ids ts \<subseteq> closing_ids (tails w)"
  shows "fine_ok n w'"
proof -
  have "starting_ok w' e" if "e \<in> set (drawn w)" for e
    using fine_okD(2) [OF ok that] keep that by (cases e) (auto simp: starting_ok_def w')
  moreover have "unowned (mgr w') i = unowned (mgr w) i" for i by (simp add: unowned_def w')
  moreover have "conflict_ok n w'" using c by (simp add: conflict_ok_def w')
  ultimately show ?thesis using ok ts by (auto simp: fine_ok_def w')
qed

lemma starting_below_max:
  assumes "fine_ok n w" and "n \<le> call_bound" and "(x, s) \<in> set (drawn w)"
  shows "read_ts s < u64_max"
proof -
  have "read_ts s \<le> global_ts (mgr w)" using fine_okD(2) [OF assms(1,3)] by (simp add: starting_ok_def)
  moreover have "unat (global_ts (mgr w)) < unat u64_max"
    using conflict_okD(4) [OF fine_okD(1) [OF assms(1)]] assms(2)
    by (simp add: counters_ok_def call_bound_def unat_u64_max)
  ultimately show ?thesis by (simp add: word_less_nat_alt word_le_nat_alt)
qed

lemma tail_fine:
  assumes ok: "fine_ok n w" and n: "n < call_bound" and k: "k < length (tails w)"
  shows "late (tail_stage w k bound now) \<or> fine_ok n (tail_stage w k bound now)"
proof (cases "tails w ! k")
  case (Writing ts ws i)
  show ?thesis
  proof (cases ws)
    case Nil
    have i: "i \<in> closing_ids (tails w)" using k Writing by (force simp: closing_ids_def in_set_conv_nth)
    let ?w' = "w\<lparr>mgr := (mgr w)\<lparr>snapshots := release (snapshots (mgr w)) i,
      total_committed := total_committed (mgr w) + 1\<rparr>, tails := (tails w)[k := Released]\<rparr>"
    have "conflict_ok n ?w'"
      using release_conflict [OF fine_okD(1) [OF ok], of i] fine_okD(5) [OF ok i] by (simp add: conflict_ok_def)
    then have "fine_ok n ?w'"
      by (rule follows_fine [OF ok]) (auto simp: follows_def dest: closing_update)
    then show ?thesis by (simp add: tail_stage_def Writing Nil)
  next
    case (Cons x xs)
    let ?w' = "w\<lparr>mgr := apply_write ts x (mgr w), tails := (tails w)[k := Writing ts xs i]\<rparr>"
    have i: "i \<in> closing_ids (tails w)" using k Writing by (force simp: closing_ids_def in_set_conv_nth)
    have "conflict_ok n (w\<lparr>mgr := apply_write ts x (mgr w)\<rparr>)" using fine_okD(1) [OF ok] by simp
    then have "conflict_ok n ?w'" by (simp add: conflict_ok_def)
    then have "fine_ok n ?w'"
      by (rule follows_fine [OF ok]) (use i in \<open>auto simp: follows_def dest: closing_update\<close>)
    then show ?thesis by (simp add: tail_stage_def Writing Cons)
  qed
next
  case Released
  let ?w' = "w\<lparr>tails := (tails w)[k := Trimming (min bound (oldest_active_timestamp (snapshots (mgr w))))]\<rparr>"
  have "conflict_ok n ?w'" using fine_okD(1) [OF ok] by (simp add: conflict_ok_def)
  then have "fine_ok n ?w'" by (rule follows_fine [OF ok]) (auto dest: closing_update)
  then show ?thesis by (simp add: tail_stage_def Released)
next
  case (Trimming oldest)
  have "fine_ok n (tail_stage w k bound now)" if t: "timely w oldest"
    using advance_conflict [OF fine_okD(1) [OF ok] timelyD(1) [OF t]]
  proof (rule trim_fine [OF ok])
    fix x s h assume "(x, s) \<in> set (drawn w)" "read_ts s < h_ts h" "logged (detector (mgr w)) h"
    then show "logged (advance_watermark (detector (mgr w)) oldest) h"
      using timelyD(2) [OF t] by (meson logged_advance less_imp_le order_trans)
  qed (auto simp: tail_stage_def Trimming dest: closing_update split: if_splits)
  then show ?thesis by (auto simp: tail_stage_def Trimming)
next
  case Clearing
  have "fine_ok n (tail_stage w k bound now)" if t: "timely w u64_max"
    using clear_conflict [OF fine_okD(1) [OF ok] less_imp_le [OF n] timelyD(1) [OF t]]
  proof (rule trim_fine [OF ok])
    fix x s h assume "(x, s) \<in> set (drawn w)"
    then show "logged (clear_committed_writes (detector (mgr w))) h"
      using timelyD(2) [OF t] starting_below_max [OF ok less_imp_le [OF n]] by (meson not_le)
  qed (auto simp: tail_stage_def Clearing dest: closing_update)
  then show ?thesis by (auto simp: tail_stage_def Clearing)
next
  case Collecting
  obtain g vs where g: "gc_stores (gc (mgr w)) (snapshots (mgr w)) now (version_stores (mgr w)) = (g, vs)"
    by (cases "gc_stores (gc (mgr w)) (snapshots (mgr w)) now (version_stores (mgr w))")
  let ?m = "prune_empty_version_stores ((mgr w)\<lparr>gc := g, version_stores := vs\<rparr>)"
  let ?w' = "w\<lparr>mgr := ?m, tails := (tails w)[k := Finished]\<rparr>"
  have "conflict_ok n (w\<lparr>mgr := ?m\<rparr>)"
    using fine_okD(1) [OF ok] by (simp add: prune_empty_version_stores_def)
  then have "conflict_ok n ?w'" by (simp add: conflict_ok_def)
  then have "fine_ok n ?w'"
    by (rule follows_fine [OF ok]) (auto simp: follows_def prune_empty_version_stores_def dest: closing_update)
  then show ?thesis by (simp add: tail_stage_def Collecting g)
next
  case Finished
  then show ?thesis using ok by (simp add: tail_stage_def)
qed

lemma fine_ok_mono: "fine_ok n w \<Longrightarrow> n \<le> n' \<Longrightarrow> fine_ok n' w"
  by (auto simp: fine_ok_def intro: conflict_ok_mono)

lemma quiet_fine:
  assumes "fine_ok n w" and "conflict_ok n (w\<lparr>mgr := m'\<rparr>)" and "follows (mgr w) m'"
  shows "fine_ok (Suc n) (w\<lparr>mgr := m'\<rparr>)"
  using assms(3) by (intro follows_fine [OF assms(1) conflict_ok_mono [OF assms(2)]]) auto

lemma draw_follows:
  assumes "conflict_ok n w" and "n < call_bound"
  shows "begin_draw (mgr w) = (d, m) \<Longrightarrow> follows (mgr w) m"
    and "begin_read_only_draw (mgr w) = (d, m) \<Longrightarrow> follows (mgr w) m"
proof -
  have "next_txn (mgr w) \<le> next_txn (mgr w) + 1" "next_snap (mgr w) \<le> next_snap (mgr w) + 1"
    "global_ts (mgr w) \<le> global_ts (mgr w) + 1"
    using conflict_okD(4) [OF assms(1)] counter_bump(2) [OF _ assms(2)]
    by (simp_all add: counters_ok_def less_imp_le)
  then show "begin_draw (mgr w) = (d, m) \<Longrightarrow> follows (mgr w) m"
    "begin_read_only_draw (mgr w) = (d, m) \<Longrightarrow> follows (mgr w) m"
    by (auto simp: begin_draw_def begin_read_only_draw_def next_timestamp_def follows_def)
qed

lemma step_fine:
  assumes ok: "fine_ok n w" and n: "n < call_bound"
  shows "late (fine_exec w c) \<or> fine_ok (Suc n) (fine_exec w c)"
proof (cases c)
  case Draw
  obtain d m where d: "begin_draw (mgr w) = (d, m)" by (cases "begin_draw (mgr w)")
  note dc = begin_draw_conflict [OF fine_okD(1) [OF ok] n d]
  have "fine_ok (Suc n) (w\<lparr>mgr := m, drawn := drawn w @ [d]\<rparr>)"
    using d draw_follows(1) [OF fine_okD(1) [OF ok] n d] by (intro draw_fine [OF ok dc]) (auto simp: begin_draw_def next_timestamp_def)
  then show ?thesis by (simp add: Draw d)
next
  case DrawReadOnly
  obtain d m where d: "begin_read_only_draw (mgr w) = (d, m)" by (cases "begin_read_only_draw (mgr w)")
  note dc = begin_read_only_draw_conflict [OF fine_okD(1) [OF ok] n d]
  have "fine_ok (Suc n) (w\<lparr>mgr := m, drawn := drawn w @ [d]\<rparr>)"
    using d draw_follows(2) [OF fine_okD(1) [OF ok] n d] by (intro draw_fine [OF ok dc]) (auto simp: begin_read_only_draw_def)
  then show ?thesis by (simp add: DrawReadOnly d)
next
  case (Enter k now)
  show ?thesis
    using fine_ok_mono [OF enter_fine [OF ok nth_mem, of k now] le_SucI [OF order_refl]]
      fine_ok_mono [OF ok le_SucI [OF order_refl]] by (simp add: Enter)
next
  case (AbortIdle now)
  show ?thesis
    using quiet_fine [OF ok abort_idle_conflict [OF fine_okD(1) [OF ok]] abort_idle_follows] by (simp add: AbortIdle)
next
  case (InContext x op now)
  show ?thesis
    using quiet_fine [OF ok with_context_conflict [OF fine_okD(1) [OF ok]] with_context_follows] by (simp add: InContext)
next
  case (Validate x)
  obtain r m where r: "prepare_commit (mgr w) x = (r, m)" by (cases "prepare_commit (mgr w) x")
  show ?thesis
  proof (cases r)
    case (Inl e)
    then show ?thesis
      using quiet_fine [OF ok prepare_err_conflict [OF fine_okD(1) [OF ok]] prepare_follows(1) [OF r]] r
      by (simp add: Validate)
  next
    case (Inr p)
    have "fine_ok (Suc n) (w\<lparr>mgr := m, prepared := p # prepared w\<rparr>)"
      using prepare_follows [OF r] Inr
      by (intro follows_fine [OF ok conflict_ok_mono
            [OF prepare_ok_conflict [OF fine_okD(1) [OF ok] r [unfolded Inr]]]]) auto
    then show ?thesis using r Inr by (simp add: Validate)
  qed
next
  case (PublishCommit x)
  then show ?thesis
    using publish_fine [OF ok n] fine_ok_mono [OF ok le_SucI [OF order_refl]]
    by (auto simp: find_Some_iff split: option.split)
next
  case (Continue k bound now)
  then show ?thesis
    using tail_fine [OF ok n, of k bound now] ok fine_ok_mono [OF _ le_SucI [OF order_refl]] by (cases "k < length (tails w)") auto
next
  case (RollBack x)
  show ?thesis
    using quiet_fine [OF ok rollback_conflict [OF fine_okD(1) [OF ok]] rollback_follows] by (simp add: RollBack)
next
  case (ReadRow x t r)
  show ?thesis
    using quiet_fine [OF ok read_versioned_conflict [OF fine_okD(1) [OF ok]] read_versioned_follows]
    by (simp add: ReadRow)
qed

lemma late_exec: "late w \<Longrightarrow> late (fine_exec w c)"
  by (cases c) (auto simp: publish_stage_def tail_stage_def split: prod.split sum.split option.split tail.split
      list.split)

lemma reachable_fine: "fine_reachable n w \<Longrightarrow> n \<le> call_bound \<Longrightarrow> late w \<or> fine_ok n w"
proof (induction rule: fine_reachable.induct)
  case (step n w c)
  then show ?case using late_exec step_fine by (metis Suc_le_eq less_imp_le)
qed (simp add: fine_ok_new)

section \<open>First committer wins\<close>

definition row_of :: "nat \<Rightarrow> unit row" where
  "row_of n = [(''v'', Int64 (of_nat n))]"

text \<open>
  Two transactions that update one row, and a third that begins between the locked stage of the
  first commit and its release of the snapshot.
\<close>

definition busy_run :: "unit stage list" where
  "busy_run =
     [Draw, Enter 0 0, InContext 1 (CUpdate ''t'' 1 (row_of 0) (row_of 1)) 0, Validate 1, PublishCommit 1,
      Draw, Enter 0 0, Continue 0 u64_max 0, Continue 0 u64_max 0, Continue 0 u64_max 0,
      InContext 2 (CUpdate ''t'' 1 (row_of 1) (row_of 2)) 0, Continue 0 u64_max 0, Validate 2, PublishCommit 2]"

definition busy :: "unit fine" where
  "busy = foldl fine_exec fine_new busy_run"

text \<open>
  C1. First committer wins, with begins and commits interleaved at every point where the code
  holds no lock on \<open>active_txns\<close>: of two committed transactions that wrote the same row, one
  took its snapshot no earlier than the other committed, so two overlapping transactions never
  both commit a write to one row. This holds as long as no commit has trimmed the conflict log
  past the snapshot of a transaction that is open or starting (\<open>late\<close>), which the code does
  not enforce, and in fewer steps than the 64-bit counters have values.
\<close>

theorem first_committer_wins:
  assumes "fine_reachable n w" and "n \<le> call_bound" and "\<not> late w"
    and "a \<in> set (history w)" and "b \<in> set (history w)" and "h_txn a \<noteq> h_txn b"
    and "k \<in> set (h_keys a)" and "k \<in> set (h_keys b)"
  shows "h_ts a \<le> h_snap b \<or> h_ts b \<le> h_snap a"
proof -
  have "fine_ok n w" using reachable_fine [OF assms(1,2)] assms(3) by blast
  from conflict_okD(7) [OF fine_okD(1) [OF this]] assms(4-8) show ?thesis by (auto simp: first_wins_def)
qed

lemma first_committer_wins_witness:
  "\<not> late busy \<and> (\<exists>a b. history busy = [a, b] \<and> h_keys a = [(''t'', 1)] \<and> h_keys b = [(''t'', 1)]
     \<and> (h_ts a \<le> h_snap b \<or> h_ts b \<le> h_snap a))"
proof -
  let ?a = "\<lparr>h_txn = 1, h_snap = 1, h_ts = 2, h_keys = [(''t'', 1)]\<rparr>"
  let ?b = "\<lparr>h_txn = 2, h_snap = 3, h_ts = 4, h_keys = [(''t'', 1)]\<rparr>"
  have h: "history busy = [?a, ?b]" by code_simp
  have l: "\<not> late busy" by code_simp
  have "fine_reachable (length busy_run) busy" using fine_run [OF fine_reachable.start] by (simp add: busy_def)
  moreover have "length busy_run \<le> call_bound" by (simp add: busy_run_def call_bound_def)
  ultimately show ?thesis using first_committer_wins [of _ busy ?a ?b "(''t'', 1)"] l h by auto
qed

text \<open>
  The condition is not empty: when a \<open>begin\<close> has drawn its timestamp and another session
  releases the last registered snapshot before the first one enters, the log is cleared too
  early and both transactions commit a write to the same row.
\<close>

definition raced :: "unit fine" where
  "raced = foldl fine_exec fine_new
     [Draw, Enter 0 0, InContext 1 (CUpdate ''t'' 1 (row_of 0) (row_of 1)) 0, Validate 1,
      Draw, PublishCommit 1, Continue 0 u64_max 0, Continue 0 u64_max 0, Continue 0 u64_max 0,
      Continue 0 u64_max 0, Continue 0 u64_max 0, Enter 0 0,
      InContext 2 (CUpdate ''t'' 1 (row_of 0) (row_of 2)) 0, Validate 2, PublishCommit 2]"

lemma begin_race_loses_update:
  "late raced"
  "history raced =
     [\<lparr>h_txn = 1, h_snap = 1, h_ts = 3, h_keys = [(''t'', 1)]\<rparr>,
      \<lparr>h_txn = 2, h_snap = 2, h_ts = 4, h_keys = [(''t'', 1)]\<rparr>]"
  by code_simp+

text \<open>
  So does a commit that acts on a timestamp it read before others began: the first session has
  read that no snapshot is active, the second and third begin, the second commits, and the first
  then clears the record of that commit.
\<close>

definition stale_trim :: "unit fine" where
  "stale_trim = foldl fine_exec fine_new
     [Draw, Enter 0 0, InContext 1 (CUpdate ''t'' 5 (row_of 0) (row_of 1)) 0, Validate 1, PublishCommit 1,
      Continue 0 u64_max 0, Continue 0 u64_max 0, Continue 0 u64_max 0,
      Draw, Enter 0 0, Draw, Enter 0 0,
      InContext 2 (CUpdate ''t'' 1 (row_of 0) (row_of 1)) 0, Validate 2, PublishCommit 2,
      Continue 0 u64_max 0, Continue 0 u64_max 0,
      InContext 3 (CUpdate ''t'' 1 (row_of 0) (row_of 2)) 0, Validate 3, PublishCommit 3]"

lemma stale_trim_loses_update:
  "late stale_trim"
  "map (\<lambda>h. (h_txn h, h_snap h, h_ts h)) (history stale_trim) = [(1, 1, 2), (2, 3, 5), (3, 4, 6)]"
  "map h_keys (history stale_trim) = [[(''t'', 5)], [(''t'', 1)], [(''t'', 1)]]"
  by code_simp+

end
