(* ===== verification/Snapshot_Isolation.thy ===== *)
theory Snapshot_Isolation
  imports Txn_Interleaving
begin

text \<open>
  What transactions read of the version stores while others commit (\<open>read_versioned\<close> of
  \<^verbatim>\<open>txn/manager.rs\<close>): a commit leaves the answer for every tracked row as it was and gives an
  untracked row its recorded before image, for every read-write transaction that stays open. A
  read-only transaction has no such guarantee. Calls are made one at a time here.
\<close>

section \<open>The writes of a commit\<close>





lemma vs_present_insert [simp]: "vs_present (vs_insert st r ts d) r' \<longleftrightarrow> r' = r \<or> vs_present st r'"
  by (simp add: vs_present_def hm_contains_def vs_insert_def hm_simps)












section \<open>Collection and pruning\<close>







section \<open>Running calls\<close>

datatype 'j call =
    Begin u64 | BeginReadOnly u64 | WithContext u64 "'j ctx_op" u64 | Prepare u64
  | Finalize u64 u64 | Rollback u64 | ReadVersioned u64 string u64

fun tm_exec :: "'j world \<Rightarrow> 'j call \<Rightarrow> 'j world" where
  "tm_exec w (Begin now) = w\<lparr>mgr := snd (begin_txn (mgr w) now)\<rparr>"
| "tm_exec w (BeginReadOnly now) = w\<lparr>mgr := snd (begin_read_only (mgr w) now)\<rparr>"
| "tm_exec w (WithContext x op now) = w\<lparr>mgr := snd (with_context (mgr w) x op now)\<rparr>"
| "tm_exec w (Prepare x) =
     (case prepare_commit (mgr w) x of
        (Inl e, m) \<Rightarrow> w\<lparr>mgr := m\<rparr>
      | (Inr p, m) \<Rightarrow> w\<lparr>mgr := m, prepared := p # prepared w\<rparr>)"
| "tm_exec w (Finalize x now) =
     (case List.find (\<lambda>p. pc_txn_id p = x) (prepared w) of
        None \<Rightarrow> w
      | Some p \<Rightarrow> w\<lparr>mgr := snd (finalize_commit (mgr w) p now), prepared := remove1 p (prepared w),
          history := history w @ history_entry (mgr w) p\<rparr>)"
| "tm_exec w (Rollback x) = w\<lparr>mgr := snd (rollback (mgr w) x)\<rparr>"
| "tm_exec w (ReadVersioned x t r) = w\<lparr>mgr := snd (read_versioned (mgr w) x t r)\<rparr>"

lemma tm_exec_step: "tm_exec w c = w \<or> tm_step w (tm_exec w c)"
proof (cases c)
  case (Finalize x now)
  show ?thesis
  proof (cases "List.find (\<lambda>p. pc_txn_id p = x) (prepared w)")
    case (Some p)
    then have "p \<in> set (prepared w)" by (auto simp: find_Some_iff)
    then show ?thesis using Some Finalize by (simp add: tm_step.finalize)
  qed (simp add: Finalize)
qed (auto intro: tm_step.intros split: prod.splits sum.splits)

lemma exec_reachable:
  "reachable n w \<Longrightarrow> \<exists>k \<le> n + length cs. reachable k (foldl tm_exec w cs)"
proof (induction cs arbitrary: n w)
  case (Cons c cs)
  have "reachable n (tm_exec w c) \<or> reachable (Suc n) (tm_exec w c)"
    using tm_exec_step [of w c] Cons.prems by (auto intro: reachable.step)
  then show ?case
  proof
    assume "reachable n (tm_exec w c)"
    from Cons.IH [OF this] show ?thesis by (auto intro: le_SucI)
  next
    assume "reachable (Suc n) (tm_exec w c)"
    from Cons.IH [OF this] show ?thesis by simp
  qed
qed auto

lemma run_reachable:
  "length cs \<le> call_bound \<Longrightarrow> \<exists>k \<le> call_bound. reachable k (foldl tm_exec world_new cs)"
  using exec_reachable [OF reachable.start, of cs] by (auto intro: order_trans)

section \<open>Properties\<close>

text \<open>
  Two transactions one after the other: the first inserts row 1 of table \<open>t\<close>, the second
  updates it while a third, begun in between, stays open.
\<close>

definition demo_row :: "nat \<Rightarrow> unit row" where
  "demo_row n = [(''v'', Int64 (of_nat n))]"

definition demo_calls :: "unit call list" where
  "demo_calls =
     [Begin 0, WithContext 1 (CInsert ''t'' 1 (demo_row 1)) 0, Prepare 1, Finalize 1 0,
      Begin 0, WithContext 2 (CUpdate ''t'' 1 (demo_row 1) (demo_row 2)) 0, Begin 0, Prepare 2]"

definition demo_world :: "unit world" where
  "demo_world = foldl tm_exec world_new demo_calls"

lemma demo_reachable: "\<exists>k < call_bound. reachable k demo_world"
proof -
  have "length demo_calls < call_bound" by (simp add: demo_calls_def call_bound_def)
  then show ?thesis
    using exec_reachable [OF reachable.start, of demo_calls]
    by (auto simp: demo_world_def intro: le_less_trans)
qed

text \<open>Two transactions on different rows, both prepared.\<close>

definition both_calls :: "unit call list" where
  "both_calls =
     [Begin 0, WithContext 1 (CInsert ''t'' 1 (demo_row 1)) 0, Begin 0,
      WithContext 2 (CInsert ''t'' 2 (demo_row 2)) 0, Prepare 1, Prepare 2]"

definition both_prepared :: "unit world" where
  "both_prepared = foldl tm_exec world_new both_calls"

text \<open>
  C8. In every reachable state, two different transactions between \<open>prepare_commit\<close> and
  \<open>finalize_commit\<close> have no row in common.
\<close>

theorem write_intents_exclusive:
  assumes "reachable n w" and "n \<le> call_bound"
    and "hm_get (active_txns (mgr w)) x = Some t" and "status t = Validating"
    and "hm_get (active_txns (mgr w)) y = Some u" and "status u = Validating" and "x \<noteq> y"
  shows "set (write_keys (at_context t)) \<inter> set (write_keys (at_context u)) = {}"
proof -
  note E = conflict_okD(1) [OF conjunct1 [OF reachable_world [OF assms(1,2)]]]
  have "entry_ok (mgr w) x t" "entry_ok (mgr w) y u" using E assms(3,5) by (simp_all add: entries_ok_def)
  then have "\<forall>k \<in> keys_of t. hm_get (active_writes (detector (mgr w))) k = Some x"
    "\<forall>k \<in> keys_of u. hm_get (active_writes (detector (mgr w))) k = Some y"
    using assms(4,6) by (simp_all add: entry_ok_def)
  then show ?thesis using assms(7) unfolding keys_of_def by (metis disjoint_iff option.inject)
qed

lemma write_intents_exclusive_witness:
  "\<exists>t u. hm_get (active_txns (mgr both_prepared)) 1 = Some t \<and> status t = Validating
     \<and> hm_get (active_txns (mgr both_prepared)) 2 = Some u \<and> status u = Validating
     \<and> set (write_keys (at_context t)) \<inter> set (write_keys (at_context u)) = {}"
proof -
  have "map_option status (hm_get (active_txns (mgr both_prepared)) 1) = Some Validating"
    "map_option status (hm_get (active_txns (mgr both_prepared)) 2) = Some Validating"
    by code_simp+
  then obtain t u where tu: "hm_get (active_txns (mgr both_prepared)) 1 = Some t" "status t = Validating"
    "hm_get (active_txns (mgr both_prepared)) 2 = Some u" "status u = Validating" by (auto simp: map_option_eq_Some)
  obtain k where "k \<le> call_bound" "reachable k both_prepared"
    using run_reachable [of both_calls]
    by (auto simp: both_prepared_def both_calls_def call_bound_def)
  from write_intents_exclusive [OF this(2,1) tu] tu show ?thesis by auto
qed

text \<open>
  C28. No write intent is leaked: every intent belongs to a transaction that is still between
  prepare and finalize and that wrote the row.
\<close>

theorem no_leaked_intent:
  assumes "reachable n w" and "n \<le> call_bound"
    and "hm_get (active_writes (detector (mgr w))) k = Some x"
  shows "\<exists>t. hm_get (active_txns (mgr w)) x = Some t \<and> status t = Validating
    \<and> k \<in> set (write_keys (at_context t))"
  using conflict_okD(3) [OF conjunct1 [OF reachable_world [OF assms(1,2)]]] assms(3)
  unfolding locks_ok_def keys_of_def by blast

lemma no_leaked_intent_witness:
  "\<exists>t. hm_get (active_txns (mgr demo_world)) 2 = Some t \<and> status t = Validating
    \<and> (''t'', 1) \<in> set (write_keys (at_context t))"
proof -
  obtain k where k: "k < call_bound" "reachable k demo_world" using demo_reachable by blast
  have "hm_get (active_writes (detector (mgr demo_world))) (''t'', 1) = Some 2" by code_simp
  from no_leaked_intent [OF k(2) less_imp_le [OF k(1)] this] show ?thesis .
qed




definition reader_calls :: "unit call list" where
  "reader_calls =
     [Begin 0, WithContext 1 (CInsert ''t'' 1 (demo_row 1)) 0, Prepare 1, Finalize 1 0,
      Begin 0, WithContext 2 (CUpdate ''t'' 1 (demo_row 1) (demo_row 2)) 0, BeginReadOnly 0, Prepare 2]"

text \<open>
  A read-only transaction is not isolated: \<open>begin_read_only\<close> takes the current timestamp
  without advancing the counter, so the next commit is stamped with the reader's own timestamp
  and becomes visible to it. The same read of the same open transaction gives two answers.
\<close>

lemma read_only_snapshot_moves:
  "fst (read_versioned (mgr (foldl tm_exec world_new reader_calls)) 3 ''t'' 1) = Inr (Some (demo_row 1))
   \<and> fst (read_versioned (mgr (foldl tm_exec world_new (reader_calls @ [Finalize 2 0]))) 3 ''t'' 1)
       = Inr (Some (demo_row 2))"
  by code_simp

end
