(* ===== verification/Wal_Record.thy ===== *)
theory Wal_Record
  imports Data_Value
begin

text \<open>
  The wire format of the write-ahead log (\<^verbatim>\<open>storage/incremental.rs\<close>): encoding and decoding of
  records. The checksum (\<open>crc32fast\<close>), the JSON printer and parser (\<open>serde_json\<close>) and the wall
  clock are parameters. A slice out of range is a panic, as in Rust.
\<close>

section \<open>Records\<close>

datatype column_value =
    CvNull | CvBool bool | CvInt64 i64 | CvFloat64 f64 | CvString string
  | CvBinary bytes | CvBlob bytes | CvFixedList bytes

type_synonym column_row = "(string, column_value) hmap"

datatype 'j wal_record =
    WInsert u64 column_row u64
  | WBatchInsert u64 "column_row list" u64
  | WDelete u64 u64
  | WUpdate u64 "'j row" u64
  | WCheckpoint u64
  | WTxnBegin u64
  | WTxnCommit u64
  | WTxnRollback u64

section \<open>Encoding\<close>

text \<open>\<open>(n as u32).to_le_bytes()\<close> and \<open>(n as u16).to_le_bytes()\<close>.\<close>

definition len32 :: "nat \<Rightarrow> bytes" where
  "len32 n = to_le_bytes (of_nat n :: u32)"

definition len16 :: "nat \<Rightarrow> bytes" where
  "len16 n = to_le_bytes (of_nat n :: u16)"

definition counted :: "bytes \<Rightarrow> bytes" where
  "counted bs = len32 (length bs) @ bs"

fun write_column_value :: "column_value \<Rightarrow> bytes" where
  "write_column_value CvNull = [0]"
| "write_column_value (CvBool v) = [1, if v then 1 else 0]"
| "write_column_value (CvInt64 v) = 2 # to_le_bytes v"
| "write_column_value (CvFloat64 v) = 3 # to_le_bytes v"
| "write_column_value (CvString v) = 4 # counted (as_bytes v)"
| "write_column_value (CvBinary v) = 5 # counted v"
| "write_column_value (CvBlob v) = 6 # counted v"
| "write_column_value (CvFixedList v) = 5 # counted v"

definition write_column :: "string \<times> column_value \<Rightarrow> bytes" where
  "write_column c = len16 (length (fst c)) @ as_bytes (fst c) @ write_column_value (snd c)"

definition write_row :: "column_row \<Rightarrow> bytes" where
  "write_row row = len32 (length row) @ concat (map write_column row)"

fun write_value :: "('j \<Rightarrow> bytes) \<Rightarrow> 'j val \<Rightarrow> bytes" where
  "write_value js Null = [0]"
| "write_value js (Bool v) = [1, if v then 1 else 0]"
| "write_value js (Int8 v) = [2, v]"
| "write_value js (Int16 v) = 3 # to_le_bytes v"
| "write_value js (Int32 v) = 4 # to_le_bytes v"
| "write_value js (Int64 v) = 5 # to_le_bytes v"
| "write_value js (UInt8 v) = [6, v]"
| "write_value js (UInt16 v) = 7 # to_le_bytes v"
| "write_value js (UInt32 v) = 8 # to_le_bytes v"
| "write_value js (UInt64 v) = 9 # to_le_bytes v"
| "write_value js (Float32 v) = 10 # to_le_bytes v"
| "write_value js (Float64 v) = 11 # to_le_bytes v"
| "write_value js (Str v) = 12 # counted (as_bytes v)"
| "write_value js (Binary v) = 13 # counted v"
| "write_value js (Blob v) = 14 # counted v"
| "write_value js (FixedList v) = 15 # counted v"
| "write_value js (Json v) = 16 # counted (js v)"
| "write_value js (Timestamp v) = 17 # to_le_bytes v"
| "write_value js (Date v) = 18 # to_le_bytes v"
| "write_value js (Time v) = 20 # to_le_bytes v"
| "write_value js (Interval v) = 21 # to_le_bytes v"
| "write_value js (Array vs) = 19 # len32 (length vs) @ concat (map (write_value js) vs)"

definition write_value_column :: "('j \<Rightarrow> bytes) \<Rightarrow> string \<times> 'j val \<Rightarrow> bytes" where
  "write_value_column js c =
     len16 (length (fst c)) @ as_bytes (fst c) @ counted (write_value js (snd c))"

definition write_value_row :: "('j \<Rightarrow> bytes) \<Rightarrow> 'j row \<Rightarrow> bytes" where
  "write_value_row js row = len32 (length row) @ concat (map (write_value_column js) row)"

text \<open>Record type and body of each record.\<close>

fun record_body :: "('j \<Rightarrow> bytes) \<Rightarrow> 'j wal_record \<Rightarrow> u8 \<times> bytes" where
  "record_body js (WInsert i row x) =
     (if x \<noteq> 0 then (8, to_le_bytes i @ to_le_bytes x @ write_row row)
      else (1, to_le_bytes i @ write_row row))"
| "record_body js (WBatchInsert i rows x) =
     (4, to_le_bytes i @ len32 (length rows) @ concat (map write_row rows))"
| "record_body js (WDelete i x) =
     (if x \<noteq> 0 then (9, to_le_bytes i @ to_le_bytes x) else (2, to_le_bytes i))"
| "record_body js (WUpdate i row x) = (10, to_le_bytes i @ to_le_bytes x @ write_value_row js row)"
| "record_body js (WCheckpoint n) = (3, to_le_bytes n)"
| "record_body js (WTxnBegin x) = (5, to_le_bytes x)"
| "record_body js (WTxnCommit x) = (6, to_le_bytes x)"
| "record_body js (WTxnRollback x) = (7, to_le_bytes x)"

definition with_crc :: "(bytes \<Rightarrow> u32) \<Rightarrow> bytes \<Rightarrow> bytes" where
  "with_crc crc buf = buf @ to_le_bytes (crc buf)"

definition to_bytes :: "(bytes \<Rightarrow> u32) \<Rightarrow> ('j \<Rightarrow> bytes) \<Rightarrow> i64 \<Rightarrow> 'j wal_record \<Rightarrow> bytes" where
  "to_bytes crc js now r =
     (let (tag, body) = record_body js r
      in with_crc crc (tag # to_le_bytes now @ counted body))"

text \<open>\<open>WalWriter::append_row\<close>: the bytes of a single insert, built without a record.\<close>

definition append_row_bytes :: "(bytes \<Rightarrow> u32) \<Rightarrow> i64 \<Rightarrow> u64 \<Rightarrow> column_row \<Rightarrow> bytes" where
  "append_row_bytes crc now i row =
     (let data_buf = to_le_bytes i @ len32 (length row) @
            concat (map (\<lambda>(name, v). len16 (length name) @ as_bytes name @
              (case v of
                 CvNull \<Rightarrow> [0]
               | CvBool b \<Rightarrow> [1, if b then 1 else 0]
               | CvInt64 x \<Rightarrow> 2 # to_le_bytes x
               | CvFloat64 x \<Rightarrow> 3 # to_le_bytes x
               | CvString x \<Rightarrow> 4 # len32 (length (as_bytes x)) @ as_bytes x
               | CvBinary x \<Rightarrow> 5 # len32 (length x) @ x
               | CvBlob x \<Rightarrow> 6 # len32 (length x) @ x
               | CvFixedList x \<Rightarrow> 5 # len32 (length x) @ x)) row);
          buf = 1 # to_le_bytes now @ len32 (length data_buf) @ data_buf
      in buf @ to_le_bytes (crc buf))"

section \<open>Decoding\<close>

text \<open>
  Reading from the rest of a buffer: \<open>slice\<close> is \<open>data[pos..pos + n]\<close>, which panics past the
  end; \<open>take_or\<close> is the checked \<open>take\<close>, which fails with the given message.
\<close>

definition slice :: "nat \<Rightarrow> bytes \<Rightarrow> (bytes \<times> bytes) result" where
  "slice n bs = (if n \<le> length bs then Inr (take n bs, drop n bs) else Inl Panic)"

definition take_or :: "string \<Rightarrow> nat \<Rightarrow> bytes \<Rightarrow> (bytes \<times> bytes) result" where
  "take_or msg n bs =
     (if n \<le> length bs then Inr (take n bs, drop n bs) else Inl (IoError InvalidData msg))"

definition rd_len :: "(nat \<Rightarrow> bytes \<Rightarrow> (bytes \<times> bytes) result) \<Rightarrow> nat \<Rightarrow> bytes \<Rightarrow> (nat \<times> bytes) result" where
  "rd_len rd n bs = rbind (rd n bs) (\<lambda>(h, rest). Inr (nat_of_le h, rest))"

definition rd_word :: "(nat \<Rightarrow> bytes \<Rightarrow> (bytes \<times> bytes) result) \<Rightarrow> bytes \<Rightarrow> ('a::len word \<times> bytes) result" where
  "rd_word rd bs =
     rbind (rd (LENGTH('a) div 8) bs) (\<lambda>(h, rest). Inr (from_le_bytes h, rest))"

definition rd_bytes :: "(nat \<Rightarrow> bytes \<Rightarrow> (bytes \<times> bytes) result) \<Rightarrow> bytes \<Rightarrow> (bytes \<times> bytes) result" where
  "rd_bytes rd bs = rbind (rd_len rd 4 bs) (\<lambda>(n, rest). rd n rest)"

definition rd_str :: "bytes \<times> bytes \<Rightarrow> (string \<times> bytes) result" where
  "rd_str p = rbind (from_utf8 (fst p)) (\<lambda>s. Inr (s, snd p))"

definition rd_map :: "('a \<Rightarrow> 'b) \<Rightarrow> ('a \<times> bytes) result \<Rightarrow> ('b \<times> bytes) result" where
  "rd_map f r = rbind r (\<lambda>(x, rest). Inr (f x, rest))"

text \<open>A loop \<open>for _ in 0..n\<close> that reads one element per turn.\<close>

fun rd_n :: "(bytes \<Rightarrow> ('a \<times> bytes) result) \<Rightarrow> nat \<Rightarrow> bytes \<Rightarrow> ('a list \<times> bytes) result" where
  "rd_n rd 0 bs = Inr ([], bs)"
| "rd_n rd (Suc n) bs =
     rbind (rd bs) (\<lambda>(x, rest). rbind (rd_n rd n rest) (\<lambda>(xs, rest'). Inr (x # xs, rest')))"

definition hm_of_list :: "('k \<times> 'v) list \<Rightarrow> ('k, 'v) hmap" where
  "hm_of_list kvs = foldl (\<lambda>m (k, v). hm_insert k v m) [] kvs"

text \<open>
  One column value of an insert record. The decoder of transactional inserts knows every tag
  but 6, the tag of a blob (\<open>blobs = False\<close>).
\<close>

definition read_column_value :: "bool \<Rightarrow> bytes \<Rightarrow> (column_value \<times> bytes) result" where
  "read_column_value blobs bs =
     rbind (slice 1 bs) (\<lambda>(t, rest).
       (let tag = unat (hd t) in
        if tag = 0 then Inr (CvNull, rest)
        else if tag = 1 then rd_map (\<lambda>b. CvBool (hd b \<noteq> 0)) (slice 1 rest)
        else if tag = 2 then rd_map CvInt64 (rd_word slice rest)
        else if tag = 3 then rd_map CvFloat64 (rd_word slice rest)
        else if tag = 4 then rd_map CvString (rbind (rd_bytes slice rest) rd_str)
        else if tag = 5 then rd_map CvBinary (rd_bytes slice rest)
        else if tag = 6 \<and> blobs then rd_map CvBlob (rd_bytes slice rest)
        else Inl (IoError InvalidData ''Invalid value type'')))"

definition read_column :: "bool \<Rightarrow> bytes \<Rightarrow> ((string \<times> column_value) \<times> bytes) result" where
  "read_column blobs bs =
     rbind (rd_len slice 2 bs) (\<lambda>(n, r1).
     rbind (rbind (slice n r1) rd_str) (\<lambda>(name, r2).
     rd_map (Pair name) (read_column_value blobs r2)))"

definition read_row :: "bool \<Rightarrow> bytes \<Rightarrow> (column_row \<times> bytes) result" where
  "read_row blobs bs =
     rbind (rd_len slice 4 bs) (\<lambda>(n, rest). rd_map hm_of_list (rd_n (read_column blobs) n rest))"

text \<open>
  \<open>read_value\<close> recurses into arrays; each level consumes at least five bytes, so the length of
  the buffer bounds the depth and is enough fuel.
\<close>

abbreviation take_value :: "nat \<Rightarrow> bytes \<Rightarrow> (bytes \<times> bytes) result" where
  "take_value \<equiv> take_or ''Truncated UPDATE value''"

fun read_value_fuel :: "(bytes \<Rightarrow> 'j option) \<Rightarrow> nat \<Rightarrow> bytes \<Rightarrow> ('j val \<times> bytes) result" where
  "read_value_fuel jp 0 bs = Inl (IoError InvalidData ''Empty UPDATE value'')"
| "read_value_fuel jp (Suc k) bs =
     (case bs of
        [] \<Rightarrow> Inl (IoError InvalidData ''Empty UPDATE value'')
      | t # rest \<Rightarrow>
         (let tag = unat t in
          if tag = 0 then Inr (Null, rest)
          else if tag = 1 then rd_map (\<lambda>b. Bool (hd b \<noteq> 0)) (take_value 1 rest)
          else if tag = 2 then rd_map (\<lambda>b. Int8 (hd b)) (take_value 1 rest)
          else if tag = 3 then rd_map Int16 (rd_word take_value rest)
          else if tag = 4 then rd_map Int32 (rd_word take_value rest)
          else if tag = 5 then rd_map Int64 (rd_word take_value rest)
          else if tag = 6 then rd_map (\<lambda>b. UInt8 (hd b)) (take_value 1 rest)
          else if tag = 7 then rd_map UInt16 (rd_word take_value rest)
          else if tag = 8 then rd_map UInt32 (rd_word take_value rest)
          else if tag = 9 then rd_map UInt64 (rd_word take_value rest)
          else if tag = 10 then rd_map Float32 (rd_word take_value rest)
          else if tag = 11 then rd_map Float64 (rd_word take_value rest)
          else if tag = 12 then rd_map Str (rbind (rd_bytes take_value rest) rd_str)
          else if tag = 13 then rd_map Binary (rd_bytes take_value rest)
          else if tag = 14 then rd_map Blob (rd_bytes take_value rest)
          else if tag = 15 then rd_map FixedList (rd_bytes take_value rest)
          else if tag = 16 then
            rbind (rd_bytes take_value rest) (\<lambda>(b, r). case jp b of
              Some j \<Rightarrow> Inr (Json j, r)
            | None \<Rightarrow> Inl (IoError InvalidData ''invalid json''))
          else if tag = 17 then rd_map Timestamp (rd_word take_value rest)
          else if tag = 18 then rd_map Date (rd_word take_value rest)
          else if tag = 20 then rd_map Time (rd_word take_value rest)
          else if tag = 21 then rd_map Interval (rd_word take_value rest)
          else if tag = 19 then
            rbind (rd_len take_value 4 rest) (\<lambda>(n, r).
              rd_map Array (rd_n (read_value_fuel jp k) n r))
          else Inl (IoError InvalidData ''Invalid UPDATE value tag'')))"

definition read_value :: "(bytes \<Rightarrow> 'j option) \<Rightarrow> bytes \<Rightarrow> ('j val \<times> bytes) result" where
  "read_value jp bs = read_value_fuel jp (length bs) bs"

abbreviation take_update :: "nat \<Rightarrow> bytes \<Rightarrow> (bytes \<times> bytes) result" where
  "take_update \<equiv> take_or ''Truncated UPDATE record''"

definition read_value_column :: "(bytes \<Rightarrow> 'j option) \<Rightarrow> bytes \<Rightarrow> ((string \<times> 'j val) \<times> bytes) result" where
  "read_value_column jp bs =
     rbind (rd_len take_update 2 bs) (\<lambda>(n, r1).
     rbind (rbind (take_update n r1) rd_str) (\<lambda>(name, r2).
     rbind (rd_len take_update 4 r2) (\<lambda>(len, r3).
     rbind (take_update len r3) (\<lambda>(vb, r4).
     rbind (read_value jp vb) (\<lambda>(v, left).
       if length vb - length left \<noteq> len
       then Inl (IoError InvalidData ''UPDATE value has trailing bytes'')
       else Inr ((name, v), r4))))))"

text \<open>The body of a record, by its type; bytes after the last field are ignored.\<close>

definition read_body :: "(bytes \<Rightarrow> 'j option) \<Rightarrow> u8 \<Rightarrow> bytes \<Rightarrow> 'j wal_record result" where
  "read_body jp ty d =
     (let tag = unat ty in
      if tag = 1 then
        rbind (rd_word slice d) (\<lambda>(i, r1). rbind (read_row True r1) (\<lambda>(row, _). Inr (WInsert i row 0)))
      else if tag = 8 then
        rbind (rd_word slice d) (\<lambda>(i, r1). rbind (rd_word slice r1) (\<lambda>(x, r2).
        rbind (read_row False r2) (\<lambda>(row, _). Inr (WInsert i row x))))
      else if tag = 4 then
        rbind (rd_word slice d) (\<lambda>(i, r1). rbind (rd_len slice 4 r1) (\<lambda>(n, r2).
        rbind (rd_n (read_row True) n r2) (\<lambda>(rows, _). Inr (WBatchInsert i rows 0))))
      else if tag = 2 then rbind (rd_word slice d) (\<lambda>(i, _). Inr (WDelete i 0))
      else if tag = 9 then
        rbind (rd_word slice d) (\<lambda>(i, r1). rbind (rd_word slice r1) (\<lambda>(x, _). Inr (WDelete i x)))
      else if tag = 10 then
        rbind (rd_word take_update d) (\<lambda>(i, r1). rbind (rd_word take_update r1) (\<lambda>(x, r2).
        rbind (rd_len take_update 4 r2) (\<lambda>(n, r3).
        rbind (rd_n (read_value_column jp) n r3) (\<lambda>(cols, _). Inr (WUpdate i (hm_of_list cols) x)))))
      else if tag = 3 then rbind (rd_word slice d) (\<lambda>(n, _). Inr (WCheckpoint n))
      else if tag = 5 then rbind (rd_word slice d) (\<lambda>(x, _). Inr (WTxnBegin x))
      else if tag = 6 then rbind (rd_word slice d) (\<lambda>(x, _). Inr (WTxnCommit x))
      else if tag = 7 then rbind (rd_word slice d) (\<lambda>(x, _). Inr (WTxnRollback x))
      else Inl (IoError InvalidData ''Invalid record type''))"

definition from_bytes_versioned :: "(bytes \<Rightarrow> u32) \<Rightarrow> (bytes \<Rightarrow> 'j option) \<Rightarrow> u32 \<Rightarrow> bytes \<Rightarrow>
    ('j wal_record \<times> nat) result" where
  "from_bytes_versioned crc jp version bs =
     (if bs = [] then Inl (IoError InvalidData ''Empty record'')
      else if length bs < 13 then Inl (IoError InvalidData ''WAL record truncated (incomplete header)'')
      else
        let total = 13 + nat_of_le (take 4 (drop 9 bs)) in
        if length bs < total then Inl (IoError InvalidData ''WAL record truncated (incomplete body)'')
        else
          rbind (read_body jp (hd bs) (drop 13 (take total bs))) (\<lambda>r.
            if 2 \<le> version then
              if length bs < total + 4
              then Inl (IoError InvalidData ''WAL record truncated (missing CRC)'')
              else if from_le_bytes (take 4 (drop total bs)) \<noteq> crc (take total bs)
              then Inl (IoError InvalidData ''WAL record CRC mismatch'')
              else Inr (r, total + 4)
            else Inr (r, total)))"

definition from_bytes :: "(bytes \<Rightarrow> u32) \<Rightarrow> (bytes \<Rightarrow> 'j option) \<Rightarrow> bytes \<Rightarrow> ('j wal_record \<times> nat) result" where
  "from_bytes crc jp bs = from_bytes_versioned crc jp 1 bs"

section \<open>Reading back what was written\<close>

lemma nat_of_len32: "n < 2 ^ 32 \<Longrightarrow> nat_of_le (len32 n) = n"
  by (simp add: len32_def to_le_bytes_def nat_of_le_nat unat_of_nat)

lemma nat_of_len16: "n < 2 ^ 16 \<Longrightarrow> nat_of_le (len16 n) = n"
  by (simp add: len16_def to_le_bytes_def nat_of_le_nat unat_of_nat)

lemma length_len [simp]: "length (len32 n) = 4" "length (len16 n) = 2"
  by (simp_all add: len32_def len16_def)

lemma rd_str_ok [simp]: "utf8_valid (as_bytes s) \<Longrightarrow> rd_str (as_bytes s, b) = Inr (s, b)"
  by (simp add: rd_str_def from_utf8_def)

lemma rd_map_simps [simp]: "rd_map f (Inr (x, b)) = Inr (f x, b)" "rd_map f (Inl e) = Inl e"
  by (simp_all add: rd_map_def)

text \<open>
  A source of bytes hands out exactly the prefix it is asked for. Both the panicking and the
  checked reader are one, and the readers built on them invert the writers.
\<close>

locale byte_source =
  fixes rd :: "nat \<Rightarrow> bytes \<Rightarrow> (bytes \<times> bytes) result"
  assumes rd_app: "length a = n \<Longrightarrow> rd n (a @ b) = Inr (a, b)"
begin

lemma len32_app: "n < 2 ^ 32 \<Longrightarrow> rd_len rd 4 (len32 n @ b) = Inr (n, b)"
  by (simp add: rd_len_def rd_app nat_of_len32)

lemma len16_app: "n < 2 ^ 16 \<Longrightarrow> rd_len rd 2 (len16 n @ b) = Inr (n, b)"
  by (simp add: rd_len_def rd_app nat_of_len16)

lemma word_app:
  "rd_word rd (to_le_bytes (w16 :: 16 word) @ b) = Inr (w16, b)"
  "rd_word rd (to_le_bytes (w32 :: 32 word) @ b) = Inr (w32, b)"
  "rd_word rd (to_le_bytes (w64 :: 64 word) @ b) = Inr (w64, b)"
  by (simp_all add: rd_word_def rd_app)

lemma byte_app: "rd (Suc 0) (x # b) = Inr ([x], b)"
  using rd_app [of "[x]" 1 b] by simp

lemma bytes_app: "length v < 2 ^ 32 \<Longrightarrow> rd_bytes rd (counted v @ b) = Inr (v, b)"
  by (simp add: rd_bytes_def counted_def len32_app rd_app)

lemma str_app:
  "length s < 2 ^ 32 \<Longrightarrow> utf8_valid (as_bytes s) \<Longrightarrow>
   rbind (rd_bytes rd (counted (as_bytes s) @ b)) rd_str = Inr (s, b)"
  by (simp add: bytes_app rd_str_def from_utf8_def)

lemma name_app:
  "length s = n \<Longrightarrow> utf8_valid (as_bytes s) \<Longrightarrow> rbind (rd n (as_bytes s @ b)) rd_str = Inr (s, b)"
  by (simp add: rd_app rd_str_def from_utf8_def)

end

interpretation panicking: byte_source slice
  by unfold_locales (auto simp: slice_def)

interpretation checked: byte_source "take_or msg" for msg
  by unfold_locales (auto simp: take_or_def)

lemma rd_n_app:
  assumes "\<And>x b. x \<in> set xs \<Longrightarrow> rd (enc x @ b) = Inr (f x, b)"
  shows "rd_n rd (length xs) (concat (map enc xs) @ b) = Inr (map f xs, b)"
  using assms by (induction xs) simp_all

lemma hm_of_list_snoc: "hm_of_list (kvs @ [(k, v)]) = hm_insert k v (hm_of_list kvs)"
  by (simp add: hm_of_list_def)

lemma hm_of_list_wf: "hm_wf kvs \<Longrightarrow> hm_of_list kvs = kvs"
proof (induction kvs rule: rev_induct)
  case (snoc kv kvs)
  then show ?case by (cases kv) (simp add: hm_of_list_snoc hm_insert_fresh)
qed (simp add: hm_of_list_def)

subsection \<open>Insert records\<close>

text \<open>What the type system and the format ask of a row: valid strings and lengths that fit.\<close>

fun cv_ok :: "column_value \<Rightarrow> bool" where
  "cv_ok (CvString s) = (utf8_valid (as_bytes s) \<and> length s < 2 ^ 32)"
| "cv_ok (CvBinary b) = (length b < 2 ^ 32)"
| "cv_ok (CvBlob b) = (length b < 2 ^ 32)"
| "cv_ok (CvFixedList b) = (length b < 2 ^ 32)"
| "cv_ok v = True"

definition name_ok :: "string \<Rightarrow> bool" where
  "name_ok n \<longleftrightarrow> utf8_valid (as_bytes n) \<and> length n < 2 ^ 16"

definition row_ok :: "column_row \<Rightarrow> bool" where
  "row_ok row \<longleftrightarrow> hm_wf row \<and> length row < 2 ^ 32 \<and> (\<forall>(n, v) \<in> set row. name_ok n \<and> cv_ok v)"

fun is_blob :: "column_value \<Rightarrow> bool" where
  "is_blob (CvBlob b) = True"
| "is_blob v = False"

definition has_blob :: "column_row \<Rightarrow> bool" where
  "has_blob row = (\<exists>c \<in> set row. is_blob (snd c))"

text \<open>A vector column comes back as plain bytes: the two share a tag.\<close>

fun wire_value :: "column_value \<Rightarrow> column_value" where
  "wire_value (CvFixedList b) = CvBinary b"
| "wire_value v = v"

definition wire_row :: "column_row \<Rightarrow> column_row" where
  "wire_row row = map (\<lambda>(n, v). (n, wire_value v)) row"

lemma read_column_value_app:
  assumes "cv_ok v" and "is_blob v \<longrightarrow> blobs"
  shows "read_column_value blobs (write_column_value v @ b) = Inr (wire_value v, b)"
  using assms
  by (cases v) (simp_all add: read_column_value_def panicking.byte_app panicking.word_app
      panicking.bytes_app panicking.str_app rd_map_def)

lemma read_column_app:
  assumes "name_ok (fst c)" and "cv_ok (snd c)" and "is_blob (snd c) \<longrightarrow> blobs"
  shows "read_column blobs (write_column c @ b) = Inr ((fst c, wire_value (snd c)), b)"
  using assms
  by (simp add: read_column_def write_column_def name_ok_def panicking.len16_app panicking.name_app
      read_column_value_app rd_map_def)

lemma read_row_app:
  assumes "row_ok row" and "blobs \<or> \<not> has_blob row"
  shows "read_row blobs (write_row row @ b) = Inr (wire_row row, b)"
proof -
  have "rd_n (read_column blobs) (length row) (concat (map write_column row) @ b) =
      Inr (map (\<lambda>c. (fst c, wire_value (snd c))) row, b)"
    using assms by (intro rd_n_app read_column_app) (auto simp: row_ok_def has_blob_def)
  moreover have "hm_of_list (map (\<lambda>c. (fst c, wire_value (snd c))) row) = wire_row row"
    using assms(1) by (subst hm_of_list_wf) (simp_all add: row_ok_def wire_row_def comp_def case_prod_beta)
  ultimately show ?thesis
    using assms(1) by (simp add: read_row_def write_row_def row_ok_def panicking.len32_app rd_map_def)
qed

text \<open>A blob column stops the decoder of transactional inserts.\<close>

lemma read_column_blob:
  assumes "name_ok (fst c)" and "is_blob (snd c)"
  shows "read_column False (write_column c @ b) = Inl (IoError InvalidData ''Invalid value type'')"
  using assms
  by (cases "snd c") (simp_all add: read_column_def write_column_def name_ok_def panicking.len16_app
      panicking.name_app read_column_value_def panicking.byte_app rd_map_def)

lemma rd_n_blob:
  assumes "\<forall>(n, v) \<in> set row. name_ok n \<and> cv_ok v" and "has_blob row"
  shows "rd_n (read_column False) (length row) (concat (map write_column row) @ b) =
    Inl (IoError InvalidData ''Invalid value type'')"
  using assms
proof (induction row)
  case (Cons c row)
  have ok: "name_ok (fst c)" "cv_ok (snd c)" using Cons.prems(1) by auto
  show ?case
  proof (cases "is_blob (snd c)")
    case True
    then show ?thesis using ok by (simp add: read_column_blob)
  next
    case False
    then have "has_blob row" using Cons.prems(2) by (simp add: has_blob_def)
    with Cons.IH Cons.prems(1) False ok show ?thesis by (simp add: read_column_app)
  qed
qed (simp add: has_blob_def)

lemma read_row_blob:
  assumes "row_ok row" and "has_blob row"
  shows "read_row False (write_row row @ b) = Inl (IoError InvalidData ''Invalid value type'')"
  using assms rd_n_blob
  by (simp add: read_row_def write_row_def row_ok_def panicking.len32_app rd_map_def)

subsection \<open>Update records\<close>

fun value_ok :: "('j \<Rightarrow> bytes) \<Rightarrow> (bytes \<Rightarrow> 'j option) \<Rightarrow> 'j val \<Rightarrow> bool" where
  "value_ok js jp (Str s) = (utf8_valid (as_bytes s) \<and> length s < 2 ^ 32)"
| "value_ok js jp (Binary b) = (length b < 2 ^ 32)"
| "value_ok js jp (Blob b) = (length b < 2 ^ 32)"
| "value_ok js jp (FixedList b) = (length b < 2 ^ 32)"
| "value_ok js jp (Json j) = (length (js j) < 2 ^ 32 \<and> jp (js j) = Some j)"
| "value_ok js jp (Array vs) = (length vs < 2 ^ 32 \<and> list_all (value_ok js jp) vs)"
| "value_ok js jp v = True"

lemma write_value_nonempty: "0 < length (write_value js v)"
  by (cases v) simp_all

fun is_array :: "'j val \<Rightarrow> bool" where
  "is_array (Array vs) = True"
| "is_array v = False"

lemma read_scalar_app:
  assumes "value_ok js jp v" and "\<not> is_array v"
  shows "read_value_fuel jp (Suc k) (write_value js v @ b) = Inr (v, b)"
  using assms
  by (cases v) (simp_all add: checked.byte_app checked.word_app checked.bytes_app)

lemma read_scalar_fuel:
  assumes "value_ok js jp v" and "length (write_value js v) \<le> k" and "\<not> is_array v"
  shows "read_value_fuel jp k (write_value js v @ b) = Inr (v, b)"
proof -
  obtain k' where "k = Suc k'"
    using assms(2) write_value_nonempty [of js v] by (cases k) auto
  then show ?thesis using read_scalar_app [OF assms(1,3)] by simp
qed

lemma read_value_app:
  assumes "value_ok js jp v" and "length (write_value js v) \<le> k"
  shows "read_value_fuel jp k (write_value js v @ b) = Inr (v, b)"
  using assms
proof (induction v arbitrary: k b)
  case (Array vs)
  then obtain k' where k: "k = Suc k'" by (cases k) auto
  have "rd_n (read_value_fuel jp k') (length vs) (concat (map (write_value js) vs) @ b) = Inr (map id vs, b)"
  proof (rule rd_n_app)
    fix v b assume v: "v \<in> set vs"
    have "length (write_value js v) \<le> length (concat (map (write_value js) vs))"
      using v by (simp add: length_concat comp_def member_le_sum_list)
    then have "length (write_value js v) \<le> k'" using Array.prems(2) k by simp
    then show "read_value_fuel jp k' (write_value js v @ b) = Inr (id v, b)"
      using Array.IH [OF v] Array.prems(1) v by (simp add: list_all_iff)
  qed
  then show ?case
    using Array.prems(1) by (simp add: k checked.len32_app rd_map_def)
qed (rule read_scalar_fuel; simp)+

lemma read_whole_value:
  "value_ok js jp v \<Longrightarrow> read_value jp (write_value js v) = Inr (v, [])"
  using read_value_app [of js jp v "length (write_value js v)" "[]"] by (simp add: read_value_def)

definition value_row_ok :: "('j \<Rightarrow> bytes) \<Rightarrow> (bytes \<Rightarrow> 'j option) \<Rightarrow> 'j row \<Rightarrow> bool" where
  "value_row_ok js jp row \<longleftrightarrow> hm_wf row \<and> length row < 2 ^ 32
   \<and> (\<forall>(n, v) \<in> set row. name_ok n \<and> value_ok js jp v \<and> length (write_value js v) < 2 ^ 32)"

lemma read_value_column_app:
  assumes "name_ok (fst c)" and "value_ok js jp (snd c)" and "length (write_value js (snd c)) < 2 ^ 32"
  shows "read_value_column jp (write_value_column js c @ b) = Inr (c, b)"
  using assms
  by (simp add: read_value_column_def write_value_column_def name_ok_def counted_def checked.len16_app
      checked.name_app checked.len32_app checked.rd_app read_whole_value)

lemma read_value_row_app:
  assumes "value_row_ok js jp row"
  shows "rbind (rd_len take_update 4 (write_value_row js row @ b)) (\<lambda>(n, r).
      rbind (rd_n (read_value_column jp) n r) (\<lambda>(cols, u). Inr (WUpdate i (hm_of_list cols) x))) =
    Inr (WUpdate i row x)"
proof -
  have "rd_n (read_value_column jp) (length row) (concat (map (write_value_column js) row) @ b) =
      Inr (map id row, b)"
    using assms by (intro rd_n_app) (auto simp: value_row_ok_def read_value_column_app)
  then show ?thesis
    using assms by (simp add: write_value_row_def value_row_ok_def checked.len32_app hm_of_list_wf)
qed

subsection \<open>Whole records\<close>

text \<open>
  A record the format can carry: rows within its limits, a body below four gigabytes, and no
  blob in a transactional insert.
\<close>

fun record_ok :: "('j \<Rightarrow> bytes) \<Rightarrow> (bytes \<Rightarrow> 'j option) \<Rightarrow> 'j wal_record \<Rightarrow> bool" where
  "record_ok js jp (WInsert i row x) = (row_ok row \<and> (x \<noteq> 0 \<longrightarrow> \<not> has_blob row))"
| "record_ok js jp (WBatchInsert i rows x) = (length rows < 2 ^ 32 \<and> list_all row_ok rows)"
| "record_ok js jp (WUpdate i row x) = value_row_ok js jp row"
| "record_ok js jp r = True"

definition body_fits :: "('j \<Rightarrow> bytes) \<Rightarrow> 'j wal_record \<Rightarrow> bool" where
  "body_fits js r = (length (snd (record_body js r)) < 2 ^ 32)"

text \<open>What a record reads back as: a batch loses its transaction, vector columns become bytes.\<close>

fun wire :: "'j wal_record \<Rightarrow> 'j wal_record" where
  "wire (WInsert i row x) = WInsert i (wire_row row) x"
| "wire (WBatchInsert i rows x) = WBatchInsert i (map wire_row rows) 0"
| "wire r = r"

lemma read_body_app:
  assumes "record_ok js jp r"
  shows "read_body jp (fst (record_body js r)) (snd (record_body js r)) = Inr (wire r)"
  using assms
proof (cases r)
  case (WInsert i row x)
  then show ?thesis
    using assms read_row_app [of row _ "[]"] by (simp add: read_body_def panicking.word_app)
next
  case (WBatchInsert i rows x)
  have "rd_n (read_row True) (length rows) (concat (map write_row rows) @ []) = Inr (map wire_row rows, [])"
    using assms WBatchInsert by (intro rd_n_app read_row_app) (auto simp: list_all_iff)
  then show ?thesis
    using assms WBatchInsert by (simp add: read_body_def panicking.word_app panicking.len32_app)
next
  case (WUpdate i row x)
  then show ?thesis
    using assms read_value_row_app [of js jp row "[]" i x]
    by (simp add: read_body_def checked.word_app)
qed (use panicking.word_app(3) [of _ "[]"] in \<open>simp_all add: read_body_def panicking.word_app\<close>)

text \<open>The layout of an encoded record.\<close>

lemma to_bytes_layout:
  "to_bytes crc js now r =
     (let buf = fst (record_body js r) # to_le_bytes now @ counted (snd (record_body js r))
      in buf @ to_le_bytes (crc buf))"
  by (simp add: to_bytes_def with_crc_def split: prod.splits)

lemma length_to_bytes: "length (to_bytes crc js now r) = 17 + length (snd (record_body js r))"
  by (simp add: to_bytes_layout counted_def)

lemma record_len_field:
  assumes "body_fits js r" and "13 \<le> n"
  shows "nat_of_le (take 4 (drop 9 (take n (to_bytes crc js now r)))) = length (snd (record_body js r))"
proof -
  have "take 4 (drop 9 (take n (to_bytes crc js now r))) = take 4 (drop 9 (to_bytes crc js now r))"
    using assms(2) by (simp add: drop_take min_def)
  also have "\<dots> = len32 (length (snd (record_body js r)))"
    by (simp add: to_bytes_layout counted_def)
  finally show ?thesis using assms(1) by (simp add: body_fits_def nat_of_len32)
qed

text \<open>Header, body and checksum of an encoded record, with what follows it in the file.\<close>

lemma decode_parts:
  assumes fits: "body_fits js r"
  shows "from_bytes_versioned crc jp 2 (to_bytes crc js now r @ tail) =
    rbind (read_body jp (fst (record_body js r)) (snd (record_body js r)))
      (\<lambda>r'. Inr (r', length (to_bytes crc js now r)))"
proof -
  let ?body = "snd (record_body js r)"
  define buf where "buf = fst (record_body js r) # to_le_bytes now @ counted ?body"
  have enc: "to_bytes crc js now r @ tail = buf @ to_le_bytes (crc buf) @ tail"
    by (simp add: to_bytes_layout buf_def)
  have len: "length buf = 13 + length ?body" by (simp add: buf_def counted_def)
  have field: "nat_of_le (take 4 (drop 9 (buf @ to_le_bytes (crc buf) @ tail))) = length ?body"
    using fits by (simp add: buf_def counted_def nat_of_len32 body_fits_def)
  have drops: "take (13 + length ?body) (buf @ to_le_bytes (crc buf) @ tail) = buf"
      "drop (13 + length ?body) (buf @ to_le_bytes (crc buf) @ tail) = to_le_bytes (crc buf) @ tail"
    unfolding len [symmetric] by simp_all
  have ends: "drop 13 buf = ?body" "hd (buf @ to_le_bytes (crc buf) @ tail) = fst (record_body js r)"
    by (simp_all add: buf_def counted_def)
  show ?thesis
    unfolding enc from_bytes_versioned_def Let_def field drops ends length_to_bytes
    using len by (auto simp: rbind_def split: sum.split)
qed

lemma decode_app:
  assumes "record_ok js jp r" and "body_fits js r"
  shows "from_bytes_versioned crc jp 2 (to_bytes crc js now r @ tail) =
    Inr (wire r, length (to_bytes crc js now r))"
  by (simp add: decode_parts [OF assms(2)] read_body_app [OF assms(1)])

lemma decode_prefix:
  assumes "record_ok js jp r" and "body_fits js r" and "n < length (to_bytes crc js now r)"
  shows "\<exists>msg. from_bytes_versioned crc jp 2 (take n (to_bytes crc js now r)) = Inl (IoError InvalidData msg)"
proof (cases "n < 13 + length (snd (record_body js r))")
  case True
  then show ?thesis
    using assms(3) record_len_field [OF assms(2), of n]
    by (auto simp: from_bytes_versioned_def Let_def length_to_bytes)
next
  case False
  let ?body = "snd (record_body js r)" and ?enc = "to_bytes crc js now r"
  have f: "nat_of_le (take 4 (drop 9 (take n ?enc))) = length ?body"
    using False by (intro record_len_field [OF assms(2)]) simp
  have d: "drop 13 (take (13 + length ?body) ?enc) = ?body"
    by (simp add: drop_take to_bytes_layout Let_def counted_def)
  have h: "hd (take n ?enc) = fst (record_body js r)" using False by (simp add: to_bytes_layout Let_def)
  show ?thesis
    using False assms(3) read_body_app [OF assms(1)]
    by (simp add: from_bytes_versioned_def Let_def f d h length_to_bytes min_def)
qed

lemma decode_blob:
  assumes "row_ok row" and "has_blob row" and "x \<noteq> 0" and "body_fits js (WInsert i row x)"
  shows "from_bytes_versioned crc jp 2 (to_bytes crc js now (WInsert i row x) @ tail) =
    Inl (IoError InvalidData ''Invalid value type'')"
  using assms read_row_blob [of row "[]"]
  by (simp add: decode_parts read_body_def panicking.word_app)

lemma decode_length:
  assumes "from_bytes_versioned crc jp v bs = Inr (r, n)"
  shows "13 \<le> n" and "n \<le> length bs"
  using assms
  by (auto simp: from_bytes_versioned_def Let_def rbind_eq_Inr split: if_splits)

end
