(* ===== verification/Record_Log.thy ===== *)
theory Record_Log
  imports Prelude
begin

text \<open>
  The contract of a log of records, shared by the write-ahead log of the tables and the one of the
  full-text index: records decode behind one another, and a record cut short does not
  decode. A scan of whole records and a torn one returns the whole ones, with their offsets, and
  the offset behind the last whole one.
\<close>

fun stamped :: "('r \<Rightarrow> bytes) \<Rightarrow> ('r \<Rightarrow> 's) \<Rightarrow> nat \<Rightarrow> 'r list \<Rightarrow> (nat \<times> 's) list" where
  "stamped enc seen pos [] = []"
| "stamped enc seen pos (r # rs) = (pos, seen r) # stamped enc seen (pos + length (enc r)) rs"

lemma map_snd_stamped [simp]: "map snd (stamped enc seen pos rs) = map seen rs"
  by (induction rs arbitrary: pos) simp_all

locale record_log =
  fixes enc :: "'r \<Rightarrow> bytes" and decode :: "bytes \<Rightarrow> ('s \<times> nat) result"
    and ok :: "'r \<Rightarrow> bool" and seen :: "'r \<Rightarrow> 's"
    and scan_from :: "nat \<Rightarrow> bytes \<Rightarrow> ((nat \<times> 's) list \<times> nat) result"
  assumes dec_app: "ok r \<Longrightarrow> decode (enc r @ tail) = Inr (seen r, length (enc r))"
    and dec_torn: "ok r \<Longrightarrow> n < length (enc r) \<Longrightarrow> \<exists>k msg. decode (take n (enc r)) = Inl (IoError k msg)"
    and enc_nonempty: "enc r \<noteq> []"
    and scan_nil: "scan_from pos [] = Inr ([], pos)"
    and scan_stop: "bs \<noteq> [] \<Longrightarrow> decode bs = Inl (IoError k msg) \<Longrightarrow> scan_from pos bs = Inr ([], pos)"
    and scan_step: "bs \<noteq> [] \<Longrightarrow> decode bs = Inr (x, n) \<Longrightarrow>
        scan_from pos bs = rbind (scan_from (pos + n) (drop n bs)) (\<lambda>(rs, end). Inr ((pos, x) # rs, end))"
begin

lemma scan_records:
  assumes "\<forall>r \<in> set rs. ok r" and "\<And>pos. scan_from pos tail = Inr ([], pos)"
  shows "scan_from pos (concat (map enc rs) @ tail) =
    Inr (stamped enc seen pos rs, pos + length (concat (map enc rs)))"
  using assms(1)
proof (induction rs arbitrary: pos)
  case Nil
  then show ?case by (simp add: assms(2))
next
  case (Cons r rs)
  then show ?case
    using scan_step [of "enc r @ concat (map enc rs) @ tail" "seen r" "length (enc r)" pos]
    by (simp add: dec_app enc_nonempty add.assoc)
qed

lemma scan_torn:
  assumes "ok r" and "n < length (enc r)"
  shows "scan_from pos (take n (enc r)) = Inr ([], pos)"
proof (cases "take n (enc r) = []")
  case False
  from dec_torn [OF assms] obtain k msg where "decode (take n (enc r)) = Inl (IoError k msg)" by blast
  then show ?thesis by (rule scan_stop [OF False])
qed (auto simp: scan_nil)

text \<open>A cut through a sequence of records leaves whole records and perhaps a torn one.\<close>

lemma cut_records:
  obtains k j where "k \<le> length rs" and "take n (concat (map enc rs)) =
      concat (map enc (take k rs)) @ (if k < length rs then take j (enc (rs ! k)) else [])"
    and "k < length rs \<longrightarrow> j < length (enc (rs ! k))"
    and "\<And>f. length (concat (map enc (take f rs))) \<le> n \<Longrightarrow> f \<le> length rs \<Longrightarrow> f \<le> k"
proof -
  have "\<exists>k j. k \<le> length rs \<and> take n (concat (map enc rs)) =
      concat (map enc (take k rs)) @ (if k < length rs then take j (enc (rs ! k)) else [])
    \<and> (k < length rs \<longrightarrow> j < length (enc (rs ! k)))
    \<and> (\<forall>f. length (concat (map enc (take f rs))) \<le> n \<longrightarrow> f \<le> length rs \<longrightarrow> f \<le> k)"
  proof (induction rs arbitrary: n)
    case (Cons r rs)
    show ?case
    proof (cases "n < length (enc r)")
      case True
      have "f = 0" if "length (concat (map enc (take f (r # rs)))) \<le> n" for f
        using that True by (cases f) auto
      then show ?thesis using True by (intro exI [of _ 0] exI [of _ n]) auto
    next
      case False
      from Cons [of "n - length (enc r)"] obtain k j where kj: "k \<le> length rs"
        "take (n - length (enc r)) (concat (map enc rs)) =
          concat (map enc (take k rs)) @ (if k < length rs then take j (enc (rs ! k)) else [])"
        "k < length rs \<longrightarrow> j < length (enc (rs ! k))"
        "\<forall>f. length (concat (map enc (take f rs))) \<le> n - length (enc r) \<longrightarrow> f \<le> length rs \<longrightarrow> f \<le> k"
        by blast
      have "f \<le> Suc k" if "length (concat (map enc (take f (r # rs)))) \<le> n" "f \<le> Suc (length rs)" for f
        using that kj(4) False by (cases f) auto
      then show ?thesis
        using kj False by (intro exI [of _ "Suc k"] exI [of _ j]) auto
    qed
  qed auto
  with that show ?thesis by blast
qed

lemma scan_crash:
  assumes "\<forall>r \<in> set rs. ok r"
  shows "\<exists>k. k \<le> length rs
    \<and> scan_from pos (take n (concat (map enc rs)))
        = Inr (stamped enc seen pos (take k rs), pos + length (concat (map enc (take k rs))))
    \<and> length (concat (map enc (take k rs))) \<le> n
    \<and> (\<forall>f. length (concat (map enc (take f rs))) \<le> n \<longrightarrow> f \<le> length rs \<longrightarrow> f \<le> k)"
proof (rule cut_records [of rs n])
  fix k j
  assume k: "k \<le> length rs" and cut: "take n (concat (map enc rs)) =
      concat (map enc (take k rs)) @ (if k < length rs then take j (enc (rs ! k)) else [])"
    and j: "k < length rs \<longrightarrow> j < length (enc (rs ! k))"
    and f: "\<And>f. length (concat (map enc (take f rs))) \<le> n \<Longrightarrow> f \<le> length rs \<Longrightarrow> f \<le> k"
  have "scan_from p (if k < length rs then take j (enc (rs ! k)) else []) = Inr ([], p)" for p
    using assms j by (auto simp: scan_nil intro: scan_torn)
  moreover have "\<forall>r \<in> set (take k rs). ok r" using assms by (auto dest: in_set_takeD)
  moreover have "length (concat (map enc (take k rs))) \<le> n"
    using arg_cong [OF cut, of length] by simp
  ultimately show ?thesis
    using k f scan_records unfolding cut by blast
qed

end

end
