(* ===== verification/Wal_Log.thy ===== *)
theory Wal_Log
  imports Wal_Record Record_Log
begin

text \<open>
  The log file (\<^verbatim>\<open>storage/incremental.rs\<close>): the buffered writer, the concurrent writer and the
  reader. What a crash leaves of the file is any prefix of the bytes written that includes the
  flushed ones; reading it gives back a prefix of the records that includes the flushed ones.
\<close>

section \<open>Writer\<close>

definition WAL_MAGIC :: bytes where
  "WAL_MAGIC = [0x41, 0x50, 0x45, 0x58, 0x57, 0x41, 0x4C, 0]"

definition WAL_VERSION :: u32 where "WAL_VERSION = 2"

definition WAL_HEADER_SIZE :: nat where "WAL_HEADER_SIZE = 24"

definition wal_header :: "u64 \<Rightarrow> bytes" where
  "wal_header start_id =
     WAL_MAGIC @ to_le_bytes WAL_VERSION @ to_le_bytes start_id @ to_le_bytes (0 :: u32)"

text \<open>\<open>stream\<close> is every byte given to the \<open>BufWriter\<close>, of which the first \<open>flushed\<close> are in the file.\<close>

record wal_writer =
  stream :: bytes
  flushed :: nat
  ww_count :: nat

definition ww_create :: "u64 \<Rightarrow> wal_writer" where
  "ww_create start_id =
     \<lparr>stream = wal_header start_id, flushed = length (wal_header start_id), ww_count = 0\<rparr>"

definition ww_open :: "bytes \<Rightarrow> wal_writer result" where
  "ww_open file =
     (if length file < WAL_HEADER_SIZE then Inl (IoError UnexpectedEof ''failed to fill whole buffer'')
      else if take 8 file \<noteq> WAL_MAGIC then Inl (IoError InvalidData ''Invalid WAL magic'')
      else Inr \<lparr>stream = file, flushed = length file,
                ww_count = (if WAL_HEADER_SIZE < length file
                            then (length file - WAL_HEADER_SIZE) div 100 else 0)\<rparr>)"

definition ww_append :: "(bytes \<Rightarrow> u32) \<Rightarrow> ('j \<Rightarrow> bytes) \<Rightarrow> wal_writer \<Rightarrow> i64 \<Rightarrow> 'j wal_record \<Rightarrow> wal_writer" where
  "ww_append crc js w now r =
     w\<lparr>stream := stream w @ to_bytes crc js now r, ww_count := ww_count w + 1\<rparr>"

definition ww_append_row :: "(bytes \<Rightarrow> u32) \<Rightarrow> wal_writer \<Rightarrow> i64 \<Rightarrow> u64 \<Rightarrow> column_row \<Rightarrow> wal_writer" where
  "ww_append_row crc w now i row =
     w\<lparr>stream := stream w @ append_row_bytes crc now i row, ww_count := ww_count w + 1\<rparr>"

definition ww_flush :: "wal_writer \<Rightarrow> wal_writer" where
  "ww_flush w = w\<lparr>flushed := length (stream w)\<rparr>"

definition ww_needs_compaction :: "wal_writer \<Rightarrow> nat \<Rightarrow> bool" where
  "ww_needs_compaction w threshold = (threshold \<le> ww_count w)"

section \<open>Reader\<close>

record wal_reader =
  wr_data :: bytes
  wr_pos :: nat
  wr_version :: u32

definition wr_open :: "bytes option \<Rightarrow> wal_reader result" where
  "wr_open file =
     (case file of
        None \<Rightarrow> Inr \<lparr>wr_data = [], wr_pos = WAL_HEADER_SIZE, wr_version = WAL_VERSION\<rparr>
      | Some d \<Rightarrow>
          if WAL_HEADER_SIZE \<le> length d \<and> take 8 d = WAL_MAGIC
          then Inr \<lparr>wr_data = d, wr_pos = WAL_HEADER_SIZE, wr_version = from_le_bytes (take 4 (drop 8 d))\<rparr>
          else if d = [] then Inr \<lparr>wr_data = [], wr_pos = WAL_HEADER_SIZE, wr_version = WAL_VERSION\<rparr>
          else Inl (IoError InvalidData ''Invalid WAL header''))"

text \<open>
  The read loop on the bytes from \<open>pos\<close> on, with the offset at which it stops. A parse error
  ends the loop; a panic is passed on.
\<close>

function wal_scan :: "(bytes \<Rightarrow> u32) \<Rightarrow> (bytes \<Rightarrow> 'j option) \<Rightarrow> u32 \<Rightarrow> nat \<Rightarrow> bytes \<Rightarrow>
    ((nat \<times> 'j wal_record) list \<times> nat) result" where
  "wal_scan crc jp v pos bs =
     (if bs = [] then Inr ([], pos)
      else case from_bytes_versioned crc jp v bs of
             Inl Panic \<Rightarrow> Inl Panic
           | Inl (IoError k msg) \<Rightarrow> Inr ([], pos)
           | Inr (r, n) \<Rightarrow>
               rbind (wal_scan crc jp v (pos + n) (drop n bs)) (\<lambda>(rs, end). Inr ((pos, r) # rs, end)))"
  by pat_completeness auto
termination
  by (relation "measure (\<lambda>(crc, jp, v, pos, bs). length bs)")
     (auto dest!: decode_length(1))

declare wal_scan.simps [simp del]

definition read_all_with_offsets :: "(bytes \<Rightarrow> u32) \<Rightarrow> (bytes \<Rightarrow> 'j option) \<Rightarrow> wal_reader \<Rightarrow>
    ((nat \<times> 'j wal_record) list \<times> wal_reader) result" where
  "read_all_with_offsets crc jp w =
     rbind (wal_scan crc jp (wr_version w) (wr_pos w) (drop (wr_pos w) (wr_data w)))
       (\<lambda>(rs, end). Inr (rs, w\<lparr>wr_pos := end\<rparr>))"

definition read_all :: "(bytes \<Rightarrow> u32) \<Rightarrow> (bytes \<Rightarrow> 'j option) \<Rightarrow> wal_reader \<Rightarrow> 'j wal_record list result" where
  "read_all crc jp w = rbind (read_all_with_offsets crc jp w) (\<lambda>(rs, _). Inr (map snd rs))"

definition wr_start_id :: "wal_reader \<Rightarrow> u64" where
  "wr_start_id w =
     (if WAL_HEADER_SIZE \<le> length (wr_data w) then from_le_bytes (take 8 (drop 12 (wr_data w))) else 0)"

text \<open>Opening a file and reading it through.\<close>

definition read_log :: "(bytes \<Rightarrow> u32) \<Rightarrow> (bytes \<Rightarrow> 'j option) \<Rightarrow> bytes \<Rightarrow> 'j wal_record list result" where
  "read_log crc jp file = rbind (wr_open (Some file)) (read_all crc jp)"

section \<open>Concurrent writer\<close>

text \<open>\<open>cw_path\<close> is the file's contents, \<open>None\<close> when it cannot be opened.\<close>

record 'j concurrent_wal =
  cw_file :: "bytes option"
  cw_buffer :: "(i64 \<times> 'j wal_record) list"
  flush_threshold :: nat
  pending_count :: nat
  total_written :: u64
  shutdown :: bool

definition cw_create :: "nat \<Rightarrow> 'j concurrent_wal" where
  "cw_create threshold =
     \<lparr>cw_file = Some (wal_header 0), cw_buffer = [], flush_threshold = threshold, pending_count = 0,
      total_written = 0, shutdown = False\<rparr>"

definition cw_flush :: "(bytes \<Rightarrow> u32) \<Rightarrow> ('j \<Rightarrow> bytes) \<Rightarrow> 'j concurrent_wal \<Rightarrow>
    unit result \<times> 'j concurrent_wal" where
  "cw_flush crc js c =
     (let pending = cw_buffer c;
          c1 = c\<lparr>cw_buffer := []\<rparr>
      in if pending = [] then (Inr (), c1)
         else case cw_file c of
                None \<Rightarrow> (Inl (IoError NotFound ''open''), c1)
              | Some f \<Rightarrow>
                  (Inr (), c1\<lparr>cw_file := Some (f @ concat (map (\<lambda>(now, r). to_bytes crc js now r) pending)),
                     pending_count := pending_count c - length pending,
                     total_written := total_written c + of_nat (length pending)\<rparr>))"

definition cw_append :: "(bytes \<Rightarrow> u32) \<Rightarrow> ('j \<Rightarrow> bytes) \<Rightarrow> 'j concurrent_wal \<Rightarrow> i64 \<times> 'j wal_record \<Rightarrow>
    unit result \<times> 'j concurrent_wal" where
  "cw_append crc js c r =
     (let (res, c1) = (if flush_threshold c \<le> length (cw_buffer c) then cw_flush crc js c else (Inr (), c))
      in case res of
           Inl e \<Rightarrow> (Inl e, c1)
         | Inr u \<Rightarrow> (Inr (), c1\<lparr>cw_buffer := cw_buffer c1 @ [r], pending_count := pending_count c1 + 1\<rparr>))"

definition cw_append_batch :: "(bytes \<Rightarrow> u32) \<Rightarrow> ('j \<Rightarrow> bytes) \<Rightarrow> 'j concurrent_wal \<Rightarrow>
    (i64 \<times> 'j wal_record) list \<Rightarrow> unit result \<times> 'j concurrent_wal" where
  "cw_append_batch crc js c rs =
     (if rs = [] then (Inr (), c)
      else
        let (res, c1) = (if flush_threshold c \<le> length (cw_buffer c) + length rs
                         then cw_flush crc js c else (Inr (), c))
        in case res of
             Inl e \<Rightarrow> (Inl e, c1)
           | Inr u \<Rightarrow> (Inr (), c1\<lparr>cw_buffer := cw_buffer c1 @ rs,
                                   pending_count := pending_count c1 + length rs\<rparr>))"

definition cw_shutdown :: "'j concurrent_wal \<Rightarrow> 'j concurrent_wal" where
  "cw_shutdown c = c\<lparr>shutdown := True\<rparr>"

section \<open>The log of the program\<close>

text \<open>The log of the program is one, for records the format can carry.\<close>

definition enc_at :: "(bytes \<Rightarrow> u32) \<Rightarrow> ('j \<Rightarrow> bytes) \<Rightarrow> i64 \<times> 'j wal_record \<Rightarrow> bytes" where
  "enc_at crc js p = to_bytes crc js (fst p) (snd p)"

definition carried :: "('j \<Rightarrow> bytes) \<Rightarrow> (bytes \<Rightarrow> 'j option) \<Rightarrow> i64 \<times> 'j wal_record \<Rightarrow> bool" where
  "carried js jp p \<longleftrightarrow> record_ok js jp (snd p) \<and> body_fits js (snd p)"

interpretation wal: record_log "enc_at crc js" "from_bytes_versioned crc jp 2" "carried js jp"
  "\<lambda>p. wire (snd p)" "wal_scan crc jp 2" for crc js jp
proof (unfold_locales, goal_cases)
  case (1 r tail)
  then show ?case by (simp add: enc_at_def carried_def decode_app)
next
  case (2 r n)
  then show ?case using decode_prefix [of js jp "snd r" n crc "fst r"] by (auto simp: enc_at_def carried_def)
next
  case (3 r)
  then show ?case using length_to_bytes [of crc js "fst r" "snd r"] by (auto simp: enc_at_def)
qed (simp_all add: wal_scan.simps)

section \<open>Writing and crashing\<close>

datatype 'j wal_op = WalAppend i64 "'j wal_record" | WalFlush

fun wal_apply :: "(bytes \<Rightarrow> u32) \<Rightarrow> ('j \<Rightarrow> bytes) \<Rightarrow> wal_writer \<Rightarrow> 'j wal_op \<Rightarrow> wal_writer" where
  "wal_apply crc js w (WalAppend now r) = ww_append crc js w now r"
| "wal_apply crc js w WalFlush = ww_flush w"

fun appended :: "'j wal_op list \<Rightarrow> (i64 \<times> 'j wal_record) list" where
  "appended [] = []"
| "appended (WalAppend now r # ops) = (now, r) # appended ops"
| "appended (WalFlush # ops) = appended ops"

text \<open>The number of records appended before the last flush.\<close>

fun flushed_records :: "nat \<Rightarrow> nat \<Rightarrow> 'j wal_op list \<Rightarrow> nat" where
  "flushed_records done seen [] = done"
| "flushed_records done seen (WalAppend now r # ops) = flushed_records done (Suc seen) ops"
| "flushed_records done seen (WalFlush # ops) = flushed_records seen seen ops"

lemma appended_app: "appended (a @ b) = appended a @ appended b"
  by (induction a rule: appended.induct) simp_all

lemma header_length [simp]: "length (wal_header i) = 24"
  by (simp add: wal_header_def WAL_MAGIC_def)

lemma writer_stream:
  "stream (foldl (wal_apply crc js) w ops) = stream w @ concat (map (enc_at crc js) (appended ops))"
  by (induction ops arbitrary: w rule: appended.induct) (simp_all add: ww_append_def ww_flush_def enc_at_def)

lemma writer_flushed:
  assumes "flushed w = 24 + length (concat (map (enc_at crc js) (take d rs)))" and "d \<le> length rs"
    and "stream w = h @ concat (map (enc_at crc js) rs)" and "length h = 24"
  shows "\<exists>f. f = flushed_records d (length rs) ops \<and> f \<le> length (rs @ appended ops)
    \<and> flushed (foldl (wal_apply crc js) w ops) = 24 + length (concat (map (enc_at crc js) (take f (rs @ appended ops))))"
  using assms
proof (induction ops arbitrary: w d rs rule: appended.induct)
  case (2 now r ops)
  from "2.IH" [of "ww_append crc js w now r" d "rs @ [(now, r)]"] "2.prems" show ?case
    by (simp add: ww_append_def enc_at_def)
next
  case (3 ops)
  from "3.IH" [of "ww_flush w" "length rs" rs] "3.prems" show ?case
    by (simp add: ww_flush_def)
qed simp

lemma open_log:
  "wr_open (Some (wal_header i @ bs)) = Inr \<lparr>wr_data = wal_header i @ bs, wr_pos = 24, wr_version = 2\<rparr>"
proof -
  have "take 8 (wal_header i @ bs) = WAL_MAGIC" by (simp add: wal_header_def WAL_MAGIC_def)
  moreover have "take 4 (drop 8 (wal_header i @ bs)) = to_le_bytes WAL_VERSION"
    by (simp add: wal_header_def WAL_MAGIC_def)
  ultimately show ?thesis by (simp add: wr_open_def WAL_HEADER_SIZE_def WAL_VERSION_def)
qed

lemma read_log_scan:
  "read_log crc jp (wal_header i @ bs) = rbind (wal_scan crc jp 2 24 bs) (\<lambda>(rs, e). Inr (map snd rs))"
  by (cases "wal_scan crc jp 2 24 bs")
     (auto simp: read_log_def open_log read_all_def read_all_with_offsets_def)

section \<open>Properties\<close>

text \<open>
  C5. An encoded record, with anything behind it in the file, decodes to the record it came
  from and to its length, for every record the format can carry (transactional inserts with a
  blob column are not among them). Vector columns read back as plain bytes and a batch loses
  its transaction identifier.
\<close>

theorem wal_record_round_trip:
  assumes "record_ok js jp r" and "body_fits js r"
  shows "from_bytes_versioned crc jp 2 (to_bytes crc js now r @ tail) =
    Inr (wire r, length (to_bytes crc js now r))"
  using assms by (rule decode_app)

definition unit_json :: "unit \<Rightarrow> bytes" where "unit_json j = [0x6E, 0x75, 0x6C, 0x6C]"

definition parse_unit_json :: "bytes \<Rightarrow> unit option" where
  "parse_unit_json b = (if b = unit_json () then Some () else None)"

lemma wal_record_round_trip_witness:
  "from_bytes_versioned (\<lambda>b. of_nat (length b)) parse_unit_json 2
     (to_bytes (\<lambda>b. of_nat (length b)) unit_json 7
        (WUpdate 3 [(''v'', Array [Int64 5, Json ()]), (''s'', Str ''ab'')] 9) @ [1, 2])
   = Inr (WUpdate 3 [(''v'', Array [Int64 5, Json ()]), (''s'', Str ''ab'')] 9, 81)"
proof -
  let ?r = "WUpdate 3 [(''v'', Array [Int64 5, Json ()]), (''s'', Str ''ab'')] 9 :: unit wal_record"
  have "utf8_valid (as_bytes ''v'')" "utf8_valid (as_bytes ''s'')" "utf8_valid (as_bytes ''ab'')"
    "parse_unit_json (unit_json ()) = Some ()" "length (unit_json ()) = 4"
    "length (write_value unit_json (Array [Int64 5, Json ()])) = 23"
    "length (write_value unit_json (Str ''ab'')) = 7"
    by code_simp+
  then have "record_ok unit_json parse_unit_json ?r"
    by (simp add: value_row_ok_def name_ok_def del: write_value.simps)
  moreover have "length (snd (record_body unit_json ?r)) = 64" by code_simp
  then have "body_fits unit_json ?r" by (simp add: body_fits_def del: record_body.simps)
  ultimately have "from_bytes_versioned (\<lambda>b. of_nat (length b)) parse_unit_json 2
       (to_bytes (\<lambda>b. of_nat (length b)) unit_json 7 ?r @ [1, 2])
     = Inr (wire ?r, length (to_bytes (\<lambda>b. of_nat (length b)) unit_json 7 ?r))"
    by (rule wal_record_round_trip)
  moreover have "length (to_bytes (\<lambda>b. of_nat (length b)) unit_json 7 ?r) = 81" by code_simp
  ultimately show ?thesis by simp
qed

text \<open>
  C3. Crash safety of the log: after any sequence of flushes and appends of records that the
  format can carry on a new log, whatever prefix of the written bytes a crash leaves in the
  file, as long as it holds the flushed ones, reading it succeeds and gives a prefix of the
  appended records, as they are read back (\<open>wire\<close>), that includes every record appended before
  the last flush. The format can carry a record (\<open>carried\<close>) when its lengths fit their fields, its
  names are UTF-8, its JSON values parse back, and it is not a transactional insert with a blob
  column: the decoder has no case for that, and every record behind such an insert is lost too
  (\<open>transactional_blob_insert_unreadable\<close>).
\<close>

theorem crash_keeps_flushed_records:
  assumes "w = foldl (wal_apply crc js) (ww_create start_id) ops"
    and "\<forall>p \<in> set (appended ops). carried js jp p"
    and "flushed w \<le> n"
  shows "\<exists>k. flushed_records 0 0 ops \<le> k
    \<and> read_log crc jp (take n (stream w)) = Inr (map (\<lambda>p. wire (snd p)) (take k (appended ops)))"
proof -
  let ?rs = "appended ops"
  have st: "stream w = wal_header start_id @ concat (map (enc_at crc js) ?rs)"
    by (simp add: assms(1) writer_stream ww_create_def)
  obtain f where f: "f = flushed_records 0 0 ops" "f \<le> length ?rs"
      "flushed w = 24 + length (concat (map (enc_at crc js) (take f ?rs)))"
    using writer_flushed [of "ww_create start_id" crc js 0 "[]" "wal_header start_id" ops] assms(1)
    by (auto simp: ww_create_def)
  have n: "24 \<le> n" "length (concat (map (enc_at crc js) (take f ?rs))) \<le> n - 24"
    using assms(3) f(3) by auto
  from wal.scan_crash [OF assms(2), of crc 24 "n - 24"] obtain k e where k:
    "wal_scan crc jp 2 24 (take (n - 24) (concat (map (enc_at crc js) ?rs)))
       = Inr (stamped (enc_at crc js) (\<lambda>p. wire (snd p)) 24 (take k ?rs), e)"
    "f \<le> k" using n(2) f(2) by blast
  have "take n (stream w) = wal_header start_id @ take (n - 24) (concat (map (enc_at crc js) ?rs))"
    using n(1) by (simp add: st)
  then have "read_log crc jp (take n (stream w)) = Inr (map (\<lambda>p. wire (snd p)) (take k ?rs))"
    by (simp add: read_log_scan k)
  then show ?thesis using k(2) f(1) by blast
qed

lemma small_carried: "carried unit_json parse_unit_json (now, WTxnCommit x)"
  by (simp add: carried_def body_fits_def)

lemma crash_keeps_flushed_records_witness:
  "\<exists>k. 1 \<le> k \<and> read_log (\<lambda>b. 0) parse_unit_json (take 60 (stream
      (foldl (wal_apply (\<lambda>b. 0) unit_json) (ww_create 1) [WalAppend 0 (WTxnCommit 1), WalFlush, WalAppend 0 (WTxnCommit 2)])))
    = Inr (map (\<lambda>p. wire (snd p)) (take k [(0 :: i64, WTxnCommit 1), (0, WTxnCommit 2)]))"
proof -
  let ?ops = "[WalAppend 0 (WTxnCommit 1), WalFlush, WalAppend 0 (WTxnCommit 2)] :: unit wal_op list"
  let ?w = "foldl (wal_apply (\<lambda>b. 0) unit_json) (ww_create 1) ?ops"
  have "flushed ?w \<le> 60" by (simp add: ww_append_def ww_flush_def ww_create_def length_to_bytes)
  moreover have "\<forall>p \<in> set (appended ?ops). carried unit_json parse_unit_json p" by (simp add: small_carried)
  ultimately show ?thesis
    using crash_keeps_flushed_records [of ?w "\<lambda>b. 0" unit_json 1 ?ops parse_unit_json 60] by simp
qed

text \<open>
  A transactional insert of a row with a blob column is written to the log but cannot be
  read back: the decoder of that record type rejects the blob's tag, and the reader stops there
  and loses every record behind it.
\<close>

theorem transactional_blob_insert_unreadable:
  assumes "row_ok row" and "has_blob row" and "x \<noteq> 0" and "body_fits js (WInsert i row x)"
  shows "read_log crc jp (wal_header start_id @ to_bytes crc js now (WInsert i row x) @ tail) = Inr []"
proof -
  have "to_bytes crc js now (WInsert i row x) @ tail \<noteq> []"
    using length_to_bytes [of crc js now "WInsert i row x"] by auto
  then show ?thesis
    by (simp add: read_log_scan wal_scan.simps decode_blob [OF assms])
qed

lemma transactional_blob_insert_unreadable_witness:
  "read_log (\<lambda>b. 0) parse_unit_json
     (wal_header 1 @ to_bytes (\<lambda>b. 0) unit_json 0 (WInsert 1 [(''b'', CvBlob [1, 2])] 7)
        @ to_bytes (\<lambda>b. 0) unit_json 0 (WTxnCommit 7)) = Inr []"
proof -
  have "utf8_valid (as_bytes ''b'')" by code_simp
  then have "row_ok [(''b'', CvBlob [1, 2])]" by (simp add: row_ok_def name_ok_def)
  moreover have "has_blob [(''b'', CvBlob [1, 2])]" by (simp add: has_blob_def)
  moreover have "length (snd (record_body unit_json (WInsert 1 [(''b'', CvBlob [1, 2])] 7))) = 30"
    by code_simp
  then have "body_fits unit_json (WInsert 1 [(''b'', CvBlob [1, 2])] 7)"
    by (simp add: body_fits_def del: record_body.simps)
  ultimately show ?thesis by (intro transactional_blob_insert_unreadable) simp_all
qed

text \<open>
  A writer that reopens a log with a torn record appends behind the torn bytes; a commit
  record written there is not read back, whatever the checksum function.
\<close>

theorem append_after_torn_tail_lost:
  "rbind (ww_open (wal_header start_id @ [6]))
     (\<lambda>w. read_log crc jp (stream (ww_flush (ww_append crc js w now (WTxnCommit x))))) = Inr []"
proof -
  let ?enc = "to_bytes crc js now (WTxnCommit x)"
  have open_ok: "\<exists>w. ww_open (wal_header start_id @ [6]) = Inr w \<and> stream w = wal_header start_id @ [6]"
    by (simp add: ww_open_def WAL_HEADER_SIZE_def) (simp add: wal_header_def WAL_MAGIC_def)
  obtain b where b: "drop 7 (to_le_bytes now) = [b]"
  proof -
    have "length (drop 7 (to_le_bytes now)) = 1" by simp
    then show ?thesis using that by (metis One_nat_def length_0_conv length_Suc_conv)
  qed
  have len8: "len32 8 = [8, 0, 0, 0]" by code_simp
  have "take 4 (drop 9 (6 # ?enc)) = take 4 (drop 7 (to_le_bytes now) @ [8, 0, 0, 0])"
    by (simp add: to_bytes_layout counted_def len8)
  also have "\<dots> = [b, 8, 0, 0]" by (simp add: b)
  finally have "nat_of_le (take 4 (drop 9 (6 # ?enc))) = unat b + 2048" by simp
  then have "\<exists>m. from_bytes_versioned crc jp 2 (6 # ?enc) = Inl (IoError InvalidData m)"
    by (simp add: from_bytes_versioned_def length_to_bytes)
  then have "wal_scan crc jp 2 24 (6 # ?enc) = Inr ([], 24)" by (auto simp: wal_scan.simps)
  then have "read_log crc jp (wal_header start_id @ [6] @ ?enc) = Inr []"
    by (simp add: read_log_scan)
  with open_ok show ?thesis by (auto simp: ww_flush_def ww_append_def)
qed

text \<open>
  A record whose header announces a body shorter than its type needs makes the decoder
  panic, before the checksum is looked at.
\<close>

theorem short_body_panics:
  "from_bytes_versioned crc jp 2 (2 # to_le_bytes (now :: i64) @ len32 0 @ tail) = Inl Panic"
proof -
  have "len32 0 = [0, 0, 0, 0]" by code_simp
  then show ?thesis
    by (simp add: from_bytes_versioned_def read_body_def rd_word_def slice_def)
qed

text \<open>
  \<open>append_row\<close>, which builds its bytes without a record, writes exactly what appending an
  auto-commit insert record would.
\<close>

theorem append_row_is_append:
  "ww_append_row crc w now i row = ww_append crc js w now (WInsert i row 0)"
proof -
  have "(case v of CvNull \<Rightarrow> [0] | CvBool b \<Rightarrow> [1, if b then 1 else 0] | CvInt64 x \<Rightarrow> 2 # to_le_bytes x
      | CvFloat64 x \<Rightarrow> 3 # to_le_bytes x | CvString x \<Rightarrow> 4 # len32 (length (as_bytes x)) @ as_bytes x
      | CvBinary x \<Rightarrow> 5 # len32 (length x) @ x | CvBlob x \<Rightarrow> 6 # len32 (length x) @ x
      | CvFixedList x \<Rightarrow> 5 # len32 (length x) @ x) = write_column_value v" for v
    by (cases v) (simp_all add: counted_def)
  moreover have cols: "write_column = (\<lambda>(name, v). len16 (length name) @ as_bytes name @ write_column_value v)"
    by (simp add: fun_eq_iff write_column_def)
  ultimately have "append_row_bytes crc now i row =
      (let data_buf = to_le_bytes i @ len32 (length row) @ concat (map write_column row);
           buf = 1 # to_le_bytes now @ len32 (length data_buf) @ data_buf
       in buf @ to_le_bytes (crc buf))"
    by (simp add: append_row_bytes_def cols)
  then show ?thesis
    by (simp add: ww_append_row_def ww_append_def to_bytes_layout write_row_def counted_def Let_def)
qed

text \<open>
  When the concurrent writer cannot open its file, a flush drops the records it has taken
  out of its buffer: a later flush succeeds and the file never gets them.
\<close>

theorem failed_flush_drops_records:
  assumes "cw_buffer c \<noteq> []" and "cw_file c = None" and "cw_flush crc js c = (res, c1)"
  shows "(\<exists>e. res = Inl e) \<and> cw_flush crc js (c1\<lparr>cw_file := Some f\<rparr>) = (Inr (), c1\<lparr>cw_file := Some f\<rparr>)"
  using assms by (auto simp: cw_flush_def Let_def)

lemma failed_flush_drops_records_witness:
  "\<exists>e. fst (cw_flush (\<lambda>b. 0) unit_json
      \<lparr>cw_file = None, cw_buffer = [(0, WTxnCommit 1)], flush_threshold = 10, pending_count = 1,
       total_written = 0, shutdown = False\<rparr>) = Inl e"
  using failed_flush_drops_records [of "\<lparr>cw_file = None, cw_buffer = [(0, WTxnCommit 1)],
      flush_threshold = 10, pending_count = 1, total_written = 0, shutdown = False\<rparr>" "\<lambda>b. 0" unit_json]
  by (metis concurrent_wal.select_convs(1,2) list.distinct(1) prod.collapse)

end
