(* ===== verification/Wal_Recovery.thy ===== *)
theory Wal_Recovery
  imports Wal_Log
begin

text \<open>
  Crash recovery from the log (\<^verbatim>\<open>storage/on_demand/storage_core.rs\<close>): the sidecar that records how
  much of the log is applied, and the classification of the log's records into rows to roll
  back, rows to delete, updates to replay and records to replay. Whether a transaction is still
  open in this process is the parameter \<open>live\<close>.
\<close>

section \<open>The applied offset\<close>

definition wal_applied_offset :: "bytes option \<Rightarrow> u64 \<Rightarrow> u64" where
  "wal_applied_offset meta wal_len =
     (case meta of
        None \<Rightarrow> of_nat WAL_HEADER_SIZE
      | Some b \<Rightarrow>
          if length b = 8
          then (let off = from_le_bytes b
                in if of_nat WAL_HEADER_SIZE \<le> off \<and> off \<le> wal_len then off else of_nat WAL_HEADER_SIZE)
          else of_nat WAL_HEADER_SIZE)"

definition wal_needs_recovery :: "bytes option \<Rightarrow> u64 \<Rightarrow> bool" where
  "wal_needs_recovery meta wal_len =
     (if wal_len \<le> of_nat WAL_HEADER_SIZE then False
      else wal_applied_offset meta wal_len \<noteq> wal_len)"

text \<open>The sidecar after \<open>write_wal_marker\<close>; \<open>wal_len\<close> is \<open>None\<close> when the log does not exist.\<close>

definition write_wal_marker :: "bytes option \<Rightarrow> u64 option \<Rightarrow> bytes option" where
  "write_wal_marker meta wal_len =
     (case wal_len of
        None \<Rightarrow> meta
      | Some n \<Rightarrow> if of_nat WAL_HEADER_SIZE < n then Some (to_le_bytes n) else meta)"

section \<open>Classification\<close>

record 'j recovery_scan =
  rs_records :: "'j wal_record list"
  uncommitted_insert_ids :: "u64 list"
  committed_delete_ids :: "u64 list"
  committed_updates :: "(u64 \<times> 'j row) list"
  recovered_next_id :: u64

type_synonym 'j offset_record = "nat \<times> 'j wal_record"

definition effective_offset :: "u64 \<Rightarrow> u64 \<Rightarrow> 'j offset_record list \<Rightarrow> nat" where
  "effective_offset applied wal_len rs =
     (if applied = wal_len \<or> (\<exists>(off, r) \<in> set rs. off = unat applied) then unat applied
      else WAL_HEADER_SIZE)"

definition committed_txns :: "'j offset_record list \<Rightarrow> u64 list" where
  "committed_txns rs =
     fold (\<lambda>(off, r) acc. case r of WTxnCommit x \<Rightarrow> hs_insert x acc | _ \<Rightarrow> acc) rs []"

definition dead_uncommitted :: "(u64 \<Rightarrow> bool) \<Rightarrow> u64 list \<Rightarrow> u64 \<Rightarrow> bool" where
  "dead_uncommitted live committed x = (x \<noteq> 0 \<and> x \<notin> set committed \<and> \<not> live x)"

fun scan_ids :: "(u64 \<Rightarrow> bool) \<Rightarrow> u64 list \<Rightarrow> 'j offset_record list \<Rightarrow> u64 list \<Rightarrow> u64 list \<Rightarrow>
    u64 list \<times> u64 list" where
  "scan_ids live committed [] ins dels = (ins, dels)"
| "scan_ids live committed ((off, r) # rs) ins dels =
     (case r of
        WInsert i row x \<Rightarrow>
          if dead_uncommitted live committed x
          then scan_ids live committed rs (hs_insert i ins) dels
          else scan_ids live committed rs ins dels
      | WBatchInsert s rows x \<Rightarrow>
          if dead_uncommitted live committed x
          then scan_ids live committed rs
                 (fold (\<lambda>k. hs_insert (s + of_nat k)) [0..<length rows] ins) dels
          else scan_ids live committed rs ins dels
      | WDelete i x \<Rightarrow>
          if x \<noteq> 0 \<and> x \<in> set committed \<and> \<not> live x
          then scan_ids live committed rs ins (dels @ [i])
          else scan_ids live committed rs ins dels
      | _ \<Rightarrow> scan_ids live committed rs ins dels)"

text \<open>
  Updates are paired with the begin and commit records around them: \<open>pending\<close> holds the updates
  of each transaction that has begun and not ended at this point of the log.
\<close>

fun scan_updates :: "(u64 \<Rightarrow> bool) \<Rightarrow> nat \<Rightarrow> 'j offset_record list \<Rightarrow>
    (u64, (nat \<times> u64 \<times> 'j row) list) hmap \<Rightarrow> (nat \<times> u64 \<times> 'j row) list \<Rightarrow> (nat \<times> u64 \<times> 'j row) list" where
  "scan_updates live applied [] pending out = out"
| "scan_updates live applied ((off, r) # rs) pending out =
     (case r of
        WTxnBegin x \<Rightarrow> scan_updates live applied rs (hm_insert x [] pending) out
      | WUpdate i row x \<Rightarrow>
          if applied \<le> off
          then (case hm_get pending x of
                  Some us \<Rightarrow> scan_updates live applied rs (hm_insert x (us @ [(off, i, row)]) pending) out
                | None \<Rightarrow> scan_updates live applied rs pending out)
          else scan_updates live applied rs pending out
      | WTxnCommit x \<Rightarrow>
          (case hm_get pending x of
             Some us \<Rightarrow> scan_updates live applied rs (hm_remove x pending) (if live x then out else out @ us)
           | None \<Rightarrow> scan_updates live applied rs pending out)
      | WTxnRollback x \<Rightarrow> scan_updates live applied rs (hm_remove x pending) out
      | _ \<Rightarrow> scan_updates live applied rs pending out)"

text \<open>Offsets are distinct, so sorting by offset has one result.\<close>

definition sort_updates :: "(nat \<times> u64 \<times> 'j row) list \<Rightarrow> (nat \<times> u64 \<times> 'j row) list" where
  "sort_updates us = sort_key fst us"

definition replayable :: "u64 list \<Rightarrow> u64 \<Rightarrow> 'j wal_record \<Rightarrow> bool" where
  "replayable committed base r =
     (case r of
        WInsert i row x \<Rightarrow> (x = 0 \<or> x \<in> set committed) \<and> base \<le> i
      | WBatchInsert s rows x \<Rightarrow> (x = 0 \<or> x \<in> set committed) \<and> base < s + of_nat (length rows)
      | WDelete i x \<Rightarrow> (x = 0 \<or> x \<in> set committed) \<and> i < base
      | _ \<Rightarrow> True)"

definition last_id :: "'j wal_record \<Rightarrow> u64 option" where
  "last_id r =
     (case r of
        WInsert i row x \<Rightarrow> Some i
      | WBatchInsert s rows x \<Rightarrow> Some (s + of_nat (length rows) - 1)
      | _ \<Rightarrow> None)"

definition max_wal_id :: "'j wal_record list \<Rightarrow> u64 option" where
  "max_wal_id rs =
     fold (\<lambda>r acc. case last_id r of
             None \<Rightarrow> acc
           | Some i \<Rightarrow> Some (case acc of None \<Rightarrow> i | Some a \<Rightarrow> max a i)) rs None"

definition scan_wal_for_recovery ::
    "(u64 \<Rightarrow> bool) \<Rightarrow> u64 \<Rightarrow> u64 \<Rightarrow> u64 \<Rightarrow> 'j offset_record list \<Rightarrow> 'j recovery_scan" where
  "scan_wal_for_recovery live applied wal_len base all_records =
     (let start = effective_offset applied wal_len all_records;
          committed = committed_txns all_records;
          (ins, dels) = scan_ids live committed all_records [] [];
          updates = map snd (sort_updates (scan_updates live start all_records [] []));
          records = filter (replayable committed base) (map snd all_records)
      in \<lparr>rs_records = records, uncommitted_insert_ids = ins, committed_delete_ids = dels,
          committed_updates = updates,
          recovered_next_id = (case max_wal_id records of None \<Rightarrow> base | Some i \<Rightarrow> i + 1)\<rparr>)"

section \<open>Which updates are replayed\<close>

datatype boundary = AtBegin | AtCommit | AtRollback

fun boundary_of :: "u64 \<Rightarrow> 'j wal_record \<Rightarrow> boundary option" where
  "boundary_of x (WTxnBegin y) = (if y = x then Some AtBegin else None)"
| "boundary_of x (WTxnCommit y) = (if y = x then Some AtCommit else None)"
| "boundary_of x (WTxnRollback y) = (if y = x then Some AtRollback else None)"
| "boundary_of x r = None"

text \<open>
  \<open>opened op x rs\<close>: after \<open>rs\<close> the transaction \<open>x\<close> is open, given whether it was before;
  \<open>closes x rs\<close>: the first boundary of \<open>x\<close> in \<open>rs\<close> is its commit.
\<close>

fun opened :: "bool \<Rightarrow> u64 \<Rightarrow> 'j offset_record list \<Rightarrow> bool" where
  "opened op x [] = op"
| "opened op x ((off, r) # rs) =
     opened (case boundary_of x r of None \<Rightarrow> op | Some b \<Rightarrow> b = AtBegin) x rs"

fun closes :: "u64 \<Rightarrow> 'j offset_record list \<Rightarrow> bool" where
  "closes x [] = False"
| "closes x ((off, r) # rs) = (case boundary_of x r of None \<Rightarrow> closes x rs | Some b \<Rightarrow> b = AtCommit)"

text \<open>An update between the begin and the commit of its transaction.\<close>

definition update_in :: "u64 \<Rightarrow> bool \<Rightarrow> 'j offset_record list \<Rightarrow> nat \<times> u64 \<times> 'j row \<Rightarrow> bool" where
  "update_in x op rs u \<longleftrightarrow>
     (\<exists>a post. rs = a @ (fst u, WUpdate (fst (snd u)) (snd (snd u)) x) # post \<and> opened op x a \<and> closes x post)"

lemma update_in_Nil [simp]: "\<not> update_in x op [] u"
  by (simp add: update_in_def)

lemma update_in_Cons:
  "update_in x op ((off, r) # rs) u \<longleftrightarrow>
     off = fst u \<and> r = WUpdate (fst (snd u)) (snd (snd u)) x \<and> op \<and> closes x rs
   \<or> update_in x (case boundary_of x r of None \<Rightarrow> op | Some b \<Rightarrow> b = AtBegin) rs u"
  (is "?lhs \<longleftrightarrow> ?now \<or> ?later")
proof
  assume ?lhs
  then obtain a post where eq: "(off, r) # rs = a @ (fst u, WUpdate (fst (snd u)) (snd (snd u)) x) # post"
    and o: "opened op x a" and c: "closes x post" by (auto simp: update_in_def)
  show "?now \<or> ?later"
  proof (cases a)
    case Nil
    with eq o c show ?thesis by simp
  next
    case (Cons e a')
    with eq o c show ?thesis by (auto simp: update_in_def)
  qed
next
  assume "?now \<or> ?later"
  then show ?lhs
  proof
    assume ?now
    then show ?lhs unfolding update_in_def by (intro exI [of _ "[]"] exI [of _ rs]) simp
  next
    assume ?later
    then obtain a post where "rs = a @ (fst u, WUpdate (fst (snd u)) (snd (snd u)) x) # post"
      "opened (case boundary_of x r of None \<Rightarrow> op | Some b \<Rightarrow> b = AtBegin) x a" "closes x post"
      by (auto simp: update_in_def)
    then show ?lhs unfolding update_in_def by (intro exI [of _ "(off, r) # a"] exI [of _ post]) simp
  qed
qed

text \<open>What the scan still has to deliver for a transaction in a given state.\<close>

definition owed :: "nat \<Rightarrow> 'j offset_record list \<Rightarrow> (u64, (nat \<times> u64 \<times> 'j row) list) hmap \<Rightarrow>
    u64 \<Rightarrow> nat \<times> u64 \<times> 'j row \<Rightarrow> bool" where
  "owed applied rs pending x u \<longleftrightarrow>
     (\<exists>us. hm_get pending x = Some us \<and> u \<in> set us) \<and> closes x rs
   \<or> update_in x (hm_get pending x \<noteq> None) rs u \<and> applied \<le> fst u"

lemma owed_boundary:
  "owed applied rs (hm_insert y [] pending) x u = owed applied ((off, WTxnBegin y) # rs) pending x u"
  "owed applied rs (hm_remove y pending) x u = owed applied ((off, WTxnRollback y) # rs) pending x u"
  by (cases "x = y"; auto simp: owed_def update_in_Cons hm_simps)+

lemma owed_commit:
  "hm_get pending y = None \<Longrightarrow>
     owed applied ((off, WTxnCommit y) # rs) pending x u = owed applied rs pending x u"
  "hm_get pending y = Some us \<Longrightarrow>
     owed applied ((off, WTxnCommit y) # rs) pending x u =
       (x = y \<and> u \<in> set us \<or> owed applied rs (hm_remove y pending) x u)"
  by (cases "x = y"; auto simp: owed_def update_in_Cons hm_simps)+

lemma owed_update:
  "hm_get pending y = None \<or> \<not> applied \<le> off \<Longrightarrow>
     owed applied ((off, WUpdate i row y) # rs) pending x u = owed applied rs pending x u"
  "hm_get pending y = Some us \<Longrightarrow> applied \<le> off \<Longrightarrow>
     owed applied ((off, WUpdate i row y) # rs) pending x u =
       owed applied rs (hm_insert y (us @ [(off, i, row)]) pending) x u"
  by (cases u; cases "x = y"; auto simp: owed_def update_in_Cons hm_simps)+

lemma scan_updates_set:
  "set (scan_updates live applied rs pending out) =
     set out \<union> {u. \<exists>x. \<not> live x \<and> owed applied rs pending x u}"
proof (induction rs arbitrary: pending out)
  case Nil
  show ?case by (simp add: owed_def)
next
  case (Cons e rs)
  obtain off r where e: "e = (off, r)" by (cases e)
  show ?case
  proof (cases r)
    case (WTxnBegin y)
    then show ?thesis by (simp add: e Cons.IH flip: owed_boundary)
  next
    case (WTxnRollback y)
    then show ?thesis by (simp add: e Cons.IH flip: owed_boundary)
  next
    case (WTxnCommit y)
    then show ?thesis
      by (cases "hm_get pending y") (auto simp: e Cons.IH owed_commit)
  next
    case (WUpdate i row y)
    then show ?thesis
      by (cases "hm_get pending y") (auto simp: e Cons.IH owed_update)
  qed (simp_all add: e Cons.IH owed_def update_in_Cons)
qed

section \<open>Properties\<close>

text \<open>
  C6. Recovery replays an update exactly when it lies, at or after the applied offset, between
  the begin and the commit record of its transaction with no other boundary of that transaction
  in between, and the transaction is not open in this process. Transaction identifiers that
  earlier processes used as well do not confuse it.
\<close>

theorem recovery_replays_committed_updates:
  "(i, row) \<in> set (committed_updates (scan_wal_for_recovery live applied wal_len base rs)) \<longleftrightarrow>
     (\<exists>x a off post. rs = a @ (off, WUpdate i row x) # post \<and> effective_offset applied wal_len rs \<le> off
        \<and> \<not> live x \<and> opened False x a \<and> closes x post)"
proof -
  let ?start = "effective_offset applied wal_len rs"
  have "(i, row) \<in> set (committed_updates (scan_wal_for_recovery live applied wal_len base rs))
    \<longleftrightarrow> (\<exists>off. (off, i, row) \<in> set (scan_updates live ?start rs [] []))"
    by (force simp: scan_wal_for_recovery_def sort_updates_def Let_def case_prod_beta)
  also have "\<dots> \<longleftrightarrow> (\<exists>off x. \<not> live x \<and> update_in x False rs (off, i, row) \<and> ?start \<le> off)"
    by (auto simp: scan_updates_set owed_def)
  finally show ?thesis by (auto simp: update_in_def)
qed

text \<open>
  Inserts are classified by the set of all identifiers that ever committed in the log, and
  identifiers restart with each process. A row inserted by a transaction that never committed
  is replayed as committed, and is not rolled back, when an earlier process committed a
  transaction with the same identifier.
\<close>

theorem recovery_replays_uncommitted_insert:
  "let log = [(24, WTxnBegin 1), (49, WInsert 10 [] 1), (80, WTxnCommit 1),
              (105, WTxnBegin 1), (130, WInsert 11 [] 1)] :: unit offset_record list;
       s = scan_wal_for_recovery (\<lambda>x. False) 24 161 10 log
   in WInsert 11 [] 1 \<in> set (rs_records s) \<and> 11 \<notin> set (uncommitted_insert_ids s)
      \<and> \<not> closes 1 [(130, WInsert 11 [] 1 :: unit wal_record)]"
  by code_simp

definition max_step :: "'j wal_record \<Rightarrow> u64 option \<Rightarrow> u64 option" where
  "max_step r acc =
     (case last_id r of None \<Rightarrow> acc | Some i \<Rightarrow> Some (case acc of None \<Rightarrow> i | Some a \<Rightarrow> max a i))"

lemma max_fold_acc: "\<exists>m \<ge> a. fold max_step rs (Some a) = Some m"
proof (induction rs arbitrary: a)
  case (Cons r rs)
  obtain b where b: "max_step r (Some a) = Some b" "a \<le> b"
    by (cases "last_id r") (auto simp: max_step_def)
  from Cons [of b] b show ?case by (auto intro: order_trans)
qed simp

lemma max_fold_mem: "r \<in> set rs \<Longrightarrow> last_id r = Some i \<Longrightarrow> \<exists>m \<ge> i. fold max_step rs acc = Some m"
proof (induction rs arbitrary: acc)
  case (Cons r' rs)
  show ?case
  proof (cases "r = r'")
    case True
    then obtain b where b: "max_step r' acc = Some b" "i \<le> b"
      using Cons.prems(2) by (cases acc) (auto simp: max_step_def)
    from max_fold_acc [of b rs] b show ?thesis by (auto intro: order_trans)
  qed (use Cons in auto)
qed simp

lemma max_fold_some:
  "fold max_step rs acc = Some m \<Longrightarrow> acc = Some m \<or> (\<exists>r \<in> set rs. last_id r = Some m)"
proof (induction rs arbitrary: acc)
  case (Cons r rs)
  from Cons.IH [of "max_step r acc"] Cons.prems show ?case
    by (auto simp: max_step_def max_def split: option.splits if_splits)
qed simp

lemma max_wal_id_step: "max_wal_id rs = fold max_step rs None"
  by (simp add: max_wal_id_def max_step_def [abs_def])

text \<open>
  C30. The identifier counter recovered from the log is above the last identifier of every insert
  that is replayed, so a new row never takes the identifier of a recovered one (as long as no
  row has the largest identifier).
\<close>

theorem recovered_ids_are_fresh:
  assumes "s = scan_wal_for_recovery live applied wal_len base rs"
    and "r \<in> set (rs_records s)" and "last_id r = Some i"
    and "\<forall>r' \<in> set (rs_records s). last_id r' \<noteq> Some u64_max"
  shows "i < recovered_next_id s"
proof -
  let ?recs = "filter (replayable (committed_txns rs) base) (map snd rs)"
  have recs: "rs_records s = ?recs" and nxt: "recovered_next_id s =
      (case max_wal_id ?recs of None \<Rightarrow> base | Some i \<Rightarrow> i + 1)"
    by (simp_all add: assms(1) scan_wal_for_recovery_def Let_def case_prod_beta)
  obtain m where m: "max_wal_id ?recs = Some m" "i \<le> m"
    using max_fold_mem [of r ?recs i None] assms(2,3) by (auto simp: max_wal_id_step recs)
  have "m \<noteq> u64_max"
    using max_fold_some [of ?recs None m] m(1) assms(4) by (auto simp: max_wal_id_step recs)
  then have "unat (m + 1) = Suc (unat m)" by (rule unat_bump)
  then show ?thesis using m by (simp add: nxt word_less_nat_alt word_le_nat_alt)
qed

lemma recovered_ids_are_fresh_witness:
  "10 < recovered_next_id (scan_wal_for_recovery (\<lambda>x. False) 24 80 10
     [(24, WInsert 10 [] 0 :: unit wal_record), (53, WBatchInsert 11 [[], []] 0)])"
proof -
  let ?s = "scan_wal_for_recovery (\<lambda>x. False) 24 80 10
     [(24, WInsert 10 [] 0 :: unit wal_record), (53, WBatchInsert 11 [[], []] 0)]"
  have "rs_records ?s = [WInsert 10 [] 0, WBatchInsert 11 [[], []] 0]" by code_simp
  then show ?thesis
    by (intro recovered_ids_are_fresh [OF refl, of "WInsert 10 [] 0"]) (simp_all add: last_id_def)
qed

text \<open>
  The applied-offset sidecar gates recovery exactly: after it is written for a log of
  \<open>n\<close> bytes no recovery runs while the log keeps that length, and once the log has grown
  recovery runs from the recorded offset.
\<close>

theorem marker_gates_recovery:
  assumes "of_nat WAL_HEADER_SIZE < n"
  shows "\<not> wal_needs_recovery (write_wal_marker meta (Some n)) n
    \<and> (n < n' \<longrightarrow> wal_needs_recovery (write_wal_marker meta (Some n)) n'
         \<and> wal_applied_offset (write_wal_marker meta (Some n)) n' = n)"
  using assms
  by (auto simp: wal_needs_recovery_def write_wal_marker_def wal_applied_offset_def Let_def)

lemma marker_gates_recovery_witness:
  "\<not> wal_needs_recovery (write_wal_marker None (Some 100)) 100
   \<and> wal_needs_recovery (write_wal_marker None (Some 100)) 150"
proof -
  have "of_nat WAL_HEADER_SIZE < (100 :: u64)" by (simp add: WAL_HEADER_SIZE_def)
  from marker_gates_recovery [OF this, of None 150] show ?thesis by simp
qed

end
