(* ===== verification/Ordered_Map.thy ===== *)
theory Ordered_Map
  imports Prelude
begin

text \<open>
  \<open>BTreeMap\<close> over a three-way comparison: an association list in key order, searched the way
  a B-tree searches its nodes (skip while the probe is greater, stop at the first key that is
  not). The locale \<open>total_cmp\<close> states the laws \<open>Ord\<close> asks of a comparison, on the keys where
  they hold, and proves the map operations correct from them.
\<close>

section \<open>The map\<close>

type_synonym ('k, 'v) omap = "('k \<times> 'v) list"

fun om_get :: "('k \<Rightarrow> 'k \<Rightarrow> ordering) \<Rightarrow> 'k \<Rightarrow> ('k, 'v) omap \<Rightarrow> 'v option" where
  "om_get c k [] = None"
| "om_get c k ((k', v) # m) =
     (case c k k' of Less \<Rightarrow> None | Equal \<Rightarrow> Some v | Greater \<Rightarrow> om_get c k m)"

text \<open>
  \<open>entry(k)\<close> followed by an insertion or an update in place: an occupied entry keeps the key
  it has.
\<close>

fun om_entry :: "('k \<Rightarrow> 'k \<Rightarrow> ordering) \<Rightarrow> 'k \<Rightarrow> ('v option \<Rightarrow> 'v) \<Rightarrow> ('k, 'v) omap \<Rightarrow> ('k, 'v) omap" where
  "om_entry c k f [] = [(k, f None)]"
| "om_entry c k f ((k', v) # m) =
     (case c k k' of
        Less \<Rightarrow> (k, f None) # (k', v) # m
      | Equal \<Rightarrow> (k', f (Some v)) # m
      | Greater \<Rightarrow> (k', v) # om_entry c k f m)"

fun om_remove :: "('k \<Rightarrow> 'k \<Rightarrow> ordering) \<Rightarrow> 'k \<Rightarrow> ('k, 'v) omap \<Rightarrow> ('k, 'v) omap" where
  "om_remove c k [] = []"
| "om_remove c k ((k', v) # m) =
     (case c k k' of Less \<Rightarrow> (k', v) # m | Equal \<Rightarrow> m | Greater \<Rightarrow> (k', v) # om_remove c k m)"

text \<open>
  \<open>range\<close> with optional inclusive lower bound and an upper bound that is inclusive or not. A
  lower bound above the upper one panics.
\<close>

datatype 'k upper = Unbounded | Included 'k | Excluded 'k

fun below :: "('k \<Rightarrow> 'k \<Rightarrow> ordering) \<Rightarrow> 'k \<Rightarrow> 'k upper \<Rightarrow> bool" where
  "below c k Unbounded = True"
| "below c k (Included u) = (c k u \<noteq> Greater)"
| "below c k (Excluded u) = (c k u = Less)"

fun crossed :: "('k \<Rightarrow> 'k \<Rightarrow> ordering) \<Rightarrow> 'k option \<Rightarrow> 'k upper \<Rightarrow> bool" where
  "crossed c (Some l) (Included u) = (c l u = Greater)"
| "crossed c (Some l) (Excluded u) = (c l u = Greater)"
| "crossed c l u = False"

definition above :: "('k \<Rightarrow> 'k \<Rightarrow> ordering) \<Rightarrow> 'k \<Rightarrow> 'k option \<Rightarrow> bool" where
  "above c k l = (case l of None \<Rightarrow> True | Some x \<Rightarrow> c k x \<noteq> Less)"

definition om_range ::
  "('k \<Rightarrow> 'k \<Rightarrow> ordering) \<Rightarrow> 'k option \<Rightarrow> 'k upper \<Rightarrow> ('k, 'v) omap \<Rightarrow> ('k, 'v) omap result" where
  "om_range c l u m =
     (if crossed c l u then Inl Panic
      else Inr (takeWhile (\<lambda>e. below c (fst e) u) (dropWhile (\<lambda>e. \<not> above c (fst e) l) m)))"

section \<open>The laws of a comparison\<close>

locale total_cmp =
  fixes c :: "'k \<Rightarrow> 'k \<Rightarrow> ordering" and ok :: "'k \<Rightarrow> bool"
  assumes refl: "ok a \<Longrightarrow> c a a = Equal"
    and flip: "ok a \<Longrightarrow> ok b \<Longrightarrow> c b a = flip_ord (c a b)"
    and trans_le: "ok a \<Longrightarrow> ok b \<Longrightarrow> ok d \<Longrightarrow> c a b \<noteq> Greater \<Longrightarrow> c b d \<noteq> Greater \<Longrightarrow> c a d \<noteq> Greater"
begin

lemma less_trans:
  assumes "ok a" "ok b" "ok d" "c a b = Less" "c b d \<noteq> Greater"
  shows "c a d = Less"
proof -
  have "c a d \<noteq> Greater" using assms trans_le [of a b d] by simp
  moreover have "c a d \<noteq> Equal"
  proof
    assume "c a d = Equal"
    then have "c d a \<noteq> Greater" using assms flip [of a d] by simp
    then have "c b a \<noteq> Greater" using assms trans_le [of b d a] by simp
    then show False using assms flip [of a b] by simp
  qed
  ultimately show ?thesis by (cases "c a d") auto
qed

lemma le_less_trans:
  assumes "ok a" "ok b" "ok d" "c a b \<noteq> Greater" "c b d = Less"
  shows "c a d = Less"
proof -
  have "c a d \<noteq> Greater" using assms trans_le [of a b d] by simp
  moreover have "c a d \<noteq> Equal"
  proof
    assume "c a d = Equal"
    then have "c d a \<noteq> Greater" using assms flip [of a d] by simp
    then have "c d b \<noteq> Greater" using assms trans_le [of d a b] by simp
    then show False using assms flip [of b d] by simp
  qed
  ultimately show ?thesis by (cases "c a d") auto
qed

lemma equal_sym: "ok a \<Longrightarrow> ok b \<Longrightarrow> c a b = Equal \<Longrightarrow> c b a = Equal"
  using flip [of a b] by simp

lemma equal_trans:
  assumes "ok a" "ok b" "ok d" "c a b = Equal"
  shows "c a d = c b d"
proof (cases "c b d")
  case Less
  then show ?thesis using assms le_less_trans [of a b d] by simp
next
  case Equal
  have "c a d \<noteq> Greater" using assms Equal trans_le [of a b d] by simp
  moreover have "c d a \<noteq> Greater"
    using assms Equal trans_le [of d b a] flip [of a b] flip [of b d] by simp
  ultimately show ?thesis using assms Equal flip [of a d] by (cases "c a d") auto
next
  case Greater
  then have "c d b = Less" using assms flip [of b d] by simp
  then have "c d a = Less" using assms less_trans [of d b a] flip [of a b] by simp
  then show ?thesis using assms Greater flip [of d a] by simp
qed

lemma equal_cong:
  assumes "ok a" "ok b" "ok d" "c a b = Equal"
  shows "c d a = c d b"
  using assms equal_trans [of a b d] flip [of a d] flip [of b d] by simp

fun om_ok :: "('k, 'v) omap \<Rightarrow> bool" where
  "om_ok [] = True"
| "om_ok ((k, v) # m) \<longleftrightarrow> ok k \<and> (\<forall>e \<in> set m. c k (fst e) = Less) \<and> om_ok m"

lemma om_ok_keys: "om_ok m \<Longrightarrow> e \<in> set m \<Longrightarrow> ok (fst e)"
  by (induction m) auto

lemma om_get_mem:
  assumes "om_ok m" "ok k"
  shows "om_get c k m = Some v \<longleftrightarrow> (\<exists>k'. (k', v) \<in> set m \<and> c k k' = Equal)"
  using assms
proof (induction m)
  case (Cons e m)
  obtain k0 v0 where e: "e = (k0, v0)" by (cases e)
  from Cons.prems e have k0: "ok k0" "\<forall>e' \<in> set m. c k0 (fst e') = Less" "om_ok m" by auto
  have ks: "ok k'" if "(k', w) \<in> set m" for k' w using om_ok_keys [OF k0(3) that] by simp
  show ?case
  proof (cases "c k k0")
    case Less
    have "c k k' = Less" if "(k', w) \<in> set m" for k' w
      using le_less_trans [of k k0 k'] Less k0 ks [OF that] that Cons.prems(2) by force
    then have "\<nexists>k'. (k', v) \<in> set (e # m) \<and> c k k' = Equal" using Less e by force
    with Less e show ?thesis by simp
  next
    case Equal
    have "c k k' = Less" if "(k', w) \<in> set m" for k' w
      using equal_trans [of k k0 k'] Equal k0 ks [OF that] that Cons.prems(2) by force
    then show ?thesis using Equal e by force
  next
    case Greater
    then show ?thesis using Cons.IH [OF k0(3) Cons.prems(2)] e by auto
  qed
qed simp

lemma om_get_cong:
  assumes "om_ok m" "ok a" "ok b" "c a b = Equal"
  shows "om_get c a m = om_get c b m"
  using assms(1)
  by (induction m) (auto simp: equal_trans [OF assms(2,3) _ assms(4)] split: ordering.split)

lemma om_entry_keys:
  "e \<in> set (om_entry c k f m) \<Longrightarrow> fst e = k \<or> fst e \<in> fst ` set m"
  by (induction m) (auto split: ordering.splits)

lemma om_ok_entry: "om_ok m \<Longrightarrow> ok k \<Longrightarrow> om_ok (om_entry c k f m)"
proof (induction m)
  case (Cons e m)
  obtain k0 v0 where e: "e = (k0, v0)" by (cases e)
  from Cons.prems e have k0: "ok k0" "\<forall>e' \<in> set m. c k0 (fst e') = Less" "om_ok m" by auto
  have ks: "e' \<in> set m \<Longrightarrow> ok (fst e')" for e' using om_ok_keys [OF k0(3)] .
  show ?case
  proof (cases "c k k0")
    case Less
    then have "c k (fst e') = Less" if "e' \<in> set m" for e'
      using le_less_trans [of k k0 "fst e'"] k0 ks [OF that] that Cons.prems(2) by simp
    then show ?thesis using Less k0 e Cons.prems(2) by simp
  next
    case Equal
    then show ?thesis using k0 e by simp
  next
    case Greater
    then have "c k0 k = Less" using flip [of k k0] k0 Cons.prems(2) by simp
    then have "\<forall>e' \<in> set (om_entry c k f m). c k0 (fst e') = Less"
      using k0(2) om_entry_keys [of _ k f m] by fastforce
    then show ?thesis using Greater e k0 Cons.IH [OF k0(3) Cons.prems(2)] by simp
  qed
qed simp

lemma om_get_entry:
  assumes "om_ok m" "ok k" "ok k'"
  shows "om_get c k' (om_entry c k f m) =
    (if c k' k = Equal then Some (f (om_get c k m)) else om_get c k' m)"
  using assms
proof (induction m)
  case Nil
  then show ?case by (simp split: ordering.split)
next
  case (Cons e m)
  obtain k0 v0 where e: "e = (k0, v0)" by (cases e)
  from Cons.prems e have k0: "ok k0" "om_ok m" by auto
  show ?case
  proof (cases "c k k0")
    case Less
    have "c k' k = Less \<Longrightarrow> c k' k0 = Less"
      using less_trans [of k' k k0] Less k0 Cons.prems by simp
    then show ?thesis using Less e by (simp split: ordering.split)
  next
    case Equal
    then have "c k' k = c k' k0" using equal_cong [of k k0 k'] k0 Cons.prems by simp
    then show ?thesis using Equal e by (simp split: ordering.split)
  next
    case Greater
    then have k0k: "c k0 k = Less" using flip [of k k0] k0 Cons.prems by simp
    have "c k' k0 \<noteq> Greater \<Longrightarrow> c k' k = Less"
      using le_less_trans [of k' k0 k] k0k k0 Cons.prems by simp
    then show ?thesis using Greater e Cons.IH [OF k0(2) Cons.prems(2,3)]
      by (auto split: ordering.split)
  qed
qed

lemma set_om_remove: "set (om_remove c k m) \<subseteq> set m"
  by (induction m) (auto split: ordering.splits)

lemma om_ok_remove: "om_ok m \<Longrightarrow> om_ok (om_remove c k m)"
proof (induction m)
  case (Cons e m)
  then show ?case
    using set_om_remove [of k m] by (cases e) (auto split: ordering.split)
qed simp

lemma om_get_remove:
  assumes "om_ok m" "ok k" "ok k'"
  shows "om_get c k' (om_remove c k m) = (if c k' k = Equal then None else om_get c k' m)"
  using assms
proof (induction m)
  case (Cons e m)
  obtain k0 v0 where e: "e = (k0, v0)" by (cases e)
  from Cons.prems e have k0: "ok k0" "\<forall>e' \<in> set m. c k0 (fst e') = Less" "om_ok m" by auto
  have ks: "e' \<in> set m \<Longrightarrow> ok (fst e')" for e' using om_ok_keys [OF k0(3)] .
  show ?case
  proof (cases "c k k0")
    case Less
    then have "c k' k = Equal \<Longrightarrow> c k' k0 = Less"
      using equal_trans [of k' k k0] k0 Cons.prems by simp
    then show ?thesis using Less e by simp
  next
    case Equal
    then have eq: "c k' k = c k' k0" using equal_cong [of k k0 k'] k0 Cons.prems by simp
    have none: "om_get c k' m = None" if "c k' k0 \<noteq> Greater"
    proof (rule ccontr)
      assume "om_get c k' m \<noteq> None"
      then obtain v where "om_get c k' m = Some v" by blast
      then obtain q where q: "(q, v) \<in> set m" "c k' q = Equal"
        using om_get_mem [OF k0(3) Cons.prems(3)] by auto
      then have "c k0 q = Less" "ok q" using k0(2) ks [OF q(1)] by force+
      then have "c k' q = Less" using that le_less_trans [of k' k0 q] k0 Cons.prems by simp
      then show False using q by simp
    qed
    show ?thesis
    proof (cases "c k' k0")
      case Less
      then show ?thesis using Equal e eq none by simp
    next
      case eq0: Equal
      then show ?thesis using Equal e eq none by simp
    next
      case Greater
      then show ?thesis using Equal e eq by simp
    qed
  next
    case Greater
    then have k0k: "c k0 k = Less" using flip [of k k0] k0 Cons.prems by simp
    have "c k' k0 \<noteq> Greater \<Longrightarrow> c k' k = Less"
      using le_less_trans [of k' k0 k] k0k k0 Cons.prems by simp
    then show ?thesis using Greater e Cons.IH [OF k0(3) Cons.prems(2,3)]
      by (auto split: ordering.split)
  qed
qed simp

text \<open>A range is exactly the entries between its bounds, in order.\<close>

fun bound_ok :: "'k upper \<Rightarrow> bool" where
  "bound_ok Unbounded = True"
| "bound_ok (Included u) = ok u"
| "bound_ok (Excluded u) = ok u"

lemma below_down:
  assumes "ok a" "ok b" "bound_ok u" "c a b = Less" "below c b u"
  shows "below c a u"
proof (cases u)
  case (Included x)
  then show ?thesis using assms trans_le [of a b x] by simp
next
  case (Excluded x)
  then show ?thesis using assms less_trans [of a b x] by simp
qed simp

lemma above_up:
  assumes "ok a" "ok b" "pred_option ok l" "c a b = Less" "above c a l"
  shows "above c b l"
proof (cases l)
  case (Some x)
  have "ok x" "c a x \<noteq> Less" using assms Some by (simp_all add: above_def)
  then have "c x a \<noteq> Greater" using assms(1) flip [of a x] by (cases "c a x") simp_all
  then have "c x b = Less" using assms(1,2,4) \<open>ok x\<close> le_less_trans [of x a b] by blast
  then show ?thesis using Some assms(2) flip [of x b] \<open>ok x\<close> by (simp add: above_def)
qed (simp add: above_def)

lemma om_below:
  assumes "om_ok m" "bound_ok u"
  shows "takeWhile (\<lambda>e. below c (fst e) u) m = filter (\<lambda>e. below c (fst e) u) m"
  using assms(1)
proof (induction m)
  case (Cons e m)
  obtain k v where e: "e = (k, v)" by (cases e)
  from Cons.prems e have k: "ok k" "\<forall>e' \<in> set m. c k (fst e') = Less" "om_ok m" by auto
  have "\<not> below c (fst e') u" if "e' \<in> set m" "\<not> below c k u" for e'
    using below_down [OF k(1) om_ok_keys [OF k(3) that(1)] assms(2)] k(2) that by blast
  then show ?case using Cons.IH [OF k(3)] e by (auto simp: filter_empty_conv)
qed simp

lemma om_above:
  assumes "om_ok m" "pred_option ok l"
  shows "dropWhile (\<lambda>e. \<not> above c (fst e) l) m = filter (\<lambda>e. above c (fst e) l) m"
  using assms(1)
proof (induction m)
  case (Cons e m)
  obtain k v where e: "e = (k, v)" by (cases e)
  from Cons.prems e have k: "ok k" "\<forall>e' \<in> set m. c k (fst e') = Less" "om_ok m" by auto
  have "above c (fst e') l" if "e' \<in> set m" "above c k l" for e'
    using above_up [OF k(1) om_ok_keys [OF k(3) that(1)] assms(2)] k(2) that by blast
  then show ?case using Cons.IH [OF k(3)] e by (auto simp: filter_id_conv)
qed simp

lemma om_ok_filter: "om_ok m \<Longrightarrow> om_ok (filter P m)"
  by (induction m) auto

theorem om_range_filter:
  assumes "om_ok m" "pred_option ok l" "bound_ok u" "\<not> crossed c l u"
  shows "om_range c l u m = Inr (filter (\<lambda>e. above c (fst e) l \<and> below c (fst e) u) m)"
  using assms om_below [OF om_ok_filter [OF assms(1)] assms(3), of "\<lambda>e. above c (fst e) l"]
  by (simp add: om_range_def om_above [OF assms(1,2)] conj_commute)

end

end
