(* ===== verification/Index_Key.thy ===== *)
theory Index_Key
  imports Data_Value Ordered_Map
begin

text \<open>
  Index keys (\<^verbatim>\<open>storage/index/btree.rs\<close>, \<open>IndexKey\<close>): the conversion from values, the equality
  used for tuple prefixes, and the ordering of the B-tree. Theorems: away from NaN the ordering
  obeys the laws of \<open>Ord\<close> (an interpretation of \<open>total_cmp\<close>), although it does not agree with
  the derived equality; a NaN breaks the laws. The derived \<open>Eq\<close> is equality of the datatype.
  The printer of JSON values is a parameter \<open>js\<close>.
\<close>

datatype index_key =
    KNull | KBool bool | KInt i64 | KUInt u64 | KFloat u64 | KStr string | KBytes bytes
  | KTuple u8 "index_key list"

definition from_value :: "('j \<Rightarrow> string) \<Rightarrow> 'j val \<Rightarrow> index_key" where
  "from_value js v = (case v of
     Null \<Rightarrow> KNull
   | Bool b \<Rightarrow> KBool b
   | Int8 x \<Rightarrow> KInt (scast x) | Int16 x \<Rightarrow> KInt (scast x) | Int32 x \<Rightarrow> KInt (scast x)
   | Int64 x \<Rightarrow> KInt x
   | UInt8 x \<Rightarrow> KUInt (ucast x) | UInt16 x \<Rightarrow> KUInt (ucast x) | UInt32 x \<Rightarrow> KUInt (ucast x)
   | UInt64 x \<Rightarrow> KUInt x
   | Float32 f \<Rightarrow> KFloat (f32_to_f64 f)
   | Float64 f \<Rightarrow> KFloat f
   | Str s \<Rightarrow> KStr s
   | Binary b \<Rightarrow> KBytes b
   | Blob b \<Rightarrow> KBytes b
   | Timestamp t \<Rightarrow> KInt t
   | Date d \<Rightarrow> KInt (scast d)
   | Time t \<Rightarrow> KInt t
   | Interval t \<Rightarrow> KInt t
   | Json j \<Rightarrow> KStr (js j)
   | Array _ \<Rightarrow> KNull
   | FixedList _ \<Rightarrow> KNull)"

definition semantically_eq :: "index_key \<Rightarrow> index_key \<Rightarrow> bool" where
  "semantically_eq a b = (case (a, b) of
     (KInt x, KUInt y) \<Rightarrow> 0 \<le> sint x \<and> x = y
   | (KUInt x, KInt y) \<Rightarrow> 0 \<le> sint y \<and> x = y
   | (KFloat f, KInt x) \<Rightarrow> f64_eq f (int_to_f64 (sint x))
   | (KInt x, KFloat f) \<Rightarrow> f64_eq f (int_to_f64 (sint x))
   | (KFloat f, KUInt x) \<Rightarrow> f64_eq f (int_to_f64 (uint x))
   | (KUInt x, KFloat f) \<Rightarrow> f64_eq f (int_to_f64 (uint x))
   | _ \<Rightarrow> a = b)"

fun disc_index :: "index_key \<Rightarrow> u8" where
  "disc_index KNull = 0"
| "disc_index (KBool _) = 1"
| "disc_index (KInt _) = 2"
| "disc_index (KUInt _) = 3"
| "disc_index (KFloat _) = 4"
| "disc_index (KStr _) = 5"
| "disc_index (KBytes _) = 6"
| "disc_index (KTuple _ _) = 7"

abbreviation disc_cmp :: "index_key \<Rightarrow> index_key \<Rightarrow> ordering" where
  "disc_cmp a b \<equiv> cmp_of (disc_index a) (disc_index b)"

text \<open>\<open>Ord::cmp\<close>, with the derived comparison of vectors for tuples.\<close>

fun key_cmp :: "index_key \<Rightarrow> index_key \<Rightarrow> ordering"
and keys_cmp :: "index_key list \<Rightarrow> index_key list \<Rightarrow> ordering" where
  "key_cmp KNull b = (case b of KNull \<Rightarrow> Equal | _ \<Rightarrow> Less)"
| "key_cmp (KBool x) b = (case b of
     KNull \<Rightarrow> Greater | KBool y \<Rightarrow> cmp_of x y | _ \<Rightarrow> disc_cmp (KBool x) b)"
| "key_cmp (KInt x) b = (case b of
     KNull \<Rightarrow> Greater | KInt y \<Rightarrow> cmp_of (sint x) (sint y)
   | KUInt y \<Rightarrow> (if sint x < 0 then Less else cmp_of x y)
   | _ \<Rightarrow> disc_cmp (KInt x) b)"
| "key_cmp (KUInt x) b = (case b of
     KNull \<Rightarrow> Greater | KUInt y \<Rightarrow> cmp_of x y
   | KInt y \<Rightarrow> (if sint y < 0 then Greater else cmp_of x y)
   | _ \<Rightarrow> disc_cmp (KUInt x) b)"
| "key_cmp (KFloat x) b = (case b of
     KNull \<Rightarrow> Greater
   | KFloat y \<Rightarrow> (case f64_partial_cmp x y of Some r \<Rightarrow> r | None \<Rightarrow> Equal)
   | _ \<Rightarrow> disc_cmp (KFloat x) b)"
| "key_cmp (KStr x) b = (case b of
     KNull \<Rightarrow> Greater | KStr y \<Rightarrow> str_cmp x y | _ \<Rightarrow> disc_cmp (KStr x) b)"
| "key_cmp (KBytes x) b = (case b of
     KNull \<Rightarrow> Greater | KBytes y \<Rightarrow> lex_cmp cmp_of x y | _ \<Rightarrow> disc_cmp (KBytes x) b)"
| "key_cmp (KTuple v xs) b = (case b of
     KNull \<Rightarrow> Greater | KTuple w ys \<Rightarrow> then_ord (cmp_of v w) (keys_cmp xs ys)
   | _ \<Rightarrow> disc_cmp (KTuple v xs) b)"
| "keys_cmp [] ys = (case ys of [] \<Rightarrow> Equal | _ # _ \<Rightarrow> Less)"
| "keys_cmp (x # xs) ys = (case ys of
     [] \<Rightarrow> Greater | y # ys' \<Rightarrow> then_ord (key_cmp x y) (keys_cmp xs ys'))"

section \<open>The ordering laws\<close>

text \<open>A key without NaN, and a key whose ordering is decided by its class and its payload.\<close>

fun key_ok :: "index_key \<Rightarrow> bool" where
  "key_ok (KFloat f) = (\<not> f64_is_nan f)"
| "key_ok (KTuple v xs) = list_all key_ok xs"
| "key_ok k = True"

fun key_class :: "index_key \<Rightarrow> nat" where
  "key_class KNull = 0"
| "key_class (KBool _) = 1"
| "key_class (KInt _) = 2"
| "key_class (KUInt _) = 2"
| "key_class (KFloat _) = 4"
| "key_class (KStr _) = 5"
| "key_class (KBytes _) = 6"
| "key_class (KTuple _ _) = 7"

fun key_num :: "index_key \<Rightarrow> int" where
  "key_num (KBool b) = (if b then 1 else 0)"
| "key_num (KInt x) = sint x"
| "key_num (KUInt x) = uint x"
| "key_num (KFloat f) = f64_key f"
| "key_num (KTuple v xs) = uint v"
| "key_num k = 0"

fun key_text :: "index_key \<Rightarrow> nat list" where
  "key_text (KStr s) = map of_char s"
| "key_text (KBytes bs) = map unat bs"
| "key_text k = []"

fun key_parts :: "index_key \<Rightarrow> index_key list" where
  "key_parts (KTuple v xs) = xs"
| "key_parts k = []"

lemma sint_uint_64: "sint (x::i64) = (if uint x < 2 ^ 63 then uint x else uint x - 2 ^ 64)"
proof -
  have "uint x < 2 ^ 64" using uint_lt2p [of x] by simp
  moreover have "(uint x + 2 ^ 63) mod 2 ^ 64 = uint x + 2 ^ 63 - 2 ^ 64" if "2 ^ 63 \<le> uint x"
    using that calculation
    by (subst minus_mod_self2 [symmetric], subst mod_pos_pos_trivial) simp_all
  ultimately show ?thesis
    by (auto simp: sint_uint signed_take_bit_eq_take_bit_shift take_bit_eq_mod not_less)
qed

lemma sint_nonneg_uint: "0 \<le> sint (x::i64) \<Longrightarrow> uint x = sint x"
  using uint_lt2p [of x] by (auto simp: sint_uint_64 split: if_splits)

lemma sint_uint_cmp:
  "(if sint (x::i64) < 0 then Less else cmp_of x y) = cmp_of (sint x) (uint (y::u64))"
proof (cases "sint x < 0")
  case True
  then have "sint x < uint y" using uint_ge_0 [of y] by linarith
  then show ?thesis using True by (simp add: cmp_of_def)
next
  case False
  then show ?thesis
    using sint_nonneg_uint [of x] by (simp add: cmp_of_def word_less_def word_uint_eq_iff)
qed

lemma uint_sint_cmp:
  "(if sint (y::i64) < 0 then Greater else cmp_of x y) = cmp_of (uint (x::u64)) (sint y)"
  using sint_uint_cmp [of y x] by (auto simp: cmp_of_def split: if_splits)

lemma lex_cmp_unat: "lex_cmp cmp_of xs ys = lex_cmp cmp_of (map unat xs) (map unat (ys :: bytes))"
proof -
  have "cmp_of a b = cmp_of (unat a) (unat b)" for a b :: u8
    by (simp add: cmp_of_def word_less_nat_alt word_unat_eq_iff)
  then show ?thesis using lex_cmp_map [of unat xs ys] by presburger
qed

text \<open>
  The ordering as one lexicographic comparison of class, number, text and components.
\<close>

lemma disc_cmp_class:
  "key_class a \<noteq> key_class b \<Longrightarrow> disc_cmp a b = cmp_of (key_class a) (key_class b)"
  by (cases a; cases b) (simp_all add: cmp_of_def)

lemma then_ord_simps [simp]:
  "then_ord Less x = Less" "then_ord Greater x = Greater" "then_ord Equal x = x"
  "then_ord x Equal = x"
  by (simp_all add: then_ord_def)

lemma cmp_of_refl [simp]: "cmp_of a a = Equal"
  by simp

lemma cmp_of_bool: "cmp_of x y = cmp_of (if x then 1 else 0 :: int) (if y then 1 else 0)"
  by (auto simp: cmp_of_def)

lemma cmp_of_uint: "cmp_of (x::'a::len word) y = cmp_of (uint x) (uint y)"
  by (simp add: cmp_of_def word_less_def word_uint_eq_iff)

lemma key_cmp_alt:
  assumes "key_ok a" and "key_ok b"
  shows "key_cmp a b = then_ord (cmp_of (key_class a) (key_class b))
    (then_ord (cmp_of (key_num a) (key_num b))
      (then_ord (lex_cmp cmp_of (key_text a) (key_text b)) (keys_cmp (key_parts a) (key_parts b))))"
proof (cases "key_class a = key_class b")
  case True
  then show ?thesis
  proof (cases a)
    case (KBool x)
    with True show ?thesis by (cases b) (simp_all add: cmp_of_bool [of x])
  next
    case (KInt x)
    with True show ?thesis by (cases b) (simp_all add: sint_uint_cmp)
  next
    case (KUInt x)
    with True show ?thesis by (cases b) (simp_all add: uint_sint_cmp cmp_of_uint [of x])
  next
    case (KFloat x)
    with True assms show ?thesis by (cases b) (simp_all add: f64_partial_cmp_def)
  next
    case (KStr x)
    with True show ?thesis by (cases b) (simp_all add: str_cmp_def lex_cmp_map [of "of_char :: char \<Rightarrow> nat"])
  next
    case (KBytes x)
    with True show ?thesis by (cases b) (simp_all add: lex_cmp_unat [of x])
  next
    case (KTuple v xs)
    with True show ?thesis by (cases b) (simp_all add: cmp_of_uint [of v])
  qed (cases b; simp)
next
  case False
  then have "key_cmp a b = cmp_of (key_class a) (key_class b)"
    by (cases a; cases b; simp add: cmp_of_def)
  moreover have "cmp_of (key_class a) (key_class b) \<noteq> Equal" using False by simp
  ultimately show ?thesis by (simp add: then_ord_def del: cmp_of_simps)
qed

lemma keys_cmp_lex: "keys_cmp xs ys = lex_cmp key_cmp xs ys"
  by (induction key_cmp xs ys rule: lex_cmp.induct) auto

text \<open>
  The laws of a comparison, relative to a list of elements, so that they lift from the
  components of a tuple to the tuple.
\<close>

definition lawful :: "('a \<Rightarrow> 'a \<Rightarrow> ordering) \<Rightarrow> 'a set \<Rightarrow> bool" where
  "lawful c A \<longleftrightarrow> (\<forall>x \<in> A. c x x = Equal) \<and> (\<forall>x \<in> A. \<forall>y \<in> A. c y x = flip_ord (c x y))
     \<and> (\<forall>x \<in> A. \<forall>y \<in> A. \<forall>z \<in> A. c x y \<noteq> Greater \<longrightarrow> c y z \<noteq> Greater \<longrightarrow>
          c x z = then_ord (c x y) (c y z))"

lemma lawful_refl: "lawful c A \<Longrightarrow> x \<in> A \<Longrightarrow> c x x = Equal"
  unfolding lawful_def by blast

lemma lawful_flip: "lawful c A \<Longrightarrow> x \<in> A \<Longrightarrow> y \<in> A \<Longrightarrow> c y x = flip_ord (c x y)"
  unfolding lawful_def by blast

lemma lawful_trans:
  "lawful c A \<Longrightarrow> x \<in> A \<Longrightarrow> y \<in> A \<Longrightarrow> z \<in> A \<Longrightarrow> c x y \<noteq> Greater \<Longrightarrow> c y z \<noteq> Greater \<Longrightarrow>
     c x z = then_ord (c x y) (c y z)"
  unfolding lawful_def by blast

text \<open>The laws speak of three elements at a time.\<close>

lemma lawful_local:
  assumes "\<And>x y z. x \<in> A \<Longrightarrow> y \<in> A \<Longrightarrow> z \<in> A \<Longrightarrow> lawful c {x, y, z}"
  shows "lawful c A"
proof -
  have "c x x = Equal" if "x \<in> A" for x
    by (rule lawful_refl [OF assms [OF that that that]]) simp
  moreover have "c y x = flip_ord (c x y)" if "x \<in> A" "y \<in> A" for x y
    by (rule lawful_flip [OF assms [OF that(1,2,2)]]) simp_all
  moreover have "c x z = then_ord (c x y) (c y z)"
    if "x \<in> A" "y \<in> A" "z \<in> A" "c x y \<noteq> Greater" "c y z \<noteq> Greater" for x y z
    by (rule lawful_trans [OF assms [OF that(1,2,3)] _ _ _ that(4,5)]) simp_all
  ultimately show ?thesis unfolding lawful_def by blast
qed

lemma lawful_subset: "lawful c A \<Longrightarrow> B \<subseteq> A \<Longrightarrow> lawful c B"
  unfolding lawful_def by blast

lemma lawful_cmp_of: "lawful (\<lambda>a b. cmp_of (f a) (f b)) A"
  by (auto simp: lawful_def flip_cmp_of then_ord_def cmp_of_def)

lemma then_ord_eq_Equal: "then_ord a b = Equal \<longleftrightarrow> a = Equal \<and> b = Equal"
  by (simp add: then_ord_def)

lemma flip_then_ord: "flip_ord (then_ord a b) = then_ord (flip_ord a) (flip_ord b)"
  by (cases a) simp_all

lemma lawful_then:
  assumes "lawful c A" and "lawful d A"
  shows "lawful (\<lambda>a b. then_ord (c a b) (d a b)) A"
proof -
  have "then_ord (c x z) (d x z) = then_ord (then_ord (c x y) (d x y)) (then_ord (c y z) (d y z))"
    if "x \<in> A" "y \<in> A" "z \<in> A" "then_ord (c x y) (d x y) \<noteq> Greater" "then_ord (c y z) (d y z) \<noteq> Greater"
    for x y z
  proof -
    have ne: "c x y \<noteq> Greater" "c y z \<noteq> Greater" using that by auto
    then have cz: "c x z = then_ord (c x y) (c y z)" using assms(1) that(1-3) unfolding lawful_def by blast
    have dz: "d x z = then_ord (d x y) (d y z)" if "c x y = Equal" "c y z = Equal"
    proof -
      have "d x y \<noteq> Greater" "d y z \<noteq> Greater"
        using that \<open>then_ord (c x y) (d x y) \<noteq> Greater\<close> \<open>then_ord (c y z) (d y z) \<noteq> Greater\<close> by simp_all
      then show ?thesis using assms(2) \<open>x \<in> A\<close> \<open>y \<in> A\<close> \<open>z \<in> A\<close> unfolding lawful_def by blast
    qed
    show ?thesis using ne cz dz that(4,5) by (cases "c x y"; cases "c y z"; cases "d x y") simp_all
  qed
  moreover have "then_ord (c y x) (d y x) = flip_ord (then_ord (c x y) (d x y))" if "x \<in> A" "y \<in> A" for x y
    by (simp only: flip_then_ord lawful_flip [OF assms(1) that] lawful_flip [OF assms(2) that])
  moreover have "then_ord (c x x) (d x x) = Equal" if "x \<in> A" for x
    using assms that unfolding lawful_def by simp
  ultimately show ?thesis unfolding lawful_def by blast
qed

lemma lawful_lex:
  assumes "lawful c A"
  shows "lawful (lex_cmp c) (lists A)"
proof -
  have refl: "xs \<in> lists A \<Longrightarrow> lex_cmp c xs xs = Equal" for xs
    by (induction xs) (auto simp: lawful_refl [OF assms])
  have flip: "xs \<in> lists A \<Longrightarrow> ys \<in> lists A \<Longrightarrow> lex_cmp c ys xs = flip_ord (lex_cmp c xs ys)" for xs ys
  proof (induction xs arbitrary: ys)
    case Nil
    then show ?case by (cases ys) simp_all
  next
    case (Cons x xs)
    then show ?case
      by (cases ys) (auto simp only: lex_cmp.simps flip_then_ord flip_ord.simps Cons_in_lists_iff
          lawful_flip [OF assms, of x])
  qed
  have trans: "xs \<in> lists A \<Longrightarrow> ys \<in> lists A \<Longrightarrow> zs \<in> lists A \<Longrightarrow> lex_cmp c xs ys \<noteq> Greater \<Longrightarrow>
      lex_cmp c ys zs \<noteq> Greater \<Longrightarrow> lex_cmp c xs zs = then_ord (lex_cmp c xs ys) (lex_cmp c ys zs)"
    for xs ys zs
  proof (induction xs arbitrary: ys zs)
    case Nil
    then show ?case by (cases ys; cases zs) auto
  next
    case (Cons x xs)
    then obtain y ys' where ys: "ys = y # ys'" by (cases ys) auto
    with Cons.prems obtain z zs' where zs: "zs = z # zs'" by (cases zs) auto
    let ?P = "\<lambda>p q. then_ord (c (fst p) (fst q)) (lex_cmp c (snd p) (snd q))"
    have mem: "x \<in> A" "y \<in> A" "z \<in> A" using Cons.prems ys zs by auto
    have ne: "c x y \<noteq> Greater" "c y z \<noteq> Greater" using Cons.prems(4,5) ys zs by auto
    then have cz: "c x z = then_ord (c x y) (c y z)" using assms mem unfolding lawful_def by blast
    have "lex_cmp c xs zs' = then_ord (lex_cmp c xs ys') (lex_cmp c ys' zs')"
      if "c x y = Equal" "c y z = Equal"
      using Cons.IH [of ys' zs'] Cons.prems ys zs that by simp
    then show ?case using ne cz Cons.prems(4,5) ys zs
      by (cases "c x y"; cases "c y z"; cases "lex_cmp c xs ys'") simp_all
  qed
  show ?thesis unfolding lawful_def using refl flip trans by blast
qed

text \<open>By induction on the nesting depth of tuples, the ordering of keys without NaN is lawful.\<close>

lemma key_parts_size: "x \<in> set (key_parts k) \<Longrightarrow> size x < size k"
  by (cases k) (auto dest!: size_list_estimation' [of _ _ "size _" size])

lemma key_ok_parts: "key_ok k \<Longrightarrow> x \<in> set (key_parts k) \<Longrightarrow> key_ok x"
  by (cases k) (auto simp: list_all_iff)

lemma lawful_cong:
  assumes "lawful d A" and "\<And>x y. x \<in> A \<Longrightarrow> y \<in> A \<Longrightarrow> c x y = d x y"
  shows "lawful c A"
proof -
  have "c x x = Equal" if "x \<in> A" for x
    using lawful_refl [OF assms(1) that] assms(2) [OF that that] by simp
  moreover have "c y x = flip_ord (c x y)" if "x \<in> A" "y \<in> A" for x y
    using lawful_flip [OF assms(1) that] assms(2) that by metis
  moreover have "c x z = then_ord (c x y) (c y z)"
    if "x \<in> A" "y \<in> A" "z \<in> A" "c x y \<noteq> Greater" "c y z \<noteq> Greater" for x y z
    using lawful_trans [OF assms(1) that(1-3)] assms(2) that by metis
  ultimately show ?thesis unfolding lawful_def by blast
qed

lemma lawful_vimage: "lawful c B \<Longrightarrow> (\<And>x. x \<in> A \<Longrightarrow> f x \<in> B) \<Longrightarrow> lawful (\<lambda>a b. c (f a) (f b)) A"
  unfolding lawful_def by blast

lemma lawful_keys: "lawful key_cmp {k. key_ok k \<and> size k < n}"
proof (induction n)
  case 0
  show ?case by (simp add: lawful_def)
next
  case (Suc n)
  let ?A = "{k. key_ok k \<and> size k < Suc n}"
  have parts: "lawful (\<lambda>a b. keys_cmp (key_parts a) (key_parts b)) ?A"
    unfolding keys_cmp_lex
    by (rule lawful_vimage [OF lawful_lex [OF Suc]])
       (auto simp: lists_eq_set key_ok_parts dest: key_parts_size)
  have strs: "lawful (\<lambda>a b. lex_cmp cmp_of (key_text a) (key_text b)) ?A"
    by (rule lawful_vimage [OF lawful_lex [OF lawful_cmp_of [of id, unfolded id_def, of UNIV]]]) simp
  note laws = lawful_then [OF lawful_cmp_of lawful_then [OF lawful_cmp_of lawful_then [OF strs parts]]]
  show ?case by (rule lawful_cong [OF laws]) (auto intro: key_cmp_alt)
qed

lemma key_cmp_lawful: "lawful key_cmp {k. key_ok k}"
proof (rule lawful_local)
  fix x y z assume "x \<in> {k. key_ok k}" "y \<in> {k. key_ok k}" "z \<in> {k. key_ok k}"
  then show "lawful key_cmp {x, y, z}"
    by (intro lawful_subset [OF lawful_keys [of "Suc (size x + size y + size z)"]]) auto
qed

interpretation key_order: total_cmp key_cmp key_ok
proof
  show "key_cmp a a = Equal" if "key_ok a" for a
    using lawful_refl [OF key_cmp_lawful] that by blast
  show "key_cmp b a = flip_ord (key_cmp a b)" if "key_ok a" "key_ok b" for a b
    using lawful_flip [OF key_cmp_lawful] that by blast
  show "key_cmp a d \<noteq> Greater"
    if "key_ok a" "key_ok b" "key_ok d" "key_cmp a b \<noteq> Greater" "key_cmp b d \<noteq> Greater" for a b d
    using lawful_trans [OF key_cmp_lawful, of a b d] that by (simp add: then_ord_def)
qed

section \<open>Properties\<close>

text \<open>
  Keys without NaN are totally ordered up to equality of their values: the comparison is
  reflexive, turns around with its arguments and is transitive, also across integer types and
  through nested tuples.
\<close>

theorem key_order_laws:
  assumes "key_ok a" and "key_ok b" and "key_ok d"
  shows "key_cmp a a = Equal \<and> key_cmp b a = flip_ord (key_cmp a b)
    \<and> (key_cmp a b \<noteq> Greater \<longrightarrow> key_cmp b d \<noteq> Greater \<longrightarrow> key_cmp a d \<noteq> Greater)"
  using assms key_order.refl key_order.flip key_order.trans_le by blast

lemma key_order_laws_witness:
  "key_cmp (KTuple 1 [KInt (- 1), KStr ''x'']) (KTuple 1 [KUInt 3]) \<noteq> Greater"
proof -
  have "key_cmp (KTuple 1 [KInt (- 1), KStr ''x'']) (KTuple 1 [KInt 2, KNull]) \<noteq> Greater"
    "key_cmp (KTuple 1 [KInt 2, KNull]) (KTuple 1 [KUInt 3]) \<noteq> Greater" by code_simp+
  then show ?thesis
    using key_order_laws [of "KTuple 1 [KInt (- 1), KStr ''x'']" "KTuple 1 [KInt 2, KNull]" "KTuple 1 [KUInt 3]"]
    by simp
qed

text \<open>
  A NaN breaks the laws a \<open>BTreeMap\<close> relies on: it compares equal to every float, so two
  floats that differ are both equal to a third key.
\<close>

theorem nan_breaks_key_order:
  "key_cmp (KFloat 0x3FF0000000000000) (KFloat 0x7FF8000000000000) = Equal
   \<and> key_cmp (KFloat 0x7FF8000000000000) (KFloat 0x4000000000000000) = Equal
   \<and> key_cmp (KFloat 0x3FF0000000000000) (KFloat 0x4000000000000000) = Less"
  by (simp add: f64_partial_cmp_def f64_is_nan_def f64_mag_def f64_key_def f64_neg_def)

end
