(* ===== verification/Key_Index.thy ===== *)
theory Key_Index
  imports Index_Key "HOL-Library.Multiset"
begin

text \<open>
  The two kinds of secondary index (\<^verbatim>\<open>storage/index/btree.rs\<close>, \<open>BTreeIndex\<close>;
  \<^verbatim>\<open>storage/index/hash_index.rs\<close>, \<open>HashIndex\<close>) and their dispatcher (\<open>IndexInstance\<close> of
  \<^verbatim>\<open>storage/index/index_manager.rs\<close>). The locale \<open>row_index\<close> is the contract of an index: which
  row ids are filed under which keys after an insertion or a removal, and when a unique index
  refuses. It is interpreted on the B-tree, the hash index and the dispatcher.

  The serializer and the deserializer of the persisted fields are parameters of saving and
  loading.
\<close>

type_synonym index_image = "string \<times> bool \<times> (index_key \<times> u64 list) list \<times> u64"

section \<open>B-tree index\<close>

record btree_index =
  bt_column_name :: string
  bt_unique :: bool
  bt_tree :: "(index_key, u64 list) omap"
  bt_entry_count :: u64
  bt_path :: "string option"
  bt_dirty :: bool

definition bt_new :: "string \<Rightarrow> bool \<Rightarrow> btree_index" where
  "bt_new col uq = \<lparr>bt_column_name = col, bt_unique = uq, bt_tree = [], bt_entry_count = 0,
     bt_path = None, bt_dirty = False\<rparr>"

definition bt_with_path :: "string \<Rightarrow> bool \<Rightarrow> string \<Rightarrow> btree_index" where
  "bt_with_path col uq p = \<lparr>bt_column_name = col, bt_unique = uq, bt_tree = [], bt_entry_count = 0,
     bt_path = Some p, bt_dirty = False\<rparr>"

definition bt_is_empty :: "btree_index \<Rightarrow> bool" where
  "bt_is_empty x = (bt_entry_count x = 0)"

definition bt_distinct_keys :: "btree_index \<Rightarrow> nat" where
  "bt_distinct_keys x = length (bt_tree x)"

text \<open>\<open>entry(key).or_insert_with(Vec::new).push(row_id)\<close>.\<close>

definition push_id :: "u64 \<Rightarrow> u64 list option \<Rightarrow> u64 list" where
  "push_id r e = (case e of None \<Rightarrow> [r] | Some ids \<Rightarrow> ids @ [r])"

definition bt_insert :: "index_key \<Rightarrow> u64 \<Rightarrow> btree_index \<Rightarrow> btree_index result" where
  "bt_insert k r x =
     (if bt_unique x \<and> (case om_get key_cmp k (bt_tree x) of Some ids \<Rightarrow> ids \<noteq> [] | None \<Rightarrow> False)
      then Inl (IoError AlreadyExists (''Duplicate key in unique index '{}'' @ [CHR 0x27]))
      else Inr (x\<lparr>bt_tree := om_entry key_cmp k (push_id r) (bt_tree x),
                  bt_entry_count := bt_entry_count x + 1, bt_dirty := True\<rparr>))"

definition bt_insert_value ::
  "('j \<Rightarrow> string) \<Rightarrow> 'j val \<Rightarrow> u64 \<Rightarrow> btree_index \<Rightarrow> btree_index result" where
  "bt_insert_value js v r x = bt_insert (from_value js v) r x"

definition bt_remove :: "index_key \<Rightarrow> u64 \<Rightarrow> btree_index \<Rightarrow> bool \<times> btree_index" where
  "bt_remove k r x =
     (case om_get key_cmp k (bt_tree x) of
        None \<Rightarrow> (False, x)
      | Some ids \<Rightarrow>
          (case position (\<lambda>i. i = r) ids of
             None \<Rightarrow> (False, x)
           | Some p \<Rightarrow>
               let ids' = swap_remove p ids;
                   t = om_entry key_cmp k (\<lambda>_. ids') (bt_tree x)
               in (True, x\<lparr>bt_tree := if ids' = [] then om_remove key_cmp k t else t,
                           bt_entry_count := bt_entry_count x - 1, bt_dirty := True\<rparr>)))"

definition bt_remove_value ::
  "('j \<Rightarrow> string) \<Rightarrow> 'j val \<Rightarrow> u64 \<Rightarrow> btree_index \<Rightarrow> bool \<times> btree_index" where
  "bt_remove_value js v r x = bt_remove (from_value js v) r x"

definition bt_bulk_insert :: "(index_key \<times> u64) list \<Rightarrow> btree_index \<Rightarrow> btree_index" where
  "bt_bulk_insert pairs x =
     (foldl (\<lambda>y (k, r). y\<lparr>bt_tree := om_entry key_cmp k (push_id r) (bt_tree y),
                           bt_entry_count := bt_entry_count y + 1\<rparr>) x pairs)\<lparr>bt_dirty := True\<rparr>"

definition bt_get :: "index_key \<Rightarrow> btree_index \<Rightarrow> u64 list option" where
  "bt_get k x = om_get key_cmp k (bt_tree x)"

definition bt_get_value :: "('j \<Rightarrow> string) \<Rightarrow> 'j val \<Rightarrow> btree_index \<Rightarrow> u64 list option" where
  "bt_get_value js v x = bt_get (from_value js v) x"

definition bt_scan :: "index_key option \<Rightarrow> index_key upper \<Rightarrow> btree_index \<Rightarrow> u64 list result" where
  "bt_scan l u x = rbind (om_range key_cmp l u (bt_tree x)) (\<lambda>es. Inr (concat (map snd es)))"

definition bt_range_inclusive :: "index_key \<Rightarrow> index_key \<Rightarrow> btree_index \<Rightarrow> u64 list result" where
  "bt_range_inclusive lo hi x = bt_scan (Some lo) (Included hi) x"

text \<open>
  A stored tuple of the current version matches a prefix when its first elements are
  semantically equal to it.
\<close>

definition prefix_match :: "index_key list \<Rightarrow> index_key \<Rightarrow> bool" where
  "prefix_match pre k = (case k of
     KTuple ver vs \<Rightarrow> ver = 1 \<and> length pre \<le> length vs \<and> list_all (\<lambda>(v, e). semantically_eq v e) (zip vs pre)
   | _ \<Rightarrow> False)"

definition next_in_range :: "nat \<Rightarrow> (index_key \<times> index_key) option \<Rightarrow> index_key \<Rightarrow> bool" where
  "next_in_range n rng k = (case (rng, k) of
     (Some (lo, hi), KTuple ver vs) \<Rightarrow>
       n < length vs \<and> key_cmp (vs ! n) lo \<noteq> Less \<and> key_cmp (vs ! n) hi \<noteq> Greater
   | _ \<Rightarrow> True)"

definition bt_tuple_prefix ::
  "index_key list \<Rightarrow> (index_key \<times> index_key) option \<Rightarrow> btree_index \<Rightarrow> u64 list" where
  "bt_tuple_prefix pre rng x =
     concat (map snd (filter (\<lambda>e. prefix_match pre (fst e) \<and> next_in_range (length pre) rng (fst e)) (bt_tree x)))"

definition bt_range :: "index_key \<Rightarrow> index_key \<Rightarrow> btree_index \<Rightarrow> u64 list result" where
  "bt_range lo hi x = bt_scan (Some lo) (Excluded hi) x"

definition bt_greater_than :: "index_key \<Rightarrow> btree_index \<Rightarrow> u64 list result" where
  "bt_greater_than k x =
     rbind (om_range key_cmp (Some k) Unbounded (bt_tree x))
       (\<lambda>es. Inr (concat (map snd (filter (\<lambda>e. key_cmp (fst e) k = Greater) es))))"

definition bt_greater_than_or_equal :: "index_key \<Rightarrow> btree_index \<Rightarrow> u64 list result" where
  "bt_greater_than_or_equal k x = bt_scan (Some k) Unbounded x"

definition bt_less_than :: "index_key \<Rightarrow> btree_index \<Rightarrow> u64 list result" where
  "bt_less_than k x = bt_scan None (Excluded k) x"

definition bt_less_than_or_equal :: "index_key \<Rightarrow> btree_index \<Rightarrow> u64 list result" where
  "bt_less_than_or_equal k x = bt_scan None (Included k) x"

definition bt_save ::
  "index_image ser \<Rightarrow> files \<Rightarrow> btree_index \<Rightarrow> unit result \<times> files \<times> btree_index" where
  "bt_save ser fs x =
     (if \<not> bt_dirty x then (Inr (), fs, x)
      else case bt_path x of
        None \<Rightarrow> (Inr (), fs, x)
      | Some p \<Rightarrow>
          (case ser (bt_column_name x, bt_unique x, bt_tree x, bt_entry_count x) of
             None \<Rightarrow> (Inl (IoError InvalidData ''{}''), fs, x)
           | Some d \<Rightarrow> (Inr (), hm_insert p d fs, x\<lparr>bt_dirty := False\<rparr>)))"

definition bt_load :: "index_image de \<Rightarrow> files \<Rightarrow> string \<Rightarrow> btree_index result" where
  "bt_load de fs p =
     rbind (read_file fs p) (\<lambda>d. case de d of
       None \<Rightarrow> Inl (IoError InvalidData ''{}'')
     | Some (col, uq, t, n) \<Rightarrow>
         Inr \<lparr>bt_column_name = col, bt_unique = uq, bt_tree = t, bt_entry_count = n,
              bt_path = Some p, bt_dirty = False\<rparr>)"

definition bt_clear :: "btree_index \<Rightarrow> btree_index" where
  "bt_clear x = x\<lparr>bt_tree := [], bt_entry_count := 0, bt_dirty := True\<rparr>"

section \<open>Hash index\<close>

record hash_index =
  h_column_name :: string
  h_unique :: bool
  h_map :: "(index_key, u64 list) hmap"
  h_entry_count :: u64
  h_path :: "string option"
  h_dirty :: bool

definition h_new :: "string \<Rightarrow> bool \<Rightarrow> hash_index" where
  "h_new col uq = \<lparr>h_column_name = col, h_unique = uq, h_map = [], h_entry_count = 0,
     h_path = None, h_dirty = False\<rparr>"

definition h_with_path :: "string \<Rightarrow> bool \<Rightarrow> string \<Rightarrow> hash_index" where
  "h_with_path col uq p = \<lparr>h_column_name = col, h_unique = uq, h_map = [], h_entry_count = 0,
     h_path = Some p, h_dirty = False\<rparr>"

definition h_is_empty :: "hash_index \<Rightarrow> bool" where
  "h_is_empty x = (h_entry_count x = 0)"

definition h_distinct_keys :: "hash_index \<Rightarrow> nat" where
  "h_distinct_keys x = length (h_map x)"

definition h_insert :: "index_key \<Rightarrow> u64 \<Rightarrow> hash_index \<Rightarrow> hash_index result" where
  "h_insert k r x =
     (if h_unique x \<and> (case hm_get (h_map x) k of Some ids \<Rightarrow> ids \<noteq> [] | None \<Rightarrow> False)
      then Inl (IoError AlreadyExists (''Duplicate key in unique hash index '{}'' @ [CHR 0x27]))
      else Inr (x\<lparr>h_map := hm_insert k (push_id r (hm_get (h_map x) k)) (h_map x),
                  h_entry_count := h_entry_count x + 1, h_dirty := True\<rparr>))"

definition h_remove :: "index_key \<Rightarrow> u64 \<Rightarrow> hash_index \<Rightarrow> bool \<times> hash_index" where
  "h_remove k r x =
     (case hm_get (h_map x) k of
        None \<Rightarrow> (False, x)
      | Some ids \<Rightarrow>
          (case position (\<lambda>i. i = r) ids of
             None \<Rightarrow> (False, x)
           | Some p \<Rightarrow>
               let ids' = swap_remove p ids
               in (True, x\<lparr>h_map := if ids' = [] then hm_remove k (h_map x) else hm_insert k ids' (h_map x),
                           h_entry_count := h_entry_count x - 1, h_dirty := True\<rparr>)))"

definition h_bulk_insert :: "(index_key \<times> u64) list \<Rightarrow> hash_index \<Rightarrow> hash_index" where
  "h_bulk_insert pairs x =
     (foldl (\<lambda>y (k, r). y\<lparr>h_map := hm_insert k (push_id r (hm_get (h_map y) k)) (h_map y),
                           h_entry_count := h_entry_count y + 1\<rparr>) x pairs)\<lparr>h_dirty := True\<rparr>"

definition h_get :: "index_key \<Rightarrow> hash_index \<Rightarrow> u64 list option" where
  "h_get k x = hm_get (h_map x) k"

definition h_tuple_prefix :: "index_key list \<Rightarrow> hash_index \<Rightarrow> u64 list" where
  "h_tuple_prefix pre x = sort (concat (map snd (filter (\<lambda>e. prefix_match pre (fst e)) (h_map x))))"

definition h_contains_key :: "index_key \<Rightarrow> hash_index \<Rightarrow> bool" where
  "h_contains_key k x = hm_contains (h_map x) k"

definition h_keys :: "hash_index \<Rightarrow> index_key list" where
  "h_keys x = hm_keys (h_map x)"

definition h_save ::
  "index_image ser \<Rightarrow> files \<Rightarrow> hash_index \<Rightarrow> unit result \<times> files \<times> hash_index" where
  "h_save ser fs x =
     (if \<not> h_dirty x then (Inr (), fs, x)
      else case h_path x of
        None \<Rightarrow> (Inr (), fs, x)
      | Some p \<Rightarrow>
          (case ser (h_column_name x, h_unique x, h_map x, h_entry_count x) of
             None \<Rightarrow> (Inl (IoError InvalidData ''{}''), fs, x)
           | Some d \<Rightarrow> (Inr (), hm_insert p d fs, x\<lparr>h_dirty := False\<rparr>)))"

definition h_load :: "index_image de \<Rightarrow> files \<Rightarrow> string \<Rightarrow> hash_index result" where
  "h_load de fs p =
     rbind (read_file fs p) (\<lambda>d. case de d of
       None \<Rightarrow> Inl (IoError InvalidData ''{}'')
     | Some (col, uq, es, n) \<Rightarrow>
         Inr \<lparr>h_column_name = col, h_unique = uq,
              h_map = foldl (\<lambda>m (k, v). hm_insert k v m) [] es, h_entry_count = n,
              h_path = Some p, h_dirty = False\<rparr>)"

definition h_clear :: "hash_index \<Rightarrow> hash_index" where
  "h_clear x = x\<lparr>h_map := [], h_entry_count := 0, h_dirty := True\<rparr>"

section \<open>The dispatcher\<close>

datatype index_instance = IBTree btree_index | IHash hash_index

fun ii_insert :: "index_key \<Rightarrow> u64 \<Rightarrow> index_instance \<Rightarrow> index_instance result" where
  "ii_insert k r (IBTree x) = map_sum id IBTree (bt_insert k r x)"
| "ii_insert k r (IHash x) = map_sum id IHash (h_insert k r x)"

fun ii_remove :: "index_key \<Rightarrow> u64 \<Rightarrow> index_instance \<Rightarrow> bool \<times> index_instance" where
  "ii_remove k r (IBTree x) = map_prod id IBTree (bt_remove k r x)"
| "ii_remove k r (IHash x) = map_prod id IHash (h_remove k r x)"

fun ii_get :: "index_key \<Rightarrow> index_instance \<Rightarrow> u64 list option" where
  "ii_get k (IBTree x) = bt_get k x"
| "ii_get k (IHash x) = h_get k x"

fun ii_tuple_prefix :: "index_key list \<Rightarrow> index_instance \<Rightarrow> u64 list" where
  "ii_tuple_prefix pre (IBTree x) = bt_tuple_prefix pre None x"
| "ii_tuple_prefix pre (IHash x) = h_tuple_prefix pre x"

fun ii_save :: "index_image ser \<Rightarrow> index_image ser \<Rightarrow> files \<Rightarrow> index_instance \<Rightarrow>
    unit result \<times> files \<times> index_instance" where
  "ii_save bser hser fs (IBTree x) = map_prod id (map_prod id IBTree) (bt_save bser fs x)"
| "ii_save bser hser fs (IHash x) = map_prod id (map_prod id IHash) (h_save hser fs x)"

fun ii_clear :: "index_instance \<Rightarrow> index_instance" where
  "ii_clear (IBTree x) = IBTree (bt_clear x)"
| "ii_clear (IHash x) = IHash (h_clear x)"

section \<open>The contract of an index\<close>

text \<open>The row ids filed under a key, with their multiplicity.\<close>

definition postings :: "('x \<Rightarrow> u64 list option) \<Rightarrow> 'x \<Rightarrow> u64 multiset" where
  "postings g x = (case g x of None \<Rightarrow> {#} | Some ids \<Rightarrow> mset ids)"

datatype ix_op = AddRow index_key u64 | DelRow index_key u64

fun op_key :: "ix_op \<Rightarrow> index_key" where
  "op_key (AddRow k r) = k"
| "op_key (DelRow k r) = k"

text \<open>What an operation does to the ids of one key, in the specification.\<close>

fun spec_ids :: "(index_key \<Rightarrow> bool) \<Rightarrow> u64 multiset \<Rightarrow> ix_op \<Rightarrow> u64 multiset" where
  "spec_ids same M (AddRow k r) = (if same k then add_mset r M else M)"
| "spec_ids same M (DelRow k r) = (if same k then M - {#r#} else M)"

locale row_index =
  fixes inv :: "'x \<Rightarrow> bool" and okk :: "index_key \<Rightarrow> bool"
    and same :: "'x \<Rightarrow> index_key \<Rightarrow> index_key \<Rightarrow> bool"
    and uniq :: "'x \<Rightarrow> bool"
    and get :: "index_key \<Rightarrow> 'x \<Rightarrow> u64 list option"
    and ins :: "index_key \<Rightarrow> u64 \<Rightarrow> 'x \<Rightarrow> 'x result"
    and rem :: "index_key \<Rightarrow> u64 \<Rightarrow> 'x \<Rightarrow> bool \<times> 'x"
  assumes same_refl: "okk k \<Longrightarrow> same x k k"
    and ins_ok: "inv x \<Longrightarrow> okk k \<Longrightarrow> ins k r x = Inr y \<Longrightarrow> inv y \<and> uniq y = uniq x \<and> same y = same x"
    and rem_ok: "inv x \<Longrightarrow> okk k \<Longrightarrow> rem k r x = (b, y) \<Longrightarrow> inv y \<and> uniq y = uniq x \<and> same y = same x"
    and ins_ids: "inv x \<Longrightarrow> okk k \<Longrightarrow> okk q \<Longrightarrow> ins k r x = Inr y \<Longrightarrow>
      postings (get q) y = (if same x q k then add_mset r (postings (get q) x) else postings (get q) x)"
    and rem_ids: "inv x \<Longrightarrow> okk k \<Longrightarrow> okk q \<Longrightarrow> rem k r x = (b, y) \<Longrightarrow>
      postings (get q) y = (if same x q k then postings (get q) x - {#r#} else postings (get q) x)"
    and rem_found: "inv x \<Longrightarrow> okk k \<Longrightarrow> fst (rem k r x) \<longleftrightarrow> r \<in># postings (get k) x"
    and ins_fails: "inv x \<Longrightarrow> okk k \<Longrightarrow>
      (\<exists>e. ins k r x = Inl e) \<longleftrightarrow> uniq x \<and> postings (get k) x \<noteq> {#}"
begin

fun run :: "'x \<Rightarrow> ix_op list \<Rightarrow> 'x result" where
  "run x [] = Inr x"
| "run x (AddRow k r # ops) = rbind (ins k r x) (\<lambda>y. run y ops)"
| "run x (DelRow k r # ops) = run (snd (rem k r x)) ops"

lemma run_refines:
  assumes "inv x" "list_all (okk \<circ> op_key) ops" "okk q" "run x ops = Inr y"
  shows "inv y \<and> same y = same x \<and> uniq y = uniq x
    \<and> postings (get q) y = foldl (spec_ids (same x q)) (postings (get q) x) ops"
  using assms
proof (induction x ops rule: run.induct)
  case (2 x k r ops)
  then obtain x1 where x1: "ins k r x = Inr x1" "run x1 ops = Inr y"
    by (auto simp: rbind_eq_Inr)
  have k: "okk k" using 2 by simp
  note ok = ins_ok [OF 2(2) k x1(1)]
  have "inv y \<and> same y = same x1 \<and> uniq y = uniq x1
      \<and> postings (get q) y = foldl (spec_ids (same x1 q)) (postings (get q) x1) ops"
    using 2(1) [of x1] 2(3,4) x1 ok by simp
  then show ?case using ok ins_ids [OF 2(2) k 2(4) x1(1)] by simp
next
  case (3 x k r ops)
  obtain b x1 where x1: "rem k r x = (b, x1)" by fastforce
  have k: "okk k" using 3 by simp
  note ok = rem_ok [OF 3(2) k x1]
  have "inv y \<and> same y = same x1 \<and> uniq y = uniq x1
      \<and> postings (get q) y = foldl (spec_ids (same x1 q)) (postings (get q) x1) ops"
    using 3 x1 ok by simp
  then show ?case using ok rem_ids [OF 3(2) k 3(4) x1] by simp
qed simp

lemma ins_rem:
  assumes "inv x" "okk k" "okk q" "ins k r x = Inr y"
  shows "postings (get q) (snd (rem k r y)) = postings (get q) x"
proof -
  obtain b z where z: "rem k r y = (b, z)" by fastforce
  have y: "inv y" "same y = same x" using ins_ok [OF assms(1,2,4)] by auto
  show ?thesis
    using rem_ids [OF y(1) assms(2,3) z] ins_ids [OF assms] y(2) z by simp
qed

lemma unique_kept:
  assumes "inv x" "uniq x" "list_all (okk \<circ> op_key) ops" "run x ops = Inr y" "okk q"
    and same_ids: "\<And>a b z. inv z \<Longrightarrow> okk a \<Longrightarrow> okk b \<Longrightarrow> same z a b \<Longrightarrow> get a z = get b z"
    and "size (postings (get q) x) \<le> 1"
  shows "size (postings (get q) y) \<le> 1"
  using assms(1-5,7)
proof (induction x ops rule: run.induct)
  case (2 x k r ops)
  then obtain x1 where x1: "ins k r x = Inr x1" "run x1 ops = Inr y"
    by (auto simp: rbind_eq_Inr)
  have k: "okk k" using 2 by simp
  note ok = ins_ok [OF 2(2) k x1(1)]
  have "postings (get k) x = {#}" using ins_fails [OF 2(2) k, of r] x1(1) 2(3) by auto
  then have "postings (get q) x = {#}" if "same x q k"
    using same_ids [OF 2(2) 2(6) k that] by (simp add: postings_def)
  then have "size (postings (get q) x1) \<le> 1" using ins_ids [OF 2(2) k 2(6) x1(1)] 2(7) by auto
  then show ?case using 2(1) [of x1] 2(3,4,6) x1 ok by simp
next
  case (3 x k r ops)
  obtain b x1 where x1: "rem k r x = (b, x1)" by fastforce
  have k: "okk k" using 3 by simp
  note ok = rem_ok [OF 3(2) k x1]
  have "size (postings (get q) x1) \<le> 1"
    using rem_ids [OF 3(2) k 3(6) x1] 3(7) size_Diff_submset [of "{#r#}" "postings (get q) x"]
    by (auto simp: size_Diff_singleton_if)
  then show ?case using 3 x1 ok by simp
qed simp

end

section \<open>The indexes meet the contract\<close>

lemma mset_swap_remove:
  assumes "i < length xs"
  shows "mset (swap_remove i xs) = mset xs - {#xs ! i#}"
proof -
  obtain ys z where xs: "xs = ys @ [z]" using assms by (cases xs rule: rev_cases) auto
  show ?thesis
  proof (cases "i < length ys")
    case True
    then have "swap_remove i xs = ys[i := z]"
      by (simp add: swap_remove_def xs list_update_append butlast_append)
    then show ?thesis using True nth_mem [OF True]
      by (simp add: xs mset_update nth_append)
  next
    case False
    then have "i = length ys" using assms by (simp add: xs)
    then show ?thesis by (simp add: swap_remove_def xs)
  qed
qed

lemma position_eq:
  "position (\<lambda>i. i = r) ids = None \<longleftrightarrow> r \<notin># mset ids"
  "position (\<lambda>i. i = r) ids = Some p \<Longrightarrow> mset (swap_remove p ids) = mset ids - {#r#} \<and> r \<in># mset ids
     \<and> ids \<noteq> []"
proof -
  show "position (\<lambda>i. i = r) ids = None \<longleftrightarrow> r \<notin># mset ids"
    by (auto simp: position_None)
  assume "position (\<lambda>i. i = r) ids = Some p"
  from position_Some [OF this] have "p < length ids" "ids ! p = r" by auto
  then show "mset (swap_remove p ids) = mset ids - {#r#} \<and> r \<in># mset ids \<and> ids \<noteq> []"
    using mset_swap_remove [of p ids] nth_mem [of p ids] by auto
qed

text \<open>Entries of an ordered map after an update, and sums over them.\<close>

abbreviation total :: "('k \<times> 'v list) list \<Rightarrow> nat" where
  "total m \<equiv> sum_list (map (length \<circ> snd) m)"

abbreviation len_opt :: "'v list option \<Rightarrow> nat" where
  "len_opt e \<equiv> (case e of None \<Rightarrow> 0 | Some ids \<Rightarrow> length ids)"

lemma total_om_entry:
  "total (om_entry c k f m) + len_opt (om_get c k m) = total m + length (f (om_get c k m))"
  by (induction m) (auto split: ordering.splits)

lemma total_om_remove: "total (om_remove c k m) + len_opt (om_get c k m) = total m"
  by (induction m) (auto split: ordering.splits)

lemma total_hm_insert: "total (hm_insert k v m) + len_opt (hm_get m k) = total m + length v"
  by (induction m) auto

lemma total_hm_remove: "hm_wf m \<Longrightarrow> total (hm_remove k m) + len_opt (hm_get m k) = total m"
proof (induction m)
  case (Cons e m)
  then show ?case using hm_remove_fresh [of k m] by (cases e) (auto simp: hm_get_None [symmetric])
qed simp

lemma om_entry_vals:
  "e \<in> set (om_entry c k f m) \<Longrightarrow> e \<in> set m \<or> snd e = f (om_get c k m)"
  by (induction m) (auto split: ordering.splits)

lemma om_entry_nonempty:
  "\<forall>e \<in> set m. snd e \<noteq> [] \<Longrightarrow> f (om_get c k m) \<noteq> [] \<Longrightarrow> \<forall>e \<in> set (om_entry c k f m). snd e \<noteq> []"
  by (metis om_entry_vals)

lemma om_remove_entry:
  "om_get c k m = Some v \<Longrightarrow> om_remove c k (om_entry c k f m) = om_remove c k m"
  by (induction m) (auto split: ordering.splits)

lemma push_id_props [simp]: "push_id r e \<noteq> []" "length (push_id r e) = Suc (len_opt e)"
  "mset (push_id r e) = add_mset r (case e of None \<Rightarrow> {#} | Some ids \<Rightarrow> mset ids)"
  by (auto simp: push_id_def split: option.splits)

subsection \<open>B-tree\<close>

text \<open>
  Keys are sorted and free of NaN, no key has an empty list, and the entry counter is the
  number of filed ids (modulo its width).
\<close>

definition bt_inv :: "btree_index \<Rightarrow> bool" where
  "bt_inv x \<longleftrightarrow> key_order.om_ok (bt_tree x) \<and> (\<forall>e \<in> set (bt_tree x). snd e \<noteq> [])
     \<and> bt_entry_count x = of_nat (total (bt_tree x))"

abbreviation bt_same :: "btree_index \<Rightarrow> index_key \<Rightarrow> index_key \<Rightarrow> bool" where
  "bt_same x a b \<equiv> key_cmp a b = Equal"

lemma bt_inv_nonempty:
  assumes "bt_inv x" "key_ok k" "bt_get k x = Some ids"
  shows "ids \<noteq> []"
  using assms key_order.om_get_mem [of "bt_tree x" k ids] unfolding bt_inv_def bt_get_def by force

lemma bt_insert_tree:
  assumes "bt_insert k r x = Inr y"
  shows "y = x\<lparr>bt_tree := om_entry key_cmp k (push_id r) (bt_tree x),
    bt_entry_count := bt_entry_count x + 1, bt_dirty := True\<rparr>"
  using assms by (auto simp: bt_insert_def split: if_splits)

lemma bt_inv_push:
  assumes "bt_inv x" "key_ok k"
  shows "bt_inv (x\<lparr>bt_tree := om_entry key_cmp k (push_id r) (bt_tree x),
    bt_entry_count := bt_entry_count x + 1, bt_dirty := d\<rparr>)"
proof -
  have "total (om_entry key_cmp k (push_id r) (bt_tree x)) = Suc (total (bt_tree x))"
    using total_om_entry [of key_cmp k "push_id r" "bt_tree x"] by simp
  then show ?thesis
    using assms om_entry_nonempty [of "bt_tree x" "push_id r" key_cmp k]
    by (simp add: bt_inv_def key_order.om_ok_entry)
qed

lemma bt_remove_cases:
  assumes "bt_remove k r x = (b, y)"
  obtains (missing) "r \<notin># postings (bt_get k) x" "\<not> b" "y = x"
  | (found) ids p where "bt_get k x = Some ids" "position (\<lambda>i. i = r) ids = Some p" "b"
      "y = x\<lparr>bt_tree := if swap_remove p ids = [] then om_remove key_cmp k (bt_tree x)
             else om_entry key_cmp k (\<lambda>_. swap_remove p ids) (bt_tree x),
           bt_entry_count := bt_entry_count x - 1, bt_dirty := True\<rparr>"
  using assms om_remove_entry [of key_cmp k "bt_tree x"]
  by (auto simp: bt_remove_def bt_get_def postings_def Let_def position_eq split: option.splits)

lemma bt_remove_inv:
  assumes "bt_inv x" "key_ok k" "bt_remove k r x = (b, y)"
  shows "bt_inv y \<and> bt_unique y = bt_unique x"
  using assms(3)
proof (cases rule: bt_remove_cases)
  case (found ids p)
  let ?new = "bt_tree y"
  have p: "p < length ids" using position_Some [OF found(2)] by simp
  have get: "om_get key_cmp k (bt_tree x) = Some ids" using found(1) by (simp add: bt_get_def)
  have ok: "key_order.om_ok ?new"
    using assms(1,2) found(4) by (auto simp: bt_inv_def key_order.om_ok_entry key_order.om_ok_remove)
  have ne: "\<forall>e \<in> set ?new. snd e \<noteq> []"
  proof (cases "swap_remove p ids = []")
    case True
    then show ?thesis using assms(1) found(4) key_order.set_om_remove [of k "bt_tree x"]
      by (auto simp: bt_inv_def)
  next
    case False
    then show ?thesis
      using assms(1) found(4) om_entry_nonempty [of "bt_tree x" "\<lambda>_. swap_remove p ids" key_cmp k]
      by (simp add: bt_inv_def)
  qed
  have "total ?new + 1 = total (bt_tree x)"
  proof (cases "swap_remove p ids = []")
    case True
    then have "length ids = 1" using p length_swap_remove [of p ids] by simp
    then show ?thesis using True found(4) total_om_remove [of key_cmp k "bt_tree x"] get by simp
  next
    case False
    then show ?thesis
      using p found(4) total_om_entry [of key_cmp k "\<lambda>_. swap_remove p ids" "bt_tree x"] get by simp
  qed
  then have "bt_entry_count x = of_nat (total ?new + 1)" using assms(1) by (simp add: bt_inv_def)
  moreover have "bt_entry_count y = bt_entry_count x - 1" using found(4) by simp
  ultimately have "bt_entry_count y = of_nat (total ?new)" by simp
  with ok ne found(4) show ?thesis by (simp add: bt_inv_def)
qed (use assms in simp)

interpretation btree: row_index bt_inv key_ok bt_same bt_unique bt_get bt_insert bt_remove
proof
  fix x y :: btree_index and k q :: index_key and r :: u64 and b :: bool
  show "key_cmp k k = Equal" if "key_ok k" using key_order.refl [OF that] .
  show "bt_inv y \<and> bt_unique y = bt_unique x \<and> bt_same y = bt_same x"
    if "bt_inv x" "key_ok k" "bt_insert k r x = Inr y"
    using bt_insert_tree [OF that(3)] bt_inv_push [OF that(1,2)] by simp
  show "bt_inv y \<and> bt_unique y = bt_unique x \<and> bt_same y = bt_same x"
    if "bt_inv x" "key_ok k" "bt_remove k r x = (b, y)"
    using bt_remove_inv [OF that] by simp
  show "postings (bt_get q) y =
      (if key_cmp q k = Equal then add_mset r (postings (bt_get q) x) else postings (bt_get q) x)"
    if "bt_inv x" "key_ok k" "key_ok q" "bt_insert k r x = Inr y"
  proof -
    have "om_get key_cmp q (bt_tree x) = om_get key_cmp k (bt_tree x)" if "key_cmp q k = Equal"
      using key_order.om_get_cong [of "bt_tree x" q k] that \<open>bt_inv x\<close> \<open>key_ok k\<close> \<open>key_ok q\<close>
      by (simp add: bt_inv_def)
    then show ?thesis
      using bt_insert_tree [OF that(4)] that key_order.om_get_entry [of "bt_tree x" k q "push_id r"]
      by (auto simp: bt_inv_def postings_def bt_get_def split: option.splits)
  qed
  show "postings (bt_get q) y =
      (if key_cmp q k = Equal then postings (bt_get q) x - {#r#} else postings (bt_get q) x)"
    if "bt_inv x" "key_ok k" "key_ok q" "bt_remove k r x = (b, y)"
  proof -
    have eq: "om_get key_cmp q (bt_tree x) = om_get key_cmp k (bt_tree x)" if "key_cmp q k = Equal"
      using key_order.om_get_cong [of "bt_tree x" q k] that \<open>bt_inv x\<close> \<open>key_ok k\<close> \<open>key_ok q\<close>
      by (simp add: bt_inv_def)
    from that(4) show ?thesis
    proof (cases rule: bt_remove_cases)
      case missing
      then show ?thesis using eq by (auto simp: postings_def bt_get_def diff_single_trivial)
    next
      case (found ids p)
      have ok: "key_order.om_ok (bt_tree x)" using that(1) by (simp add: bt_inv_def)
      note m = position_eq(2) [OF found(2)]
      show ?thesis
      proof (cases "swap_remove p ids = []")
        case True
        then have "mset ids - {#r#} = {#}" using m by (metis mset.simps(1))
        then show ?thesis using True found eq key_order.om_get_remove [OF ok that(2,3)]
          by (simp add: postings_def bt_get_def)
      next
        case False
        then show ?thesis using m found eq key_order.om_get_entry [OF ok that(2,3)]
          by (simp add: postings_def bt_get_def)
      qed
    qed
  qed
  show "fst (bt_remove k r x) \<longleftrightarrow> r \<in># postings (bt_get k) x" if "bt_inv x" "key_ok k"
  proof -
    obtain b' y' where eq: "bt_remove k r x = (b', y')" by fastforce
    then show ?thesis
      by (cases rule: bt_remove_cases) (simp_all add: eq, auto simp: postings_def dest: position_eq(2))
  qed
  show "(\<exists>e. bt_insert k r x = Inl e) \<longleftrightarrow> bt_unique x \<and> postings (bt_get k) x \<noteq> {#}"
    if "bt_inv x" "key_ok k"
    by (auto simp: bt_insert_def postings_def bt_get_def split: option.splits)
qed

subsection \<open>Hash index\<close>

definition h_inv :: "hash_index \<Rightarrow> bool" where
  "h_inv x \<longleftrightarrow> hm_wf (h_map x) \<and> (\<forall>e \<in> set (h_map x). snd e \<noteq> [])
     \<and> h_entry_count x = of_nat (total (h_map x))"

lemma hm_insert_nonempty:
  "\<forall>e \<in> set m. snd e \<noteq> [] \<Longrightarrow> v \<noteq> [] \<Longrightarrow> \<forall>e \<in> set (hm_insert k v m). snd e \<noteq> []"
  by (induction m) auto

lemma h_insert_map:
  assumes "h_insert k r x = Inr y"
  shows "y = x\<lparr>h_map := hm_insert k (push_id r (hm_get (h_map x) k)) (h_map x),
    h_entry_count := h_entry_count x + 1, h_dirty := True\<rparr>"
  using assms by (auto simp: h_insert_def split: if_splits)

lemma h_inv_push:
  assumes "h_inv x"
  shows "h_inv (x\<lparr>h_map := hm_insert k (push_id r (hm_get (h_map x) k)) (h_map x),
    h_entry_count := h_entry_count x + 1, h_dirty := d\<rparr>)"
proof -
  have "total (hm_insert k (push_id r (hm_get (h_map x) k)) (h_map x)) = Suc (total (h_map x))"
    using total_hm_insert [of k "push_id r (hm_get (h_map x) k)" "h_map x"] by simp
  then show ?thesis
    using assms hm_insert_nonempty [of "h_map x" "push_id r (hm_get (h_map x) k)" k]
    by (simp add: h_inv_def hm_simps)
qed

lemma h_remove_cases:
  assumes "h_remove k r x = (b, y)"
  obtains (missing) "r \<notin># postings (h_get k) x" "\<not> b" "y = x"
  | (found) ids p where "h_get k x = Some ids" "position (\<lambda>i. i = r) ids = Some p" "b"
      "y = x\<lparr>h_map := if swap_remove p ids = [] then hm_remove k (h_map x)
             else hm_insert k (swap_remove p ids) (h_map x),
           h_entry_count := h_entry_count x - 1, h_dirty := True\<rparr>"
  using assms
  by (auto simp: h_remove_def h_get_def postings_def Let_def position_eq split: option.splits)

lemma h_remove_inv:
  assumes "h_inv x" "h_remove k r x = (b, y)"
  shows "h_inv y \<and> h_unique y = h_unique x"
  using assms(2)
proof (cases rule: h_remove_cases)
  case (found ids p)
  have p: "p < length ids" using position_Some [OF found(2)] by simp
  have get: "hm_get (h_map x) k = Some ids" using found(1) by (simp add: h_get_def)
  have x: "hm_wf (h_map x)" "\<forall>e \<in> set (h_map x). snd e \<noteq> []" using assms(1) by (simp_all add: h_inv_def)
  have wf: "hm_wf (h_map y)" using x(1) found(4) by (simp add: hm_simps)
  have "(\<forall>e \<in> set (h_map y). snd e \<noteq> []) \<and> total (h_map y) + 1 = total (h_map x)"
  proof (cases "swap_remove p ids = []")
    case True
    then have "length ids = 1" using p length_swap_remove [of p ids] by simp
    moreover have "set (hm_remove k (h_map x)) \<subseteq> set (h_map x)"
      by (auto simp: AList.delete_eq)
    ultimately show ?thesis using True found(4) total_hm_remove [OF x(1), of k] get x(2) by auto
  next
    case False
    then show ?thesis
      using p found(4) total_hm_insert [of k "swap_remove p ids" "h_map x"] get
        hm_insert_nonempty [OF x(2) False, of k] by simp
  qed
  moreover from this have "h_entry_count x = of_nat (total (h_map y) + 1)"
    using assms(1) by (simp add: h_inv_def)
  then have "h_entry_count y = of_nat (total (h_map y))" using found(4) by simp
  ultimately show ?thesis using wf found(4) by (auto simp: h_inv_def)
qed (use assms in simp)

interpretation hash: row_index h_inv "\<lambda>_. True" "\<lambda>_. (=)" h_unique h_get h_insert h_remove
proof
  fix x y :: hash_index and k q :: index_key and r :: u64 and b :: bool
  show "k = k" ..
  show "h_inv y \<and> h_unique y = h_unique x \<and> (=) = (=)" if "h_inv x" "h_insert k r x = Inr y"
    using h_insert_map [OF that(2)] h_inv_push [OF that(1)] by simp
  show "h_inv y \<and> h_unique y = h_unique x \<and> (=) = (=)" if "h_inv x" "h_remove k r x = (b, y)"
    using h_remove_inv [OF that] by simp
  show "postings (h_get q) y = (if q = k then add_mset r (postings (h_get q) x) else postings (h_get q) x)"
    if "h_inv x" "h_insert k r x = Inr y"
    using h_insert_map [OF that(2)]
    by (auto simp: postings_def h_get_def hm_simps split: option.splits)
  show "postings (h_get q) y = (if q = k then postings (h_get q) x - {#r#} else postings (h_get q) x)"
    if "h_inv x" "h_remove k r x = (b, y)"
    using that(2)
  proof (cases rule: h_remove_cases)
    case missing
    then show ?thesis by (auto simp: diff_single_trivial)
  next
    case (found ids p)
    note m = position_eq(2) [OF found(2)]
    show ?thesis
    proof (cases "swap_remove p ids = []")
      case True
      then have "mset ids - {#r#} = {#}" using m by (metis mset.simps(1))
      then show ?thesis using True found by (simp add: postings_def h_get_def hm_simps)
    next
      case False
      then show ?thesis using m found by (simp add: postings_def h_get_def hm_simps)
    qed
  qed
  show "fst (h_remove k r x) \<longleftrightarrow> r \<in># postings (h_get k) x"
  proof -
    obtain b' y' where eq: "h_remove k r x = (b', y')" by fastforce
    then show ?thesis
      by (cases rule: h_remove_cases) (simp_all add: eq, auto simp: postings_def dest: position_eq(2))
  qed
  show "(\<exists>e. h_insert k r x = Inl e) \<longleftrightarrow> h_unique x \<and> postings (h_get k) x \<noteq> {#}"
    by (auto simp: h_insert_def postings_def h_get_def split: option.splits)
qed

subsection \<open>Dispatcher\<close>

fun ii_inv :: "index_instance \<Rightarrow> bool" where
  "ii_inv (IBTree x) = bt_inv x"
| "ii_inv (IHash x) = h_inv x"

fun ii_unique :: "index_instance \<Rightarrow> bool" where
  "ii_unique (IBTree x) = bt_unique x"
| "ii_unique (IHash x) = h_unique x"

fun ii_same :: "index_instance \<Rightarrow> index_key \<Rightarrow> index_key \<Rightarrow> bool" where
  "ii_same (IBTree x) a b = (key_cmp a b = Equal)"
| "ii_same (IHash x) a b = (a = b)"

lemma ii_same_fun: "ii_same (IBTree x) = (\<lambda>a b. key_cmp a b = Equal)" "ii_same (IHash u) = (=)"
  by (auto simp: fun_eq_iff)

lemma postings_ii: "postings (ii_get q) (IBTree x) = postings (bt_get q) x"
  "postings (ii_get q) (IHash y) = postings (h_get q) y"
  by (simp_all add: postings_def)

lemma map_sum_Inr: "map_sum id f m = Inr y \<longleftrightarrow> (\<exists>x. m = Inr x \<and> y = f x)"
  by (cases m) auto

lemma map_sum_Inl: "(\<exists>e. map_sum id f m = Inl e) \<longleftrightarrow> (\<exists>e. m = Inl e)"
  by (cases m) auto

lemma map_prod_eq: "map_prod id f p = (b, y) \<longleftrightarrow> (\<exists>x. p = (b, x) \<and> y = f x)"
  by (cases p) auto

interpretation inst: row_index ii_inv key_ok ii_same ii_unique ii_get ii_insert ii_remove
proof
  fix x y :: index_instance and k q :: index_key and r :: u64 and b :: bool
  show "ii_same x k k" if "key_ok k" using key_order.refl [OF that] by (cases x) simp_all
  show "ii_inv y \<and> ii_unique y = ii_unique x \<and> ii_same y = ii_same x"
    if "ii_inv x" "key_ok k" "ii_insert k r x = Inr y"
    using that
    by (cases x) (auto simp: map_sum_Inr ii_same_fun simp del: ii_same.simps
        dest: btree.ins_ok [of _ k r] hash.ins_ok [of _ k r, OF _ TrueI])
  show "ii_inv y \<and> ii_unique y = ii_unique x \<and> ii_same y = ii_same x"
    if "ii_inv x" "key_ok k" "ii_remove k r x = (b, y)"
    using that
    by (cases x) (auto simp: map_prod_eq ii_same_fun simp del: ii_same.simps
        dest: btree.rem_ok [of _ k r] hash.rem_ok [of _ k r, OF _ TrueI])
  show "postings (ii_get q) y =
      (if ii_same x q k then add_mset r (postings (ii_get q) x) else postings (ii_get q) x)"
    if "ii_inv x" "key_ok k" "key_ok q" "ii_insert k r x = Inr y"
    using that
    by (cases x) (auto simp: map_sum_Inr postings_ii btree.ins_ids hash.ins_ids simp del: if_split)
  show "postings (ii_get q) y =
      (if ii_same x q k then postings (ii_get q) x - {#r#} else postings (ii_get q) x)"
    if "ii_inv x" "key_ok k" "key_ok q" "ii_remove k r x = (b, y)"
    using that
    by (cases x) (auto simp: map_prod_eq postings_ii btree.rem_ids hash.rem_ids simp del: if_split)
  show "fst (ii_remove k r x) \<longleftrightarrow> r \<in># postings (ii_get k) x" if "ii_inv x" "key_ok k"
    using that btree.rem_found [of _ k r] hash.rem_found [of _ k r]
    by (cases x) (simp_all add: postings_ii)
  show "(\<exists>e. ii_insert k r x = Inl e) \<longleftrightarrow> ii_unique x \<and> postings (ii_get k) x \<noteq> {#}"
    if "ii_inv x" "key_ok k"
    using that btree.ins_fails [of _ k r] hash.ins_fails [of _ k r]
    by (cases x) (simp_all add: map_sum_Inl postings_ii)
qed

lemma ii_same_ids:
  assumes "ii_inv z" "key_ok a" "key_ok b" "ii_same z a b"
  shows "ii_get a z = ii_get b z"
  using assms key_order.om_get_cong [of _ a b]
  by (cases z) (auto simp: bt_inv_def bt_get_def)

fun ii_run :: "index_instance \<Rightarrow> ix_op list \<Rightarrow> index_instance result" where
  "ii_run x [] = Inr x"
| "ii_run x (AddRow k r # ops) = rbind (ii_insert k r x) (\<lambda>y. ii_run y ops)"
| "ii_run x (DelRow k r # ops) = ii_run (snd (ii_remove k r x)) ops"

lemma inst_run: "inst.run x ops = ii_run x ops"
  by (induction x ops rule: ii_run.induct) (auto simp: rbind_def split: sum.split)

section \<open>Range scans\<close>

text \<open>
  The ids under the stored keys that satisfy a predicate, when the predicate does not tell equal
  keys apart.
\<close>

lemma bt_tree_ids:
  assumes "bt_inv x" and cong: "\<And>a b. key_ok a \<Longrightarrow> key_ok b \<Longrightarrow> key_cmp a b = Equal \<Longrightarrow> P a \<Longrightarrow> P b"
  shows "set (concat (map snd (filter (\<lambda>e. P (fst e)) (bt_tree x)))) =
    {r. \<exists>k. key_ok k \<and> r \<in># postings (bt_get k) x \<and> P k}" (is "?A = ?B")
proof (intro equalityI subsetI)
  have ok: "key_order.om_ok (bt_tree x)" using assms(1) by (simp add: bt_inv_def)
  fix r
  {
    assume "r \<in> ?A"
    then obtain k ids where e: "(k, ids) \<in> set (bt_tree x)" "P k" "r \<in> set ids" by force
    then have k: "key_ok k" using key_order.om_ok_keys [OF ok e(1)] by simp
    then have "bt_get k x = Some ids"
      using key_order.om_get_mem [OF ok k] e(1) key_order.refl [OF k] by (auto simp: bt_get_def)
    then show "r \<in> ?B" using k e by (auto simp: postings_def)
  next
    assume "r \<in> ?B"
    then obtain k where k: "key_ok k" "r \<in># postings (bt_get k) x" "P k" by blast
    then obtain ids where ids: "bt_get k x = Some ids" "r \<in> set ids"
      by (auto simp: postings_def split: option.splits)
    then obtain q where q: "(q, ids) \<in> set (bt_tree x)" "key_cmp k q = Equal"
      using key_order.om_get_mem [OF ok k(1)] by (auto simp: bt_get_def)
    have "key_ok q" using key_order.om_ok_keys [OF ok q(1)] by simp
    then have "P q" using cong [OF k(1) _ q(2) k(3)] by blast
    then show "r \<in> ?A" using q(1) ids(2) by force
  }
qed

lemma bt_scan_ids:
  assumes "bt_inv x" "pred_option key_ok l" "key_order.bound_ok u" "\<not> crossed key_cmp l u"
  shows "\<exists>ids. bt_scan l u x = Inr ids \<and> set ids =
    {r. \<exists>k. key_ok k \<and> r \<in># postings (bt_get k) x \<and> (above key_cmp k l \<and> below key_cmp k u)}"
proof -
  have ok: "key_order.om_ok (bt_tree x)" using assms(1) by (simp add: bt_inv_def)
  have "above key_cmp b l \<and> below key_cmp b u"
    if "key_ok a" "key_ok b" "key_cmp a b = Equal" "above key_cmp a l \<and> below key_cmp a u" for a b
  proof -
    have eq: "key_cmp a d = key_cmp b d" if "key_ok d" for d
      by (rule key_order.equal_trans [OF \<open>key_ok a\<close> \<open>key_ok b\<close> that \<open>key_cmp a b = Equal\<close>])
    have "above key_cmp b l" using eq that(4) assms(2) by (cases l) (auto simp: above_def)
    moreover have "below key_cmp b u" using eq that(4) assms(3) by (cases u) auto
    ultimately show ?thesis ..
  qed
  note ids = bt_tree_ids [OF assms(1), of "\<lambda>k. above key_cmp k l \<and> below key_cmp k u", OF this]
  have "bt_scan l u x =
      Inr (concat (map snd (filter (\<lambda>e. above key_cmp (fst e) l \<and> below key_cmp (fst e) u) (bt_tree x))))"
    unfolding bt_scan_def key_order.om_range_filter [OF ok assms(2-4)] by (simp only: rbind_simps)
  then show ?thesis by (intro exI conjI, assumption) (rule ids)
qed

lemma bt_greater_than_ids:
  assumes "bt_inv x" "key_ok k"
  shows "\<exists>ids. bt_greater_than k x = Inr ids \<and> set ids =
    {r. \<exists>q. key_ok q \<and> r \<in># postings (bt_get q) x \<and> key_cmp q k = Greater}"
proof -
  have ok: "key_order.om_ok (bt_tree x)" using assms(1) by (simp add: bt_inv_def)
  have "key_cmp b k = Greater" if "key_ok a" "key_ok b" "key_cmp a b = Equal" "key_cmp a k = Greater" for a b
    using key_order.equal_trans [OF that(1,2) assms(2) that(3)] that(4) by simp
  note ids = bt_tree_ids [OF assms(1), of "\<lambda>q. key_cmp q k = Greater", OF this]
  have "filter (\<lambda>e. key_cmp (fst e) k = Greater) (filter (\<lambda>e. above key_cmp (fst e) (Some k)) (bt_tree x)) =
      filter (\<lambda>e. key_cmp (fst e) k = Greater) (bt_tree x)"
    by (simp add: above_def) (rule filter_cong, auto)
  moreover have "om_range key_cmp (Some k) Unbounded (bt_tree x) =
      Inr (filter (\<lambda>e. above key_cmp (fst e) (Some k)) (bt_tree x))"
    using key_order.om_range_filter [OF ok, of "Some k" Unbounded] assms(2) by simp
  ultimately have "bt_greater_than k x =
      Inr (concat (map snd (filter (\<lambda>e. key_cmp (fst e) k = Greater) (bt_tree x))))"
    unfolding bt_greater_than_def by (simp only: rbind_simps)
  then show ?thesis by (intro exI conjI, assumption) (rule ids)
qed

section \<open>Persistence\<close>

definition bt_image :: "btree_index \<Rightarrow> index_image" where
  "bt_image x = (bt_column_name x, bt_unique x, bt_tree x, bt_entry_count x)"

definition h_image :: "hash_index \<Rightarrow> index_image" where
  "h_image x = (h_column_name x, h_unique x, h_map x, h_entry_count x)"

lemma bt_save_load:
  assumes "bt_path x = Some p" "bt_dirty x" "Option.bind (ser (bt_image x)) de = Some (bt_image x)"
    and "bt_save ser fs x = (res, fs', x')"
  shows "res = Inr () \<and> bt_load de fs' p = Inr (x\<lparr>bt_dirty := False\<rparr>) \<and> x' = x\<lparr>bt_dirty := False\<rparr>"
proof -
  obtain d where d: "ser (bt_image x) = Some d" "de d = Some (bt_image x)"
    using assms(3) by (cases "ser (bt_image x)") auto
  then show ?thesis using assms(1,2,4)
    by (auto simp: bt_save_def bt_load_def read_file_def hm_simps bt_image_def)
qed

lemma hm_rebuild: "hm_wf m \<Longrightarrow> hm_wf (a @ m) \<Longrightarrow> foldl (\<lambda>m (k, v). hm_insert k v m) a m = a @ m"
proof (induction m arbitrary: a)
  case (Cons e m)
  then show ?case using Cons.IH [of "a @ [e]"] by (cases e) (simp add: hm_insert_fresh)
qed simp

lemma h_save_load:
  assumes "h_path x = Some p" "h_dirty x" "hm_wf (h_map x)"
    and "Option.bind (ser (h_image x)) de = Some (h_image x)" and "h_save ser fs x = (res, fs', x')"
  shows "res = Inr () \<and> h_load de fs' p = Inr (x\<lparr>h_dirty := False\<rparr>) \<and> x' = x\<lparr>h_dirty := False\<rparr>"
proof -
  obtain d where d: "ser (h_image x) = Some d" "de d = Some (h_image x)"
    using assms(4) by (cases "ser (h_image x)") auto
  then show ?thesis using assms(1,2,3,5)
    by (auto simp: h_save_def h_load_def read_file_def hm_simps h_image_def hm_rebuild [of _ "[]", simplified])
qed

section \<open>Properties\<close>

text \<open>
  C27. An index refines a map from keys to multisets of row ids: after any insertions and
  removals that succeed, on keys without NaN, the ids found under a key are those the
  specification computes.
\<close>

theorem index_refines_postings:
  assumes "ii_inv x" and "list_all (key_ok \<circ> op_key) ops" and "key_ok q" and "ii_run x ops = Inr y"
  shows "postings (ii_get q) y = foldl (spec_ids (ii_same x q)) (postings (ii_get q) x) ops"
  using inst.run_refines [OF assms(1-3)] assms(4) by (simp add: inst_run)

definition demo_index_ops :: "ix_op list" where
  "demo_index_ops = [AddRow (KInt 5) 1, AddRow (KUInt 5) 2, AddRow (KStr ''x'') 3, DelRow (KInt 5) 2]"

lemma index_refines_postings_witness:
  "\<exists>y. ii_run (IBTree (bt_new ''a'' False)) demo_index_ops = Inr y \<and> postings (ii_get (KUInt 5)) y = {#1#}"
proof -
  let ?x = "IBTree (bt_new ''a'' False)"
  have inv: "ii_inv ?x" by (simp add: bt_inv_def bt_new_def)
  obtain y where y: "ii_run ?x demo_index_ops = Inr y"
  proof -
    have "case ii_run ?x demo_index_ops of Inl _ \<Rightarrow> False | Inr _ \<Rightarrow> True" by code_simp
    then show ?thesis using that by (cases "ii_run ?x demo_index_ops") auto
  qed
  have same: "key_cmp (KUInt 5) (KInt 5) = Equal" "key_cmp (KUInt 5) (KUInt 5) = Equal"
    "key_cmp (KUInt 5) (KStr ''x'') = Less" by code_simp+
  have "postings (ii_get (KUInt 5)) ?x = {#}" by (simp add: postings_def bt_get_def bt_new_def)
  then have "postings (ii_get (KUInt 5)) y = {#1#}"
    using index_refines_postings [OF inv _ _ y, of "KUInt 5"] same by (simp add: demo_index_ops_def)
  with y show ?thesis by blast
qed

text \<open>
  C31. A unique index never holds two rows under equal keys: if no key has more than one row,
  this stays so through insertions (which are refused on a duplicate) and removals.
\<close>

theorem unique_index_at_most_one:
  assumes "ii_inv x" and "ii_unique x" and "list_all (key_ok \<circ> op_key) ops" and "ii_run x ops = Inr y"
    and "key_ok q" and "size (postings (ii_get q) x) \<le> 1"
  shows "size (postings (ii_get q) y) \<le> 1"
  using inst.unique_kept [OF assms(1-3) _ assms(5) ii_same_ids assms(6)] assms(4) by (simp add: inst_run)

lemma unique_index_at_most_one_witness:
  "\<exists>y. ii_run (IHash (h_new ''a'' True)) [AddRow (KInt 5) 1, AddRow (KInt 6) 2] = Inr y
     \<and> size (postings (ii_get (KInt 5)) y) \<le> 1"
proof -
  let ?x = "IHash (h_new ''a'' True)"
  let ?ops = "[AddRow (KInt 5) 1, AddRow (KInt 6) 2]"
  obtain y where y: "ii_run ?x ?ops = Inr y"
  proof -
    have "case ii_run ?x ?ops of Inl _ \<Rightarrow> False | Inr _ \<Rightarrow> True" by code_simp
    then show ?thesis using that by (cases "ii_run ?x ?ops") auto
  qed
  have "size (postings (ii_get (KInt 5)) y) \<le> 1"
    by (rule unique_index_at_most_one [OF _ _ _ y])
       (simp_all add: h_inv_def h_new_def postings_def h_get_def)
  with y show ?thesis by blast
qed

end
