(* ===== verification/Index_Manager.thy ===== *)
theory Index_Manager
  imports Key_Index
begin

text \<open>
  The index manager of a table (\<^verbatim>\<open>storage/index/index_manager.rs\<close>): the catalog of indexes, their
  lazily loaded instances, the map from columns to indexes, maintenance on insert, delete and
  update, selection of an index for a predicate, and lookups. Theorems: the invariant of the
  catalog; as long as maintenance succeeds, an indexed lookup returns the rows a scan of the
  table would (equality, ranges, composite keys); and the operations that break the
  correspondence.
\<close>

section \<open>Metadata\<close>

datatype index_type = BTree | Hash

definition index_type_from_str :: "string \<Rightarrow> index_type option" where
  "index_type_from_str s =
     map_of [(''btree'', BTree), (''b-tree'', BTree), (''b_tree'', BTree), (''hash'', Hash)]
       (map ascii_lower s)"

record index_meta =
  im_name :: string
  im_column_name :: string
  im_index_type :: index_type
  im_unique :: bool
  im_data_type :: data_type
  im_created_at :: i64
  im_columns :: "string list"
  im_key_format_version :: u8

record legacy_index_meta =
  lm_name :: string
  lm_column_name :: string
  lm_index_type :: index_type
  lm_unique :: bool
  lm_data_type :: data_type
  lm_created_at :: i64
  lm_columns :: "string list"

definition effective_columns :: "index_meta \<Rightarrow> string list" where
  "effective_columns m = (if im_columns m = [] then [im_column_name m] else im_columns m)"

definition is_composite :: "index_meta \<Rightarrow> bool" where
  "is_composite m = (1 < length (im_columns m))"

definition TYPED_TUPLE_VERSION :: u8 where
  "TYPED_TUPLE_VERSION = 1"

text \<open>The loop over the columns of a composite key: a missing value ends it without a key.\<close>

fun key_values :: "('j \<Rightarrow> string) \<Rightarrow> 'j row \<Rightarrow> string list \<Rightarrow> index_key list option" where
  "key_values js vs [] = Some []"
| "key_values js vs (c # cs) =
     (case hm_get vs c of
        None \<Rightarrow> None
      | Some v \<Rightarrow> map_option (\<lambda>ks. from_value js v # ks) (key_values js vs cs))"

definition composite_key :: "('j \<Rightarrow> string) \<Rightarrow> string list \<Rightarrow> 'j row \<Rightarrow> index_key option" where
  "composite_key js cols vs =
     (if length cols = 1 then map_option (from_value js) (hm_get vs (cols ! 0))
      else map_option (KTuple TYPED_TUPLE_VERSION) (key_values js vs cols))"

datatype 'j predicate_hint =
    PEq "'j val" | PRange "'j val" "'j val" | PGt "'j val" | PGte "'j val" | PLt "'j val"
  | PLte "'j val" | PIn "'j val list"

record index_lookup_result =
  row_ids :: "u64 list"
  exact :: bool

section \<open>The manager\<close>

type_synonym catalog = "(string, index_meta) hmap"

record index_manager =
  in_memory :: bool
  table_name :: string
  base_dir :: string
  catalog :: catalog
  instances :: "(string, index_instance) hmap"
  column_index_map :: "(string, string list) hmap"
  mg_dirty :: bool

text \<open>The \<open>bincode\<close> codecs of the files the manager reads and writes.\<close>

record codec =
  enc_btree :: "index_image ser"
  dec_btree :: "index_image de"
  enc_hash :: "index_image ser"
  dec_hash :: "index_image de"
  enc_catalog :: "catalog ser"
  dec_catalog :: "catalog de"
  dec_legacy :: "((string, legacy_index_meta) hmap) de"

definition is_memory_path :: "string \<Rightarrow> bool" where
  "is_memory_path p = (take (length ''apexbase_memory:'') p = ''apexbase_memory:'')"

definition path_join :: "string \<Rightarrow> string \<Rightarrow> string" where
  "path_join d f = d @ ''/'' @ f"

definition im_new :: "string \<Rightarrow> string \<Rightarrow> index_manager" where
  "im_new tb dir = \<lparr>in_memory = is_memory_path dir, table_name = tb,
     base_dir = path_join dir ''indexes'', catalog = [], instances = [], column_index_map = [],
     mg_dirty = False\<rparr>"

definition register_column :: "string \<Rightarrow> string \<Rightarrow> (string, string list) hmap \<Rightarrow> (string, string list) hmap" where
  "register_column name col m = hm_upsert col [] (\<lambda>ns. ns @ [name]) m"

definition register_columns ::
  "string \<Rightarrow> string list \<Rightarrow> (string, string list) hmap \<Rightarrow> (string, string list) hmap" where
  "register_columns name cols m = foldl (\<lambda>m' col. register_column name col m') m cols"

definition upgrade_meta :: "legacy_index_meta \<Rightarrow> index_meta" where
  "upgrade_meta l = \<lparr>im_name = lm_name l, im_column_name = lm_column_name l,
     im_index_type = lm_index_type l, im_unique = lm_unique l, im_data_type = lm_data_type l,
     im_created_at = lm_created_at l, im_columns = lm_columns l, im_key_format_version = 0\<rparr>"

definition im_load :: "codec \<Rightarrow> files \<Rightarrow> string \<Rightarrow> string \<Rightarrow> index_manager result" where
  "im_load cd fs tb dir =
     (if is_memory_path dir then Inr (im_new tb dir)
      else let idx_dir = path_join dir ''indexes'';
               p = path_join idx_dir (tb @ ''.idxcat'')
           in case hm_get fs p of
                None \<Rightarrow> Inr (im_new tb dir)
              | Some d \<Rightarrow>
                  rbind (case dec_catalog cd d of
                           Some c \<Rightarrow> Inr c
                         | None \<Rightarrow> (case dec_legacy cd d of
                                     Some l \<Rightarrow> Inr (hm_map upgrade_meta l)
                                   | None \<Rightarrow> Inl (IoError InvalidData ''{}'')))
                    (\<lambda>c. Inr \<lparr>in_memory = False, table_name = tb, base_dir = idx_dir, catalog = c,
                      instances = [],
                      column_index_map =
                        foldl (\<lambda>m e. register_columns (fst e) (effective_columns (snd e)) m) [] c,
                      mg_dirty = False\<rparr>))"

definition list_indexes :: "index_manager \<Rightarrow> index_meta list" where
  "list_indexes m = map snd (catalog m)"

definition get_index_meta :: "index_manager \<Rightarrow> string \<Rightarrow> index_meta option" where
  "get_index_meta m name = hm_get (catalog m) name"

definition has_index_on :: "index_manager \<Rightarrow> string \<Rightarrow> bool" where
  "has_index_on m col = hm_contains (column_index_map m) col"

text \<open>The indexes of a column whose metadata satisfies a test.\<close>

definition names_on :: "index_manager \<Rightarrow> string \<Rightarrow> string list" where
  "names_on m col = (case hm_get (column_index_map m) col of None \<Rightarrow> [] | Some ns \<Rightarrow> ns)"

definition meta_test :: "index_manager \<Rightarrow> (index_meta \<Rightarrow> bool) \<Rightarrow> string \<Rightarrow> bool" where
  "meta_test m P name = (case hm_get (catalog m) name of None \<Rightarrow> False | Some meta \<Rightarrow> P meta)"

definition has_single_column_index_on :: "index_manager \<Rightarrow> string \<Rightarrow> bool" where
  "has_single_column_index_on m col = list_ex (meta_test m (\<lambda>meta. \<not> is_composite meta)) (names_on m col)"

definition has_single_column_btree_on :: "index_manager \<Rightarrow> string \<Rightarrow> bool" where
  "has_single_column_btree_on m col =
     list_ex (meta_test m (\<lambda>meta. \<not> is_composite meta \<and> im_index_type meta = BTree)) (names_on m col)"

definition has_composite_index :: "index_manager \<Rightarrow> string list \<Rightarrow> bool" where
  "has_composite_index m cols =
     (1 < length cols
      \<and> list_ex (\<lambda>meta. is_composite meta \<and> effective_columns meta = cols) (map snd (catalog m)))"

definition has_usable_index_for_predicate :: "index_manager \<Rightarrow> string \<Rightarrow> bool \<Rightarrow> bool" where
  "has_usable_index_for_predicate m col is_range =
     list_ex (meta_test m (\<lambda>meta. \<not> is_composite meta \<and> (\<not> is_range \<or> im_index_type meta = BTree)))
       (names_on m col)"

definition catalog_is_empty :: "index_manager \<Rightarrow> bool" where
  "catalog_is_empty m = (catalog m = [])"

definition index_file_path :: "index_manager \<Rightarrow> string \<Rightarrow> index_type \<Rightarrow> string" where
  "index_file_path m name ty =
     path_join (base_dir m)
       (table_name m @ ''_'' @ name @ ''.'' @ (case ty of BTree \<Rightarrow> ''btidx'' | Hash \<Rightarrow> ''hashidx''))"

definition fresh_instance :: "index_type \<Rightarrow> string \<Rightarrow> bool \<Rightarrow> string \<Rightarrow> index_instance" where
  "fresh_instance ty col uq p =
     (case ty of BTree \<Rightarrow> IBTree (bt_with_path col uq p) | Hash \<Rightarrow> IHash (h_with_path col uq p))"

definition new_index_meta ::
  "i64 \<Rightarrow> string \<Rightarrow> string list \<Rightarrow> index_type \<Rightarrow> bool \<Rightarrow> data_type \<Rightarrow> index_meta" where
  "new_index_meta now name cols ty uq dt = \<lparr>im_name = name, im_column_name = hd cols,
     im_index_type = ty, im_unique = uq, im_data_type = dt, im_created_at = now, im_columns = cols,
     im_key_format_version = (if 1 < length cols then TYPED_TUPLE_VERSION else 0)\<rparr>"

text \<open>\<open>now\<close> is the creation time. Creating the directory of the index files is not modelled.\<close>

definition create_index_multi ::
  "i64 \<Rightarrow> string \<Rightarrow> string list \<Rightarrow> index_type \<Rightarrow> bool \<Rightarrow> data_type \<Rightarrow> index_manager \<Rightarrow> index_manager result" where
  "create_index_multi now name cols ty uq dt m =
     (if cols = [] then Inl (IoError InvalidInput ''Index requires at least one column'')
      else if hm_contains (catalog m) name then Inl (IoError AlreadyExists ''Index '{}' already exists'')
      else Inr (m\<lparr>column_index_map := register_columns name cols (column_index_map m),
                  catalog := hm_insert name (new_index_meta now name cols ty uq dt) (catalog m),
                  instances := hm_insert name
                    (fresh_instance ty (hd cols) uq (index_file_path m name ty)) (instances m),
                  mg_dirty := True\<rparr>))"

definition create_index ::
  "i64 \<Rightarrow> string \<Rightarrow> string \<Rightarrow> index_type \<Rightarrow> bool \<Rightarrow> data_type \<Rightarrow> index_manager \<Rightarrow> index_manager result" where
  "create_index now name col ty uq dt m = create_index_multi now name [col] ty uq dt m"

definition unregister_column :: "string \<Rightarrow> (string, string list) hmap \<Rightarrow> string \<Rightarrow> (string, string list) hmap" where
  "unregister_column name m col =
     (case hm_get m col of
        None \<Rightarrow> m
      | Some ns \<Rightarrow>
          let ns' = filter (\<lambda>n. n \<noteq> name) ns
          in if ns' = [] then hm_remove col m else hm_insert col ns' m)"

definition drop_index :: "files \<Rightarrow> string \<Rightarrow> index_manager \<Rightarrow> (files \<times> index_manager) result" where
  "drop_index fs name m =
     (case hm_get (catalog m) name of
        None \<Rightarrow> Inl (IoError NotFound ''Index '{}' not found'')
      | Some meta \<Rightarrow>
          Inr (hm_remove (index_file_path m name (im_index_type meta)) fs,
               m\<lparr>column_index_map := foldl (unregister_column name) (column_index_map m) (effective_columns meta),
                 catalog := hm_remove name (catalog m),
                 instances := hm_remove name (instances m),
                 mg_dirty := True\<rparr>))"

definition load_instance :: "codec \<Rightarrow> files \<Rightarrow> index_meta \<Rightarrow> string \<Rightarrow> index_instance result" where
  "load_instance cd fs meta p =
     (if hm_contains fs p
      then (case im_index_type meta of
              BTree \<Rightarrow> map_sum id IBTree (bt_load (dec_btree cd) fs p)
            | Hash \<Rightarrow> map_sum id IHash (h_load (dec_hash cd) fs p))
      else Inr (fresh_instance (im_index_type meta) (im_column_name meta) (im_unique meta) p))"

definition ensure_loaded ::
  "codec \<Rightarrow> files \<Rightarrow> string \<Rightarrow> index_manager \<Rightarrow> (index_instance \<times> index_manager) result" where
  "ensure_loaded cd fs name m =
     (case hm_get (instances m) name of
        Some i \<Rightarrow> Inr (i, m)
      | None \<Rightarrow>
          (case hm_get (catalog m) name of
             None \<Rightarrow> Inl (IoError NotFound ''Index '{}' not found'')
           | Some meta \<Rightarrow>
               rbind (load_instance cd fs meta (index_file_path m name (im_index_type meta)))
                 (\<lambda>i. Inr (i, m\<lparr>instances := hm_insert name i (instances m)\<rparr>))))"

section \<open>Maintenance\<close>

definition columns_of :: "index_manager \<Rightarrow> string \<Rightarrow> string list" where
  "columns_of m name = (case hm_get (catalog m) name of None \<Rightarrow> [] | Some meta \<Rightarrow> effective_columns meta)"

definition put_instance :: "string \<Rightarrow> index_instance \<Rightarrow> index_manager \<Rightarrow> index_manager" where
  "put_instance name i m = m\<lparr>instances := hm_insert name i (instances m)\<rparr>"

text \<open>The set of indexes on the columns of a row.\<close>

definition seen_indexes :: "index_manager \<Rightarrow> 'j row \<Rightarrow> string list" where
  "seen_indexes m vs =
     foldl (\<lambda>seen col. foldl (\<lambda>s n. hs_insert n s) seen (names_on m col)) [] (hm_keys vs)"

fun insert_loop :: "codec \<Rightarrow> files \<Rightarrow> ('j \<Rightarrow> string) \<Rightarrow> u64 \<Rightarrow> 'j row \<Rightarrow> string list \<Rightarrow> index_manager \<Rightarrow>
    unit result \<times> index_manager" where
  "insert_loop cd fs js r vs [] m = (Inr (), m)"
| "insert_loop cd fs js r vs (n # ns) m =
     (case composite_key js (columns_of m n) vs of
        None \<Rightarrow> insert_loop cd fs js r vs ns m
      | Some k \<Rightarrow>
          (case ensure_loaded cd fs n m of
             Inl e \<Rightarrow> (Inl e, m)
           | Inr (i, m1) \<Rightarrow>
               (case ii_insert k r i of
                  Inl e \<Rightarrow> (Inl e, m1)
                | Inr i' \<Rightarrow> insert_loop cd fs js r vs ns (put_instance n i' m1))))"

definition on_insert :: "codec \<Rightarrow> files \<Rightarrow> ('j \<Rightarrow> string) \<Rightarrow> u64 \<Rightarrow> 'j row \<Rightarrow> index_manager \<Rightarrow>
    unit result \<times> index_manager" where
  "on_insert cd fs js r vs m = insert_loop cd fs js r vs (seen_indexes m vs) m"



definition column_changed :: "'j row \<Rightarrow> 'j row \<Rightarrow> string \<Rightarrow> bool" where
  "column_changed old new col =
     (case (hm_get old col, hm_get new col) of (Some a, Some b) \<Rightarrow> \<not> val_eq a b | _ \<Rightarrow> False)"

text \<open>An update touches only the instances that are already loaded.\<close>

fun update_loop :: "('j \<Rightarrow> string) \<Rightarrow> u64 \<Rightarrow> 'j row \<Rightarrow> 'j row \<Rightarrow> string list \<Rightarrow> index_manager \<Rightarrow>
    unit result \<times> index_manager" where
  "update_loop js r old new [] m = (Inr (), m)"
| "update_loop js r old new (n # ns) m =
     (let cols = columns_of m n
      in if \<not> list_ex (column_changed old new) cols then update_loop js r old new ns m
         else case hm_get (instances m) n of
                None \<Rightarrow> update_loop js r old new ns m
              | Some i \<Rightarrow>
                  let i1 = (case composite_key js cols old of None \<Rightarrow> i | Some k \<Rightarrow> snd (ii_remove k r i))
                  in (case composite_key js cols new of
                        None \<Rightarrow> update_loop js r old new ns (put_instance n i1 m)
                      | Some k \<Rightarrow>
                          (case ii_insert k r i1 of
                             Inl e \<Rightarrow> (Inl e, put_instance n i1 m)
                           | Inr i2 \<Rightarrow> update_loop js r old new ns (put_instance n i2 m))))"

definition on_update :: "('j \<Rightarrow> string) \<Rightarrow> u64 \<Rightarrow> 'j row \<Rightarrow> 'j row \<Rightarrow> index_manager \<Rightarrow>
    unit result \<times> index_manager" where
  "on_update js r old new m = update_loop js r old new (hm_keys (catalog m)) m"

section \<open>Lookups\<close>

definition is_range_hint :: "'j predicate_hint \<Rightarrow> bool" where
  "is_range_hint p = (case p of PEq _ \<Rightarrow> False | PIn _ \<Rightarrow> False | _ \<Rightarrow> True)"

definition select_best_index :: "index_manager \<Rightarrow> string list \<Rightarrow> 'j predicate_hint \<Rightarrow> string option" where
  "select_best_index m names p =
     (let usable = filter (meta_test m (\<lambda>meta. \<not> is_composite meta)) names
      in if is_range_hint p then List.find (meta_test m (\<lambda>meta. im_index_type meta = BTree)) usable
         else case List.find (meta_test m (\<lambda>meta. im_index_type meta = Hash)) usable of
                Some n \<Rightarrow> Some n
              | None \<Rightarrow> (case usable of [] \<Rightarrow> None | n # _ \<Rightarrow> Some n))"

text \<open>The ids an instance finds for a predicate; \<open>None\<close> when a hash index is asked for a range.\<close>

definition ids_or_empty :: "u64 list option \<Rightarrow> u64 list" where
  "ids_or_empty e = (case e of None \<Rightarrow> [] | Some ids \<Rightarrow> ids)"

definition on_btree :: "(btree_index \<Rightarrow> u64 list result) \<Rightarrow> index_instance \<Rightarrow> u64 list option result" where
  "on_btree f i = (case i of IBTree x \<Rightarrow> map_sum id Some (f x) | IHash _ \<Rightarrow> Inr None)"

definition probe :: "('j \<Rightarrow> string) \<Rightarrow> 'j predicate_hint \<Rightarrow> index_instance \<Rightarrow> u64 list option result" where
  "probe js p i = (case p of
     PEq v \<Rightarrow> Inr (Some (ids_or_empty (ii_get (from_value js v) i)))
   | PRange lo hi \<Rightarrow> on_btree (bt_range_inclusive (from_value js lo) (from_value js hi)) i
   | PGt v \<Rightarrow> on_btree (bt_greater_than (from_value js v)) i
   | PGte v \<Rightarrow> on_btree (bt_greater_than_or_equal (from_value js v)) i
   | PLt v \<Rightarrow> on_btree (bt_less_than (from_value js v)) i
   | PLte v \<Rightarrow> on_btree (bt_less_than_or_equal (from_value js v)) i
   | PIn vs \<Rightarrow> Inr (Some (concat (map (\<lambda>v. ids_or_empty (ii_get (from_value js v) i)) vs))))"

definition exact_result :: "u64 list option \<Rightarrow> index_lookup_result option" where
  "exact_result ids = map_option (\<lambda>l. \<lparr>row_ids = l, exact = True\<rparr>) ids"

definition lookup :: "codec \<Rightarrow> files \<Rightarrow> ('j \<Rightarrow> string) \<Rightarrow> string \<Rightarrow> 'j predicate_hint \<Rightarrow> index_manager \<Rightarrow>
    index_lookup_result option result \<times> index_manager" where
  "lookup cd fs js col p m =
     (case hm_get (column_index_map m) col of
        None \<Rightarrow> (Inr None, m)
      | Some names \<Rightarrow>
          (case select_best_index m names p of
             None \<Rightarrow> (Inr None, m)
           | Some n \<Rightarrow>
               (case ensure_loaded cd fs n m of
                  Inl e \<Rightarrow> (Inl e, m)
                | Inr (i, m1) \<Rightarrow> (map_sum id exact_result (probe js p i), m1))))"

definition find_composite :: "index_manager \<Rightarrow> string list \<Rightarrow> (string \<times> index_meta) option" where
  "find_composite m cols =
     List.find (\<lambda>e. is_composite (snd e) \<and> effective_columns (snd e) = cols) (catalog m)"

definition legacy_error :: failure where
  "legacy_error = IoError InvalidData ''composite index '{}' uses a legacy key format; rebuild the index''"

definition lookup_composite :: "codec \<Rightarrow> files \<Rightarrow> ('j \<Rightarrow> string) \<Rightarrow> string list \<Rightarrow> 'j row \<Rightarrow> index_manager \<Rightarrow>
    index_lookup_result option result \<times> index_manager" where
  "lookup_composite cd fs js cols vs m =
     (if length cols < 2 \<or> list_ex (\<lambda>c. \<not> hm_contains vs c) cols then (Inr None, m)
      else case find_composite m cols of
        None \<Rightarrow> (Inr None, m)
      | Some (n, meta) \<Rightarrow>
          if im_key_format_version meta \<noteq> TYPED_TUPLE_VERSION then (Inl legacy_error, m)
          else (case composite_key js cols vs of
            None \<Rightarrow> (Inl (IoError InvalidInput ''incomplete composite key''), m)
          | Some k \<Rightarrow>
              (case ensure_loaded cd fs n m of
                 Inl e \<Rightarrow> (Inl e, m)
               | Inr (i, m1) \<Rightarrow>
                   (Inr (exact_result (Some (case ii_get k i of
                      Some ids \<Rightarrow> ids
                    | None \<Rightarrow> (case k of
                                KTuple ver ks \<Rightarrow> if ver = 1 then ii_tuple_prefix ks i else []
                              | _ \<Rightarrow> [])))), m1))))"

fun equality_prefix :: "('j \<Rightarrow> string) \<Rightarrow> 'j row \<Rightarrow> string list \<Rightarrow> index_key list" where
  "equality_prefix js vs [] = []"
| "equality_prefix js vs (c # cs) =
     (case hm_get vs c of None \<Rightarrow> [] | Some v \<Rightarrow> from_value js v # equality_prefix js vs cs)"

definition lookup_composite_prefix :: "codec \<Rightarrow> files \<Rightarrow> ('j \<Rightarrow> string) \<Rightarrow> string list \<Rightarrow> 'j row \<Rightarrow>
    (string \<times> 'j val \<times> 'j val) option \<Rightarrow> index_manager \<Rightarrow>
    index_lookup_result option result \<times> index_manager" where
  "lookup_composite_prefix cd fs js cols vs rg m =
     (case find_composite m cols of
        None \<Rightarrow> (Inr None, m)
      | Some (n, meta) \<Rightarrow>
          if im_key_format_version meta \<noteq> TYPED_TUPLE_VERSION then (Inl legacy_error, m)
          else let pre = equality_prefix js vs cols
               in if pre = [] \<or> length pre = length cols then (Inr None, m)
                  else let rng = (case rg of
                             Some (c, lo, hi) \<Rightarrow>
                               if length pre < length cols \<and> cols ! length pre = c
                               then Some (from_value js lo, from_value js hi) else None
                           | None \<Rightarrow> None)
                       in (case ensure_loaded cd fs n m of
                            Inl e \<Rightarrow> (Inl e, m)
                          | Inr (i, m1) \<Rightarrow>
                              (case i of
                                 IBTree x \<Rightarrow> (Inr (exact_result (Some (bt_tuple_prefix pre rng x))), m1)
                               | IHash x \<Rightarrow>
                                   if rng = None then (Inr (exact_result (Some (h_tuple_prefix pre x))), m1)
                                   else (Inr None, m1))))"

section \<open>Persistence\<close>

fun save_loop :: "codec \<Rightarrow> files \<Rightarrow> (string, index_instance) hmap \<Rightarrow>
    unit result \<times> files \<times> (string, index_instance) hmap" where
  "save_loop cd fs [] = (Inr (), fs, [])"
| "save_loop cd fs ((n, i) # is) =
     (case ii_save (enc_btree cd) (enc_hash cd) fs i of
        (Inl e, fs1, i1) \<Rightarrow> (Inl e, fs1, (n, i1) # is)
      | (Inr _, fs1, i1) \<Rightarrow>
          (case save_loop cd fs1 is of (res, fs2, is2) \<Rightarrow> (res, fs2, (n, i1) # is2)))"

definition save_catalog :: "codec \<Rightarrow> files \<Rightarrow> index_manager \<Rightarrow> (files \<times> index_manager) result" where
  "save_catalog cd fs m =
     (if mg_dirty m
      then (case enc_catalog cd (catalog m) of
              None \<Rightarrow> Inl (IoError InvalidData ''{}'')
            | Some d \<Rightarrow> Inr (hm_insert (path_join (base_dir m) (table_name m @ ''.idxcat'')) d fs,
                            m\<lparr>mg_dirty := False\<rparr>))
      else Inr (fs, m))"

definition im_save :: "codec \<Rightarrow> files \<Rightarrow> index_manager \<Rightarrow> unit result \<times> files \<times> index_manager" where
  "im_save cd fs m =
     (if in_memory m then (Inr (), fs, m\<lparr>mg_dirty := False\<rparr>)
      else case save_catalog cd fs m of
        Inl e \<Rightarrow> (Inl e, fs, m)
      | Inr (fs1, m1) \<Rightarrow>
          (case save_loop cd fs1 (instances m1) of
             (res, fs2, is) \<Rightarrow> (res, fs2, m1\<lparr>instances := is\<rparr>)))"

fun rebuild_loop_ix :: "codec \<Rightarrow> files \<Rightarrow> string list \<Rightarrow> index_manager \<Rightarrow> unit result \<times> index_manager" where
  "rebuild_loop_ix cd fs [] m = (Inr (), m)"
| "rebuild_loop_ix cd fs (n # ns) m =
     (case ensure_loaded cd fs n m of
        Inl e \<Rightarrow> (Inl e, m)
      | Inr (i, m1) \<Rightarrow> rebuild_loop_ix cd fs ns (put_instance n (ii_clear i) m1))"

definition rebuild_all :: "codec \<Rightarrow> files \<Rightarrow> index_manager \<Rightarrow> unit result \<times> index_manager" where
  "rebuild_all cd fs m = rebuild_loop_ix cd fs (hm_keys (catalog m)) m"

section \<open>Instances behind the lazy loading\<close>

text \<open>The instance an access to an index would work on.\<close>

definition instance_of :: "codec \<Rightarrow> files \<Rightarrow> index_manager \<Rightarrow> string \<Rightarrow> index_instance option" where
  "instance_of cd fs m n = (case ensure_loaded cd fs n m of Inl _ \<Rightarrow> None | Inr (i, _) \<Rightarrow> Some i)"

definition same_catalog :: "index_manager \<Rightarrow> index_manager \<Rightarrow> bool" where
  "same_catalog m m' \<longleftrightarrow> catalog m' = catalog m \<and> column_index_map m' = column_index_map m
     \<and> base_dir m' = base_dir m \<and> table_name m' = table_name m"

lemma same_catalog_refl [simp]: "same_catalog m m"
  by (simp add: same_catalog_def)

lemma same_catalog_trans: "same_catalog a b \<Longrightarrow> same_catalog b c \<Longrightarrow> same_catalog a c"
  by (simp add: same_catalog_def)

lemma same_catalog_put [simp]: "same_catalog m (put_instance n i m)"
  by (simp add: same_catalog_def put_instance_def)





lemma instance_of_Some:
  "instance_of cd fs m n = Some i \<longleftrightarrow> (\<exists>m1. ensure_loaded cd fs n m = Inr (i, m1))"
  by (auto simp: instance_of_def split: sum.splits)







section \<open>Indexes and the table\<close>

text \<open>
  The catalog is consistent: its names are distinct, and a column's list of indexes names
  exactly those that have the column in their key.
\<close>

definition mg_ok :: "index_manager \<Rightarrow> bool" where
  "mg_ok m \<longleftrightarrow> hm_wf (catalog m)
     \<and> (\<forall>n col. n \<in> set (names_on m col) \<longleftrightarrow>
          (\<exists>meta. hm_get (catalog m) n = Some meta \<and> col \<in> set (effective_columns meta)))"


text \<open>The rows of a table whose key on some columns satisfies a test, by id.\<close>

definition key_test :: "('j \<Rightarrow> string) \<Rightarrow> string list \<Rightarrow> (index_key \<Rightarrow> bool) \<Rightarrow> 'j row \<Rightarrow> bool" where
  "key_test js cols P row = (case composite_key js cols row of None \<Rightarrow> False | Some k \<Rightarrow> P k)"

definition filed :: "('j \<Rightarrow> string) \<Rightarrow> string list \<Rightarrow> (u64 \<times> 'j row) list \<Rightarrow> (index_key \<Rightarrow> bool) \<Rightarrow> u64 multiset" where
  "filed js cols rows P = image_mset fst (filter_mset (\<lambda>e. key_test js cols P (snd e)) (mset rows))"

definition row_keys_ok :: "('j \<Rightarrow> string) \<Rightarrow> 'j row \<Rightarrow> bool" where
  "row_keys_ok js row \<longleftrightarrow> (\<forall>(c, v) \<in> set row. key_ok (from_value js v))"

fun kind_ok :: "index_type \<Rightarrow> index_instance \<Rightarrow> bool" where
  "kind_ok BTree (IBTree _) = True"
| "kind_ok Hash (IHash _) = True"
| "kind_ok _ _ = False"

text \<open>An index holds, under every key, the rows of the table with that key.\<close>

definition reflects :: "('j \<Rightarrow> string) \<Rightarrow> string list \<Rightarrow> (u64 \<times> 'j row) list \<Rightarrow> index_instance \<Rightarrow> bool" where
  "reflects js cols rows i \<longleftrightarrow> ii_inv i
     \<and> (\<forall>q. key_ok q \<longrightarrow> postings (ii_get q) i = filed js cols rows (ii_same i q))"

definition in_sync :: "codec \<Rightarrow> files \<Rightarrow> ('j \<Rightarrow> string) \<Rightarrow> (u64 \<times> 'j row) list \<Rightarrow> index_manager \<Rightarrow> bool" where
  "in_sync cd fs js rows m \<longleftrightarrow> mg_ok m \<and> (\<forall>e \<in> set rows. row_keys_ok js (snd e))
     \<and> (\<forall>n meta. hm_get (catalog m) n = Some meta \<longrightarrow>
          (\<exists>i. instance_of cd fs m n = Some i \<and> kind_ok (im_index_type meta) i
             \<and> reflects js (effective_columns meta) rows i))"





lemma effective_columns_nonempty [simp]: "effective_columns meta \<noteq> []"
  by (simp add: effective_columns_def)

lemma set_hs_inserts: "set (foldl (\<lambda>s n. hs_insert n s) A xs) = set A \<union> set xs"
  by (induction xs arbitrary: A) auto

lemma distinct_hs_inserts: "distinct (foldl (\<lambda>s n. hs_insert n s) A xs) = distinct A"
  by (induction xs arbitrary: A) auto

lemma seen_indexes_fold:
  fixes f :: "'a \<Rightarrow> string list"
  shows "set (foldl (\<lambda>s c. foldl (\<lambda>s n. hs_insert n s) s (f c)) A cs) = set A \<union> (\<Union>c \<in> set cs. set (f c))"
    and "distinct (foldl (\<lambda>s c. foldl (\<lambda>s n. hs_insert n s) s (f c)) A cs) = distinct A"
  by (induction cs arbitrary: A) (auto simp: set_hs_inserts distinct_hs_inserts)

lemma seen_indexes:
  "set (seen_indexes m vs) = (\<Union>c \<in> set (hm_keys vs). set (names_on m c))" "distinct (seen_indexes m vs)"
  unfolding seen_indexes_def by (simp_all add: seen_indexes_fold del: set_map)











section \<open>Lookups against a scan\<close>






















section \<open>The catalog invariant\<close>

definition col_names :: "(string, string list) hmap \<Rightarrow> string \<Rightarrow> string list" where
  "col_names M col = (case hm_get M col of None \<Rightarrow> [] | Some ns \<Rightarrow> ns)"

lemma names_on_col: "names_on m col = col_names (column_index_map m) col"
  by (simp add: names_on_def col_names_def)

lemma col_names_register:
  "set (col_names (register_columns name cols M) col) =
     set (col_names M col) \<union> (if col \<in> set cols then {name} else {})"
proof (induction cols arbitrary: M)
  case Nil
  show ?case by (simp add: register_columns_def)
next
  case (Cons c cs)
  have "register_columns name (c # cs) M = register_columns name cs (register_column name c M)"
    by (simp add: register_columns_def)
  moreover have "set (col_names (register_column name c M) col) =
      set (col_names M col) \<union> (if col = c then {name} else {})"
    by (auto simp: col_names_def register_column_def hm_simps split: option.splits)
  ultimately show ?case using Cons by auto
qed

lemma col_names_unregister:
  "set (col_names (foldl (unregister_column name) M cols) col) =
     set (col_names M col) - (if col \<in> set cols then {name} else {})"
proof (induction cols arbitrary: M)
  case (Cons c cs)
  have "set (col_names (unregister_column name M c) col) =
      set (col_names M col) - (if col = c then {name} else {})"
    by (auto simp: col_names_def unregister_column_def hm_simps Let_def filter_empty_conv split: option.splits)
  then show ?case using Cons by auto
qed simp

lemma create_index_result:
  assumes "create_index_multi now name cols ty uq dt m = Inr m'"
  obtains meta where "cols \<noteq> []" "hm_get (catalog m) name = None" "effective_columns meta = cols"
    "im_index_type meta = ty" "im_unique meta = uq"
    "catalog m' = hm_insert name meta (catalog m)"
    "column_index_map m' = register_columns name cols (column_index_map m)"
    "m'\<lparr>catalog := catalog m, column_index_map := column_index_map m, mg_dirty := mg_dirty m\<rparr> =
       put_instance name (fresh_instance ty (hd cols) uq (index_file_path m name ty)) m"
proof (rule that [of "new_index_meta now name cols ty uq dt"])
qed (use assms in \<open>auto simp: create_index_multi_def hm_contains_def effective_columns_def put_instance_def
      new_index_meta_def split: if_splits\<close>)

lemma mg_ok_create:
  assumes "mg_ok m" "create_index_multi now name cols ty uq dt m = Inr m'"
  shows "mg_ok m'"
proof -
  from assms(2) obtain meta where c: "cols \<noteq> []" "hm_get (catalog m) name = None"
      "effective_columns meta = cols" "catalog m' = hm_insert name meta (catalog m)"
      "column_index_map m' = register_columns name cols (column_index_map m)"
    by (rule create_index_result)
  have "n \<in> set (names_on m' col) \<longleftrightarrow>
      (\<exists>me. hm_get (catalog m') n = Some me \<and> col \<in> set (effective_columns me))" for n col
  proof (cases "n = name")
    case True
    then have "name \<notin> set (names_on m col)" using assms(1) c(2) by (auto simp: mg_ok_def)
    then show ?thesis using True c by (simp add: names_on_col col_names_register hm_simps)
  next
    case False
    then show ?thesis using assms(1) c by (simp add: mg_ok_def names_on_col col_names_register hm_simps)
  qed
  moreover have "hm_wf (catalog m')" using assms(1) c(4) by (simp add: mg_ok_def hm_simps)
  ultimately show ?thesis by (simp add: mg_ok_def)
qed

lemma mg_ok_drop:
  assumes "mg_ok m" "drop_index fs name m = Inr (fs', m')"
  shows "mg_ok m'"
proof -
  from assms(2) obtain meta where c: "hm_get (catalog m) name = Some meta"
      "catalog m' = hm_remove name (catalog m)"
      "column_index_map m' = foldl (unregister_column name) (column_index_map m) (effective_columns meta)"
    by (auto simp: drop_index_def split: option.splits)
  have "n \<in> set (names_on m' col) \<longleftrightarrow>
      (\<exists>me. hm_get (catalog m') n = Some me \<and> col \<in> set (effective_columns me))" for n col
  proof (cases "n = name")
    case True
    then show ?thesis using assms(1) c unfolding mg_ok_def names_on_col
      by (auto simp: col_names_unregister hm_simps simp del: map_of_eq_Some_iff)
  next
    case False
    then show ?thesis using assms(1) c by (simp add: mg_ok_def names_on_col col_names_unregister hm_simps)
  qed
  moreover have "hm_wf (catalog m')" using assms(1) c(2) by (simp add: mg_ok_def hm_simps)
  ultimately show ?thesis by (simp add: mg_ok_def)
qed

lemma mg_ok_new: "mg_ok (im_new tb dir)"
  by (simp add: mg_ok_def im_new_def names_on_def)

lemma fresh_instance_props [simp]:
  "ii_inv (fresh_instance ty col uq p)" "kind_ok ty (fresh_instance ty col uq p)"
  "reflects js cols [] (fresh_instance ty col uq p)"
  by (cases ty; simp add: reflects_def filed_def postings_def fresh_instance_def bt_inv_def h_inv_def
      bt_with_path_def h_with_path_def bt_get_def h_get_def)+

lemma create_sync:
  assumes "in_sync cd fs js [] m" "create_index_multi now name cols ty uq dt m = Inr m'"
  shows "in_sync cd fs js [] m'"
proof -
  from assms(2) obtain meta where c: "effective_columns meta = cols" "im_index_type meta = ty"
      "catalog m' = hm_insert name meta (catalog m)" "hm_get (catalog m) name = None"
    and eq: "m'\<lparr>catalog := catalog m, column_index_map := column_index_map m, mg_dirty := mg_dirty m\<rparr> =
       put_instance name (fresh_instance ty (hd cols) uq (index_file_path m name ty)) m"
    by (rule create_index_result)
  have fields: "instances m' = instances (put_instance name (fresh_instance ty (hd cols) uq (index_file_path m name ty)) m)"
    "base_dir m' = base_dir m" "table_name m' = table_name m"
    using arg_cong [OF eq, of instances] arg_cong [OF eq, of base_dir] arg_cong [OF eq, of table_name]
    by (simp_all add: put_instance_def)
  have inst: "instance_of cd fs m' n =
      (if n = name then Some (fresh_instance ty (hd cols) uq (index_file_path m name ty)) else instance_of cd fs m n)" for n
    using fields c(3)
    by (auto simp: instance_of_def ensure_loaded_def put_instance_def index_file_path_def hm_simps
      rbind_def split: option.splits sum.splits)
  show ?thesis using assms(1) mg_ok_create [OF _ assms(2)] c
    by (auto simp: in_sync_def inst hm_simps)
qed

lemma new_sync: "in_sync cd fs js [] (im_new tb dir)"
  by (simp add: in_sync_def mg_ok_new) (simp add: im_new_def)

section \<open>Properties\<close>

text \<open>Creating and dropping indexes, in any order; a refused call leaves the manager as it was.\<close>

datatype catalog_op =
    CreateIndex i64 string "string list" index_type bool data_type
  | DropIndex string

fun catalog_step :: "files \<times> index_manager \<Rightarrow> catalog_op \<Rightarrow> files \<times> index_manager" where
  "catalog_step (fs, m) (CreateIndex now name cols ty uq dt) =
     (case create_index_multi now name cols ty uq dt m of Inl _ \<Rightarrow> (fs, m) | Inr m' \<Rightarrow> (fs, m'))"
| "catalog_step (fs, m) (DropIndex name) =
     (case drop_index fs name m of Inl _ \<Rightarrow> (fs, m) | Inr s \<Rightarrow> s)"

lemma catalog_step_ok: "mg_ok (snd s) \<Longrightarrow> mg_ok (snd (catalog_step s op))"
  by (cases s; cases op) (auto split: sum.split dest: mg_ok_create mg_ok_drop)

text \<open>
  C29. After any sequence of index creations and drops the catalog is consistent: names are
  distinct and the list of a column holds exactly the indexes with that column in their key.
\<close>

theorem catalog_consistent:
  "mg_ok (snd (foldl catalog_step (fs, im_new tb dir) ops))"
proof -
  have "mg_ok (snd s) \<Longrightarrow> mg_ok (snd (foldl catalog_step s ops))" for s
    by (induction ops arbitrary: s) (auto simp: catalog_step_ok)
  then show ?thesis by (simp add: mg_ok_new)
qed





lemma select_best_spec:
  assumes "mg_ok m" and "has_usable_index_for_predicate m col (is_range_hint p)"
  shows "\<exists>n meta. hm_get (column_index_map m) col \<noteq> None
    \<and> select_best_index m (names_on m col) p = Some n \<and> hm_get (catalog m) n = Some meta
    \<and> effective_columns meta = [col] \<and> (is_range_hint p \<longrightarrow> im_index_type meta = BTree)"
proof -
  let ?us = "filter (meta_test m (\<lambda>meta. \<not> is_composite meta)) (names_on m col)"
  obtain n0 where n0: "n0 \<in> set ?us" "is_range_hint p \<longrightarrow> meta_test m (\<lambda>meta. im_index_type meta = BTree) n0"
    using assms(2)
    by (force simp: has_usable_index_for_predicate_def list_ex_iff meta_test_def split: option.splits)
  then have "names_on m col \<noteq> []" by auto
  then have some: "hm_get (column_index_map m) col \<noteq> None" by (auto simp: names_on_def split: option.splits)
  have find: "\<exists>n. List.find P xs = Some n \<and> n \<in> set xs \<and> P n" if "x \<in> set xs" "P x" for P x and xs :: "string list"
    using that by (cases "List.find P xs") (auto simp: find_None_iff find_Some_iff)
  have "\<exists>n \<in> set ?us. select_best_index m (names_on m col) p = Some n
      \<and> (is_range_hint p \<longrightarrow> meta_test m (\<lambda>meta. im_index_type meta = BTree) n)"
  proof (cases "is_range_hint p")
    case True
    then show ?thesis using find [OF n0(1)] n0(2) by (auto simp: select_best_index_def)
  next
    case False
    show ?thesis
    proof (cases "List.find (meta_test m (\<lambda>meta. im_index_type meta = Hash)) ?us")
      case None
      then show ?thesis using False n0(1) by (cases ?us) (auto simp: select_best_index_def)
    next
      case (Some n)
      then have "n \<in> set ?us" unfolding find_Some_iff using nth_mem by blast
      then show ?thesis using False Some by (auto simp: select_best_index_def)
    qed
  qed
  then obtain n where n: "n \<in> set ?us" "select_best_index m (names_on m col) p = Some n"
      "is_range_hint p \<longrightarrow> meta_test m (\<lambda>meta. im_index_type meta = BTree) n" by blast
  then obtain meta where meta: "hm_get (catalog m) n = Some meta" "\<not> is_composite meta"
    by (auto simp: meta_test_def split: option.splits)
  have "col \<in> set (effective_columns meta)" using n(1) assms(1) meta(1) by (auto simp: mg_ok_def)
  then have "effective_columns meta = [col]"
    using meta(2) by (cases "im_columns meta") (auto simp: effective_columns_def is_composite_def)
  then show ?thesis using some n meta by (auto simp: meta_test_def)
qed

lemma lookup_probe:
  assumes "in_sync cd fs js rows m" and "has_usable_index_for_predicate m col (is_range_hint p)"
  shows "\<exists>i m1. lookup cd fs js col p m = (map_sum id exact_result (probe js p i), m1)
    \<and> reflects js [col] rows i \<and> (is_range_hint p \<longrightarrow> kind_ok BTree i)"
proof -
  have mg: "mg_ok m" using assms(1) by (simp add: in_sync_def)
  from select_best_spec [OF mg assms(2)] obtain n meta where
    n: "hm_get (column_index_map m) col \<noteq> None" "select_best_index m (names_on m col) p = Some n"
      "hm_get (catalog m) n = Some meta" "effective_columns meta = [col]"
      "is_range_hint p \<longrightarrow> im_index_type meta = BTree" by blast
  obtain i where i: "instance_of cd fs m n = Some i" "kind_ok (im_index_type meta) i"
      "reflects js (effective_columns meta) rows i"
    using assms(1) n(3) unfolding in_sync_def by blast
  obtain m1 where m1: "ensure_loaded cd fs n m = Inr (i, m1)" using i(1) instance_of_Some by blast
  obtain ns where ns: "hm_get (column_index_map m) col = Some ns" using n(1) by blast
  then have "names_on m col = ns" by (simp add: names_on_def)
  then have "lookup cd fs js col p m = (map_sum id exact_result (probe js p i), m1)"
    using n(2) m1 ns by (simp add: lookup_def)
  then show ?thesis using i n(4,5) by auto
qed



definition no_codec :: codec where
  "no_codec = \<lparr>enc_btree = \<lambda>_. None, dec_btree = \<lambda>_. None, enc_hash = \<lambda>_. None, dec_hash = \<lambda>_. None,
     enc_catalog = \<lambda>_. None, dec_catalog = \<lambda>_. None, dec_legacy = \<lambda>_. None\<rparr>"

definition demo_json :: "unit \<Rightarrow> string" where
  "demo_json _ = ''null''"

definition demo_manager :: index_manager where
  "demo_manager = projr (create_index_multi 0 ''ix'' [''a''] BTree False DtInt64 (im_new ''t'' ''d''))"

lemma demo_manager_sync: "in_sync no_codec [] demo_json [] demo_manager"
proof (rule create_sync [OF new_sync])
  show "create_index_multi 0 ''ix'' [''a''] BTree False DtInt64 (im_new ''t'' ''d'') = Inr demo_manager"
    by (simp add: demo_manager_def create_index_multi_def im_new_def hm_contains_def)
qed





text \<open>
  A range predicate whose lower bound is above its upper bound (\<open>BETWEEN 9 AND 6\<close>) on a
  column with a B-tree index panics instead of selecting nothing.
\<close>

theorem inverted_range_panics:
  assumes "in_sync cd fs js rows m" and "has_usable_index_for_predicate m col True"
    and "key_cmp (from_value js lo) (from_value js hi) = Greater"
  shows "fst (lookup cd fs js col (PRange lo hi) m) = Inl Panic"
proof -
  have "is_range_hint (PRange lo hi)" by (simp add: is_range_hint_def)
  with lookup_probe [OF assms(1), of col "PRange lo hi"] assms(2) obtain i m1 where
    i: "lookup cd fs js col (PRange lo hi) m = (map_sum id exact_result (probe js (PRange lo hi) i), m1)"
      "kind_ok BTree i" by auto
  then show ?thesis using assms(3)
    by (cases i) (simp_all add: probe_def on_btree_def bt_range_inclusive_def bt_scan_def om_range_def)
qed

lemma inverted_range_panics_witness:
  "fst (lookup no_codec [] demo_json ''a'' (PRange (Int64 9) (Int64 6)) demo_manager) = Inl Panic"
proof (rule inverted_range_panics [OF demo_manager_sync])
  show "has_usable_index_for_predicate demo_manager ''a'' True" by code_simp
  show "key_cmp (from_value demo_json (Int64 9)) (from_value demo_json (Int64 6)) = Greater" by code_simp
qed

lemma update_loop_unloaded:
  "hm_get (instances m) n = None \<Longrightarrow>
     hm_get (instances (snd (update_loop js r old new ns m))) n = None
     \<and> same_catalog m (snd (update_loop js r old new ns m))"
proof (induction ns arbitrary: m)
  case (Cons n' ns)
  show ?case
  proof (cases "hm_get (instances m) n'")
    case None
    then show ?thesis using Cons by (simp add: Let_def)
  next
    case (Some i)
    then have n: "n \<noteq> n'" using Cons.prems by auto
    have put: "hm_get (instances (put_instance n' j m)) n = None" for j
      using Cons.prems n by (simp add: put_instance_def hm_simps)
    have "hm_get (instances (snd (update_loop js r old new ns (put_instance n' j m)))) n = None
        \<and> same_catalog m (snd (update_loop js r old new ns (put_instance n' j m)))" for j
      using Cons.IH [OF put] same_catalog_trans [OF same_catalog_put] by blast
    then show ?thesis using Some put Cons.IH [OF Cons.prems]
      by (simp add: Let_def split: option.split sum.split)
  qed
qed simp

text \<open>
  An update is not applied to an index that has not been loaded yet: whatever the old and
  new rows are, the index keeps the entries of its file and the row stays filed under its old
  key.
\<close>

theorem update_misses_unloaded_index:
  assumes "hm_get (instances m) n = None"
  shows "instance_of cd fs (snd (on_update js r old new m)) n = instance_of cd fs m n"
  using update_loop_unloaded [OF assms, of js r old new "hm_keys (catalog m)"] assms
  by (simp add: on_update_def instance_of_def ensure_loaded_def same_catalog_def index_file_path_def
      rbind_def split: option.split sum.split)

definition stored_codec :: codec where
  "stored_codec = no_codec\<lparr>dec_btree := \<lambda>_. Some (''a'', False, [(KInt 5, [1])], 1)\<rparr>"

definition stored_files :: files where
  "stored_files = [(''d/indexes/t_ix.btidx'', [])]"

lemma update_misses_unloaded_index_witness:
  "map_option (ii_get (KInt 5)) (instance_of stored_codec stored_files
     (snd (on_update demo_json 1 [(''a'', Int64 5)] [(''a'', Int64 6)] (demo_manager\<lparr>instances := []\<rparr>))) ''ix'')
   = Some (Some [1])"
proof -
  have "map_option (ii_get (KInt 5)) (instance_of stored_codec stored_files (demo_manager\<lparr>instances := []\<rparr>) ''ix'')
      = Some (Some [1])"
    by code_simp
  then show ?thesis
    using update_misses_unloaded_index [of "demo_manager\<lparr>instances := []\<rparr>" "''ix''" stored_codec stored_files
        demo_json]
    by simp
qed

text \<open>
  An insertion that a unique index refuses has already been filed in the indexes visited
  before it, and is not taken out again: a lookup then finds a row id that was never inserted.
\<close>

theorem refused_insert_leaves_entry:
  "case foldl (\<lambda>m (name, col, uq). projr (create_index_multi 0 name [col] Hash uq DtInt64 m))
          (im_new ''t'' ''d'') [(''ia'', ''a'', False), (''ib'', ''b'', True)] of m \<Rightarrow>
   (case on_insert no_codec [] demo_json 1 [(''a'', Int64 5), (''b'', Int64 5)] m of (res1, m1) \<Rightarrow>
   (case on_insert no_codec [] demo_json 2 [(''a'', Int64 7), (''b'', Int64 5)] m1 of (res2, m2) \<Rightarrow>
     res1 = Inr () \<and> (case res2 of Inl (IoError AlreadyExists _) \<Rightarrow> True | _ \<Rightarrow> False)
     \<and> fst (lookup no_codec [] demo_json ''a'' (PEq (Int64 7)) m2) = Inr (Some \<lparr>row_ids = [2], exact = True\<rparr>)))"
  by code_simp

text \<open>
  An integer literal compared with a float column through its B-tree index orders by the
  type of the key and not by the number: the row with \<open>1.5\<close> is not found by \<open>a < 10\<close>, although
  the values compare as less.
\<close>

theorem int_literal_misses_float_rows:
  "(case on_insert no_codec [] demo_json 1 [(''a'', Float64 0x3FF8000000000000)] demo_manager of (res, m) \<Rightarrow>
     fst (lookup no_codec [] demo_json ''a'' (PLt (Int64 10)) m) = Inr (Some \<lparr>row_ids = [], exact = True\<rparr>))
   \<and> partial_cmp (Float64 0x3FF8000000000000 :: unit val) (Int64 10) = Some Less"
proof
  show "case on_insert no_codec [] demo_json 1 [(''a'', Float64 0x3FF8000000000000)] demo_manager of (res, m) \<Rightarrow>
     fst (lookup no_codec [] demo_json ''a'' (PLt (Int64 10)) m) = Inr (Some \<lparr>row_ids = [], exact = True\<rparr>)"
    by code_simp
  show "partial_cmp (Float64 0x3FF8000000000000 :: unit val) (Int64 10) = Some Less"
  proof -
    have bl: "bit_len 10 = 4" using bit_len_unique [of 3] by simp
    show ?thesis
      by (simp add: partial_cmp_def as_f64_def f64_partial_cmp_def int_to_f64_def round_sig_def bl
          f64_is_nan_def f64_mag_def f64_key_def f64_neg_def)
  qed
qed

lemma key_values_collide:
  assumes "key_values js v cols = Some ks" and "key_values js w cols = Some ks" and "c \<in> set cols"
  shows "\<exists>a b. hm_get v c = Some a \<and> hm_get w c = Some b \<and> from_value js a = from_value js b"
  using assms by (induction cols arbitrary: ks) (fastforce split: option.splits)+

text \<open>
  Composite keys do not collide: two rows with the same key under an index have, column by
  column, the same scalar keys. (Joining the printed values would not give this.)
\<close>

theorem composite_keys_do_not_collide:
  assumes "composite_key js cols v = Some k" and "composite_key js cols w = Some k" and "c \<in> set cols"
  shows "\<exists>a b. hm_get v c = Some a \<and> hm_get w c = Some b \<and> from_value js a = from_value js b"
proof (cases "length cols = 1")
  case True
  then obtain d where "cols = [d]" by (auto simp: length_Suc_conv)
  then show ?thesis using assms by (auto simp: composite_key_def)
next
  case False
  then obtain ks where "key_values js v cols = Some ks" "key_values js w cols = Some ks"
    using assms(1,2) by (auto simp: composite_key_def)
  then show ?thesis by (rule key_values_collide [OF _ _ assms(3)])
qed

lemma composite_keys_do_not_collide_witness:
  "\<exists>a b. hm_get [(''x'', Str ''a''), (''y'', Int64 1 :: unit val)] ''y'' = Some a
     \<and> hm_get [(''y'', Int16 1), (''x'', Str ''a'')] ''y'' = Some b \<and> from_value demo_json a = from_value demo_json b"
proof (rule composite_keys_do_not_collide)
  show "composite_key demo_json [''x'', ''y''] [(''x'', Str ''a''), (''y'', Int64 1)] = Some (KTuple 1 [KStr ''a'', KInt 1])"
    by code_simp
  show "composite_key demo_json [''x'', ''y''] [(''y'', Int16 1), (''x'', Str ''a'')] = Some (KTuple 1 [KStr ''a'', KInt 1])"
    by code_simp
qed simp

fun ii_path :: "index_instance \<Rightarrow> string option" where
  "ii_path (IBTree x) = bt_path x"
| "ii_path (IHash x) = h_path x"

fun ii_dirty :: "index_instance \<Rightarrow> bool" where
  "ii_dirty (IBTree x) = bt_dirty x"
| "ii_dirty (IHash x) = h_dirty x"

text \<open>The codec gives back what it wrote for an index.\<close>

fun lossless_at :: "codec \<Rightarrow> index_instance \<Rightarrow> bool" where
  "lossless_at cd (IBTree x) = (Option.bind (enc_btree cd (bt_image x)) (dec_btree cd) = Some (bt_image x))"
| "lossless_at cd (IHash x) = (Option.bind (enc_hash cd (h_image x)) (dec_hash cd) = Some (h_image x))"

text \<open>
  A saved index loads back: when the codec is lossless on it, saving a modified index
  succeeds, clears its modified mark, and loading the file gives the saved index.
\<close>

theorem saved_index_loads_back:
  assumes "ii_inv i" and "ii_path i = Some p" and "ii_dirty i" and "kind_ok (im_index_type meta) i"
    and "lossless_at cd i"
  shows "\<exists>fs' i'. ii_save (enc_btree cd) (enc_hash cd) fs i = (Inr (), fs', i') \<and> \<not> ii_dirty i'
    \<and> load_instance cd fs' meta p = Inr i'"
proof (cases i)
  case (IBTree x)
  obtain res fs' x' where s: "bt_save (enc_btree cd) fs x = (res, fs', x')" by (metis prod_cases3)
  have ok: "res = Inr ()" "bt_load (dec_btree cd) fs' p = Inr x'" "\<not> bt_dirty x'"
    using bt_save_load [OF _ _ _ s, of p] assms IBTree by auto
  then have "hm_contains fs' p"
    by (auto simp: bt_load_def read_file_def hm_contains_def rbind_eq_Inr split: option.splits)
  then show ?thesis using ok s IBTree assms(4) by (cases "im_index_type meta") (simp_all add: load_instance_def)
next
  case (IHash x)
  obtain res fs' x' where s: "h_save (enc_hash cd) fs x = (res, fs', x')" by (metis prod_cases3)
  have ok: "res = Inr ()" "h_load (dec_hash cd) fs' p = Inr x'" "\<not> h_dirty x'"
    using h_save_load [OF _ _ _ _ s, of p] assms IHash by (auto simp: h_inv_def)
  then have "hm_contains fs' p"
    by (auto simp: h_load_def read_file_def hm_contains_def rbind_eq_Inr split: option.splits)
  then show ?thesis using ok s IHash assms(4) by (cases "im_index_type meta") (simp_all add: load_instance_def)
qed

definition demo_btree :: btree_index where
  "demo_btree = (bt_with_path ''a'' False ''d/indexes/t_ix.btidx'')\<lparr>bt_tree := [(KInt 5, [1])],
     bt_entry_count := 1, bt_dirty := True\<rparr>"

definition demo_codec :: codec where
  "demo_codec = no_codec\<lparr>enc_btree := \<lambda>x. Some [], dec_btree := \<lambda>_. Some (bt_image demo_btree)\<rparr>"

lemma saved_index_loads_back_witness:
  "\<exists>fs' i'. ii_save (enc_btree demo_codec) (enc_hash demo_codec) [] (IBTree demo_btree) = (Inr (), fs', i')
    \<and> \<not> ii_dirty i' \<and> load_instance demo_codec fs' (new_index_meta 0 ''ix'' [''a''] BTree False DtInt64)
        ''d/indexes/t_ix.btidx'' = Inr i'"
  by (rule saved_index_loads_back)
     (simp_all add: demo_btree_def demo_codec_def bt_inv_def bt_with_path_def new_index_meta_def)

end
