(* ===== verification/Delta_Store.thy ===== *)
theory Delta_Store
  imports Data_Value
begin

text \<open>
  The delta store (\<^verbatim>\<open>storage/delta/update_log.rs\<close>): the bitmap of deleted rows, the pending
  cell updates of a table, and their persistence. Theorems: the sorted vector and the lookup
  set of the bitmap agree; after any sequence of operations a read returns the latest update of
  a cell since its row was last deleted; saving and loading keeps every read. The codec of the
  persisted form is a parameter.
\<close>

section \<open>Delete bitmap\<close>

record delete_bitmap =
  deleted :: "u64 list"
  db_lookup :: "u64 list option"

definition db_new :: delete_bitmap where
  "db_new = \<lparr>deleted = [], db_lookup = Some []\<rparr>"

definition sorted_insert :: "u64 \<Rightarrow> u64 list \<Rightarrow> u64 list" where
  "sorted_insert r ds = (case binary_search ds r of Inr _ \<Rightarrow> ds | Inl p \<Rightarrow> vec_insert p r ds)"

definition rebuild_lookup :: "delete_bitmap \<Rightarrow> delete_bitmap" where
  "rebuild_lookup b = b\<lparr>db_lookup := Some (foldl (\<lambda>s r. hs_insert r s) [] (deleted b))\<rparr>"

definition db_delete :: "u64 \<Rightarrow> delete_bitmap \<Rightarrow> delete_bitmap" where
  "db_delete r b =
     (case db_lookup b of
        Some set' \<Rightarrow>
          if r \<in> set set' then b
          else b\<lparr>db_lookup := Some (hs_insert r set'), deleted := sorted_insert r (deleted b)\<rparr>
      | None \<Rightarrow> rebuild_lookup (b\<lparr>deleted := sorted_insert r (deleted b)\<rparr>))"

definition db_is_deleted :: "delete_bitmap \<Rightarrow> u64 \<Rightarrow> bool" where
  "db_is_deleted b r =
     (case db_lookup b of
        Some set' \<Rightarrow> r \<in> set set'
      | None \<Rightarrow> (case binary_search (deleted b) r of Inr _ \<Rightarrow> True | Inl _ \<Rightarrow> False))"

definition db_count :: "delete_bitmap \<Rightarrow> nat" where
  "db_count b = length (deleted b)"

definition db_is_empty :: "delete_bitmap \<Rightarrow> bool" where
  "db_is_empty b = (deleted b = [])"

definition db_clear :: "delete_bitmap \<Rightarrow> delete_bitmap" where
  "db_clear b = b\<lparr>deleted := [], db_lookup := Some []\<rparr>"

definition db_undelete :: "u64 \<Rightarrow> delete_bitmap \<Rightarrow> delete_bitmap" where
  "db_undelete r b =
     (let b1 = (case binary_search (deleted b) r of
                  Inr p \<Rightarrow> b\<lparr>deleted := vec_remove p (deleted b)\<rparr> | Inl _ \<Rightarrow> b)
      in case db_lookup b1 of
           Some set' \<Rightarrow> b1\<lparr>db_lookup := Some (filter (\<lambda>x. x \<noteq> r) set')\<rparr> | None \<Rightarrow> b1)"

definition ensure_lookup :: "delete_bitmap \<Rightarrow> delete_bitmap" where
  "ensure_lookup b = (if db_lookup b = None then rebuild_lookup b else b)"

section \<open>Delta store\<close>

record 'j delta_record =
  dr_row_id :: u64
  dr_column_name :: string
  new_value :: "'j val"
  dr_txn_id :: u64
  dr_timestamp :: i64

type_synonym 'j updates = "(u64, (string, 'j delta_record) hmap) hmap"

record 'j delta_store =
  ds_path :: string
  delete_bitmap :: delete_bitmap
  updates :: "'j updates"
  ds_log :: "'j delta_record list"
  ds_dirty :: bool
  next_txn_id :: u64

definition ds_new :: "string \<Rightarrow> 'j delta_store" where
  "ds_new p = \<lparr>ds_path = p, delete_bitmap = db_new, updates = [], ds_log = [], ds_dirty = False,
     next_txn_id = 1\<rparr>"

definition ds_file_path :: "string \<Rightarrow> string" where
  "ds_file_path p = p @ ''.deltastore''"

text \<open>The persisted form: the sorted vector of the bitmap, the log, the counter.\<close>

type_synonym 'j delta_image = "u64 list \<times> 'j delta_record list \<times> u64"

definition put_record :: "'j updates \<Rightarrow> 'j delta_record \<Rightarrow> 'j updates" where
  "put_record us rec = hm_upsert (dr_row_id rec) [] (hm_insert (dr_column_name rec) rec) us"

definition ds_load :: "'j delta_image de \<Rightarrow> files \<Rightarrow> string \<Rightarrow> 'j delta_store result" where
  "ds_load de fs p =
     (case hm_get fs (ds_file_path p) of
        None \<Rightarrow> Inr (ds_new p)
      | Some d \<Rightarrow>
          (case de d of
             None \<Rightarrow> Inl (IoError InvalidData ''{}'')
           | Some (ids, lg, n) \<Rightarrow>
               Inr \<lparr>ds_path = p, delete_bitmap = ensure_lookup \<lparr>deleted = ids, db_lookup = None\<rparr>,
                    updates = foldl put_record [] lg, ds_log = lg, ds_dirty = False, next_txn_id = n\<rparr>))"

definition delete_row :: "u64 \<Rightarrow> 'j delta_store \<Rightarrow> 'j delta_store" where
  "delete_row r d = d\<lparr>delete_bitmap := db_delete r (delete_bitmap d),
     updates := hm_remove r (updates d), ds_dirty := True\<rparr>"

definition delete_rows :: "u64 list \<Rightarrow> 'j delta_store \<Rightarrow> nat \<times> 'j delta_store" where
  "delete_rows rs d =
     (let d1 = foldl (\<lambda>d r. d\<lparr>delete_bitmap := db_delete r (delete_bitmap d),
                               updates := hm_remove r (updates d)\<rparr>) d rs;
          n = db_count (delete_bitmap d1) - db_count (delete_bitmap d)
      in (n, if 0 < n then d1\<lparr>ds_dirty := True\<rparr> else d1))"

definition new_record :: "u64 \<Rightarrow> string \<Rightarrow> 'j val \<Rightarrow> u64 \<Rightarrow> 'j delta_record" where
  "new_record r c v x = \<lparr>dr_row_id = r, dr_column_name = c, new_value = v, dr_txn_id = x, dr_timestamp = 0\<rparr>"

definition update_cell :: "u64 \<Rightarrow> string \<Rightarrow> 'j val \<Rightarrow> 'j delta_store \<Rightarrow> 'j delta_store" where
  "update_cell r c v d = d\<lparr>next_txn_id := next_txn_id d + 1,
     updates := put_record (updates d) (new_record r c v (next_txn_id d)), ds_dirty := True\<rparr>"

definition update_row :: "u64 \<Rightarrow> 'j row \<Rightarrow> 'j delta_store \<Rightarrow> 'j delta_store" where
  "update_row r vs d = foldl (\<lambda>d (c, v). update_cell r c v d) d vs"

definition batch_update_rows :: "(u64 \<times> string \<times> 'j val) list \<Rightarrow> 'j delta_store \<Rightarrow> 'j delta_store" where
  "batch_update_rows batch d =
     (let d1 = foldl (\<lambda>d (r, c, v). d\<lparr>next_txn_id := next_txn_id d + 1,
                 updates := put_record (updates d) (new_record r c v (next_txn_id d))\<rparr>) d batch
      in if batch \<noteq> [] then d1\<lparr>ds_dirty := True\<rparr> else d1)"

definition ds_is_deleted :: "'j delta_store \<Rightarrow> u64 \<Rightarrow> bool" where
  "ds_is_deleted d r = db_is_deleted (delete_bitmap d) r"

definition get_updated_value :: "'j delta_store \<Rightarrow> u64 \<Rightarrow> string \<Rightarrow> 'j val option" where
  "get_updated_value d r c =
     (case hm_get (updates d) r of
        None \<Rightarrow> None
      | Some cols \<Rightarrow> map_option new_value (hm_get cols c))"

definition get_row_updates :: "'j delta_store \<Rightarrow> u64 \<Rightarrow> (string, 'j delta_record) hmap option" where
  "get_row_updates d r = hm_get (updates d) r"

definition has_updates :: "'j delta_store \<Rightarrow> u64 \<Rightarrow> bool" where
  "has_updates d r = hm_contains (updates d) r"

definition cell_cmp :: "u64 \<times> string \<times> 'j val \<Rightarrow> u64 \<times> string \<times> 'j val \<Rightarrow> ordering" where
  "cell_cmp a b = then_ord (cmp_of (fst a) (fst b)) (str_cmp (fst (snd a)) (fst (snd b)))"

definition updated_cells :: "'j delta_store \<Rightarrow> (u64 \<times> string \<times> 'j val) list" where
  "updated_cells d =
     sort_by cell_cmp
       (concat (map (\<lambda>(r, cols). map (\<lambda>(c, rec). (r, dr_column_name rec, new_value rec)) cols) (updates d)))"

definition delete_count :: "'j delta_store \<Rightarrow> nat" where
  "delete_count d = db_count (delete_bitmap d)"

definition update_count :: "'j delta_store \<Rightarrow> nat" where
  "update_count d = sum_list (map (length \<circ> snd) (updates d))"

definition ds_is_empty :: "'j delta_store \<Rightarrow> bool" where
  "ds_is_empty d = (db_is_empty (delete_bitmap d) \<and> updates d = [])"

definition ds_snapshot :: "'j delta_store \<Rightarrow> 'j delta_store" where
  "ds_snapshot d = d\<lparr>ds_log := [], ds_dirty := False\<rparr>"

definition updates_column :: "'j delta_store \<Rightarrow> string \<Rightarrow> bool" where
  "updates_column d c =
     list_ex (\<lambda>cols. list_ex (\<lambda>n. eq_ignore_ascii_case n c) (hm_keys cols)) (map snd (updates d))"

definition rows_with_string_update :: "'j delta_store \<Rightarrow> string \<Rightarrow> string \<Rightarrow> u64 list" where
  "rows_with_string_update d c s =
     map fst (filter (\<lambda>(r, cols).
       case List.find (\<lambda>(n, _). eq_ignore_ascii_case n c) cols of
         None \<Rightarrow> False
       | Some (_, rec) \<Rightarrow> (case new_value rec of Str t \<Rightarrow> t = s | _ \<Rightarrow> False)) (updates d))"

text \<open>The file is written to a temporary name and renamed, so its content changes at once.\<close>

definition ds_save :: "'j delta_image ser \<Rightarrow> files \<Rightarrow> 'j delta_store \<Rightarrow>
    unit result \<times> files \<times> 'j delta_store" where
  "ds_save ser fs d =
     (if \<not> ds_dirty d then (Inr (), fs, d)
      else let collapsed = concat (map (\<lambda>(r, cols). map snd cols) (updates d))
           in case ser (deleted (delete_bitmap d), collapsed, next_txn_id d) of
                None \<Rightarrow> (Inl (IoError InvalidData ''{}''), fs, d)
              | Some b \<Rightarrow> (Inr (), hm_insert (ds_file_path (ds_path d)) b fs, d\<lparr>ds_dirty := False\<rparr>))"

definition ds_clear :: "'j delta_store \<Rightarrow> 'j delta_store" where
  "ds_clear d = d\<lparr>delete_bitmap := db_clear (delete_bitmap d), updates := [], ds_log := [],
     next_txn_id := 1, ds_dirty := True\<rparr>"

definition ds_remove_file :: "files \<Rightarrow> 'j delta_store \<Rightarrow> files" where
  "ds_remove_file fs d = hm_remove (ds_file_path (ds_path d)) fs"

definition ds_needs_compaction :: "'j delta_store \<Rightarrow> u64 \<Rightarrow> bool" where
  "ds_needs_compaction d base =
     (let n = of_nat (delete_count d + update_count d) :: u64
      in 10000 < n \<or> (0 < base \<and> base < n * 5))"

section \<open>Invariants\<close>

definition bitmap_ok :: "delete_bitmap \<Rightarrow> bool" where
  "bitmap_ok b \<longleftrightarrow> sorted_wrt (<) (deleted b) \<and> (\<forall>s. db_lookup b = Some s \<longrightarrow> set s = set (deleted b))"

text \<open>A record is filed under the row and the column it names.\<close>

definition cols_ok :: "u64 \<Rightarrow> (string, 'j delta_record) hmap \<Rightarrow> bool" where
  "cols_ok r cols \<longleftrightarrow> hm_wf cols
     \<and> (\<forall>e \<in> set cols. dr_row_id (snd e) = r \<and> dr_column_name (snd e) = fst e)"

definition updates_ok :: "'j updates \<Rightarrow> bool" where
  "updates_ok us \<longleftrightarrow> hm_wf us \<and> (\<forall>e \<in> set us. cols_ok (fst e) (snd e))"

definition ds_ok :: "'j delta_store \<Rightarrow> bool" where
  "ds_ok d \<longleftrightarrow> bitmap_ok (delete_bitmap d) \<and> updates_ok (updates d)"

lemma bitmap_new [simp]: "bitmap_ok db_new" "deleted db_new = []"
  by (simp_all add: bitmap_ok_def db_new_def)

lemma sorted_insert_ok:
  assumes "sorted_wrt (<) ds"
  shows "sorted_wrt (<) (sorted_insert r ds) \<and> set (sorted_insert r ds) = insert r (set ds)"
proof (cases "binary_search ds r")
  case (Inl p)
  then show ?thesis using binary_search_insert [OF assms Inl] by (simp add: sorted_insert_def)
next
  case (Inr p)
  then show ?thesis using binary_search_mem [OF assms, of r] assms by (auto simp: sorted_insert_def)
qed

lemma set_hs_fold: "set (foldl (\<lambda>s r. hs_insert r s) A xs) = set A \<union> set xs"
  by (induction xs arbitrary: A) auto

lemma db_delete_ok:
  assumes "bitmap_ok b"
  shows "bitmap_ok (db_delete r b) \<and> set (deleted (db_delete r b)) = insert r (set (deleted b))"
proof (cases "db_lookup b")
  case None
  then show ?thesis using assms sorted_insert_ok [of "deleted b" r]
    by (simp add: bitmap_ok_def db_delete_def rebuild_lookup_def set_hs_fold)
next
  case (Some s)
  then have s: "set s = set (deleted b)" using assms by (simp add: bitmap_ok_def)
  show ?thesis
  proof (cases "r \<in> set s")
    case True
    then show ?thesis using assms Some s by (simp add: db_delete_def insert_absorb)
  next
    case False
    then show ?thesis using assms Some s sorted_insert_ok [of "deleted b" r]
      by (simp add: bitmap_ok_def db_delete_def)
  qed
qed

lemma db_undelete_ok:
  assumes "bitmap_ok b"
  shows "bitmap_ok (db_undelete r b) \<and> set (deleted (db_undelete r b)) = set (deleted b) - {r}"
proof -
  have sorted: "sorted_wrt (<) (deleted b)" using assms by (simp add: bitmap_ok_def)
  let ?ds = "case binary_search (deleted b) r of Inr p \<Rightarrow> vec_remove p (deleted b) | Inl _ \<Rightarrow> deleted b"
  have ds: "sorted_wrt (<) ?ds \<and> set ?ds = set (deleted b) - {r}"
  proof (cases "binary_search (deleted b) r")
    case (Inl p)
    then have "r \<notin> set (deleted b)" using binary_search_mem [OF sorted, of r] by auto
    then show ?thesis using sorted Inl by simp
  next
    case (Inr p)
    then show ?thesis using binary_search_remove [OF sorted Inr] by simp
  qed
  have fields: "deleted (db_undelete r b) = ?ds"
    "db_lookup (db_undelete r b) = map_option (filter (\<lambda>x. x \<noteq> r)) (db_lookup b)"
    by (simp_all add: db_undelete_def Let_def split: option.split sum.split)
  have "set (filter (\<lambda>x. x \<noteq> r) s) = set ?ds" if "db_lookup b = Some s" for s
  proof -
    have "set (filter (\<lambda>x. x \<noteq> r) s) = set s - {r}" by auto
    also have "set s = set (deleted b)" using assms that by (simp add: bitmap_ok_def)
    also have "\<dots> - {r} = set ?ds" by (rule conjunct2 [OF ds, symmetric])
    finally show ?thesis .
  qed
  then have look: "\<forall>s. db_lookup (db_undelete r b) = Some s \<longrightarrow> set s = set ?ds"
    unfolding fields by (cases "db_lookup b") simp_all
  show ?thesis unfolding bitmap_ok_def fields(1) using ds look by (intro conjI) simp_all
qed

lemma db_is_deleted_iff: "bitmap_ok b \<Longrightarrow> db_is_deleted b r \<longleftrightarrow> r \<in> set (deleted b)"
  using binary_search_mem [of "deleted b" r]
  by (auto simp: bitmap_ok_def db_is_deleted_def split: option.splits sum.splits)

text \<open>The value of a cell in an update map.\<close>

definition cell_at :: "'j updates \<Rightarrow> u64 \<Rightarrow> string \<Rightarrow> 'j val option" where
  "cell_at us r c = (case hm_get us r of None \<Rightarrow> None | Some cols \<Rightarrow> map_option new_value (hm_get cols c))"

lemma get_updated_value_cell: "get_updated_value d r c = cell_at (updates d) r c"
  by (simp add: get_updated_value_def cell_at_def)

lemma cell_at_put:
  "cell_at (put_record us rec) r c =
     (if r = dr_row_id rec \<and> c = dr_column_name rec then Some (new_value rec) else cell_at us r c)"
  by (auto simp: cell_at_def put_record_def hm_simps split: option.splits)

lemma cell_at_remove: "cell_at (hm_remove q us) r c = (if r = q then None else cell_at us r c)"
  by (simp add: cell_at_def hm_simps)

lemma updates_ok_Nil [simp]: "updates_ok []"
  by (simp add: updates_ok_def)

lemma updates_ok_get: "updates_ok us \<Longrightarrow> hm_get us r = Some cols \<Longrightarrow> cols_ok r cols"
  unfolding updates_ok_def by (metis fst_conv map_of_SomeD snd_conv)

lemma updates_okI:
  assumes "hm_wf us" and "\<And>r cols. hm_get us r = Some cols \<Longrightarrow> cols_ok r cols"
  shows "updates_ok us"
  unfolding updates_ok_def using assms by (metis map_of_is_SomeI prod.collapse)

lemma hm_insert_subset: "set (hm_insert k v m) \<subseteq> insert (k, v) (set m)"
  by (induction m) auto

lemma cols_ok_insert:
  assumes "cols_ok r cols" "dr_row_id rec = r"
  shows "cols_ok r (hm_insert (dr_column_name rec) rec cols)"
  unfolding cols_ok_def
proof
  show "hm_wf (hm_insert (dr_column_name rec) rec cols)" using assms by (simp add: cols_ok_def hm_simps)
  show "\<forall>e \<in> set (hm_insert (dr_column_name rec) rec cols). dr_row_id (snd e) = r \<and> dr_column_name (snd e) = fst e"
  proof
    fix e assume "e \<in> set (hm_insert (dr_column_name rec) rec cols)"
    then have "e \<in> insert (dr_column_name rec, rec) (set cols)" by (rule subsetD [OF hm_insert_subset])
    then have "e = (dr_column_name rec, rec) \<or> e \<in> set cols" by simp
    then show "dr_row_id (snd e) = r \<and> dr_column_name (snd e) = fst e"
    proof
      assume "e = (dr_column_name rec, rec)"
      then show ?thesis using assms(2) by simp
    next
      assume "e \<in> set cols"
      then show ?thesis using assms(1) unfolding cols_ok_def by blast
    qed
  qed
qed

lemma updates_ok_put:
  assumes "updates_ok us"
  shows "updates_ok (put_record us rec)"
proof (rule updates_okI)
  have wf: "hm_wf us" using assms by (simp add: updates_ok_def)
  then show "hm_wf (put_record us rec)" by (simp add: put_record_def hm_simps)
  fix r cols assume g: "hm_get (put_record us rec) r = Some cols"
  show "cols_ok r cols"
  proof (cases "r = dr_row_id rec")
    case True
    have "cols_ok r (case hm_get us r of None \<Rightarrow> [] | Some v \<Rightarrow> v)"
      using updates_ok_get [OF assms, of r] by (cases "hm_get us r") (simp_all add: cols_ok_def)
    then show ?thesis using g True cols_ok_insert by (auto simp: put_record_def hm_simps)
  next
    case False
    then have "hm_get us r = Some cols" using g by (simp add: put_record_def hm_simps)
    from updates_ok_get [OF assms this] show ?thesis .
  qed
qed

lemma updates_ok_remove: "updates_ok us \<Longrightarrow> updates_ok (hm_remove r us)"
  using distinct_delete [of us r] unfolding updates_ok_def by (auto simp: AList.delete_eq)

section \<open>What a sequence of operations leaves\<close>

datatype 'j ds_op =
    DeleteRow u64 | DeleteRows "u64 list" | UpdateCell u64 string "'j val" | UpdateRow u64 "'j row"
  | BatchUpdate "(u64 \<times> string \<times> 'j val) list"

fun ds_apply :: "'j delta_store \<Rightarrow> 'j ds_op \<Rightarrow> 'j delta_store" where
  "ds_apply d (DeleteRow r) = delete_row r d"
| "ds_apply d (DeleteRows rs) = snd (delete_rows rs d)"
| "ds_apply d (UpdateCell r c v) = update_cell r c v d"
| "ds_apply d (UpdateRow r vs) = update_row r vs d"
| "ds_apply d (BatchUpdate b) = batch_update_rows b d"

text \<open>The elementary events of an operation, and what a list of events, newest first, says of a cell.\<close>

datatype 'j ds_event = EvDelete u64 | EvSet u64 string "'j val"

fun events_of :: "'j ds_op \<Rightarrow> 'j ds_event list" where
  "events_of (DeleteRow r) = [EvDelete r]"
| "events_of (DeleteRows rs) = map EvDelete rs"
| "events_of (UpdateCell r c v) = [EvSet r c v]"
| "events_of (UpdateRow r vs) = map (\<lambda>(c, v). EvSet r c v) vs"
| "events_of (BatchUpdate b) = map (\<lambda>(r, c, v). EvSet r c v) b"

fun latest_value :: "'j ds_event list \<Rightarrow> u64 \<Rightarrow> string \<Rightarrow> 'j val option" where
  "latest_value [] r c = None"
| "latest_value (EvDelete q # es) r c = (if q = r then None else latest_value es r c)"
| "latest_value (EvSet q n v # es) r c = (if q = r \<and> n = c then Some v else latest_value es r c)"

text \<open>A store shows a list of events.\<close>

definition shows_events :: "'j delta_store \<Rightarrow> 'j ds_event list \<Rightarrow> bool" where
  "shows_events d es \<longleftrightarrow> ds_ok d \<and> (\<forall>r. ds_is_deleted d r \<longleftrightarrow> EvDelete r \<in> set es)
     \<and> (\<forall>r c. get_updated_value d r c = latest_value es r c)"

lemma shows_view:
  assumes "shows_events d es" "delete_bitmap d' = delete_bitmap d" "updates d' = updates d"
  shows "shows_events d' es"
  using assms by (simp add: shows_events_def ds_ok_def ds_is_deleted_def get_updated_value_def)

lemma shows_delete:
  assumes "shows_events d es" "delete_bitmap d' = db_delete r (delete_bitmap d)"
    "updates d' = hm_remove r (updates d)"
  shows "shows_events d' (EvDelete r # es)"
proof -
  have ok: "bitmap_ok (delete_bitmap d)" "updates_ok (updates d)"
    using assms(1) by (simp_all add: shows_events_def ds_ok_def)
  have ok': "bitmap_ok (delete_bitmap d')" "updates_ok (updates d')"
    using db_delete_ok [OF ok(1)] updates_ok_remove [OF ok(2)] assms(2,3) by simp_all
  have "ds_is_deleted d' q \<longleftrightarrow> q = r \<or> ds_is_deleted d q" for q
    using db_is_deleted_iff [OF ok'(1)] db_is_deleted_iff [OF ok(1)] db_delete_ok [OF ok(1), of r] assms(2)
    by (simp add: ds_is_deleted_def)
  moreover have "get_updated_value d' q c = (if q = r then None else get_updated_value d q c)" for q c
    by (simp add: get_updated_value_cell assms(3) cell_at_remove)
  ultimately show ?thesis using assms(1) ok' by (auto simp: shows_events_def ds_ok_def)
qed

lemma shows_set:
  assumes "shows_events d es" "delete_bitmap d' = delete_bitmap d"
    "updates d' = put_record (updates d) (new_record r c v x)"
  shows "shows_events d' (EvSet r c v # es)"
  using assms updates_ok_put
  by (auto simp: shows_events_def ds_ok_def ds_is_deleted_def get_updated_value_cell cell_at_put new_record_def)

lemma shows_update_cell: "shows_events d es \<Longrightarrow> shows_events (update_cell r c v d) (EvSet r c v # es)"
  by (erule shows_set) (simp_all add: update_cell_def)

text \<open>A loop of elementary steps shows its events in reverse.\<close>

lemma shows_fold:
  assumes "\<And>d x es. shows_events d es \<Longrightarrow> shows_events (f d x) (ev x # es)" and "shows_events d es"
  shows "shows_events (foldl f d xs) (rev (map ev xs) @ es)"
  using assms(2)
proof (induction xs arbitrary: d es)
  case (Cons x xs)
  show ?case using Cons.IH [OF assms(1) [OF Cons.prems, of x]] by simp
qed simp

lemma shows_apply:
  assumes "shows_events d es"
  shows "shows_events (ds_apply d op) (rev (events_of op) @ es)"
proof (cases op)
  case (DeleteRow r)
  then show ?thesis using shows_delete [OF assms, of "delete_row r d" r] by (simp add: delete_row_def)
next
  case (DeleteRows rs)
  let ?f = "\<lambda>(d :: 'a delta_store) r. d\<lparr>delete_bitmap := db_delete r (delete_bitmap d), updates := hm_remove r (updates d)\<rparr>"
  have "shows_events (foldl ?f d rs) (rev (map EvDelete rs) @ es)"
    by (rule shows_fold [OF _ assms]) (rule shows_delete, simp_all)
  then show ?thesis using DeleteRows by (auto simp: delete_rows_def Let_def elim: shows_view)
next
  case (UpdateCell r c v)
  then show ?thesis using shows_update_cell [OF assms] by simp
next
  case (UpdateRow r vs)
  have "shows_events (foldl (\<lambda>d e. update_cell r (fst e) (snd e) d) d vs) (rev (map (\<lambda>e. EvSet r (fst e) (snd e)) vs) @ es)"
    by (rule shows_fold [OF _ assms]) (rule shows_update_cell)
  then show ?thesis using UpdateRow by (simp add: update_row_def case_prod_beta')
next
  case (BatchUpdate b)
  let ?f = "\<lambda>(d :: 'a delta_store) (r, c, v). d\<lparr>next_txn_id := next_txn_id d + 1,
                 updates := put_record (updates d) (new_record r c v (next_txn_id d))\<rparr>"
  have "shows_events (foldl ?f d b) (rev (map (\<lambda>e. EvSet (fst e) (fst (snd e)) (snd (snd e))) b) @ es)"
    by (rule shows_fold [OF _ assms]) (auto simp: case_prod_beta intro: shows_set)
  then show ?thesis using BatchUpdate by (auto simp: batch_update_rows_def Let_def case_prod_beta' elim: shows_view)
qed

section \<open>Properties\<close>

text \<open>
  C23. The delta store reads the latest write: after any sequence of operations on a new store, a
  row counts as deleted exactly when one of them deleted it, and a cell has the value of its
  last update since its row was last deleted.
\<close>

theorem delta_reads_latest:
  "(ds_is_deleted (foldl ds_apply (ds_new p) ops) r \<longleftrightarrow> EvDelete r \<in> set (concat (map events_of ops)))
   \<and> get_updated_value (foldl ds_apply (ds_new p) ops) r c = latest_value (rev (concat (map events_of ops))) r c"
proof -
  have "shows_events d es \<Longrightarrow> shows_events (foldl ds_apply d ops) (rev (concat (map events_of ops)) @ es)" for d :: "'a delta_store" and es
  proof (induction ops arbitrary: d es)
    case (Cons op ops)
    then show ?case using Cons.IH [OF shows_apply [OF Cons.prems]] by simp
  qed simp
  moreover have "shows_events (ds_new p :: 'a delta_store) []"
    by (simp add: shows_events_def ds_ok_def updates_ok_def ds_new_def ds_is_deleted_def db_is_deleted_def
        db_new_def get_updated_value_def bitmap_ok_def)
  ultimately have "shows_events (foldl ds_apply (ds_new p) ops) (rev (concat (map events_of ops)))" by fastforce
  then show ?thesis by (simp add: shows_events_def)
qed

text \<open>Rebuilding the update map from a log: the last record of a cell wins.\<close>

definition of_cell :: "u64 \<Rightarrow> string \<Rightarrow> 'j delta_record \<Rightarrow> bool" where
  "of_cell r c rec \<longleftrightarrow> dr_row_id rec = r \<and> dr_column_name rec = c"

lemma cell_at_fold:
  "cell_at (foldl put_record us recs) r c =
     (case List.find (of_cell r c) (rev recs) of Some rec \<Rightarrow> Some (new_value rec) | None \<Rightarrow> cell_at us r c)"
proof (induction recs rule: rev_induct)
  case (snoc rec recs)
  then show ?case by (auto simp: cell_at_put of_cell_def)
qed simp

lemma find_unique:
  assumes "\<And>y. y \<in> set xs \<Longrightarrow> P y \<longleftrightarrow> y = x" "x \<in> set xs"
  shows "List.find P xs = Some x"
  using assms by (induction xs) auto

lemma collapsed_find:
  assumes "updates_ok us"
  shows "map_option new_value (List.find (of_cell r c) (rev (concat (map (\<lambda>(r, cols). map snd cols) us)))) = cell_at us r c"
proof -
  let ?log = "concat (map (\<lambda>(r, cols). map snd cols) us)"
  have mem: "rec \<in> set ?log \<longleftrightarrow> (\<exists>cols. hm_get us (dr_row_id rec) = Some cols \<and> hm_get cols (dr_column_name rec) = Some rec)" for rec
  proof
    assume "rec \<in> set ?log"
    then obtain q cols n where e: "(q, cols) \<in> set us" "(n, rec) \<in> set cols" by (auto simp: case_prod_beta)
    then have g: "hm_get us q = Some cols" using assms by (simp add: updates_ok_def)
    have "cols_ok q cols" using updates_ok_get [OF assms g] .
    then have "hm_get cols n = Some rec" "dr_row_id rec = q" "dr_column_name rec = n"
      using e(2) by (auto simp: cols_ok_def)
    then show "\<exists>cols. hm_get us (dr_row_id rec) = Some cols \<and> hm_get cols (dr_column_name rec) = Some rec"
      using g by auto
  next
    assume "\<exists>cols. hm_get us (dr_row_id rec) = Some cols \<and> hm_get cols (dr_column_name rec) = Some rec"
    then obtain cols where c: "hm_get us (dr_row_id rec) = Some cols" "hm_get cols (dr_column_name rec) = Some rec" by blast
    then have "(dr_row_id rec, cols) \<in> set us" "(dr_column_name rec, rec) \<in> set cols"
      by (auto dest: map_of_SomeD)
    then show "rec \<in> set ?log" by force
  qed
  show ?thesis
  proof (cases "\<exists>rec \<in> set ?log. of_cell r c rec")
    case True
    then obtain rec where rec: "rec \<in> set ?log" "of_cell r c rec" by blast
    have "List.find (of_cell r c) (rev ?log) = Some rec"
    proof (rule find_unique)
      show "of_cell r c y \<longleftrightarrow> y = rec" if "y \<in> set (rev ?log)" for y
        using that rec mem [of y] mem [of rec] by (auto simp: of_cell_def simp del: set_concat map_of_eq_Some_iff)
    qed (use rec in simp)
    then show ?thesis using rec mem [of rec] by (auto simp: of_cell_def cell_at_def)
  next
    case False
    then have "List.find (of_cell r c) (rev ?log) = None" by (auto simp: find_None_iff)
    moreover have "cell_at us r c = None"
    proof (rule ccontr)
      assume "cell_at us r c \<noteq> None"
      then obtain cols rec where g: "hm_get us r = Some cols" "hm_get cols c = Some rec"
        by (auto simp: cell_at_def split: option.splits)
      have "cols_ok r cols" using updates_ok_get [OF assms g(1)] .
      then have "of_cell r c rec" using map_of_SomeD [OF g(2)] by (force simp: cols_ok_def of_cell_def)
      moreover have "rec \<in> set ?log" using mem [of rec] g calculation by (auto simp: of_cell_def)
      ultimately show False using False by blast
    qed
    ultimately show ?thesis by simp
  qed
qed

definition ds_image :: "'j delta_store \<Rightarrow> 'j delta_image" where
  "ds_image d = (deleted (delete_bitmap d), concat (map (\<lambda>(r, cols). map snd cols) (updates d)), next_txn_id d)"

lemma reloaded_bitmap:
  assumes "bitmap_ok b"
  shows "db_is_deleted (ensure_lookup \<lparr>deleted = deleted b, db_lookup = None\<rparr>) r = db_is_deleted b r"
  using db_is_deleted_iff [OF assms]
  by (simp add: ensure_lookup_def rebuild_lookup_def db_is_deleted_def set_hs_fold)

text \<open>
  C32. Saving and loading keeps every read: a store marked as modified that is saved with a codec that is
  lossless on it loads back with the same deleted rows and the same pending values, although
  only the collapsed updates are written.
\<close>

theorem delta_save_load:
  assumes "ds_ok d" and "ds_dirty d" and "Option.bind (ser (ds_image d)) de = Some (ds_image d)"
  shows "\<exists>fs' d' e. ds_save ser fs d = (Inr (), fs', d') \<and> ds_load de fs' (ds_path d) = Inr e
    \<and> (\<forall>r. ds_is_deleted e r = ds_is_deleted d r)
    \<and> (\<forall>r c. get_updated_value e r c = get_updated_value d r c)"
proof -
  obtain b where b: "ser (ds_image d) = Some b" "de b = Some (ds_image d)"
    using assms(3) by (cases "ser (ds_image d)") auto
  let ?fs = "hm_insert (ds_file_path (ds_path d)) b fs"
  have ok: "bitmap_ok (delete_bitmap d)" "updates_ok (updates d)" using assms(1) by (simp_all add: ds_ok_def)
  have save: "ds_save ser fs d = (Inr (), ?fs, d\<lparr>ds_dirty := False\<rparr>)"
    using assms(2) b(1) by (simp add: ds_save_def Let_def ds_image_def)
  obtain e where load: "ds_load de ?fs (ds_path d) = Inr e"
    and e: "delete_bitmap e = ensure_lookup \<lparr>deleted = deleted (delete_bitmap d), db_lookup = None\<rparr>"
      "updates e = foldl put_record [] (concat (map (\<lambda>(r, cols). map snd cols) (updates d)))"
    using b(2) by (simp add: ds_load_def hm_simps ds_image_def)
  have "ds_is_deleted e r = ds_is_deleted d r" for r
    by (simp add: ds_is_deleted_def e(1) reloaded_bitmap [OF ok(1)])
  moreover have "get_updated_value e r c = get_updated_value d r c" for r c
    using collapsed_find [OF ok(2), of r c]
    by (auto simp: get_updated_value_cell e(2) cell_at_fold cell_at_def [of "[]"] split: option.splits)
  ultimately show ?thesis using save load by blast
qed

definition demo_delta :: "unit delta_store" where
  "demo_delta = foldl ds_apply (ds_new ''t'')
     [UpdateCell 1 ''a'' (Int64 5), DeleteRow 2, UpdateCell 1 ''a'' (Int64 7), BatchUpdate [(3, ''b'', Null)]]"

lemma demo_delta_ok: "ds_ok demo_delta" "ds_dirty demo_delta"
proof -
  show "ds_dirty demo_delta" by code_simp
  have "bitmap_ok (delete_bitmap demo_delta)"
    unfolding demo_delta_def by (simp add: delete_row_def update_cell_def batch_update_rows_def ds_new_def db_delete_ok)
  moreover have "updates_ok (updates demo_delta)"
    unfolding demo_delta_def
    by (simp add: delete_row_def update_cell_def batch_update_rows_def ds_new_def updates_ok_put updates_ok_remove)
  ultimately show "ds_ok demo_delta" by (simp add: ds_ok_def)
qed

lemma delta_save_load_witness:
  "\<exists>fs' d' e. ds_save (\<lambda>_. Some []) [] demo_delta = (Inr (), fs', d')
    \<and> ds_load (\<lambda>_. Some (ds_image demo_delta)) fs' (ds_path demo_delta) = Inr e
    \<and> (\<forall>r. ds_is_deleted e r = ds_is_deleted demo_delta r)
    \<and> (\<forall>r c. get_updated_value e r c = get_updated_value demo_delta r c)"
  by (rule delta_save_load) (simp_all add: demo_delta_ok)

end
