(* ===== verification/Delta_Merge.thy ===== *)
theory Delta_Merge
  imports Delta_Store
begin

text \<open>
  The delta merger (\<^verbatim>\<open>storage/delta/merge.rs\<close>): overlaying the pending deletes and cell updates
  of a delta store on a record batch read from the base file. Theorem: the merge with its fast
  paths (empty overlay, untouched batch, untouched columns, all rows deleted) gives cell by cell
  what overlaying every row would.

  An Arrow array is its type and the list of its cells (a dictionary array keeps its keys and its
  values). The Arrow kernels the code calls, \<open>take\<close>, \<open>nullif\<close>, \<open>RecordBatch::try_new\<close> and
  \<open>RecordBatch::new_empty\<close>, are parameters; \<open>kernels_ok\<close> states what their documentation
  promises.
\<close>

section \<open>Record batches\<close>

datatype arrow_type =
    TInt64 | TUInt64 | TFloat64 | TUtf8 | TBoolean | TDictionary | TDictionaryOther | TOther string

text \<open>\<open>ADictionary\<close> has 32-bit keys; \<open>ADictionaryOther\<close> is a string dictionary with another key type.\<close>

datatype 'o array =
    AInt64 "i64 option list" | AUInt64 "u64 option list" | AFloat64 "f64 option list"
  | AUtf8 "string option list" | ABoolean "bool option list"
  | ADictionary "nat option list" "string option list" | ADictionaryOther "string option list"
  | AOther string "'o option list"

datatype 'o cell = CInt i64 | CUInt u64 | CFloat f64 | CStr string | CBool bool | COther 'o

fun array_type :: "'o array \<Rightarrow> arrow_type" where
  "array_type (AInt64 _) = TInt64"
| "array_type (AUInt64 _) = TUInt64"
| "array_type (AFloat64 _) = TFloat64"
| "array_type (AUtf8 _) = TUtf8"
| "array_type (ABoolean _) = TBoolean"
| "array_type (ADictionary _ _) = TDictionary"
| "array_type (ADictionaryOther _) = TDictionaryOther"
| "array_type (AOther t _) = TOther t"

definition dict_cell :: "string option list \<Rightarrow> nat option \<Rightarrow> string option" where
  "dict_cell vs k = (case k of None \<Rightarrow> None | Some i \<Rightarrow> if i < length vs then vs ! i else None)"

fun array_cells :: "'o array \<Rightarrow> 'o cell option list" where
  "array_cells (AInt64 xs) = map (map_option CInt) xs"
| "array_cells (AUInt64 xs) = map (map_option CUInt) xs"
| "array_cells (AFloat64 xs) = map (map_option CFloat) xs"
| "array_cells (AUtf8 xs) = map (map_option CStr) xs"
| "array_cells (ABoolean xs) = map (map_option CBool) xs"
| "array_cells (ADictionary ks vs) = map (\<lambda>k. map_option CStr (dict_cell vs k)) ks"
| "array_cells (ADictionaryOther xs) = map (map_option CStr) xs"
| "array_cells (AOther t xs) = map (map_option COther) xs"

record field =
  f_name :: string
  f_type :: arrow_type
  f_nullable :: bool

record 'o record_batch =
  rb_fields :: "field list"
  rb_columns :: "'o array list"
  num_rows :: nat

record 'o kernels =
  k_take :: "'o array \<Rightarrow> u32 list \<Rightarrow> 'o array result"
  k_nullif :: "'o array \<Rightarrow> bool list \<Rightarrow> 'o array result"
  k_try_new :: "field list \<Rightarrow> 'o array list \<Rightarrow> 'o record_batch result"
  k_new_empty :: "field list \<Rightarrow> 'o record_batch"

section \<open>The merge of one column\<close>

text \<open>
  The loop of the typed merges: a pending value is converted, otherwise the base cell is kept.
\<close>

definition overlay_loop :: "('j val \<Rightarrow> 'a option) \<Rightarrow> string \<Rightarrow> nat list \<Rightarrow> u64 list \<Rightarrow> 'j delta_store \<Rightarrow>
    'a option list \<Rightarrow> 'a option list" where
  "overlay_loop conv c kept ids d xs =
     map (\<lambda>p. case get_updated_value d (ids ! p) c of Some v \<Rightarrow> conv v | None \<Rightarrow> xs ! p) kept"

fun merge_int64 :: "'o array \<Rightarrow> string \<Rightarrow> nat list \<Rightarrow> u64 list \<Rightarrow> 'j delta_store \<Rightarrow> 'o array result" where
  "merge_int64 (AInt64 xs) c kept ids d = Inr (AInt64 (overlay_loop as_i64 c kept ids d xs))"
| "merge_int64 _ c kept ids d = Inl Panic"

definition uint_of :: "'j val \<Rightarrow> u64 option" where
  "uint_of v = (case v of UInt64 x \<Rightarrow> Some x | Int64 x \<Rightarrow> Some x | _ \<Rightarrow> None)"

fun merge_uint64 :: "'o array \<Rightarrow> string \<Rightarrow> nat list \<Rightarrow> u64 list \<Rightarrow> 'j delta_store \<Rightarrow> 'o array result" where
  "merge_uint64 (AUInt64 xs) c kept ids d = Inr (AUInt64 (overlay_loop uint_of c kept ids d xs))"
| "merge_uint64 _ c kept ids d = Inl Panic"

fun merge_float64 :: "'o array \<Rightarrow> string \<Rightarrow> nat list \<Rightarrow> u64 list \<Rightarrow> 'j delta_store \<Rightarrow> 'o array result" where
  "merge_float64 (AFloat64 xs) c kept ids d = Inr (AFloat64 (overlay_loop as_f64 c kept ids d xs))"
| "merge_float64 _ c kept ids d = Inl Panic"

fun merge_string :: "'o array \<Rightarrow> string \<Rightarrow> nat list \<Rightarrow> u64 list \<Rightarrow> 'j delta_store \<Rightarrow> 'o array result" where
  "merge_string (AUtf8 xs) c kept ids d = Inr (AUtf8 (overlay_loop as_str c kept ids d xs))"
| "merge_string _ c kept ids d = Inl Panic"

fun merge_bool :: "'o array \<Rightarrow> string \<Rightarrow> nat list \<Rightarrow> u64 list \<Rightarrow> 'j delta_store \<Rightarrow> 'o array result" where
  "merge_bool (ABoolean xs) c kept ids d = Inr (ABoolean (overlay_loop as_bool c kept ids d xs))"
| "merge_bool _ c kept ids d = Inl Panic"

fun merge_dictionary_string :: "'o array \<Rightarrow> string \<Rightarrow> nat list \<Rightarrow> u64 list \<Rightarrow> 'j delta_store \<Rightarrow> 'o array result" where
  "merge_dictionary_string (ADictionary ks vs) c kept ids d =
     Inr (AUtf8 (map (\<lambda>p. case get_updated_value d (ids ! p) c of
       Some v \<Rightarrow> as_str v | None \<Rightarrow> dict_cell vs (ks ! p)) kept))"
| "merge_dictionary_string _ c kept ids d = Inl (IoError InvalidData ''expected dictionary array'')"

definition is_null_update :: "'j delta_store \<Rightarrow> u64 \<Rightarrow> string \<Rightarrow> bool" where
  "is_null_update d r c = (case get_updated_value d r c of Some Null \<Rightarrow> True | _ \<Rightarrow> False)"

definition overlay_null_updates :: "'o kernels \<Rightarrow> 'o array \<Rightarrow> string \<Rightarrow> nat list \<Rightarrow> u64 list \<Rightarrow>
    'j delta_store \<Rightarrow> 'o array result" where
  "overlay_null_updates k taken c kept ids d =
     (if \<not> updates_column d c then Inr taken
      else let mask = map (\<lambda>p. is_null_update d (ids ! p) c) kept
           in if True \<notin> set mask then Inr taken else k_nullif k taken mask)"

definition merge_other :: "'o kernels \<Rightarrow> 'o array \<Rightarrow> string \<Rightarrow> nat list \<Rightarrow> u64 list \<Rightarrow>
    'j delta_store \<Rightarrow> 'o array result" where
  "merge_other k a c kept ids d =
     rbind (k_take k a (map of_nat kept)) (\<lambda>taken. overlay_null_updates k taken c kept ids d)"

definition merge_column :: "'o kernels \<Rightarrow> 'o array \<Rightarrow> string \<Rightarrow> arrow_type \<Rightarrow> nat list \<Rightarrow> u64 list \<Rightarrow>
    'j delta_store \<Rightarrow> 'o array result" where
  "merge_column k a c ty kept ids d = (case ty of
     TInt64 \<Rightarrow> merge_int64 a c kept ids d
   | TUInt64 \<Rightarrow> merge_uint64 a c kept ids d
   | TFloat64 \<Rightarrow> merge_float64 a c kept ids d
   | TUtf8 \<Rightarrow> merge_string a c kept ids d
   | TBoolean \<Rightarrow> merge_bool a c kept ids d
   | TDictionary \<Rightarrow> if updates_column d c then merge_dictionary_string a c kept ids d else merge_other k a c kept ids d
   | TDictionaryOther \<Rightarrow> if updates_column d c then merge_dictionary_string a c kept ids d else merge_other k a c kept ids d
   | TOther _ \<Rightarrow> merge_other k a c kept ids d)"

section \<open>The merge of a batch\<close>

definition batch_touches_delta :: "u64 list \<Rightarrow> 'j delta_store \<Rightarrow> bool" where
  "batch_touches_delta ids d =
     (let ds = deleted (delete_bitmap d);
          us = hm_keys (updates d);
          n = length ds + length us
      in if n = 0 then False
         else if n \<le> 8 then list_ex (\<lambda>i. i \<in> set ids) (ds @ us)
         else let batch = foldl (\<lambda>s i. hs_insert i s) [] ids
              in list_ex (\<lambda>i. i \<in> set batch) (ds @ us))"

definition PROBE_MAX_ROWS :: nat where
  "PROBE_MAX_ROWS = 8192"

fun merge_columns :: "'o kernels \<Rightarrow> bool \<Rightarrow> (field \<times> 'o array) list \<Rightarrow> nat list \<Rightarrow> u64 list \<Rightarrow>
    'j delta_store \<Rightarrow> 'o array list result" where
  "merge_columns k all_kept [] kept ids d = Inr []"
| "merge_columns k all_kept ((f, a) # fas) kept ids d =
     rbind (if all_kept \<and> \<not> updates_column d (f_name f) then Inr a
            else merge_column k a (f_name f) (f_type f) kept ids d)
       (\<lambda>a'. rbind (merge_columns k all_kept fas kept ids d) (\<lambda>as. Inr (a' # as)))"

definition align_field :: "field \<Rightarrow> 'o array \<Rightarrow> field" where
  "align_field f a =
     (if f_type f \<noteq> array_type a then \<lparr>f_name = f_name f, f_type = array_type a, f_nullable = True\<rparr> else f)"

definition kept_positions :: "u64 list \<Rightarrow> 'j delta_store \<Rightarrow> nat list" where
  "kept_positions ids d =
     (let keep_mask = map (\<lambda>i. \<not> ds_is_deleted d i) ids
      in filter (\<lambda>p. keep_mask ! p) [0..<length keep_mask])"

definition merge :: "'o kernels \<Rightarrow> 'o record_batch \<Rightarrow> 'j delta_store \<Rightarrow> u64 list \<Rightarrow> 'o record_batch result" where
  "merge k base d ids =
     (if ds_is_empty d then Inr base
      else if num_rows base = 0 \<or> length ids \<noteq> num_rows base then Inr base
      else if num_rows base \<le> PROBE_MAX_ROWS \<and> \<not> batch_touches_delta ids d then Inr base
      else let kept = kept_positions ids d
           in if length kept = 0 then Inr (k_new_empty k (rb_fields base))
              else rbind (merge_columns k (length kept = num_rows base) (zip (rb_fields base) (rb_columns base)) kept ids d)
                     (\<lambda>cols. k_try_new k (map2 align_field (rb_fields base) cols) cols))"

text \<open>\<open>apply_deletes\<close>; a row id missing for a row is an index out of range.\<close>

fun take_columns :: "'o kernels \<Rightarrow> 'o array list \<Rightarrow> u32 list \<Rightarrow> 'o array list result" where
  "take_columns k [] idx = Inr []"
| "take_columns k (a # as) idx =
     (case k_take k a idx of
        Inl _ \<Rightarrow> Inl Panic
      | Inr a' \<Rightarrow> rbind (take_columns k as idx) (\<lambda>as'. Inr (a' # as')))"

definition apply_deletes :: "'o kernels \<Rightarrow> 'o record_batch \<Rightarrow> delete_bitmap \<Rightarrow> u64 list \<Rightarrow> 'o record_batch result" where
  "apply_deletes k base b ids =
     (if db_is_empty b then Inr base
      else if length ids < unat (of_nat (num_rows base) :: u32) then Inl Panic
      else let keep = filter (\<lambda>i. \<not> db_is_deleted b (ids ! i)) [0..<unat (of_nat (num_rows base) :: u32)]
           in if length keep = num_rows base then Inr base
              else rbind (take_columns k (rb_columns base) (map of_nat keep))
                     (\<lambda>cols. k_try_new k (rb_fields base) cols))"

section \<open>The reference overlay\<close>

text \<open>What a pending value makes of a cell of a column.\<close>

definition overlay_cell :: "'j delta_store \<Rightarrow> string \<Rightarrow> arrow_type \<Rightarrow> u64 \<Rightarrow> 'o cell option \<Rightarrow> 'o cell option" where
  "overlay_cell d c ty r x =
     (case get_updated_value d r c of
        None \<Rightarrow> x
      | Some v \<Rightarrow> (case ty of
            TInt64 \<Rightarrow> map_option CInt (as_i64 v)
          | TUInt64 \<Rightarrow> map_option CUInt (uint_of v)
          | TFloat64 \<Rightarrow> map_option CFloat (as_f64 v)
          | TUtf8 \<Rightarrow> map_option CStr (as_str v)
          | TBoolean \<Rightarrow> map_option CBool (as_bool v)
          | TDictionary \<Rightarrow> map_option CStr (as_str v)
          | _ \<Rightarrow> if v = Null then None else x))"

definition overlay_column :: "'j delta_store \<Rightarrow> u64 list \<Rightarrow> field \<Rightarrow> 'o array \<Rightarrow> 'o cell option list" where
  "overlay_column d ids f a =
     map (\<lambda>p. overlay_cell d (f_name f) (f_type f) (ids ! p) (array_cells a ! p))
       (filter (\<lambda>p. \<not> ds_is_deleted d (ids ! p)) [0..<length ids])"

definition batch_cells :: "'o record_batch \<Rightarrow> 'o cell option list list" where
  "batch_cells b = map array_cells (rb_columns b)"

text \<open>
  A batch: as many columns as fields, at least one, each of its field's type and of the batch's
  length; no string dictionary with keys of another width.
\<close>

definition column_ok :: "nat \<Rightarrow> field \<Rightarrow> 'o array \<Rightarrow> bool" where
  "column_ok n f a \<longleftrightarrow> array_type a = f_type f \<and> length (array_cells a) = n
     \<and> f_type f \<noteq> TDictionaryOther"

definition batch_ok :: "'o record_batch \<Rightarrow> bool" where
  "batch_ok b \<longleftrightarrow> rb_fields b \<noteq> [] \<and> list_all2 (column_ok (num_rows b)) (rb_fields b) (rb_columns b)"

text \<open>A column fits its field: its type, its length, and no null where the field allows none.\<close>

definition fits_null :: "field \<Rightarrow> 'o cell option list \<Rightarrow> bool" where
  "fits_null f xs \<longleftrightarrow> f_nullable f \<or> None \<notin> set xs"

definition typed_column :: "nat \<Rightarrow> field \<Rightarrow> 'o array \<Rightarrow> bool" where
  "typed_column n f a \<longleftrightarrow> array_type a = f_type f \<and> length (array_cells a) = n \<and> fits_null f (array_cells a)"

text \<open>What the documentation of the kernels promises.\<close>

definition kernels_ok :: "'o kernels \<Rightarrow> bool" where
  "kernels_ok k \<longleftrightarrow>
     (\<forall>a idx. (\<forall>i \<in> set idx. unat i < length (array_cells a)) \<longrightarrow>
        (\<exists>a'. k_take k a idx = Inr a' \<and> array_type a' = array_type a
           \<and> array_cells a' = map (\<lambda>i. array_cells a ! unat i) idx))
     \<and> (\<forall>a m. length m = length (array_cells a) \<longrightarrow>
        (\<exists>a'. k_nullif k a m = Inr a' \<and> array_type a' = array_type a
           \<and> array_cells a' = map2 (\<lambda>b x. if b then None else x) m (array_cells a)))
     \<and> (\<forall>n fs cs. fs \<noteq> [] \<longrightarrow> list_all2 (typed_column n) fs cs \<longrightarrow>
        k_try_new k fs cs = Inr \<lparr>rb_fields = fs, rb_columns = cs, num_rows = n\<rparr>)
     \<and> (\<forall>fs. map array_cells (rb_columns (k_new_empty k fs)) = map (\<lambda>_. []) fs
        \<and> rb_fields (k_new_empty k fs) = fs)"

lemma kernels_take:
  "kernels_ok k \<Longrightarrow> \<forall>i \<in> set idx. unat i < length (array_cells a) \<Longrightarrow>
     \<exists>a'. k_take k a idx = Inr a' \<and> array_type a' = array_type a \<and> array_cells a' = map (\<lambda>i. array_cells a ! unat i) idx"
  by (simp only: kernels_ok_def)

lemma kernels_nullif:
  "kernels_ok k \<Longrightarrow> length m = length (array_cells a) \<Longrightarrow>
     \<exists>a'. k_nullif k a m = Inr a' \<and> array_type a' = array_type a
       \<and> array_cells a' = map2 (\<lambda>b x. if b then None else x) m (array_cells a)"
  by (simp only: kernels_ok_def)

lemma kernels_try_new:
  "kernels_ok k \<Longrightarrow> fs \<noteq> [] \<Longrightarrow> list_all2 (typed_column n) fs cs \<Longrightarrow>
     k_try_new k fs cs = Inr \<lparr>rb_fields = fs, rb_columns = cs, num_rows = n\<rparr>"
  unfolding kernels_ok_def by (elim conjE) (drule spec [of _ n], blast)

lemma kernels_empty:
  "kernels_ok k \<Longrightarrow> batch_cells (k_new_empty k fs) = map (\<lambda>_. []) fs \<and> rb_fields (k_new_empty k fs) = fs"
  by (simp only: kernels_ok_def batch_cells_def)

lemma updates_column_False:
  assumes "\<not> updates_column d c"
  shows "get_updated_value d r c = None"
proof (rule ccontr)
  assume "get_updated_value d r c \<noteq> None"
  then obtain cols rec where g: "hm_get (updates d) r = Some cols" "hm_get cols c = Some rec"
    by (auto simp: get_updated_value_def split: option.splits)
  then have "cols \<in> set (map snd (updates d))" "c \<in> set (hm_keys cols)"
    by (force dest: map_of_SomeD)+
  then show False using assms by (auto simp: updates_column_def list_ex_iff eq_ignore_ascii_case_def)
qed

lemma kept_positions_alt: "kept_positions ids d = filter (\<lambda>p. \<not> ds_is_deleted d (ids ! p)) [0..<length ids]"
  unfolding kept_positions_def Let_def by (rule filter_cong) auto

lemma typed_loop:
  assumes "\<And>p. p \<in> set kept \<Longrightarrow> p < length xs"
  shows "map (map_option C) (overlay_loop conv c kept ids d xs) =
    map (\<lambda>p. case get_updated_value d (ids ! p) c of Some v \<Rightarrow> map_option C (conv v) | None \<Rightarrow> map (map_option C) xs ! p) kept"
  using assms by (auto simp: overlay_loop_def split: option.split)

lemma null_overlay:
  "(if is_null_update d r c then None else x) =
     (case get_updated_value d r c of None \<Rightarrow> x | Some v \<Rightarrow> if v = Null then None else x)"
  by (auto simp: is_null_update_def split: option.split val.split)

lemma map2_map: "map2 g (map u xs) (map w xs) = map (\<lambda>x. g (u x) (w x)) xs"
  by (induction xs) auto

lemma merge_other_cells:
  assumes "kernels_ok k" "\<And>p. p \<in> set kept \<Longrightarrow> p < length (array_cells a)" "length (array_cells a) \<le> 2 ^ 32"
  shows "\<exists>a'. merge_other k a c kept ids d = Inr a' \<and> array_type a' = array_type a
    \<and> array_cells a' = map (\<lambda>p. if is_null_update d (ids ! p) c then None else array_cells a ! p) kept"
proof -
  have small: "unat (of_nat p :: u32) = p" if "p \<in> set kept" for p
    using assms(2) [OF that] assms(3) unat_of_nat_lt [where 'a = 32, of p] by simp
  then have "\<forall>i \<in> set (map of_nat kept :: u32 list). unat i < length (array_cells a)"
    using assms(2) by auto
  from kernels_take [OF assms(1) this] obtain t where t: "k_take k a (map of_nat kept) = Inr t"
    "array_type t = array_type a" "array_cells t = map (\<lambda>i. array_cells a ! unat i) (map of_nat kept :: u32 list)"
    by blast
  have cells: "array_cells t = map (\<lambda>p. array_cells a ! p) kept" using t(3) small by simp
  let ?mask = "map (\<lambda>p. is_null_update d (ids ! p) c) kept"
  show ?thesis
  proof (cases "updates_column d c \<and> True \<in> set ?mask")
    case True
    have "length ?mask = length (array_cells t)" using cells by simp
    from kernels_nullif [OF assms(1) this] obtain a' where a': "k_nullif k t ?mask = Inr a'"
      "array_type a' = array_type t" "array_cells a' = map2 (\<lambda>b x. if b then None else x) ?mask (array_cells t)"
      by blast
    then show ?thesis using t True
      by (simp add: merge_other_def overlay_null_updates_def Let_def cells map2_map)
  next
    case False
    then have "\<not> is_null_update d (ids ! p) c" if "p \<in> set kept" for p
      using that updates_column_False [of d c] by (auto simp: is_null_update_def split: option.splits)
    then show ?thesis using t False cells
      by (auto simp: merge_other_def overlay_null_updates_def Let_def)
  qed
qed

lemma merge_column_cells:
  assumes "kernels_ok k" "column_ok n f a" "n \<le> 2 ^ 32" "\<And>p. p \<in> set kept \<Longrightarrow> p < n"
  shows "\<exists>a'. merge_column k a (f_name f) (f_type f) kept ids d = Inr a'
    \<and> array_cells a' = map (\<lambda>p. overlay_cell d (f_name f) (f_type f) (ids ! p) (array_cells a ! p)) kept"
proof -
  have a: "array_type a = f_type f" "length (array_cells a) = n" "f_type f \<noteq> TDictionaryOther"
    using assms(2) by (simp_all add: column_ok_def)
  let ?c = "f_name f"
  have other: "\<exists>a'. merge_other k a ?c kept ids d = Inr a'
      \<and> array_cells a' = map (\<lambda>p. case get_updated_value d (ids ! p) ?c of None \<Rightarrow> array_cells a ! p
           | Some v \<Rightarrow> if v = Null then None else array_cells a ! p) kept"
    using merge_other_cells [OF assms(1), of kept a ?c ids d] assms(3,4) a(2) unfolding null_overlay by auto
  show ?thesis
  proof (cases a)
    case (ADictionary ks vs)
    then have ty: "f_type f = TDictionary" using a(1) by simp
    have len: "\<And>p. p \<in> set kept \<Longrightarrow> p < length ks" using assms(4) a(2) ADictionary by simp
    show ?thesis
    proof (cases "updates_column d ?c")
      case True
      then show ?thesis using ADictionary ty len
        by (auto simp: merge_column_def overlay_cell_def split: option.split)
    next
      case False
      then show ?thesis using other ty updates_column_False [OF False]
        by (auto simp: merge_column_def overlay_cell_def)
    qed
  next
    case (AOther t xs)
    then have "f_type f = TOther t" using a(1) by simp
    then show ?thesis using other by (simp add: merge_column_def overlay_cell_def cong: option.case_cong)
  next
    case (ADictionaryOther xs)
    then show ?thesis using a by simp
  qed (use a assms(4) in \<open>auto simp: merge_column_def overlay_cell_def typed_loop split: option.split\<close>)
qed

lemma overlay_column_kept:
  "overlay_column d ids f a =
     map (\<lambda>p. overlay_cell d (f_name f) (f_type f) (ids ! p) (array_cells a ! p)) (kept_positions ids d)"
  by (simp add: overlay_column_def kept_positions_alt)

lemma kept_all:
  assumes "length (kept_positions ids d) = length ids"
  shows "kept_positions ids d = [0..<length ids]"
proof -
  have "length (filter P xs) = length xs \<Longrightarrow> filter P xs = xs" for P and xs :: "nat list"
    by (metis filter_id_conv length_filter_less order_less_irrefl)
  then show ?thesis using assms by (simp add: kept_positions_alt)
qed

text \<open>An untouched column and an untouched batch are what the overlay would give.\<close>

lemma overlay_untouched:
  assumes "length (array_cells a) = length ids"
    and "\<And>p. p < length ids \<Longrightarrow> \<not> ds_is_deleted d (ids ! p) \<and> get_updated_value d (ids ! p) (f_name f) = None"
  shows "overlay_column d ids f a = array_cells a"
proof -
  have "filter (\<lambda>p. \<not> ds_is_deleted d (ids ! p)) [0..<length ids] = [0..<length ids]"
    using assms(2) by (auto simp: filter_id_conv)
  moreover have "map (\<lambda>p. overlay_cell d (f_name f) (f_type f) (ids ! p) (array_cells a ! p)) [0..<length ids] = array_cells a"
    using assms by (intro nth_equalityI) (auto simp: overlay_cell_def)
  ultimately show ?thesis by (simp add: overlay_column_def)
qed

lemma merge_columns_cells:
  assumes "kernels_ok k" "list_all2 (column_ok (length ids)) fs as" "length ids \<le> 2 ^ 32"
    and "kept = kept_positions ids d" and "all_kept \<longleftrightarrow> length kept = length ids"
    and nulls: "list_all2 (\<lambda>f a. fits_null f (overlay_column d ids f a)) fs as"
  shows "\<exists>cols. merge_columns k all_kept (zip fs as) kept ids d = Inr cols
    \<and> map array_cells cols = map2 (overlay_column d ids) fs as
    \<and> list_all2 (\<lambda>f c. length (array_cells c) = length kept \<and> fits_null f (array_cells c)) fs cols"
  using assms(2) nulls
proof (induction fs as rule: list_all2_induct)
  case (Cons f fs a as)
  have lt: "\<And>p. p \<in> set kept \<Longrightarrow> p < length ids" using assms(4) by (auto simp: kept_positions_alt)
  obtain a' where a': "(if all_kept \<and> \<not> updates_column d (f_name f) then Inr a
        else merge_column k a (f_name f) (f_type f) kept ids d) = Inr a'"
      "array_cells a' = overlay_column d ids f a"
  proof (cases "all_kept \<and> \<not> updates_column d (f_name f)")
    case True
    then have "kept = [0..<length ids]" using kept_all assms(4,5) by metis
    then have "\<not> ds_is_deleted d (ids ! p)" if "p < length ids" for p
    proof -
      have "p \<in> set (kept_positions ids d)" using \<open>kept = [0..<length ids]\<close> assms(4) that by simp
      then show ?thesis by (simp add: kept_positions_alt)
    qed
    then have "overlay_column d ids f a = array_cells a"
      using True Cons(1) updates_column_False by (intro overlay_untouched) (auto simp: column_ok_def)
    then show ?thesis using that True by simp
  next
    case False
    from merge_column_cells [OF assms(1) Cons(1) assms(3) lt] that False show ?thesis
      unfolding overlay_column_kept assms(4) by auto
  qed
  from Cons(3,4) obtain cols where cols: "merge_columns k all_kept (zip fs as) kept ids d = Inr cols"
      "map array_cells cols = map2 (overlay_column d ids) fs as"
      "list_all2 (\<lambda>f c. length (array_cells c) = length kept \<and> fits_null f (array_cells c)) fs cols" by auto
  have "length (array_cells a') = length kept" using a'(2) assms(4) by (simp add: overlay_column_kept)
  then show ?case using a' cols Cons(4) by simp
qed simp

lemma not_touched:
  assumes "ds_ok d" "\<not> batch_touches_delta ids d" "p < length ids"
  shows "\<not> ds_is_deleted d (ids ! p) \<and> get_updated_value d (ids ! p) c = None"
proof -
  have mem: "ids ! p \<in> set ids" using assms(3) by simp
  have "\<forall>i \<in> set (deleted (delete_bitmap d)) \<union> set (hm_keys (updates d)). i \<notin> set ids"
    using assms(2) by (auto simp: batch_touches_delta_def Let_def list_ex_iff set_hs_fold split: if_splits)
  then have "ids ! p \<notin> set (deleted (delete_bitmap d))" "hm_get (updates d) (ids ! p) = None"
    using mem by (auto simp: map_of_eq_None_iff)
  then show ?thesis
    using assms(1) db_is_deleted_iff by (auto simp: ds_ok_def ds_is_deleted_def get_updated_value_def)
qed

lemma columns_untouched:
  assumes "list_all2 (column_ok (length ids)) fs as"
    and "\<And>p c. p < length ids \<Longrightarrow> \<not> ds_is_deleted d (ids ! p) \<and> get_updated_value d (ids ! p) c = None"
  shows "map2 (overlay_column d ids) fs as = map array_cells as"
  using assms(1)
proof (induction fs as rule: list_all2_induct)
  case (Cons f fs a as)
  have "overlay_column d ids f a = array_cells a"
    using Cons(1) assms(2) by (intro overlay_untouched) (simp_all add: column_ok_def)
  then show ?case using Cons(3) by simp
qed simp

lemma columns_all_deleted:
  assumes "list_all2 (column_ok n) fs as" "kept_positions ids d = []"
  shows "map2 (overlay_column d ids) fs as = map (\<lambda>_. []) fs"
  using assms(1) by (induction fs as rule: list_all2_induct) (simp_all add: overlay_column_kept assms(2))

lemma aligned_columns:
  assumes "list_all2 (\<lambda>f c. length (array_cells c) = n \<and> fits_null f (array_cells c)) fs cols"
  shows "list_all2 (typed_column n) (map2 align_field fs cols) cols"
    and "map f_name (map2 align_field fs cols) = map f_name fs"
  using assms by (induction fs cols rule: list_all2_induct) (auto simp: typed_column_def align_field_def fits_null_def)

lemma empty_untouched:
  assumes "ds_ok d" "ds_is_empty d"
  shows "\<not> ds_is_deleted d r \<and> get_updated_value d r c = None"
  using assms db_is_deleted_iff
  by (auto simp: ds_is_empty_def db_is_empty_def ds_ok_def ds_is_deleted_def get_updated_value_def)

section \<open>Properties\<close>

text \<open>
  C19. Merging is overlaying: for a batch with one row id per row, the merge succeeds and the
  batch it returns has the same columns in the same order, with the deleted rows left out and
  every cell as the reference overlay gives it, on every path: an empty overlay, a batch or a
  column it does not touch, and all rows deleted. The overlay puts no null into a column declared
  non-nullable, and no column is a string dictionary with keys that are not 32 bits wide. (With
  another number of row ids the merge returns the batch as it is.)
\<close>

theorem merge_is_overlay:
  assumes "kernels_ok k" and "batch_ok base" and "ds_ok d" and "length ids = num_rows base"
    and "num_rows base \<le> 2 ^ 32"
    and "list_all2 (\<lambda>f a. fits_null f (overlay_column d ids f a)) (rb_fields base) (rb_columns base)"
  shows "\<exists>b. merge k base d ids = Inr b \<and> map f_name (rb_fields b) = map f_name (rb_fields base)
    \<and> batch_cells b = map2 (overlay_column d ids) (rb_fields base) (rb_columns base)"
proof -
  let ?fs = "rb_fields base" and ?as = "rb_columns base" and ?kept = "kept_positions ids d"
  have cols: "list_all2 (column_ok (length ids)) ?fs ?as" "?fs \<noteq> []" using assms(2,4) by (simp_all add: batch_ok_def)
  show ?thesis
  proof (cases "ds_is_empty d \<or> num_rows base = 0 \<or> num_rows base \<le> PROBE_MAX_ROWS \<and> \<not> batch_touches_delta ids d")
    case True
    then have "merge k base d ids = Inr base" using assms(4) by (auto simp: merge_def)
    moreover have "\<not> ds_is_deleted d (ids ! p) \<and> get_updated_value d (ids ! p) c = None" if "p < length ids" for p c
      using True assms(3,4) that empty_untouched not_touched by (metis not_less_zero)
    note columns_untouched [OF cols(1) this]
    ultimately show ?thesis by (simp add: batch_cells_def)
  next
    case False
    show ?thesis
    proof (cases "?kept = []")
      case True
      then have "merge k base d ids = Inr (k_new_empty k ?fs)" using False assms(4) by (auto simp: merge_def)
      then show ?thesis using kernels_empty [OF assms(1), of ?fs] columns_all_deleted [OF cols(1) True] by simp
    next
      case kept: False
      obtain cs where cs: "merge_columns k (length ?kept = length ids) (zip ?fs ?as) ?kept ids d = Inr cs"
          "map array_cells cs = map2 (overlay_column d ids) ?fs ?as"
          "list_all2 (\<lambda>f c. length (array_cells c) = length ?kept \<and> fits_null f (array_cells c)) ?fs cs"
        using merge_columns_cells [OF assms(1) cols(1) _ refl refl assms(6)] assms(4,5) by auto
      have ne: "map2 align_field ?fs cs \<noteq> []" using cols(2) cs(3) by (cases ?fs; cases cs) auto
      have "merge k base d ids = k_try_new k (map2 align_field ?fs cs) cs"
        using False kept assms(4) cs(1) by (auto simp: merge_def)
      then show ?thesis
        using kernels_try_new [OF assms(1) ne aligned_columns(1) [OF cs(3)]] aligned_columns(2) [OF cs(3)] cs(2)
        by (simp add: batch_cells_def)
    qed
  qed
qed

text \<open>Kernels on the logical content of arrays.\<close>

fun list_take :: "'o array \<Rightarrow> u32 list \<Rightarrow> 'o array" where
  "list_take (AInt64 xs) idx = AInt64 (map (\<lambda>i. xs ! unat i) idx)"
| "list_take (AUInt64 xs) idx = AUInt64 (map (\<lambda>i. xs ! unat i) idx)"
| "list_take (AFloat64 xs) idx = AFloat64 (map (\<lambda>i. xs ! unat i) idx)"
| "list_take (AUtf8 xs) idx = AUtf8 (map (\<lambda>i. xs ! unat i) idx)"
| "list_take (ABoolean xs) idx = ABoolean (map (\<lambda>i. xs ! unat i) idx)"
| "list_take (ADictionary ks vs) idx = ADictionary (map (\<lambda>i. ks ! unat i) idx) vs"
| "list_take (ADictionaryOther xs) idx = ADictionaryOther (map (\<lambda>i. xs ! unat i) idx)"
| "list_take (AOther t xs) idx = AOther t (map (\<lambda>i. xs ! unat i) idx)"

definition mask_nulls :: "bool list \<Rightarrow> 'a option list \<Rightarrow> 'a option list" where
  "mask_nulls m xs = map2 (\<lambda>b x. if b then None else x) m xs"

fun list_nullif :: "'o array \<Rightarrow> bool list \<Rightarrow> 'o array" where
  "list_nullif (AInt64 xs) m = AInt64 (mask_nulls m xs)"
| "list_nullif (AUInt64 xs) m = AUInt64 (mask_nulls m xs)"
| "list_nullif (AFloat64 xs) m = AFloat64 (mask_nulls m xs)"
| "list_nullif (AUtf8 xs) m = AUtf8 (mask_nulls m xs)"
| "list_nullif (ABoolean xs) m = ABoolean (mask_nulls m xs)"
| "list_nullif (ADictionary ks vs) m = ADictionary (mask_nulls m ks) vs"
| "list_nullif (ADictionaryOther xs) m = ADictionaryOther (mask_nulls m xs)"
| "list_nullif (AOther t xs) m = AOther t (mask_nulls m xs)"

fun empty_array :: "arrow_type \<Rightarrow> 'o array" where
  "empty_array TInt64 = AInt64 []"
| "empty_array TUInt64 = AUInt64 []"
| "empty_array TFloat64 = AFloat64 []"
| "empty_array TUtf8 = AUtf8 []"
| "empty_array TBoolean = ABoolean []"
| "empty_array TDictionary = ADictionary [] []"
| "empty_array TDictionaryOther = ADictionaryOther []"
| "empty_array (TOther t) = AOther t []"

definition list_kernels :: "'o kernels" where
  "list_kernels = \<lparr>
     k_take = \<lambda>a idx. Inr (list_take a idx),
     k_nullif = \<lambda>a m. Inr (list_nullif a m),
     k_try_new = \<lambda>fs cs. Inr \<lparr>rb_fields = fs, rb_columns = cs, num_rows = length (array_cells (hd cs))\<rparr>,
     k_new_empty = \<lambda>fs. \<lparr>rb_fields = fs, rb_columns = map (\<lambda>f. empty_array (f_type f)) fs, num_rows = 0\<rparr>\<rparr>"

lemma mask_nulls_map: "map (map_option g) (mask_nulls m xs) = map2 (\<lambda>b x. if b then None else x) m (map (map_option g) xs)"
  by (induction m xs rule: list_induct2') (auto simp: mask_nulls_def)

lemma mask_nulls_dict:
  "map (\<lambda>k. map_option CStr (dict_cell vs k)) (mask_nulls m ks) =
     map2 (\<lambda>b x. if b then None else x) m (map (\<lambda>k. map_option CStr (dict_cell vs k)) ks)"
  by (induction m ks rule: list_induct2') (auto simp: mask_nulls_def dict_cell_def)

lemma list_kernels_ok: "kernels_ok (list_kernels :: 'o kernels)"
proof -
  have take: "array_type (list_take a idx) = array_type a
      \<and> array_cells (list_take a idx) = map (\<lambda>i. array_cells a ! unat i) idx"
    if "\<forall>i \<in> set idx. unat i < length (array_cells a)" for a :: "'o array" and idx
    using that by (cases a) simp_all
  have nullif: "array_type (list_nullif a m) = array_type a
      \<and> array_cells (list_nullif a m) = map2 (\<lambda>b x. if b then None else x) m (array_cells a)" for a :: "'o array" and m
    by (cases a) (simp_all add: mask_nulls_map mask_nulls_dict)
  have new: "length (array_cells (hd cs)) = n" if "fs \<noteq> []" "list_all2 (typed_column n) fs cs"
    for n fs and cs :: "'o array list"
    using that by (cases fs; cases cs) (auto simp: typed_column_def)
  have empty: "array_cells (empty_array ty :: 'o array) = []" for ty by (cases ty) simp_all
  show ?thesis
    unfolding kernels_ok_def list_kernels_def using take nullif new empty by simp
qed

definition demo_batch :: "unit record_batch" where
  "demo_batch = \<lparr>rb_fields = [\<lparr>f_name = ''_id'', f_type = TUInt64, f_nullable = False\<rparr>,
       \<lparr>f_name = ''a'', f_type = TInt64, f_nullable = True\<rparr>,
       \<lparr>f_name = ''b'', f_type = TOther ''binary'', f_nullable = True\<rparr>],
     rb_columns = [AUInt64 [Some 1, Some 2, Some 3], AInt64 [Some 1, Some 2, None], AOther ''binary'' [Some (), None, Some ()]], num_rows = 3\<rparr>"

lemma merge_is_overlay_witness:
  "\<exists>b. merge list_kernels demo_batch demo_delta [1, 2, 3] = Inr b
    \<and> batch_cells b = [[Some (CUInt 1), Some (CUInt 3)], [Some (CInt 7), None], [Some (COther ()), None]]"
proof -
  have nulls: "list_all2 (\<lambda>f a. fits_null f (overlay_column demo_delta [1, 2, 3] f a)) (rb_fields demo_batch)
      (rb_columns demo_batch)" by code_simp
  have "\<exists>b. merge list_kernels demo_batch demo_delta [1, 2, 3] = Inr b
      \<and> map f_name (rb_fields b) = map f_name (rb_fields demo_batch)
      \<and> batch_cells b = map2 (overlay_column demo_delta [1, 2, 3]) (rb_fields demo_batch) (rb_columns demo_batch)"
    by (rule merge_is_overlay [OF list_kernels_ok _ demo_delta_ok(1) _ _ nulls])
       (simp_all add: demo_batch_def batch_ok_def column_ok_def)
  moreover have "map2 (overlay_column demo_delta [1, 2, 3]) (rb_fields demo_batch) (rb_columns demo_batch) =
      [[Some (CUInt 1), Some (CUInt 3)], [Some (CInt 7), None], [Some (COther ()), None]]"
    by code_simp
  ultimately show ?thesis by auto
qed

end
