(* ===== verification/Admission.thy ===== *)
theory Admission
  imports Prelude
begin

text \<open>
  Memory admission (\<^verbatim>\<open>admission.rs\<close>): the configuration read from the environment, the reservation
  of a statement, and the controller with its bounded queue. The controller is a transition
  system: a statement arrives, wakes up, finishes and notifies in steps that each run under the
  controller's mutex, in any interleaving. Theorems: reservations never exceed the budget and the
  queue never exceeds its capacity; a queued statement is decided once its deadline has passed and
  never turned away as if the queue were full; no wakeup is lost.
\<close>

section \<open>Text\<close>

text \<open>
  \<open>str::trim\<close> removes the characters with the Unicode property \<open>White_Space\<close>, here as their UTF-8
  sequences. \<open>str::parse\<close> reads an optional plus sign and decimal digits and fails on overflow.
\<close>

definition white_space :: "bytes list" where
  "white_space = [[9], [10], [11], [12], [13], [32], [194, 133], [194, 160], [225, 154, 128]]
     @ map (\<lambda>b. [226, 128, b]) [128, 129, 130, 131, 132, 133, 134, 135, 136, 137, 138, 168, 169, 175]
     @ [[226, 129, 159], [227, 128, 128]]"

function strip_seqs :: "bytes list \<Rightarrow> bytes \<Rightarrow> bytes" where
  "strip_seqs ws bs =
     (case find (\<lambda>w. w \<noteq> [] \<and> take (length w) bs = w) ws of
        None \<Rightarrow> bs
      | Some w \<Rightarrow> strip_seqs ws (drop (length w) bs))"
  by pat_completeness auto

termination
proof (relation "measure (\<lambda>(ws, bs). length bs)")
  fix ws bs w
  assume "find (\<lambda>w. w \<noteq> [] \<and> take (length w) bs = w) ws = Some w"
  then have "w \<noteq> []" and "take (length w) bs = w" by (auto simp: find_Some_iff)
  then have "bs \<noteq> []" by auto
  with \<open>w \<noteq> []\<close> show "((ws, drop (length w) bs), (ws, bs)) \<in> measure (\<lambda>(ws, bs). length bs)" by simp
qed simp

declare strip_seqs.simps [simp del]

definition trim_start :: "bytes \<Rightarrow> bytes" where
  "trim_start bs = strip_seqs white_space bs"

definition trim :: "bytes \<Rightarrow> bytes" where
  "trim bs = rev (strip_seqs (map rev white_space) (rev (trim_start bs)))"

definition is_digit :: "u8 \<Rightarrow> bool" where
  "is_digit b = (48 \<le> b \<and> b \<le> 57)"

definition parse_u64 :: "bytes \<Rightarrow> u64 option" where
  "parse_u64 bs =
     (let ds = (case bs of [] \<Rightarrow> [] | b # rest \<Rightarrow> if b = 43 then rest else bs);
          n = foldl (\<lambda>a d. 10 * a + (unat d - 48)) 0 ds
      in if ds \<noteq> [] \<and> list_all is_digit ds \<and> n < 2 ^ 64 then Some (of_nat n) else None)"

definition ascii_upper_byte :: "u8 \<Rightarrow> u8" where
  "ascii_upper_byte b = (if 97 \<le> b \<and> b \<le> 122 then b - 32 else b)"

definition starts_with :: "bytes \<Rightarrow> bytes \<Rightarrow> bool" where
  "starts_with bs p = (take (length p) bs = p)"

definition contains_str :: "bytes \<Rightarrow> bytes \<Rightarrow> bool" where
  "contains_str bs p = list_ex (\<lambda>i. starts_with (drop i bs) p) [0..<Suc (length bs)]"

text \<open>\<open>str::get(..n)\<close>: nothing when \<open>n\<close> is past the end or inside a character.\<close>

definition str_get_to :: "nat \<Rightarrow> bytes \<Rightarrow> bytes option" where
  "str_get_to n bs =
     (if n = length bs \<or> n < length bs \<and> \<not> (128 \<le> bs ! n \<and> bs ! n \<le> 191)
      then Some (take n bs) else None)"

section \<open>Configuration\<close>

text \<open>The environment maps the name of a variable to its bytes; durations are milliseconds.\<close>

type_synonym environment = "string \<Rightarrow> bytes option"

record admission_config =
  budget_bytes :: u64
  light_bytes :: u64
  queue_max :: u64
  ac_wait :: nat

definition DEFAULT_LIGHT_ADMISSION_BYTES :: u64 where
  "DEFAULT_LIGHT_ADMISSION_BYTES = 16 * 1024 * 1024"

definition DEFAULT_QUEUE_MAX :: u64 where
  "DEFAULT_QUEUE_MAX = 64"

definition DEFAULT_QUEUE_WAIT_MS :: u64 where
  "DEFAULT_QUEUE_WAIT_MS = 5000"

definition DISABLED :: admission_config where
  "DISABLED = \<lparr>budget_bytes = 0, light_bytes = DEFAULT_LIGHT_ADMISSION_BYTES,
     queue_max = DEFAULT_QUEUE_MAX, ac_wait = unat DEFAULT_QUEUE_WAIT_MS\<rparr>"

definition env_uint :: "environment \<Rightarrow> string \<Rightarrow> u64 option" where
  "env_uint env k =
     (case env k of None \<Rightarrow> None | Some v \<Rightarrow> if utf8_valid v then parse_u64 (trim v) else None)"

definition or_default :: "'a option \<Rightarrow> 'a \<Rightarrow> 'a" where
  "or_default x d = (case x of None \<Rightarrow> d | Some y \<Rightarrow> y)"

definition from_env :: "environment \<Rightarrow> admission_config" where
  "from_env env =
     (case env_uint env ''APEX_PROCESS_BUDGET_MB'' of
        None \<Rightarrow> DISABLED
      | Some budget_mb \<Rightarrow>
          if budget_mb = 0 then DISABLED
          else
            let budget = sat_mul budget_mb (1024 * 1024);
                light = (case env_uint env ''APEX_QUERY_ADMISSION_MB'' of
                           Some mb \<Rightarrow> sat_mul mb (1024 * 1024)
                         | None \<Rightarrow> DEFAULT_LIGHT_ADMISSION_BYTES);
                light' = (if light = 0 then budget else min light budget);
                qmax = or_default (env_uint env ''APEX_QUERY_QUEUE_MAX'') DEFAULT_QUEUE_MAX;
                wait_ms = or_default (env_uint env ''APEX_QUERY_QUEUE_WAIT_MS'') DEFAULT_QUEUE_WAIT_MS
            in \<lparr>budget_bytes = budget, light_bytes = light', queue_max = qmax,
                ac_wait = unat wait_ms\<rparr>)"

definition DEFAULT_QUERY_MEMORY_BYTES :: u64 where
  "DEFAULT_QUERY_MEMORY_BYTES = 1024 * 1024 * 1024"

definition configured_query_memory_limit :: "environment \<Rightarrow> u64" where
  "configured_query_memory_limit env =
     (case env_uint env ''APEX_QUERY_MEMORY_MB'' of
        None \<Rightarrow> DEFAULT_QUERY_MEMORY_BYTES
      | Some mb \<Rightarrow> if mb = 0 then 0 else sat_mul mb (1024 * 1024))"

definition HEAVY :: "bytes list" where
  "HEAVY = map as_bytes ['' GROUP BY '', '' ORDER BY '', '' JOIN '', '' DISTINCT '', '' UNION '',
     '' INTERSECT '', '' EXCEPT '', '' HAVING '', '' OVER ('', '' OVER('']"

definition is_heavy_statement :: "bytes \<Rightarrow> bool" where
  "is_heavy_statement sql =
     (let trimmed = trim_start sql;
          head = map ascii_upper_byte (or_default (str_get_to 16 trimmed) trimmed)
      in if starts_with head (as_bytes ''WITH'') then True
         else if \<not> starts_with head (as_bytes ''SELECT'') then False
         else list_ex (contains_str (map ascii_upper_byte sql)) HEAVY)"

definition heavy_reservation :: "environment \<Rightarrow> admission_config \<Rightarrow> u64" where
  "heavy_reservation env cfg =
     (let per_query = configured_query_memory_limit env
      in max (if per_query = 0 then budget_bytes cfg else min per_query (budget_bytes cfg)) 1)"

definition reservation_for :: "environment \<Rightarrow> admission_config \<Rightarrow> bytes \<Rightarrow> u64" where
  "reservation_for env cfg sql =
     (if budget_bytes cfg = 0 then 0
      else if is_heavy_statement sql then heavy_reservation env cfg
      else max (min (light_bytes cfg) (budget_bytes cfg)) 1)"

section \<open>The controller\<close>

record queue_state =
  used_bytes :: u64
  waiting :: u64
  admitted :: u64
  rejected :: u64
  timed_out :: u64

definition controller_new :: queue_state where
  "controller_new = \<lparr>used_bytes = 0, waiting = 0, admitted = 0, rejected = 0, timed_out = 0\<rparr>"

definition admission_error :: "string \<Rightarrow> string \<Rightarrow> failure" where
  "admission_error code detail = IoError WouldBlock (''[APEX_ADMISSION_'' @ code @ ''] '' @ detail)"

definition queue_full_error :: failure where
  "queue_full_error = admission_error ''QUEUE_FULL'' ''process memory admission queue is full''"

definition timeout_error :: failure where
  "timeout_error = admission_error ''TIMEOUT'' ''process memory admission timed out''"

text \<open>
  One turn of the loop of \<open>acquire\<close>, up to the point where it returns or sleeps: the result when it
  returns, nothing when it joins the queue and sleeps. There is no deadline when adding the wait to
  the start overflows the clock.
\<close>

definition acquire_turn ::
  "admission_config \<Rightarrow> u64 \<Rightarrow> nat option \<Rightarrow> nat \<Rightarrow> queue_state \<Rightarrow> u64 result option \<times> queue_state" where
  "acquire_turn cfg bytes deadline now st =
     (if sat_add (used_bytes st) bytes \<le> budget_bytes cfg
      then (Some (Inr bytes), st\<lparr>used_bytes := used_bytes st + bytes, admitted := admitted st + 1\<rparr>)
      else if queue_max cfg \<le> waiting st
      then (Some (Inl queue_full_error), st\<lparr>rejected := rejected st + 1\<rparr>)
      else case deadline of
        None \<Rightarrow> (Some (Inl timeout_error), st\<lparr>timed_out := timed_out st + 1\<rparr>)
      | Some d \<Rightarrow>
          if d \<le> now
          then (Some (Inl timeout_error), st\<lparr>timed_out := timed_out st + 1\<rparr>)
          else (None, st\<lparr>waiting := waiting st + 1\<rparr>))"

definition checked_deadline :: "nat \<Rightarrow> nat \<Rightarrow> nat \<Rightarrow> nat option" where
  "checked_deadline clock_max started w = (if started + w \<le> clock_max then Some (started + w) else None)"

definition acquire ::
  "nat \<Rightarrow> admission_config \<Rightarrow> u64 \<Rightarrow> nat \<Rightarrow> nat \<Rightarrow> queue_state \<Rightarrow> u64 result option \<times> queue_state" where
  "acquire clock_max cfg bytes started now st =
     (if budget_bytes cfg = 0 \<or> bytes = 0 then (Some (Inr 0), st)
      else acquire_turn cfg bytes (checked_deadline clock_max started (ac_wait cfg)) now st)"

text \<open>
  After a sleep: \<open>woke\<close> says that the wait timed out, \<open>now\<close> is the clock of the test behind the
  sleep and \<open>now'\<close> that of the next turn.
\<close>

definition acquire_wake ::
  "admission_config \<Rightarrow> u64 \<Rightarrow> nat \<Rightarrow> bool \<Rightarrow> nat \<Rightarrow> nat \<Rightarrow> queue_state \<Rightarrow> u64 result option \<times> queue_state" where
  "acquire_wake cfg bytes deadline woke now now' st =
     (let st1 = st\<lparr>waiting := waiting st - 1\<rparr>
      in if woke \<and> deadline \<le> now
         then (Some (Inl timeout_error), st1\<lparr>timed_out := timed_out st1 + 1\<rparr>)
         else acquire_turn cfg bytes (Some deadline) now' st1)"

definition adm_release :: "u64 \<Rightarrow> queue_state \<Rightarrow> queue_state" where
  "adm_release bytes st = (if bytes = 0 then st else st\<lparr>used_bytes := sat_sub (used_bytes st) bytes\<rparr>)"

definition admit_statement ::
  "environment \<Rightarrow> nat \<Rightarrow> bytes \<Rightarrow> nat \<Rightarrow> nat \<Rightarrow> queue_state \<Rightarrow> u64 result option \<times> queue_state" where
  "admit_statement env clock_max sql started now st =
     (let cfg = from_env env
      in if budget_bytes cfg = 0 then (Some (Inr 0), st)
         else acquire clock_max cfg (reservation_for env cfg sql) started now st)"

definition admit_heavy_statement ::
  "environment \<Rightarrow> nat \<Rightarrow> nat \<Rightarrow> nat \<Rightarrow> queue_state \<Rightarrow> u64 result option \<times> queue_state" where
  "admit_heavy_statement env clock_max started now st =
     (let cfg = from_env env
      in if budget_bytes cfg = 0 then (Some (Inr 0), st)
         else acquire clock_max cfg (heavy_reservation env cfg) started now st)"

section \<open>Statements and their interleaving\<close>

text \<open>
  A statement is queued with its reservation, its deadline and whether it has been notified since
  it went to sleep; it runs and holds a reservation; or it has released its reservation and is
  about to call \<open>notify_all\<close> outside the mutex. All statements share a configuration.
\<close>

datatype stmt = Queued u64 nat bool | Running u64 | Releasing

record adm_world =
  controller :: queue_state
  stmts :: "(nat, stmt) hmap"
  adm_now :: nat
  outcomes :: "(nat \<times> u64 result) list"

datatype adm_call = Arrive nat u64 nat | Wake nat bool nat | Finish nat | Notify nat | Tick nat

definition settle ::
  "nat \<Rightarrow> u64 \<Rightarrow> nat \<Rightarrow> u64 result option \<times> queue_state \<Rightarrow> adm_world \<Rightarrow> adm_world" where
  "settle i bytes deadline r w =
     (case fst r of
        None \<Rightarrow> w\<lparr>controller := snd r, stmts := hm_insert i (Queued bytes deadline False) (stmts w)\<rparr>
      | Some (Inr b) \<Rightarrow> w\<lparr>controller := snd r, stmts := hm_insert i (Running b) (stmts w),
                         outcomes := outcomes w @ [(i, Inr b)]\<rparr>
      | Some (Inl e) \<Rightarrow> w\<lparr>controller := snd r, stmts := hm_remove i (stmts w),
                         outcomes := outcomes w @ [(i, Inl e)]\<rparr>)"

fun notified :: "stmt \<Rightarrow> stmt" where
  "notified (Queued b d n) = Queued b d True"
| "notified s = s"

fun adm_exec :: "nat \<Rightarrow> admission_config \<Rightarrow> adm_world \<Rightarrow> adm_call \<Rightarrow> adm_world" where
  "adm_exec clock_max cfg w (Arrive i bytes lag) =
     (if hm_get (stmts w) i \<noteq> None \<or> adm_now w < lag then w
      else settle i bytes (adm_now w - lag + ac_wait cfg)
             (acquire clock_max cfg bytes (adm_now w - lag) (adm_now w) (controller w)) w)"
| "adm_exec clock_max cfg w (Wake i woke lag) =
     (case hm_get (stmts w) i of
        Some (Queued bytes deadline _) \<Rightarrow>
          settle i bytes deadline
            (acquire_wake cfg bytes deadline woke (adm_now w) (adm_now w + lag) (controller w))
            (w\<lparr>adm_now := adm_now w + lag\<rparr>)
      | _ \<Rightarrow> w)"
| "adm_exec clock_max cfg w (Finish i) =
     (case hm_get (stmts w) i of
        Some (Running bytes) \<Rightarrow>
          w\<lparr>controller := adm_release bytes (controller w),
            stmts := (if bytes = 0 then hm_remove i (stmts w) else hm_insert i Releasing (stmts w))\<rparr>
      | _ \<Rightarrow> w)"
| "adm_exec clock_max cfg w (Notify i) =
     (case hm_get (stmts w) i of
        Some Releasing \<Rightarrow> w\<lparr>stmts := hm_map notified (hm_remove i (stmts w))\<rparr>
      | _ \<Rightarrow> w)"
| "adm_exec clock_max cfg w (Tick n) = w\<lparr>adm_now := adm_now w + n\<rparr>"

definition adm_world_new :: adm_world where
  "adm_world_new = \<lparr>controller = controller_new, stmts = [], adm_now = 0, outcomes = []\<rparr>"

inductive adm_reachable :: "nat \<Rightarrow> admission_config \<Rightarrow> adm_world \<Rightarrow> bool" for clock_max cfg where
  adm_start: "adm_reachable clock_max cfg adm_world_new"
| adm_step: "adm_reachable clock_max cfg w \<Longrightarrow> adm_reachable clock_max cfg (adm_exec clock_max cfg w c)"

section \<open>The invariant\<close>

text \<open>Sums over the values of a hash map.\<close>

definition hm_sum :: "('v \<Rightarrow> nat) \<Rightarrow> ('k, 'v) hmap \<Rightarrow> nat" where
  "hm_sum f m = sum_list (map (\<lambda>p. f (snd p)) m)"

lemma hm_sum_Nil [simp]: "hm_sum f [] = 0"
  by (simp add: hm_sum_def)

lemma hm_sum_Cons [simp]: "hm_sum f (p # m) = f (snd p) + hm_sum f m"
  by (simp add: hm_sum_def)

lemma hm_sum_remove:
  "hm_wf m \<Longrightarrow> hm_sum f m = hm_sum f (hm_remove k m) + (case hm_get m k of None \<Rightarrow> 0 | Some v \<Rightarrow> f v)"
proof (induction m)
  case (Cons p m)
  show ?case
  proof (cases "fst p = k")
    case True
    then have "k \<notin> set (hm_keys m)" using Cons.prems by auto
    then show ?thesis using True by (cases p) (simp add: hm_remove_fresh)
  next
    case False
    then show ?thesis using Cons by (cases p) simp
  qed
qed simp

lemma hm_sum_insert:
  "hm_wf m \<Longrightarrow> hm_sum f (hm_insert k v m) = hm_sum f (hm_remove k m) + f v"
proof (induction m)
  case (Cons p m)
  show ?case
  proof (cases "fst p = k")
    case True
    then have "k \<notin> set (hm_keys m)" using Cons.prems by auto
    then show ?thesis using True by (cases p) (simp add: hm_remove_fresh)
  next
    case False
    then show ?thesis using Cons by (cases p) simp
  qed
qed simp

lemma hm_sum_map: "hm_sum f (hm_map g m) = hm_sum (f \<circ> g) m"
  by (simp add: hm_sum_def hm_map_def case_prod_beta comp_def)

lemma hm_sum_ge: "hm_get m k = Some v \<Longrightarrow> f v \<le> hm_sum f m"
  by (induction m) (auto split: if_splits)

text \<open>Bytes held and places taken in the queue by a statement.\<close>

fun held :: "stmt \<Rightarrow> nat" where
  "held (Running b) = unat b"
| "held _ = 0"

fun queued :: "stmt \<Rightarrow> nat" where
  "queued (Queued b d n) = 1"
| "queued _ = 0"

text \<open>
  The controller's counters are those of the statements and within their limits, and a sleeping
  statement that has not been notified does not fit unless a notification is under way.
\<close>

definition slots_ok :: "admission_config \<Rightarrow> queue_state \<Rightarrow> (nat, stmt) hmap \<Rightarrow> bool" where
  "slots_ok cfg st m \<longleftrightarrow>
     hm_wf m
     \<and> unat (used_bytes st) = hm_sum held m \<and> hm_sum held m \<le> unat (budget_bytes cfg)
     \<and> unat (waiting st) = hm_sum queued m \<and> hm_sum queued m \<le> unat (queue_max cfg)
     \<and> (\<forall>i b d. hm_get m i = Some (Queued b d False) \<longrightarrow>
          (\<exists>j. hm_get m j = Some Releasing) \<or> unat (budget_bytes cfg) < hm_sum held m + unat b)"

definition adm_ok :: "admission_config \<Rightarrow> adm_world \<Rightarrow> bool" where
  "adm_ok cfg w \<longleftrightarrow> slots_ok cfg (controller w) (stmts w)"

lemma turn_cases:
  assumes max: "budget_bytes cfg \<noteq> u64_max"
  obtains
    (admit) st' where "acquire_turn cfg bytes dl now st = (Some (Inr bytes), st')"
      "unat (used_bytes st') = unat (used_bytes st) + unat bytes"
      "unat (used_bytes st') \<le> unat (budget_bytes cfg)" "waiting st' = waiting st"
  | (refuse) e st' where "acquire_turn cfg bytes dl now st = (Some (Inl e), st')"
      "used_bytes st' = used_bytes st" "waiting st' = waiting st"
      "e = queue_full_error \<Longrightarrow> queue_max cfg \<le> waiting st"
      "e = queue_full_error \<or> e = timeout_error"
  | (sleep) st' d where "acquire_turn cfg bytes dl now st = (None, st')" "dl = Some d" "now < d"
      "used_bytes st' = used_bytes st" "unat (waiting st') = Suc (unat (waiting st))"
      "waiting st < queue_max cfg"
      "unat (budget_bytes cfg) < unat (used_bytes st) + unat bytes"
proof -
  have "unat (budget_bytes cfg) \<noteq> unat u64_max" by (metis max word_unat_eq_iff)
  then have lt: "unat (budget_bytes cfg) < 2 ^ 64 - 1"
    using u64_max_top [of "budget_bytes cfg"] unat_u64_max by (simp add: word_le_nat_alt)
  have fits: "sat_add (used_bytes st) bytes \<le> budget_bytes cfg
      \<longleftrightarrow> unat (used_bytes st) + unat bytes \<le> unat (budget_bytes cfg)"
    using lt by (simp add: word_le_nat_alt unat_sat_add min_le_iff_disj)
  consider (fit) "sat_add (used_bytes st) bytes \<le> budget_bytes cfg"
    | (full) "\<not> sat_add (used_bytes st) bytes \<le> budget_bytes cfg" "queue_max cfg \<le> waiting st"
    | (late) "\<not> sat_add (used_bytes st) bytes \<le> budget_bytes cfg" "\<not> queue_max cfg \<le> waiting st"
        "dl = None \<or> (\<exists>d. dl = Some d \<and> d \<le> now)"
    | (wait) d where "\<not> sat_add (used_bytes st) bytes \<le> budget_bytes cfg" "\<not> queue_max cfg \<le> waiting st"
        "dl = Some d" "now < d"
    by (metis not_le option.exhaust)
  then show ?thesis
  proof cases
    case fit
    then have "unat (used_bytes st + bytes) = unat (used_bytes st) + unat bytes"
      using fits lt by (simp add: unat_word_ariths)
    with fit show ?thesis
      using fits
      by (intro admit [of "st\<lparr>used_bytes := used_bytes st + bytes, admitted := admitted st + 1\<rparr>"])
         (simp_all add: acquire_turn_def)
  next
    case full
    then show ?thesis
      by (intro refuse [of queue_full_error "st\<lparr>rejected := rejected st + 1\<rparr>"])
         (simp_all add: acquire_turn_def)
  next
    case late
    then show ?thesis
      by (intro refuse [of timeout_error "st\<lparr>timed_out := timed_out st + 1\<rparr>"])
         (auto simp: acquire_turn_def queue_full_error_def timeout_error_def admission_error_def)
  next
    case wait
    then have "waiting st \<noteq> u64_max" by (metis u64_max_top)
    with wait show ?thesis
      using fits
      by (intro sleep [of "st\<lparr>waiting := waiting st + 1\<rparr>" d]) (simp_all add: acquire_turn_def unat_bump not_le)
  qed
qed

lemma slots_insert:
  assumes m: "slots_ok cfg st0 (hm_remove i m)" and wf: "hm_wf m"
    and used: "unat (used_bytes st) = unat (used_bytes st0) + held s"
      "unat (used_bytes st) \<le> unat (budget_bytes cfg)"
    and wait: "unat (waiting st) = unat (waiting st0) + queued s"
      "unat (waiting st) \<le> unat (queue_max cfg)"
    and sleeps: "\<And>b d. s = Queued b d False \<Longrightarrow>
      unat (budget_bytes cfg) < unat (used_bytes st0) + unat b"
  shows "slots_ok cfg st (hm_insert i s m)"
proof -
  have sums: "hm_sum held (hm_insert i s m) = unat (used_bytes st)"
    "hm_sum queued (hm_insert i s m) = unat (waiting st)"
    using m used(1) wait(1) by (simp_all add: slots_ok_def hm_sum_insert [OF wf])
  have "(\<exists>j. hm_get (hm_insert i s m) j = Some Releasing)
      \<or> unat (budget_bytes cfg) < unat (used_bytes st) + unat b"
    if k: "hm_get (hm_insert i s m) k = Some (Queued b d False)" for k b d
  proof (cases "k = i")
    case True
    then have "s = Queued b d False" using k by (simp add: hm_simps)
    then show ?thesis using sleeps used(1) by (metis add_leD1 le_add1 less_le_trans add_right_mono)
  next
    case False
    then have "hm_get (hm_remove i m) k = Some (Queued b d False)" using k by (simp add: hm_simps)
    then consider j where "hm_get (hm_remove i m) j = Some Releasing"
      | "unat (budget_bytes cfg) < unat (used_bytes st0) + unat b"
      using m unfolding slots_ok_def by metis
    then show ?thesis
    proof cases
      case 1
      then have "hm_get (hm_insert i s m) j = Some Releasing" by (simp add: hm_simps split: if_splits)
      then show ?thesis by blast
    next
      case 2
      then show ?thesis using used(1) by simp
    qed
  qed
  then show ?thesis
    using used(2) wait(2) wf by (simp add: slots_ok_def sums hm_simps)
qed

lemma slots_cong:
  "used_bytes st' = used_bytes st \<Longrightarrow> waiting st' = waiting st \<Longrightarrow>
   slots_ok cfg st' m = slots_ok cfg st m"
  by (simp add: slots_ok_def)

lemma slots_bounds:
  assumes "slots_ok cfg st m"
  shows "unat (used_bytes st) \<le> unat (budget_bytes cfg)" and "unat (waiting st) \<le> unat (queue_max cfg)"
  using assms unfolding slots_ok_def by (blast intro: eq_refl order_trans)+

lemma slots_sums:
  assumes "slots_ok cfg st m"
  shows "hm_wf m" and "hm_sum held m = unat (used_bytes st)" and "hm_sum queued m = unat (waiting st)"
  using assms unfolding slots_ok_def by simp_all

lemma slots_wakeup:
  assumes "slots_ok cfg st m" and "hm_get m k = Some (Queued b d False)"
  shows "(\<exists>j. hm_get m j = Some Releasing) \<or> unat (budget_bytes cfg) < unat (used_bytes st) + unat b"
  using assms unfolding slots_ok_def by metis

lemma slots_okI:
  assumes "hm_wf m" "hm_sum held m = unat (used_bytes st)" "hm_sum queued m = unat (waiting st)"
    "unat (used_bytes st) \<le> unat (budget_bytes cfg)" "unat (waiting st) \<le> unat (queue_max cfg)"
    "\<And>k b d. hm_get m k = Some (Queued b d False) \<Longrightarrow>
      (\<exists>j. hm_get m j = Some Releasing) \<or> unat (budget_bytes cfg) < unat (used_bytes st) + unat b"
  shows "slots_ok cfg st m"
  unfolding slots_ok_def assms(2,3) using assms(1,4,5,6) by blast

text \<open>Removing a statement that is not about to notify, with the counters adjusted.\<close>

lemma slots_remove:
  assumes m: "slots_ok cfg st m" and i: "hm_get m i = Some s" "s \<noteq> Releasing"
    and st': "unat (used_bytes st') + held s = unat (used_bytes st)"
      "unat (waiting st') + queued s = unat (waiting st)" "held s = 0"
  shows "slots_ok cfg st' (hm_remove i m)"
proof (rule slots_okI)
  note sums = slots_sums [OF m] and bounds = slots_bounds [OF m]
  show "hm_wf (hm_remove i m)" by (rule hm_wf_remove [OF sums(1)])
  show "hm_sum held (hm_remove i m) = unat (used_bytes st')"
    using hm_sum_remove [OF sums(1), of held i] sums(2) st'(1) by (simp add: i)
  show "hm_sum queued (hm_remove i m) = unat (waiting st')"
    using hm_sum_remove [OF sums(1), of queued i] sums(3) st'(2) by (simp add: i)
  show "unat (used_bytes st') \<le> unat (budget_bytes cfg)" "unat (waiting st') \<le> unat (queue_max cfg)"
    using bounds st' by simp_all
  fix k b d
  assume "hm_get (hm_remove i m) k = Some (Queued b d False)"
  then have "hm_get m k = Some (Queued b d False)" by (simp add: hm_simps split: if_splits)
  from slots_wakeup [OF m this]
  show "(\<exists>j. hm_get (hm_remove i m) j = Some Releasing)
      \<or> unat (budget_bytes cfg) < unat (used_bytes st') + unat b"
  proof
    assume "\<exists>j. hm_get m j = Some Releasing"
    then obtain j where j: "hm_get m j = Some Releasing" by blast
    then have "j \<noteq> i" using i by auto
    with j have "hm_get (hm_remove i m) j = Some Releasing" by (simp add: hm_simps)
    then show ?thesis by blast
  qed (use st' in simp)
qed

lemma turn_ok:
  assumes m: "slots_ok cfg st (hm_remove i (stmts w))" and wf: "hm_wf (stmts w)"
    and max: "budget_bytes cfg \<noteq> u64_max"
  shows "adm_ok cfg (settle i bytes d (acquire_turn cfg bytes dl now st) w)"
proof (rule turn_cases [OF max, where bytes = bytes and dl = dl and now = now and st = st])
  fix st'
  assume t: "acquire_turn cfg bytes dl now st = (Some (Inr bytes), st')"
    "unat (used_bytes st') = unat (used_bytes st) + unat bytes"
    "unat (used_bytes st') \<le> unat (budget_bytes cfg)" "waiting st' = waiting st"
  have "slots_ok cfg st' (hm_insert i (Running bytes) (stmts w))"
    by (rule slots_insert [OF m wf]) (use t(2-) in \<open>simp_all add: slots_bounds [OF m]\<close>)
  then show ?thesis by (simp add: adm_ok_def settle_def t(1))
next
  fix e st'
  assume t: "acquire_turn cfg bytes dl now st = (Some (Inl e), st')"
    "used_bytes st' = used_bytes st" "waiting st' = waiting st"
  then have "slots_ok cfg st' (hm_remove i (stmts w))" using m slots_cong by metis
  then show ?thesis by (simp add: adm_ok_def settle_def t(1))
next
  fix st' d'
  assume t: "acquire_turn cfg bytes dl now st = (None, st')"
    "used_bytes st' = used_bytes st" "unat (waiting st') = Suc (unat (waiting st))"
    "waiting st < queue_max cfg" "unat (budget_bytes cfg) < unat (used_bytes st) + unat bytes"
  have "slots_ok cfg st' (hm_insert i (Queued bytes d False) (stmts w))"
    by (rule slots_insert [OF m wf])
       (use t in \<open>simp_all add: word_less_nat_alt slots_bounds [OF m]\<close>)
  then show ?thesis by (simp add: adm_ok_def settle_def t(1))
qed

text \<open>Taking a sleeping statement out of the queue.\<close>

lemma slots_unqueue:
  assumes m: "slots_ok cfg st m" and i: "hm_get m i = Some (Queued b d n)"
  shows "slots_ok cfg (st\<lparr>waiting := waiting st - 1\<rparr>) (hm_remove i m)"
    and "unat (waiting st - 1) < unat (queue_max cfg)"
proof -
  have "1 \<le> unat (waiting st)" using hm_sum_ge [OF i, of queued] slots_sums(3) [OF m] by simp
  then have w: "unat (waiting st) = Suc (unat (waiting st - 1))"
    by (metis One_nat_def Suc_pred' gr0I less_eq_Suc_le not_less_eq_eq unat_0 unat_minus_one zero_less_Suc)
  then show "unat (waiting st - 1) < unat (queue_max cfg)" using slots_bounds(2) [OF m] by simp
  show "slots_ok cfg (st\<lparr>waiting := waiting st - 1\<rparr>) (hm_remove i m)"
    by (rule slots_remove [OF m i]) (simp_all add: w)
qed

lemma slots_release:
  assumes m: "slots_ok cfg st m" and i: "hm_get m i = Some (Running b)"
  shows "slots_ok cfg (adm_release b st) (if b = 0 then hm_remove i m else hm_insert i Releasing m)"
proof (cases "b = 0")
  case True
  then show ?thesis using slots_remove [OF m i, of st] by (simp add: adm_release_def)
next
  case False
  note sums = slots_sums [OF m] and bounds = slots_bounds [OF m]
  have "unat b \<le> unat (used_bytes st)" using hm_sum_ge [OF i, of held] sums(2) by simp
  moreover have "hm_get (hm_insert i Releasing m) i = Some Releasing" by (simp add: hm_simps)
  ultimately have "slots_ok cfg (adm_release b st) (hm_insert i Releasing m)"
    using hm_sum_remove [OF sums(1), of held i] hm_sum_remove [OF sums(1), of queued i] sums bounds
    by (intro slots_okI) (auto simp: i False adm_release_def hm_sum_insert unat_sat_sub hm_wf_insert)
  then show ?thesis using False by simp
qed

lemma slots_notify:
  assumes m: "slots_ok cfg st m" and i: "hm_get m i = Some Releasing"
  shows "slots_ok cfg st (hm_map notified (hm_remove i m))"
proof -
  note sums = slots_sums [OF m] and bounds = slots_bounds [OF m]
  have same: "held (notified s) = held s" "queued (notified s) = queued s"
    "notified s \<noteq> Queued b d False" for s b d by (cases s; simp)+
  have fresh: "hm_get (hm_map notified (hm_remove i m)) k \<noteq> Some (Queued b d False)" for k b d
    using same(3) by (simp add: hm_simps)
  show ?thesis
    using hm_sum_remove [OF sums(1), of held i] hm_sum_remove [OF sums(1), of queued i] sums bounds
    by (intro slots_okI) (simp_all add: i hm_sum_map comp_def same fresh hm_keys_map hm_wf_remove)
qed

lemma arrive_ok:
  assumes ok: "adm_ok cfg w" and max: "budget_bytes cfg \<noteq> u64_max" and i: "hm_get (stmts w) i = None"
  shows "adm_ok cfg (settle i bytes d (acquire clock_max cfg bytes started now (controller w)) w)"
proof -
  have m: "slots_ok cfg (controller w) (hm_remove i (stmts w))" and wf: "hm_wf (stmts w)"
    using ok i slots_sums(1) by (auto simp: adm_ok_def hm_get_None hm_remove_fresh)
  show ?thesis
  proof (cases "budget_bytes cfg = 0 \<or> bytes = 0")
    case True
    have "slots_ok cfg (controller w) (hm_insert i (Running 0) (stmts w))"
      by (rule slots_insert [OF m wf]) (simp_all add: slots_bounds [OF m])
    then show ?thesis using True by (simp add: acquire_def settle_def adm_ok_def)
  next
    case False
    then show ?thesis by (simp add: acquire_def turn_ok [OF m wf max])
  qed
qed

lemma wake_ok:
  assumes ok: "adm_ok cfg w" and max: "budget_bytes cfg \<noteq> u64_max"
    and i: "hm_get (stmts w) i = Some (Queued bytes d n)"
  shows "adm_ok cfg (settle i bytes d (acquire_wake cfg bytes d woke now now' (controller w)) w)"
proof -
  have s: "slots_ok cfg (controller w) (stmts w)" using ok by (simp add: adm_ok_def)
  let ?st = "(controller w)\<lparr>waiting := waiting (controller w) - 1\<rparr>"
  have m: "slots_ok cfg ?st (hm_remove i (stmts w))" by (rule slots_unqueue [OF s i])
  have wf: "hm_wf (stmts w)" by (rule slots_sums [OF s])
  have "slots_ok cfg (?st\<lparr>timed_out := timed_out ?st + 1\<rparr>) (hm_remove i (stmts w))"
    using m slots_cong [of "?st\<lparr>timed_out := timed_out ?st + 1\<rparr>" ?st] by simp
  then show ?thesis
    using turn_ok [OF m wf max, of bytes d "Some d" now']
    by (simp add: acquire_wake_def Let_def adm_ok_def settle_def)
qed

lemma settle_clock: "settle i b d r (w\<lparr>adm_now := t\<rparr>) = (settle i b d r w)\<lparr>adm_now := t\<rparr>"
  by (simp add: settle_def split: option.splits sum.splits)

lemma adm_ok_clock [simp]: "adm_ok cfg (w\<lparr>adm_now := t\<rparr>) = adm_ok cfg w"
  by (simp add: adm_ok_def)

lemma adm_exec_ok:
  assumes ok: "adm_ok cfg w" and max: "budget_bytes cfg \<noteq> u64_max"
  shows "adm_ok cfg (adm_exec clock_max cfg w c)"
proof (cases c)
  case (Arrive i bytes lag)
  then show ?thesis using ok arrive_ok [OF ok max] by simp
next
  case (Wake i woke lag)
  then show ?thesis
    using ok wake_ok [OF ok max] by (simp add: settle_clock split: option.splits stmt.splits)
next
  case (Finish i)
  then show ?thesis
    using ok slots_release by (simp add: adm_ok_def split: option.splits stmt.splits)
next
  case (Notify i)
  then show ?thesis
    using ok slots_notify by (simp add: adm_ok_def split: option.splits stmt.splits)
qed (use ok in simp)

lemma adm_reachable_ok: "adm_reachable clock_max cfg w \<Longrightarrow> budget_bytes cfg \<noteq> u64_max \<Longrightarrow> adm_ok cfg w"
proof (induction rule: adm_reachable.induct)
  case adm_start
  then show ?case
    by (simp add: adm_ok_def slots_ok_def adm_world_new_def controller_new_def)
next
  case (adm_step w c)
  then show ?case by (simp add: adm_exec_ok)
qed

lemma reachable_run: "adm_reachable clock_max cfg (foldl (adm_exec clock_max cfg) adm_world_new cs)"
  by (induction cs rule: rev_induct) (auto intro: adm_reachable.intros)

section \<open>Properties\<close>

text \<open>A world with a running statement, a sleeping one and a full queue, for the witnesses.\<close>

definition demo_config :: admission_config where
  "demo_config = \<lparr>budget_bytes = 100, light_bytes = 10, queue_max = 1, ac_wait = 5\<rparr>"

definition demo_run :: "adm_call list" where
  "demo_run = [Arrive 1 70 0, Arrive 2 40 0, Arrive 3 50 0, Tick 6]"

definition demo_adm_world :: adm_world where
  "demo_adm_world = foldl (adm_exec 1000 demo_config) adm_world_new demo_run"

lemma demo_adm_world:
  "demo_adm_world = \<lparr>controller = \<lparr>used_bytes = 70, waiting = 1, admitted = 1, rejected = 1, timed_out = 0\<rparr>,
     stmts = [(1, Running 70), (2, Queued 40 5 False)], adm_now = 6,
     outcomes = [(1, Inr 70), (3, Inl queue_full_error)]\<rparr>"
  by (simp add: demo_adm_world_def demo_run_def adm_world_new_def controller_new_def demo_config_def
      acquire_def acquire_turn_def settle_def checked_deadline_def sat_add_def)

lemma demo_adm_reachable: "adm_reachable 1000 demo_config demo_adm_world"
  unfolding demo_adm_world_def by (rule reachable_run)

text \<open>
  C12. In every reachable state of the admission controller the reservation counter is
  the sum of what the running statements hold and is within the process budget, and the waiting
  counter is the number of sleeping statements and is within the capacity of the queue, for every
  budget below the largest \<open>usize\<close> and one configuration shared by all statements.
\<close>

theorem admission_bounded:
  assumes "adm_reachable clock_max cfg w" and "budget_bytes cfg \<noteq> u64_max"
  shows "hm_sum held (stmts w) = unat (used_bytes (controller w))
    \<and> used_bytes (controller w) \<le> budget_bytes cfg
    \<and> hm_sum queued (stmts w) = unat (waiting (controller w))
    \<and> waiting (controller w) \<le> queue_max cfg"
  using adm_reachable_ok [OF assms] slots_sums slots_bounds
  unfolding adm_ok_def word_le_nat_alt by blast

theorem admission_bounded_witness:
  "hm_sum held (stmts demo_adm_world) = 70 \<and> used_bytes (controller demo_adm_world) \<le> 100
   \<and> hm_sum queued (stmts demo_adm_world) = 1 \<and> waiting (controller demo_adm_world) \<le> 1"
  using admission_bounded [OF demo_adm_reachable] by (simp add: demo_adm_world demo_config_def)

text \<open>
  C22. No wakeup is lost: when a statement that could run alone sleeps without having
  been notified, another statement is running with a reservation, whose release will notify it, or
  has released its reservation and is about to notify. One configuration is shared by all
  statements.
\<close>

theorem no_lost_wakeup:
  assumes "adm_reachable clock_max cfg w" and "budget_bytes cfg \<noteq> u64_max"
    and "hm_get (stmts w) i = Some (Queued b d False)" and "b \<le> budget_bytes cfg"
  shows "\<exists>j. hm_get (stmts w) j = Some Releasing \<or> (\<exists>r. hm_get (stmts w) j = Some (Running r) \<and> r \<noteq> 0)"
proof -
  have ok: "slots_ok cfg (controller w) (stmts w)"
    using adm_reachable_ok [OF assms(1,2)] by (simp add: adm_ok_def)
  show ?thesis
  proof (cases "\<exists>j. hm_get (stmts w) j = Some Releasing")
    case False
    with slots_wakeup [OF ok assms(3)] assms(4) have "hm_sum held (stmts w) \<noteq> 0"
      using slots_sums(2) [OF ok] by (auto simp: word_le_nat_alt)
    then obtain j s where "(j, s) \<in> set (stmts w)" "held s \<noteq> 0"
      by (auto simp: hm_sum_def sum_list_eq_0_iff)
    moreover from this obtain r where "s = Running r" "r \<noteq> 0" by (cases s) (auto simp: unat_gt_0)
    ultimately show ?thesis using hm_get_mem [OF slots_sums(1) [OF ok]] by blast
  qed blast
qed

theorem no_lost_wakeup_witness:
  "\<exists>j. hm_get (stmts demo_adm_world) j = Some Releasing
     \<or> (\<exists>r. hm_get (stmts demo_adm_world) j = Some (Running r) \<and> r \<noteq> 0)"
proof (rule no_lost_wakeup [OF demo_adm_reachable])
  show "budget_bytes demo_config \<noteq> u64_max" "40 \<le> budget_bytes demo_config"
    by (simp_all add: demo_config_def)
  show "hm_get (stmts demo_adm_world) 2 = Some (Queued 40 5 False)" by (simp add: demo_adm_world)
qed

text \<open>
  C34. Waking up a queued statement either admits it with its reservation, rejects it as
  timed out, or lets it sleep again, and the last only before its deadline: a statement whose
  deadline has passed is decided by its next wakeup, and one that was let into the queue is never
  rejected because the queue is full, with one configuration shared by all statements.
\<close>

theorem queued_statement_decided:
  assumes "adm_reachable clock_max cfg w" and "budget_bytes cfg \<noteq> u64_max"
    and i: "hm_get (stmts w) i = Some (Queued b d n)"
    and w': "w' = adm_exec clock_max cfg w (Wake i woke lag)"
  shows "outcomes w' = outcomes w @ [(i, Inr b)] \<and> hm_get (stmts w') i = Some (Running b)
    \<or> outcomes w' = outcomes w @ [(i, Inl timeout_error)] \<and> hm_get (stmts w') i = None
    \<or> adm_now w + lag < d \<and> outcomes w' = outcomes w \<and> hm_get (stmts w') i = Some (Queued b d False)"
proof -
  let ?st = "(controller w)\<lparr>waiting := waiting (controller w) - 1\<rparr>"
  let ?turn = "acquire_turn cfg b (Some d) (adm_now w + lag) ?st"
  have ok: "slots_ok cfg (controller w) (stmts w)"
    using adm_reachable_ok [OF assms(1,2)] by (simp add: adm_ok_def)
  have room: "waiting ?st < queue_max cfg" using slots_unqueue(2) [OF ok i] by (simp add: word_less_nat_alt)
  have w': "w' = settle i b d (acquire_wake cfg b d woke (adm_now w) (adm_now w + lag) (controller w))
      (w\<lparr>adm_now := adm_now w + lag\<rparr>)"
    by (simp add: w' i)
  show ?thesis
  proof (cases "woke \<and> d \<le> adm_now w")
    case True
    then show ?thesis by (simp add: w' acquire_wake_def settle_def hm_simps)
  next
    case False
    then have r: "acquire_wake cfg b d woke (adm_now w) (adm_now w + lag) (controller w) = ?turn"
      by (auto simp: acquire_wake_def)
    show ?thesis
      by (rule turn_cases [OF assms(2), where bytes = b and dl = "Some d" and now = "adm_now w + lag" and st = ?st])
         (use room in \<open>auto simp: w' r settle_def hm_simps not_le [symmetric]\<close>)
  qed
qed

theorem queued_statement_decided_witness:
  "hm_get (stmts (adm_exec 1000 demo_config demo_adm_world (Wake 2 False 0))) 2 = None
   \<and> outcomes (adm_exec 1000 demo_config demo_adm_world (Wake 2 False 0))
     = outcomes demo_adm_world @ [(2, Inl timeout_error)]"
proof -
  have "budget_bytes demo_config \<noteq> u64_max" by (simp add: demo_config_def)
  moreover have "hm_get (stmts demo_adm_world) 2 = Some (Queued 40 5 False)" "adm_now demo_adm_world = 6"
    by (simp_all add: demo_adm_world)
  moreover have "hm_get (stmts (adm_exec 1000 demo_config demo_adm_world (Wake 2 False 0))) 2 = None"
    by (simp add: demo_adm_world demo_config_def acquire_wake_def acquire_turn_def settle_def sat_add_def)
  ultimately show ?thesis
    using queued_statement_decided [OF demo_adm_reachable, of 2 40 5 False _ False 0] by simp
qed

lemma reservation_bounds:
  assumes "budget_bytes cfg \<noteq> 0"
  shows "reservation_for env cfg sql \<noteq> 0" and "reservation_for env cfg sql \<le> budget_bytes cfg"
proof -
  have "1 \<le> budget_bytes cfg" using assms by (simp add: word_le_nat_alt unat_gt_0 Suc_le_eq)
  moreover have "max x 1 \<noteq> 0" for x :: u64
    by (metis max.cobounded2 word_le_0_iff zero_neq_one)
  ultimately show "reservation_for env cfg sql \<noteq> 0" "reservation_for env cfg sql \<le> budget_bytes cfg"
    using assms by (simp_all add: reservation_for_def heavy_reservation_def Let_def)
qed

text \<open>
  A statement that arrives when nothing is reserved is admitted at once, whatever
  the environment and its text: its reservation is within the configured budget, and positive unless
  admission is disabled.
\<close>

theorem idle_controller_admits:
  assumes "used_bytes st = 0"
  shows "\<exists>r st'. admit_statement env clock_max sql started now st = (Some (Inr r), st')
    \<and> used_bytes st' = r \<and> r \<le> budget_bytes (from_env env)
    \<and> (r = 0 \<longleftrightarrow> budget_bytes (from_env env) = 0)"
proof -
  let ?cfg = "from_env env"
  have "unat (sat_add 0 r) = unat r" for r
    using u64_max_top [of r] by (simp add: unat_sat_add word_le_nat_alt unat_u64_max)
  then have "sat_add 0 r = r" for r by (metis word_unat_eq_iff)
  then show ?thesis
    using assms reservation_bounds [of ?cfg env sql]
    by (simp add: admit_statement_def acquire_def acquire_turn_def Let_def)
qed

theorem idle_controller_admits_witness:
  "\<exists>r st'. admit_statement (\<lambda>k. if k = ''APEX_PROCESS_BUDGET_MB'' then Some [32, 49] else None) 9
       (as_bytes ''SELECT 1'') 0 0 controller_new = (Some (Inr r), st')
     \<and> used_bytes st' = r \<and> r \<noteq> 0"
proof -
  let ?env = "\<lambda>k. if k = ''APEX_PROCESS_BUDGET_MB'' then Some [32, 49 :: u8] else None"
  have "strip_seqs white_space [32, 49] = [49]" "strip_seqs (map rev white_space) [49] = [49]"
    by (simp_all add: strip_seqs.simps white_space_def)
  then have "env_uint ?env ''APEX_PROCESS_BUDGET_MB'' = Some 1"
    by (simp add: env_uint_def utf8_valid_def utf8_next_def utf8_lead_def trim_def trim_start_def
        parse_u64_def is_digit_def)
  then have "budget_bytes (from_env ?env) \<noteq> 0" by (simp add: from_env_def Let_def sat_mul_def)
  moreover have "used_bytes controller_new = 0" by (simp add: controller_new_def)
  ultimately show ?thesis using idle_controller_admits [of controller_new ?env 9 "as_bytes ''SELECT 1''" 0 0] by blast
qed

text \<open>
  With a budget of \<open>usize::MAX\<close> the saturated sum always fits, and the addition behind the test
  wraps: a second statement that reserves the whole budget is admitted beside the first.
\<close>

lemma admission_overflow:
  assumes "budget_bytes cfg = u64_max" and "used_bytes st = u64_max"
  shows "fst (acquire clock_max cfg u64_max started now st) = Some (Inr u64_max)
    \<and> used_bytes (snd (acquire clock_max cfg u64_max started now st)) = u64_max - 1"
  using assms by (simp add: acquire_def acquire_turn_def)

end
