(* ===== verification/Bloom_Index.thy ===== *)
theory Bloom_Index
  imports Prelude
begin

text \<open>
  Bloom filters over row groups (\<^verbatim>\<open>storage/bloom.rs\<close>): the filter of one row group, the index of a
  string column built from plain or dictionary-encoded data, the ranges a scan has to visit, and
  the serialized form. The \<open>bloomfilter\<close> package is a parameter, \<open>bloom_ops\<close>, with its documented
  behaviour as \<open>bloom_laws\<close>. Theorems: a scan that skips groups by the index misses no row that
  holds the value; the serialized index reads back unchanged.
\<close>

section \<open>Slices and text\<close>

definition get_slice :: "'a list \<Rightarrow> nat \<Rightarrow> nat \<Rightarrow> 'a list result" where
  "get_slice xs a b = (if a \<le> b \<and> b \<le> length xs then Inr (take (b - a) (drop a xs)) else Inl Panic)"

text \<open>\<open>String::from_utf8_lossy\<close>: every maximal invalid sequence becomes one replacement character.\<close>

definition replacement :: bytes where
  "replacement = [239, 191, 189]"

function lossy :: "bytes \<Rightarrow> (nat \<times> nat) list \<Rightarrow> bytes \<Rightarrow> bytes" where
  "lossy pend [] [] = []"
| "lossy pend (r # rs) [] = replacement"
| "lossy pend [] (b # bs) =
     (case utf8_lead (unat b) of
        None \<Rightarrow> replacement @ lossy [] [] bs
      | Some [] \<Rightarrow> b # lossy [] [] bs
      | Some rs \<Rightarrow> lossy [b] rs bs)"
| "lossy pend (r # rs) (b # bs) =
     (if fst r \<le> unat b \<and> unat b \<le> snd r
      then if rs = [] then pend @ b # lossy [] [] bs else lossy (pend @ [b]) rs bs
      else replacement @ lossy [] [] (b # bs))"
  by pat_completeness auto

termination
  by (relation "measure (\<lambda>(pend, rs, bs). 2 * length bs + (if rs = [] then 0 else 1))") auto

definition from_utf8_lossy :: "bytes \<Rightarrow> string" where
  "from_utf8_lossy bs = of_bytes (lossy [] [] bs)"

lemma utf8_next_simps:
  "utf8_next b None = None"
  "utf8_next b (Some []) = utf8_lead (unat b)"
  "utf8_next b (Some (r # rs)) = (if fst r \<le> unat b \<and> unat b \<le> snd r then Some rs else None)"
  by (simp_all add: utf8_next_def case_prod_beta)

lemma utf8_dead: "fold utf8_next bs None = None"
  by (induction bs) (simp_all add: utf8_next_simps)

lemma lossy_valid:
  "fold utf8_next bs (Some rs) = Some [] \<Longrightarrow> (rs = [] \<Longrightarrow> pend = []) \<Longrightarrow> lossy pend rs bs = pend @ bs"
proof (induction pend rs bs rule: lossy.induct)
  case (3 pend b bs)
  then show ?case
    by (cases "utf8_lead (unat b)") (auto simp: utf8_next_simps utf8_dead split: list.splits)
next
  case (4 pend r rs b bs)
  then show ?case
    by (auto simp: utf8_next_simps utf8_dead split: if_splits)
qed simp_all

lemma from_utf8_lossy_valid: "utf8_valid (as_bytes s) \<Longrightarrow> from_utf8_lossy (as_bytes s) = s"
  by (simp add: from_utf8_lossy_def utf8_valid_def lossy_valid)

section \<open>Row group filters\<close>

text \<open>The interface of \<open>bloomfilter::Bloom\<close>, on filters of type \<open>'b\<close>.\<close>

type_synonym sip_keys = "(u64 \<times> u64) \<times> (u64 \<times> u64)"

record 'b bloom_ops =
  new_for_fp_rate :: "nat \<Rightarrow> f64 \<Rightarrow> 'b"
  bf_set :: "'b \<Rightarrow> bytes \<Rightarrow> 'b"
  bf_check :: "'b \<Rightarrow> bytes \<Rightarrow> bool"
  bf_bitmap :: "'b \<Rightarrow> bytes"
  number_of_bits :: "'b \<Rightarrow> u64"
  number_of_hash_functions :: "'b \<Rightarrow> u32"
  bf_sip_keys :: "'b \<Rightarrow> sip_keys"
  from_existing :: "bytes \<Rightarrow> u64 \<Rightarrow> u32 \<Rightarrow> sip_keys \<Rightarrow> 'b"

text \<open>
  What the package documents: an item that was set is found, setting another item does not lose it,
  and a filter rebuilt from its parts is the filter.
\<close>

definition bloom_laws :: "'b bloom_ops \<Rightarrow> bool" where
  "bloom_laws ops \<longleftrightarrow>
     (\<forall>f v. bf_check ops (bf_set ops f v) v)
     \<and> (\<forall>f v w. bf_check ops f v \<longrightarrow> bf_check ops (bf_set ops f w) v)
     \<and> (\<forall>f. from_existing ops (bf_bitmap ops f) (number_of_bits ops f)
            (number_of_hash_functions ops f) (bf_sip_keys ops f) = f)"

record 'b row_group_filter =
  rg_filter :: 'b
  item_count :: nat
  start_row :: nat
  end_row :: nat

definition rg_new :: "'b bloom_ops \<Rightarrow> nat \<Rightarrow> f64 \<Rightarrow> nat \<Rightarrow> nat \<Rightarrow> 'b row_group_filter" where
  "rg_new ops expected fp a b =
     \<lparr>rg_filter = new_for_fp_rate ops (max expected 1) fp, item_count = 0, start_row = a, end_row = b\<rparr>"

definition rg_insert :: "'b bloom_ops \<Rightarrow> bytes \<Rightarrow> 'b row_group_filter \<Rightarrow> 'b row_group_filter" where
  "rg_insert ops v f =
     f\<lparr>rg_filter := bf_set ops (rg_filter f) v, item_count := item_count f + 1\<rparr>"

definition might_contain :: "'b bloom_ops \<Rightarrow> bytes \<Rightarrow> 'b row_group_filter \<Rightarrow> bool" where
  "might_contain ops v f = bf_check ops (rg_filter f) v"

definition u64_bytes :: "nat \<Rightarrow> bytes" where
  "u64_bytes n = to_le_bytes (of_nat n :: u64)"

definition u32_bytes :: "nat \<Rightarrow> bytes" where
  "u32_bytes n = to_le_bytes (of_nat n :: u32)"

definition rg_to_bytes :: "'b bloom_ops \<Rightarrow> 'b row_group_filter \<Rightarrow> bytes" where
  "rg_to_bytes ops f =
     (let bitmap = bf_bitmap ops (rg_filter f); keys = bf_sip_keys ops (rg_filter f)
      in u64_bytes (item_count f) @ u64_bytes (start_row f) @ u64_bytes (end_row f)
         @ to_le_bytes (number_of_bits ops (rg_filter f))
         @ to_le_bytes (number_of_hash_functions ops (rg_filter f))
         @ u32_bytes (length bitmap)
         @ to_le_bytes (fst (fst keys)) @ to_le_bytes (snd (fst keys))
         @ to_le_bytes (fst (snd keys)) @ to_le_bytes (snd (snd keys))
         @ bitmap)"

text \<open>The integer at an offset of a buffer that is long enough.\<close>

definition u64_at :: "bytes \<Rightarrow> nat \<Rightarrow> u64" where
  "u64_at d k = from_le_bytes (take 8 (drop k d))"

definition u32_at :: "bytes \<Rightarrow> nat \<Rightarrow> u32" where
  "u32_at d k = from_le_bytes (take 4 (drop k d))"

definition rg_from_bytes :: "'b bloom_ops \<Rightarrow> bytes \<Rightarrow> 'b row_group_filter result" where
  "rg_from_bytes ops d =
     (if length d < 72 then Inl (IoError InvalidData ''Bloom filter data too short'')
      else
        let bitmap_len = unat (u32_at d 36)
        in if length d < 72 + bitmap_len
           then Inl (IoError InvalidData ''Bloom filter bitmap incomplete'')
           else Inr \<lparr>rg_filter = from_existing ops (take bitmap_len (drop 72 d)) (u64_at d 24)
                       (u32_at d 32) ((u64_at d 40, u64_at d 48), (u64_at d 56, u64_at d 64)),
                     item_count = unat (u64_at d 0), start_row = unat (u64_at d 8),
                     end_row = unat (u64_at d 16)\<rparr>)"

section \<open>The index of a column\<close>

record 'b column_bloom_index =
  bi_filters :: "'b row_group_filter list"
  bi_column_name :: string
  row_group_size :: nat

definition bi_new :: "string \<Rightarrow> nat \<Rightarrow> 'b column_bloom_index" where
  "bi_new c n = \<lparr>bi_filters = [], bi_column_name = c, row_group_size = n\<rparr>"

definition num_groups :: "nat \<Rightarrow> nat \<Rightarrow> nat" where
  "num_groups rows n = (rows + n - 1) div n"

text \<open>One row of a plain column: a string that ends past the data is left out.\<close>

definition insert_string :: "'b bloom_ops \<Rightarrow> u64 list \<Rightarrow> bytes \<Rightarrow> nat \<Rightarrow> 'b row_group_filter
    \<Rightarrow> 'b row_group_filter result" where
  "insert_string ops offsets d i f =
     (let s = unat (offsets ! i); e = unat (offsets ! (i + 1))
      in if e \<le> length d then rbind (get_slice d s e) (\<lambda>v. Inr (rg_insert ops v f)) else Inr f)"

definition string_group :: "'b bloom_ops \<Rightarrow> u64 list \<Rightarrow> bytes \<Rightarrow> nat \<Rightarrow> f64 \<Rightarrow> nat
    \<Rightarrow> 'b row_group_filter result" where
  "string_group ops offsets d n fp g =
     (let rows = length offsets - 1; a = g * n; b = min ((g + 1) * n) rows
      in rfold (insert_string ops offsets d) [a..<b] (rg_new ops (b - a) fp a b))"

definition build_from_strings :: "'b bloom_ops \<Rightarrow> string \<Rightarrow> u64 list \<Rightarrow> bytes \<Rightarrow> nat \<Rightarrow> f64
    \<Rightarrow> 'b column_bloom_index result" where
  "build_from_strings ops c offsets d n fp =
     (if n = 0 then Inl Panic
      else rbind (rmap (string_group ops offsets d n fp) [0..<num_groups (length offsets - 1) n])
        (\<lambda>fs. Inr \<lparr>bi_filters = fs, bi_column_name = c, row_group_size = n\<rparr>))"

text \<open>Dictionary-encoded data: index 0 is null, index \<open>k\<close> the \<open>k\<close>-th string of the dictionary.\<close>

definition dict_strings :: "u32 list \<Rightarrow> bytes \<Rightarrow> bytes list result" where
  "dict_strings offs d =
     rmap (\<lambda>i. get_slice d (unat (offs ! i))
             (if i + 1 < length offs then unat (offs ! (i + 1)) else length d))
       [0..<length offs - 1]"

definition seen_dict_indices :: "u32 list \<Rightarrow> nat \<Rightarrow> nat \<Rightarrow> nat \<Rightarrow> bool list" where
  "seen_dict_indices indices count a b =
     foldl (\<lambda>seen i. let k = unat (indices ! i)
                     in if 0 < k \<and> k \<le> count then seen[k := True] else seen)
       (replicate (count + 1) False) [a..<b]"

definition dict_group :: "'b bloom_ops \<Rightarrow> u32 list \<Rightarrow> bytes list \<Rightarrow> nat \<Rightarrow> nat \<Rightarrow> f64 \<Rightarrow> nat
    \<Rightarrow> 'b row_group_filter" where
  "dict_group ops indices strs count n fp g =
     (let a = g * n; b = min ((g + 1) * n) (length indices);
          seen = seen_dict_indices indices count a b;
          unique = max (length (filter id seen)) 1
      in foldl (\<lambda>f k. if seen ! k \<and> k \<le> length strs then rg_insert ops (strs ! (k - 1)) f else f)
           (rg_new ops unique fp a b) [1..<length seen])"

definition build_from_dict :: "'b bloom_ops \<Rightarrow> string \<Rightarrow> u32 list \<Rightarrow> u32 list \<Rightarrow> bytes \<Rightarrow> nat \<Rightarrow> f64
    \<Rightarrow> 'b column_bloom_index result" where
  "build_from_dict ops c indices offs d n fp =
     (if n = 0 then Inl Panic
      else rbind (dict_strings offs d)
        (\<lambda>strs. Inr \<lparr>bi_filters = map (dict_group ops indices strs (length offs - 1) n fp)
                        [0..<num_groups (length indices) n],
                     bi_column_name = c, row_group_size = n\<rparr>))"

definition find_candidate_groups :: "'b bloom_ops \<Rightarrow> bytes \<Rightarrow> 'b column_bloom_index \<Rightarrow> nat list" where
  "find_candidate_groups ops v x =
     map fst (filter (\<lambda>(i, f). might_contain ops v f)
       (zip [0..<length (bi_filters x)] (bi_filters x)))"

definition get_scan_ranges :: "'b bloom_ops \<Rightarrow> bytes \<Rightarrow> 'b column_bloom_index \<Rightarrow> (nat \<times> nat) list" where
  "get_scan_ranges ops v x =
     map (\<lambda>f. (start_row f, end_row f)) (filter (might_contain ops v) (bi_filters x))"

text \<open>The rows a scan skips, out of all rows; \<open>skip_ratio\<close> divides the two.\<close>

definition total_rows :: "'b column_bloom_index \<Rightarrow> nat" where
  "total_rows x = sum_list (map (\<lambda>f. end_row f - start_row f) (bi_filters x))"

definition scan_rows :: "'b bloom_ops \<Rightarrow> bytes \<Rightarrow> 'b column_bloom_index \<Rightarrow> nat" where
  "scan_rows ops v x =
     sum_list (map (\<lambda>f. end_row f - start_row f) (filter (might_contain ops v) (bi_filters x)))"

definition bi_to_bytes :: "'b bloom_ops \<Rightarrow> 'b column_bloom_index \<Rightarrow> bytes" where
  "bi_to_bytes ops x =
     u32_bytes (length (bi_column_name x)) @ as_bytes (bi_column_name x)
     @ u64_bytes (row_group_size x) @ u32_bytes (length (bi_filters x))
     @ concat (map (\<lambda>f. u32_bytes (length (rg_to_bytes ops f)) @ rg_to_bytes ops f) (bi_filters x))"

fun read_filters :: "'b bloom_ops \<Rightarrow> bytes \<Rightarrow> nat \<Rightarrow> nat \<Rightarrow> 'b row_group_filter list result" where
  "read_filters ops d off 0 = Inr []"
| "read_filters ops d off (Suc k) =
     (if length d < off + 4 then Inl (IoError InvalidData ''Unexpected end of bloom index'')
      else
        let n = unat (u32_at d off)
        in if length d < off + 4 + n then Inl (IoError InvalidData ''Bloom filter data incomplete'')
           else rbind (rg_from_bytes ops (take n (drop (off + 4) d)))
             (\<lambda>f. rbind (read_filters ops d (off + 4 + n) k) (\<lambda>fs. Inr (f # fs))))"

definition bi_from_bytes :: "'b bloom_ops \<Rightarrow> bytes \<Rightarrow> 'b column_bloom_index result" where
  "bi_from_bytes ops d =
     (if length d < 16 then Inl (IoError InvalidData ''Bloom index data too short'')
      else
        let n = unat (u32_at d 0)
        in rbind (get_slice d 4 (4 + n)) (\<lambda>name.
           rbind (get_slice d (4 + n) (12 + n)) (\<lambda>size.
           rbind (get_slice d (12 + n) (16 + n)) (\<lambda>cnt.
           rbind (read_filters ops d (16 + n) (unat (from_le_bytes cnt :: u32))) (\<lambda>fs.
             Inr \<lparr>bi_filters = fs, bi_column_name = from_utf8_lossy name,
                  row_group_size = unat (from_le_bytes size :: u64)\<rparr>)))))"

section \<open>Pruned scans\<close>

text \<open>
  The value of a row, when it has one: the string of a plain column, or the dictionary entry of an
  encoded one.
\<close>

definition string_value :: "u64 list \<Rightarrow> bytes \<Rightarrow> nat \<Rightarrow> bytes option" where
  "string_value offsets d i =
     (let s = unat (offsets ! i); e = unat (offsets ! (i + 1))
      in if s \<le> e \<and> e \<le> length d then Some (take (e - s) (drop s d)) else None)"

definition dict_value :: "u32 list \<Rightarrow> u32 list \<Rightarrow> bytes \<Rightarrow> nat \<Rightarrow> bytes option" where
  "dict_value indices offs d i =
     (let k = unat (indices ! i)
      in if 0 < k \<and> k < length offs
         then Some (take (unat (offs ! k) - unat (offs ! (k - 1))) (drop (unat (offs ! (k - 1))) d))
         else None)"

text \<open>The rows with a value, among all rows and among those of the ranges to visit.\<close>

definition full_scan :: "(nat \<Rightarrow> bytes option) \<Rightarrow> nat \<Rightarrow> bytes \<Rightarrow> nat list" where
  "full_scan val rows v = filter (\<lambda>i. val i = Some v) [0..<rows]"

definition pruned_scan :: "(nat \<Rightarrow> bytes option) \<Rightarrow> (nat \<times> nat) list \<Rightarrow> bytes \<Rightarrow> nat list" where
  "pruned_scan val ranges v = filter (\<lambda>i. val i = Some v) (concat (map (\<lambda>(a, b). [a..<b]) ranges))"

lemma groups_tile:
  "concat (map (\<lambda>g. [g * n..<min ((g + 1) * n) rows]) [0..<k]) = [0..<min (k * n) rows]"
proof (induction k)
  case (Suc k)
  show ?case
  proof (cases "k * n \<le> rows")
    case True
    then have "[0..<min (Suc k * n) rows] = [0..<k * n] @ [k * n..<min (Suc k * n) rows]"
      using upt_add_eq_append [of 0 "k * n" "min (Suc k * n) rows - k * n"] by simp
    then show ?thesis using Suc True by (simp add: min_absorb1)
  next
    case False
    then show ?thesis using Suc by (simp add: min_absorb2)
  qed
qed simp

lemma num_groups_cover: "0 < n \<Longrightarrow> rows \<le> num_groups rows n * n"
proof -
  assume "0 < n"
  then have "rows + n - 1 = num_groups rows n * n + (rows + n - 1) mod n" "(rows + n - 1) mod n < n"
    by (simp_all add: num_groups_def)
  then show ?thesis by linarith
qed

lemma filter_concat_prune:
  assumes "\<And>x. x \<in> set xs \<Longrightarrow> \<not> Q x \<Longrightarrow> filter P (R x) = []"
  shows "filter P (concat (map R (filter Q xs))) = filter P (concat (map R xs))"
  using assms by (induction xs) auto

text \<open>
  An index whose groups tile the rows, each admitting every value its rows hold, prunes without
  loss.
\<close>

lemma pruned_scan_complete:
  assumes n: "0 < n" and len: "length (bi_filters x) = num_groups rows n"
    and grp: "\<And>g f. g < num_groups rows n \<Longrightarrow> f = bi_filters x ! g \<Longrightarrow>
      start_row f = g * n \<and> end_row f = min ((g + 1) * n) rows
      \<and> (\<forall>i \<in> set [start_row f..<end_row f]. val i = Some v \<longrightarrow> might_contain ops v f)"
  shows "pruned_scan val (get_scan_ranges ops v x) v = full_scan val rows v"
proof -
  let ?fs = "bi_filters x" and ?R = "\<lambda>f. [start_row f..<end_row f]" and ?P = "\<lambda>i. val i = Some v"
  have "map ?R ?fs = map (\<lambda>g. [g * n..<min ((g + 1) * n) rows]) [0..<num_groups rows n]"
  proof (rule nth_equalityI)
    fix g assume "g < length (map ?R ?fs)"
    then have g: "g < num_groups rows n" by (simp add: len)
    then show "map ?R ?fs ! g = map (\<lambda>g. [g * n..<min ((g + 1) * n) rows]) [0..<num_groups rows n] ! g"
      using grp [OF g refl] by (simp add: len)
  qed (simp add: len)
  then have tile: "concat (map ?R ?fs) = [0..<rows]"
    using num_groups_cover [OF n, of rows] by (simp only: groups_tile min_absorb2)
  have "filter ?P (?R f) = []" if f: "f \<in> set ?fs" "\<not> might_contain ops v f" for f
  proof -
    obtain g where "g < num_groups rows n" "f = ?fs ! g" using f(1) len by (metis in_set_conv_nth)
    then have "\<forall>i \<in> set (?R f). \<not> ?P i" using grp [of g f] f(2) by blast
    then show ?thesis by (simp only: filter_False)
  qed
  then have "filter ?P (concat (map ?R (filter (might_contain ops v) ?fs))) = filter ?P (concat (map ?R ?fs))"
    by (rule filter_concat_prune)
  then show ?thesis
    unfolding pruned_scan_def full_scan_def get_scan_ranges_def tile map_map comp_def case_prod_conv .
qed

lemma contain_insert:
  assumes "bloom_laws ops"
  shows "might_contain ops v (rg_insert ops v f)"
    and "might_contain ops v f \<Longrightarrow> might_contain ops v (rg_insert ops w f)"
  using assms by (simp_all add: bloom_laws_def might_contain_def rg_insert_def)

lemma rg_rows [simp]:
  "start_row (rg_insert ops v f) = start_row f" "end_row (rg_insert ops v f) = end_row f"
  "start_row (rg_new ops k fp a b) = a" "end_row (rg_new ops k fp a b) = b"
  by (simp_all add: rg_insert_def rg_new_def)

lemma insert_string_value:
  assumes "insert_string ops offsets d i f = Inr f'"
  shows "f' = (case string_value offsets d i of Some v \<Rightarrow> rg_insert ops v f | None \<Rightarrow> f)"
  using assms by (auto simp: insert_string_def string_value_def get_slice_def Let_def split: if_splits)

lemma insert_strings:
  assumes laws: "bloom_laws ops" and "rfold (insert_string ops offsets d) is f = Inr f'"
  shows "start_row f' = start_row f \<and> end_row f' = end_row f
    \<and> (might_contain ops v f \<longrightarrow> might_contain ops v f')
    \<and> (\<forall>i \<in> set is. string_value offsets d i = Some v \<longrightarrow> might_contain ops v f')"
  using assms(2)
proof (induction "is" arbitrary: f)
  case (Cons i "is")
  then obtain f1 where f1: "insert_string ops offsets d i f = Inr f1"
    "rfold (insert_string ops offsets d) is f1 = Inr f'" by (auto simp: rbind_eq_Inr)
  then show ?case
    using Cons.IH [OF f1(2)] insert_string_value [OF f1(1)] contain_insert [OF laws]
    by (auto split: option.splits)
qed simp

lemma seen_dict_indices:
  "length (seen_dict_indices indices count a b) = count + 1"
  "0 < k \<Longrightarrow> k \<le> count \<Longrightarrow>
   seen_dict_indices indices count a b ! k = (\<exists>i \<in> set [a..<b]. unat (indices ! i) = k)"
proof -
  let ?step = "\<lambda>seen i. let k = unat (indices ! i) in if 0 < k \<and> k \<le> count then seen[k := True] else seen"
  have "length (foldl ?step seen is) = length seen \<and>
    (0 < k \<longrightarrow> k \<le> count \<longrightarrow> length seen = count + 1 \<longrightarrow>
     foldl ?step seen is ! k = (seen ! k \<or> (\<exists>i \<in> set is. unat (indices ! i) = k)))" for seen k "is"
    by (induction "is" arbitrary: seen) (auto simp: Let_def nth_list_update)
  then show "length (seen_dict_indices indices count a b) = count + 1"
    "0 < k \<Longrightarrow> k \<le> count \<Longrightarrow>
      seen_dict_indices indices count a b ! k = (\<exists>i \<in> set [a..<b]. unat (indices ! i) = k)"
    by (simp_all add: seen_dict_indices_def del: set_upt)
qed

lemma insert_seen:
  assumes laws: "bloom_laws ops"
    and f': "f' = foldl (\<lambda>f k. if Q k then rg_insert ops (s k) f else f) f ks"
  shows "start_row f' = start_row f \<and> end_row f' = end_row f
    \<and> (might_contain ops v f \<longrightarrow> might_contain ops v f')
    \<and> (\<forall>k \<in> set ks. Q k \<longrightarrow> s k = v \<longrightarrow> might_contain ops v f')"
  unfolding f'
proof (induction ks arbitrary: f)
  case (Cons k ks)
  show ?case
    using Cons [of "if Q k then rg_insert ops (s k) f else f"] contain_insert [OF laws] by auto
qed simp

lemma dict_strings_value:
  assumes "dict_strings offs d = Inr strs" and "dict_value indices offs d i = Some v"
    and k: "k = unat (indices ! i)"
  shows "0 < k \<and> k \<le> length offs - 1 \<and> k \<le> length strs \<and> strs ! (k - 1) = v"
proof -
  have all: "list_all2 (\<lambda>i y. get_slice d (unat (offs ! i))
      (if i + 1 < length offs then unat (offs ! (i + 1)) else length d) = Inr y) [0..<length offs - 1] strs"
    using assms(1) by (simp add: dict_strings_def rmap_Inr)
  have pos: "0 < k" "k < length offs"
    and v: "v = take (unat (offs ! k) - unat (offs ! (k - 1))) (drop (unat (offs ! (k - 1))) d)"
    using assms(2) by (auto simp: dict_value_def k Let_def split: if_splits)
  have len: "length strs = length offs - 1" using list_all2_lengthD [OF all] by simp
  have "get_slice d (unat (offs ! (k - 1))) (unat (offs ! k)) = Inr (strs ! (k - 1))"
    using list_all2_nthD [OF all, of "k - 1"] pos by simp
  then show ?thesis using pos v len by (auto simp: get_slice_def split: if_splits)
qed

text \<open>A one-byte filter with one hash function, for the witnesses.\<close>

definition tiny_bit :: "bytes \<Rightarrow> nat" where
  "tiny_bit v = unat (sum_list v) mod 8"

definition tiny_ops :: "(u8 \<times> u64 \<times> u32 \<times> sip_keys) bloom_ops" where
  "tiny_ops = \<lparr>new_for_fp_rate = (\<lambda>n fp. (0, 8, 1, ((1, 2), (3, 4)))),
     bf_set = (\<lambda>f v. (set_bit (tiny_bit v) (fst f), snd f)),
     bf_check = (\<lambda>f v. bit (fst f) (tiny_bit v)),
     bf_bitmap = (\<lambda>f. [fst f]), number_of_bits = (\<lambda>f. fst (snd f)),
     number_of_hash_functions = (\<lambda>f. fst (snd (snd f))), bf_sip_keys = (\<lambda>f. snd (snd (snd f))),
     from_existing = (\<lambda>b n h k. (hd b, n, h, k))\<rparr>"

lemma tiny_laws: "bloom_laws tiny_ops"
proof -
  have "bit (set_bit (tiny_bit w) x) (tiny_bit v) = (tiny_bit v = tiny_bit w \<or> bit x (tiny_bit v))" for v w and x :: u8
    by (auto simp: bit_set_bit_iff tiny_bit_def possible_bit_word)
  then show ?thesis by (simp add: bloom_laws_def tiny_ops_def)
qed

text \<open>
  C21. Scanning only the row ranges that the Bloom index of a plain string column admits for a value
  finds the same rows, in the same order, as scanning every row.
\<close>

theorem bloom_scan_strings:
  assumes laws: "bloom_laws ops" and "build_from_strings ops c offsets d n fp = Inr x"
  shows "pruned_scan (string_value offsets d) (get_scan_ranges ops v x) v
    = full_scan (string_value offsets d) (length offsets - 1) v"
proof -
  let ?rows = "length offsets - 1"
  have n: "0 < n" and all: "list_all2 (\<lambda>g f. string_group ops offsets d n fp g = Inr f)
      [0..<num_groups ?rows n] (bi_filters x)"
    using assms(2) by (auto simp: build_from_strings_def rbind_eq_Inr rmap_Inr split: if_splits)
  show ?thesis
  proof (rule pruned_scan_complete [OF n])
    show "length (bi_filters x) = num_groups ?rows n" using list_all2_lengthD [OF all] by simp
    fix g f
    assume "g < num_groups ?rows n" "f = bi_filters x ! g"
    then have "string_group ops offsets d n fp g = Inr f" using list_all2_nthD [OF all, of g] by simp
    then show "start_row f = g * n \<and> end_row f = min ((g + 1) * n) ?rows
        \<and> (\<forall>i \<in> set [start_row f..<end_row f]. string_value offsets d i = Some v \<longrightarrow> might_contain ops v f)"
      using insert_strings [OF laws] unfolding string_group_def Let_def by fastforce
  qed
qed

theorem bloom_scan_strings_witness:
  "\<exists>x. build_from_strings tiny_ops ''c'' [0, 1, 2, 3] [65, 66, 65] 2 0 = Inr x
    \<and> pruned_scan (string_value [0, 1, 2, 3] [65, 66, 65]) (get_scan_ranges tiny_ops [66] x) [66]
      = full_scan (string_value [0, 1, 2, 3] [65, 66, 65]) 3 [66]"
proof -
  have "\<exists>x. build_from_strings tiny_ops ''c'' [0, 1, 2, 3] [65, 66, 65] 2 0 = Inr x"
    by (simp add: build_from_strings_def num_groups_def string_group_def insert_string_def get_slice_def
        upt_rec)
  then obtain x where x: "build_from_strings tiny_ops ''c'' [0, 1, 2, 3] [65, 66, 65] 2 0 = Inr x" ..
  from bloom_scan_strings [OF tiny_laws this, of "[66]"] x show ?thesis by (intro exI [of _ x]) (simp add: numeral_3_eq_3)
qed

text \<open>
  The same for a dictionary-encoded column, whose index holds each dictionary entry once for
  every group that uses it.
\<close>

theorem bloom_scan_dict:
  assumes laws: "bloom_laws ops" and "build_from_dict ops c indices offs d n fp = Inr x"
  shows "pruned_scan (dict_value indices offs d) (get_scan_ranges ops v x) v
    = full_scan (dict_value indices offs d) (length indices) v"
proof -
  obtain strs where n: "0 < n" and strs: "dict_strings offs d = Inr strs"
    and fs: "bi_filters x = map (dict_group ops indices strs (length offs - 1) n fp)
      [0..<num_groups (length indices) n]"
    using assms(2) by (auto simp: build_from_dict_def rbind_eq_Inr split: if_splits)
  show ?thesis
  proof (rule pruned_scan_complete [OF n])
    show "length (bi_filters x) = num_groups (length indices) n" by (simp add: fs)
    fix g f
    assume g: "g < num_groups (length indices) n" "f = bi_filters x ! g"
    let ?a = "g * n" and ?b = "min ((g + 1) * n) (length indices)"
    let ?seen = "seen_dict_indices indices (length offs - 1) ?a ?b"
    have f: "f = foldl (\<lambda>f k. if ?seen ! k \<and> k \<le> length strs then rg_insert ops (strs ! (k - 1)) f else f)
        (rg_new ops (max (length (filter id ?seen)) 1) fp ?a ?b) [1..<length ?seen]"
      using g by (simp add: fs dict_group_def Let_def)
    note ins = insert_seen [OF laws f, of v]
    have "might_contain ops v f"
      if i: "i \<in> set [?a..<?b]" "dict_value indices offs d i = Some v" for i
    proof -
      let ?k = "unat (indices ! i)"
      have k: "0 < ?k" "?k \<le> length offs - 1" "?k \<le> length strs" "strs ! (?k - 1) = v"
        using dict_strings_value [OF strs i(2) refl] by auto
      then have "?seen ! ?k" using seen_dict_indices(2) [OF k(1,2)] i(1) by blast
      moreover have "?k \<in> set [1..<length ?seen]" using k(1,2) by (simp only: seen_dict_indices(1) set_upt atLeastLessThan_iff) linarith
      ultimately show ?thesis using ins k(3,4) by blast
    qed
    moreover have "start_row f = ?a" "end_row f = ?b" using ins by simp_all
    ultimately show "start_row f = ?a \<and> end_row f = ?b
        \<and> (\<forall>i \<in> set [start_row f..<end_row f]. dict_value indices offs d i = Some v \<longrightarrow> might_contain ops v f)"
      by (simp only: refl simp_thms) blast
  qed
qed

theorem bloom_scan_dict_witness:
  "\<exists>x. build_from_dict tiny_ops ''c'' [1, 0, 2] [0, 1, 2] [65, 66] 2 0 = Inr x
    \<and> pruned_scan (dict_value [1, 0, 2] [0, 1, 2] [65, 66]) (get_scan_ranges tiny_ops [66] x) [66]
      = full_scan (dict_value [1, 0, 2] [0, 1, 2] [65, 66]) 3 [66]"
proof -
  have "\<exists>x. build_from_dict tiny_ops ''c'' [1, 0, 2] [0, 1, 2] [65, 66] 2 0 = Inr x"
    by (simp add: build_from_dict_def dict_strings_def get_slice_def num_groups_def upt_rec)
  then obtain x where x: "build_from_dict tiny_ops ''c'' [1, 0, 2] [0, 1, 2] [65, 66] 2 0 = Inr x" ..
  from bloom_scan_dict [OF tiny_laws this, of "[66]"] x show ?thesis by (intro exI [of _ x]) (simp add: numeral_3_eq_3)
qed

section \<open>Serialization\<close>

lemma at_append:
  "length p = k \<Longrightarrow> u64_at (p @ to_le_bytes (w :: u64) @ r) k = w"
  "length p = k \<Longrightarrow> u32_at (p @ to_le_bytes (y :: u32) @ r) k = y"
  by (simp_all add: u64_at_def u32_at_def)

text \<open>What the fields of the format can carry.\<close>

definition rg_fits :: "'b bloom_ops \<Rightarrow> 'b row_group_filter \<Rightarrow> bool" where
  "rg_fits ops f \<longleftrightarrow> item_count f < 2 ^ 64 \<and> start_row f < 2 ^ 64 \<and> end_row f < 2 ^ 64
     \<and> length (bf_bitmap ops (rg_filter f)) + 72 < 2 ^ 32"

definition bi_fits :: "'b bloom_ops \<Rightarrow> 'b column_bloom_index \<Rightarrow> bool" where
  "bi_fits ops x \<longleftrightarrow> length (bi_column_name x) < 2 ^ 32 \<and> utf8_valid (as_bytes (bi_column_name x))
     \<and> row_group_size x < 2 ^ 64 \<and> length (bi_filters x) < 2 ^ 32
     \<and> (\<forall>f \<in> set (bi_filters x). rg_fits ops f)"

lemma length_rg_to_bytes:
  "length (rg_to_bytes ops f) = 72 + length (bf_bitmap ops (rg_filter f))"
  by (simp add: rg_to_bytes_def Let_def u64_bytes_def u32_bytes_def)

lemma rg_round_trip:
  assumes laws: "bloom_laws ops" and fits: "rg_fits ops f"
  shows "rg_from_bytes ops (rg_to_bytes ops f) = Inr f"
proof -
  let ?b = "bf_bitmap ops (rg_filter f)" and ?k = "bf_sip_keys ops (rg_filter f)"
  let ?d = "rg_to_bytes ops f"
  note d = rg_to_bytes_def [of ops f, unfolded Let_def u64_bytes_def u32_bytes_def]
  have nums: "u64_at ?d 0 = of_nat (item_count f)" "u64_at ?d 8 = of_nat (start_row f)"
    "u64_at ?d 16 = of_nat (end_row f)" "u64_at ?d 24 = number_of_bits ops (rg_filter f)"
    "u32_at ?d 32 = number_of_hash_functions ops (rg_filter f)" "u32_at ?d 36 = of_nat (length ?b)"
    "u64_at ?d 40 = fst (fst ?k)" "u64_at ?d 48 = snd (fst ?k)"
    "u64_at ?d 56 = fst (snd ?k)" "u64_at ?d 64 = snd (snd ?k)" "drop 72 ?d = ?b"
    unfolding d u64_at_def u32_at_def by simp_all
  have len: "unat (of_nat (length ?b) :: u32) = length ?b"
    using fits by (intro unat_of_nat_lt) (simp add: rg_fits_def)
  have vals: "unat (of_nat (item_count f) :: u64) = item_count f"
    "unat (of_nat (start_row f) :: u64) = start_row f" "unat (of_nat (end_row f) :: u64) = end_row f"
    using fits by (auto simp: rg_fits_def intro!: unat_of_nat_lt)
  show ?thesis
    using laws
    by (simp add: rg_from_bytes_def length_rg_to_bytes nums len vals bloom_laws_def)
qed

lemma read_filters_round_trip:
  assumes laws: "bloom_laws ops" and "\<forall>f \<in> set fs. rg_fits ops f"
  shows "length p = off \<Longrightarrow>
    read_filters ops (p @ concat (map (\<lambda>f. u32_bytes (length (rg_to_bytes ops f)) @ rg_to_bytes ops f) fs))
      off (length fs) = Inr fs"
  using assms(2)
proof (induction fs arbitrary: p off)
  case (Cons f fs)
  let ?enc = "\<lambda>f. u32_bytes (length (rg_to_bytes ops f)) @ rg_to_bytes ops f"
  let ?n = "length (rg_to_bytes ops f)"
  have n: "unat (of_nat ?n :: u32) = ?n"
    using Cons.prems(2) by (intro unat_of_nat_lt) (simp add: rg_fits_def length_rg_to_bytes)
  have tail: "read_filters ops ((p @ ?enc f) @ concat (map ?enc fs)) (off + 4 + ?n) (length fs) = Inr fs"
    using Cons.prems by (intro Cons.IH) (simp_all add: u32_bytes_def)
  have "rg_from_bytes ops (rg_to_bytes ops f) = Inr f"
    using Cons.prems(2) by (intro rg_round_trip [OF laws]) simp
  with tail show ?case
    using Cons.prems(1) n by (simp add: u32_bytes_def u32_at_def)
qed simp

text \<open>
  C38. A serialized Bloom index reads back unchanged, for every index whose sizes fit the length
  fields of the format.
\<close>

theorem bloom_index_round_trip:
  assumes "bloom_laws ops" and "bi_fits ops x"
  shows "bi_from_bytes ops (bi_to_bytes ops x) = Inr x"
proof -
  let ?n = "length (bi_column_name x)" and ?d = "bi_to_bytes ops x"
  let ?body = "concat (map (\<lambda>f. u32_bytes (length (rg_to_bytes ops f)) @ rg_to_bytes ops f) (bi_filters x))"
  let ?p = "u32_bytes ?n @ as_bytes (bi_column_name x) @ u64_bytes (row_group_size x)
    @ u32_bytes (length (bi_filters x))"
  have d: "?d = ?p @ ?body" by (simp add: bi_to_bytes_def)
  have words: "unat (of_nat ?n :: u32) = ?n" "unat (of_nat (row_group_size x) :: u64) = row_group_size x"
    "unat (of_nat (length (bi_filters x)) :: u32) = length (bi_filters x)"
    using assms(2) by (auto simp: bi_fits_def intro!: unat_of_nat_lt)
  have body: "read_filters ops ?d (16 + ?n) (length (bi_filters x)) = Inr (bi_filters x)"
    unfolding d using assms by (intro read_filters_round_trip)
      (simp_all add: bi_fits_def u32_bytes_def u64_bytes_def)
  have parts: "u32_at ?d 0 = of_nat ?n" "get_slice ?d 4 (4 + ?n) = Inr (as_bytes (bi_column_name x))"
    "get_slice ?d (4 + ?n) (12 + ?n) = Inr (u64_bytes (row_group_size x))"
    "get_slice ?d (12 + ?n) (16 + ?n) = Inr (u32_bytes (length (bi_filters x)))"
    "\<not> length ?d < 16"
    unfolding d by (simp_all add: u32_at_def get_slice_def u32_bytes_def u64_bytes_def)
  have "from_utf8_lossy (as_bytes (bi_column_name x)) = bi_column_name x"
    using assms(2) by (simp add: bi_fits_def from_utf8_lossy_valid)
  then show ?thesis
    by (simp add: bi_from_bytes_def parts words body u64_bytes_def u32_bytes_def Let_def)
qed

definition tiny_index :: "(u8 \<times> u64 \<times> u32 \<times> sip_keys) column_bloom_index" where
  "tiny_index = \<lparr>bi_filters = [rg_insert tiny_ops [66] (rg_new tiny_ops 1 0 0 2)],
     bi_column_name = ''c'', row_group_size = 2\<rparr>"

theorem bloom_index_round_trip_witness:
  "bi_from_bytes tiny_ops (bi_to_bytes tiny_ops tiny_index) = Inr tiny_index"
proof (rule bloom_index_round_trip [OF tiny_laws])
  show "bi_fits tiny_ops tiny_index"
    by (simp add: bi_fits_def rg_fits_def tiny_index_def tiny_ops_def rg_insert_def rg_new_def
        utf8_valid_def as_bytes_def utf8_next_def utf8_lead_def)
qed

end
