(* ===== verification/Partition.thy ===== *)
theory Partition
  imports Data_Value "HOL-Library.Signed_Division"
begin

text \<open>
  Partitioning (\<^verbatim>\<open>scaling/partition.rs\<close>): partition keys, the hash and the range partitioner, and
  the strategy a table is registered with. The locale \<open>partition_strategy\<close> is the contract of the
  trait \<open>PartitionStrategy\<close>: the shards named for a range include the shard of every key in it. The
  key hash (\<open>ahash\<close>) and the printing of floats and JSON are parameters.
\<close>

section \<open>Printing of values\<close>

fun show_nat :: "nat \<Rightarrow> string" where
  "show_nat n = (if n < 10 then [char_of (48 + n)] else show_nat (n div 10) @ [char_of (48 + n mod 10)])"

declare show_nat.simps [simp del]

definition show_int :: "int \<Rightarrow> string" where
  "show_int i = (if i < 0 then CHR ''-'' # show_nat (nat (- i)) else show_nat (nat i))"

fun join :: "string \<Rightarrow> string list \<Rightarrow> string" where
  "join sep [] = []"
| "join sep [x] = x"
| "join sep (x # y # ys) = x @ sep @ join sep (y # ys)"

record 'j printers =
  print_f32 :: "f32 \<Rightarrow> string"
  print_f64 :: "f64 \<Rightarrow> string"
  print_json :: "'j \<Rightarrow> string"

fun to_string_value :: "'j printers \<Rightarrow> 'j val \<Rightarrow> string" where
  "to_string_value p Null = ''null''"
| "to_string_value p (Bool b) = (if b then ''true'' else ''false'')"
| "to_string_value p (Int8 v) = show_int (sint v)"
| "to_string_value p (Int16 v) = show_int (sint v)"
| "to_string_value p (Int32 v) = show_int (sint v)"
| "to_string_value p (Int64 v) = show_int (sint v)"
| "to_string_value p (UInt8 v) = show_nat (unat v)"
| "to_string_value p (UInt16 v) = show_nat (unat v)"
| "to_string_value p (UInt32 v) = show_nat (unat v)"
| "to_string_value p (UInt64 v) = show_nat (unat v)"
| "to_string_value p (Float32 v) = print_f32 p v"
| "to_string_value p (Float64 v) = print_f64 p v"
| "to_string_value p (Str s) = s"
| "to_string_value p (Binary b) =
     (if utf8_valid b then of_bytes b else ''<binary_data_'' @ show_nat (length b) @ ''bytes>'')"
| "to_string_value p (Blob b) = ''<blob_'' @ show_nat (length b) @ ''bytes>''"
| "to_string_value p (FixedList b) = ''<vector_'' @ show_nat (length b div 4) @ ''dims>''"
| "to_string_value p (Json j) = print_json p j"
| "to_string_value p (Timestamp t) = show_int (sint t)"
| "to_string_value p (Date d) = show_int (sint d)"
| "to_string_value p (Time t) = show_int (sint t)"
| "to_string_value p (Interval t) = show_int (sint t)"
| "to_string_value p (Array vs) = ''['' @ join '', '' (map (to_string_value p) vs) @ '']''"

section \<open>Partition keys\<close>

datatype partition_key =
  PInt i64 | PUInt u64 | PStr string | PBytes bytes | PComposite "partition_key list"

fun pk_from_value :: "'j printers \<Rightarrow> 'j val \<Rightarrow> partition_key" where
  "pk_from_value p (Int8 v) = PInt (scast v)"
| "pk_from_value p (Int16 v) = PInt (scast v)"
| "pk_from_value p (Int32 v) = PInt (scast v)"
| "pk_from_value p (Int64 v) = PInt v"
| "pk_from_value p (UInt8 v) = PUInt (ucast v)"
| "pk_from_value p (UInt16 v) = PUInt (ucast v)"
| "pk_from_value p (UInt32 v) = PUInt (ucast v)"
| "pk_from_value p (UInt64 v) = PUInt v"
| "pk_from_value p (Str s) = PStr s"
| "pk_from_value p (Binary b) = PBytes b"
| "pk_from_value p v = PStr (to_string_value p v)"

fun key_less_than :: "partition_key \<Rightarrow> partition_key \<Rightarrow> bool" where
  "key_less_than (PInt a) (PInt b) = (sint a < sint b)"
| "key_less_than (PUInt a) (PUInt b) = (a < b)"
| "key_less_than (PStr a) (PStr b) = (str_cmp a b = Less)"
| "key_less_than (PBytes a) (PBytes b) = (lex_cmp cmp_of a b = Less)"
| "key_less_than _ _ = False"

text \<open>\<open>a\<close> is at most \<open>b\<close>, for keys of the same ordered kind.\<close>

fun key_le :: "partition_key \<Rightarrow> partition_key \<Rightarrow> bool" where
  "key_le (PInt a) (PInt b) = (sint a \<le> sint b)"
| "key_le (PUInt a) (PUInt b) = (a \<le> b)"
| "key_le (PStr a) (PStr b) = (str_cmp a b \<noteq> Greater)"
| "key_le (PBytes a) (PBytes b) = (lex_cmp cmp_of a b \<noteq> Greater)"
| "key_le _ _ = False"

lemma key_le_cases:
  assumes "key_le a b"
  obtains (int) x y where "a = PInt x" "b = PInt y" | (uint) x y where "a = PUInt x" "b = PUInt y"
  | (str) x y where "a = PStr x" "b = PStr y" | (bytes) x y where "a = PBytes x" "b = PBytes y"
  using assms by (cases a; cases b; simp)

lemma str_le_less:
  assumes "str_cmp x y \<noteq> Greater" and "str_cmp y z = Less"
  shows "str_cmp x z = Less"
proof -
  let ?m = "map of_char :: string \<Rightarrow> nat list"
  have "str_cmp s t = lex_cmp cmp_of (?m s) (?m t)" for s t
    unfolding str_cmp_def by (rule lex_cmp_map)
  then show ?thesis using assms lex_le_less [of "?m x" "?m y" "?m z"] by presburger
qed

lemma key_le_less:
  assumes "key_le a b" and "key_less_than b d"
  shows "key_less_than a d"
  using assms(1)
proof (cases rule: key_le_cases)
  case (int x y)
  with assms(2) obtain z where "d = PInt z" by (cases d) simp_all
  with assms int show ?thesis by simp
next
  case (uint x y)
  with assms(2) obtain z where "d = PUInt z" by (cases d) simp_all
  with assms uint show ?thesis by simp
next
  case (str x y)
  with assms(2) obtain z where d: "d = PStr z" by (cases d) simp_all
  show ?thesis using assms str_le_less [of x y z] unfolding str d key_le.simps key_less_than.simps by blast
next
  case (bytes x y)
  with assms(2) obtain z where d: "d = PBytes z" by (cases d) simp_all
  show ?thesis using assms lex_le_less [of x y z] unfolding bytes d key_le.simps key_less_than.simps by blast
qed

section \<open>Partitioners\<close>

record hash_partitioner =
  virtual_nodes :: u32
  ring :: "(u64 \<times> u32) list option"

definition hash_new :: hash_partitioner where
  "hash_new = \<lparr>virtual_nodes = 150, ring = None\<rparr>"

definition with_virtual_nodes :: "u32 \<Rightarrow> hash_partitioner" where
  "with_virtual_nodes n = \<lparr>virtual_nodes = n, ring = None\<rparr>"

text \<open>The ring is in the order of its hashes; past the last node the search wraps around.\<close>

definition ring_lookup :: "hash_partitioner \<Rightarrow> u64 \<Rightarrow> u32" where
  "ring_lookup p h =
     (case ring p of
        None \<Rightarrow> 0
      | Some r \<Rightarrow>
          (case find (\<lambda>n. h \<le> fst n) r of
             Some n \<Rightarrow> snd n
           | None \<Rightarrow> (case r of [] \<Rightarrow> 0 | n # _ \<Rightarrow> snd n)))"

definition hash_route :: "(partition_key \<Rightarrow> u64) \<Rightarrow> hash_partitioner \<Rightarrow> partition_key \<Rightarrow> u32 \<Rightarrow> u32" where
  "hash_route hv p k n =
     (if n \<le> 1 then 0
      else if ring p \<noteq> None then ring_lookup p (hv k)
      else ucast (hv k mod ucast n))"

type_synonym boundaries = "partition_key list"

definition for_int_range :: "i64 \<Rightarrow> i64 \<Rightarrow> u32 \<Rightarrow> boundaries" where
  "for_int_range lo hi n =
     (if n \<le> 1 then []
      else let span = hi - lo; step = word_of_int (sint span sdiv uint n)
           in map (\<lambda>i. PInt (lo + step * of_nat i)) [1..<unat n])"

definition range_route :: "boundaries \<Rightarrow> partition_key \<Rightarrow> u32 \<Rightarrow> u32" where
  "range_route bs k n =
     (case position (key_less_than k) bs of Some i \<Rightarrow> of_nat i | None \<Rightarrow> of_nat (length bs))"

definition route_interval :: "boundaries \<Rightarrow> partition_key \<Rightarrow> partition_key \<Rightarrow> u32 \<Rightarrow> u32 list option" where
  "route_interval bs lo hi n =
     Some (map of_nat [unat (range_route bs lo n)..<Suc (unat (range_route bs hi n))])"

datatype strategy = HashStrategy hash_partitioner | RangeStrategy boundaries

fun route :: "(partition_key \<Rightarrow> u64) \<Rightarrow> strategy \<Rightarrow> partition_key \<Rightarrow> u32 \<Rightarrow> u32" where
  "route hv (HashStrategy p) k n = hash_route hv p k n"
| "route hv (RangeStrategy bs) k n = range_route bs k n"

fun route_range :: "strategy \<Rightarrow> partition_key \<Rightarrow> partition_key \<Rightarrow> u32 \<Rightarrow> u32 list option" where
  "route_range (HashStrategy p) lo hi n = None"
| "route_range (RangeStrategy bs) lo hi n = route_interval bs lo hi n"

section \<open>The contract of a strategy\<close>

locale partition_strategy =
  fixes place :: "'s \<Rightarrow> partition_key \<Rightarrow> u32 \<Rightarrow> u32"
    and span :: "'s \<Rightarrow> partition_key \<Rightarrow> partition_key \<Rightarrow> u32 \<Rightarrow> u32 list option"
    and usable :: "'s \<Rightarrow> bool"
  assumes span_covers: "usable s \<Longrightarrow> key_le lo k \<Longrightarrow> key_le k hi \<Longrightarrow> span s lo hi n = Some ts \<Longrightarrow>
    place s k n \<in> set ts"
begin

text \<open>What a client reads off the shards it resolves the targets in.\<close>

lemma resolved:
  assumes "usable s" "key_le lo k" "key_le k hi" "span s lo hi n = Some ts"
    and "unat (place s k n) < length xs"
  shows "xs ! unat (place s k n) \<in> set (List.map_filter (\<lambda>t. if unat t < length xs then Some (xs ! unat t) else None) ts)"
  using span_covers [OF assms(1-4)] assms(5)
  by (auto simp: List.map_filter_def intro!: image_eqI [where x = "place s k n"])

end

text \<open>Boundaries number below the largest shard number.\<close>

definition boundaries_ok :: "boundaries \<Rightarrow> bool" where
  "boundaries_ok bs \<longleftrightarrow> length bs < 2 ^ 32"

lemma unat_range_route:
  assumes "boundaries_ok bs"
  shows "unat (range_route bs k n) = (case position (key_less_than k) bs of Some i \<Rightarrow> i | None \<Rightarrow> length bs)"
    and "unat (range_route bs k n) \<le> length bs"
proof -
  have "i < 2 ^ 32" if "position (key_less_than k) bs = Some i" for i
    using position_Some [OF that] assms by (simp add: boundaries_ok_def)
  then show *: "unat (range_route bs k n) = (case position (key_less_than k) bs of Some i \<Rightarrow> i | None \<Rightarrow> length bs)"
    using assms by (auto simp: range_route_def boundaries_ok_def unat_of_nat_lt split: option.splits)
  show "unat (range_route bs k n) \<le> length bs"
    unfolding * using position_Some [of "key_less_than k" bs] by (auto split: option.splits intro: less_imp_le)
qed

lemma range_route_mono:
  assumes "boundaries_ok bs" and "key_le a b"
  shows "unat (range_route bs a n) \<le> unat (range_route bs b n)"
proof (cases "position (key_less_than b) bs")
  case None
  then show ?thesis using unat_range_route [OF assms(1)] by simp
next
  case (Some i)
  then have i: "i < length bs" "key_less_than b (bs ! i)" using position_Some [OF Some] by auto
  then have above: "key_less_than a (bs ! i)" using key_le_less [OF assms(2)] by blast
  then obtain j where j: "position (key_less_than a) bs = Some j"
    using i(1) position_None [of "key_less_than a" bs] nth_mem by blast
  then have "j \<le> i" using position_Some [OF j] above i(1) by (meson not_le)
  then show ?thesis using Some j unat_range_route(1) [OF assms(1)] by simp
qed

lemma route_interval_covers:
  assumes "boundaries_ok bs" and "key_le lo k" and "key_le k hi" and "route_interval bs lo hi n = Some ts"
  shows "range_route bs k n \<in> set ts"
proof -
  have "unat (range_route bs k n) \<in> {unat (range_route bs lo n)..<Suc (unat (range_route bs hi n))}"
    using range_route_mono [OF assms(1)] assms(2,3) by (simp add: less_Suc_eq_le)
  then have "of_nat (unat (range_route bs k n)) \<in> set ts"
    using assms(4) unfolding route_interval_def by (auto simp del: upt_Suc of_nat_unat)
  then show ?thesis by simp
qed

fun strategy_ok :: "strategy \<Rightarrow> bool" where
  "strategy_ok (HashStrategy p) = True"
| "strategy_ok (RangeStrategy bs) = boundaries_ok bs"

interpretation ranges: partition_strategy range_route route_interval boundaries_ok
  by unfold_locales (rule route_interval_covers)

interpretation strategies: partition_strategy "route hv" route_range strategy_ok for hv
proof
  fix s lo k hi n ts
  assume "strategy_ok s" "key_le lo k" "key_le k hi" "route_range s lo hi n = Some ts"
  then show "route hv s k n \<in> set ts" by (cases s) (auto intro: route_interval_covers)
qed

section \<open>Evenly spaced integer ranges\<close>

lemma position_eqI:
  assumes "i < length xs" "P (xs ! i)" "\<And>j. j < i \<Longrightarrow> \<not> P (xs ! j)"
  shows "position P xs = Some i"
proof (cases "position P xs")
  case None
  then show ?thesis using assms(1,2) position_None [of P xs] nth_mem by blast
next
  case (Some k)
  then show ?thesis using position_Some [OF Some] assms by (metis linorder_neqE_nat)
qed

lemma sint_word_of_int: "- (2 ^ 63) \<le> x \<Longrightarrow> x < 2 ^ 63 \<Longrightarrow> sint (word_of_int x :: i64) = x"
  by (simp add: sint_sbintrunc' signed_take_bit_int_eq_self)

lemma i64_range: "- (2 ^ 63) \<le> sint (x :: i64)" "sint (x :: i64) < 2 ^ 63"
  using sint_range_size [of x] by (simp_all add: word_size)

lemma unat_lt_32: "unat (x :: u32) < 2 ^ 32"
  by (rule order.strict_trans2 [OF unsigned_less]) simp

lemma int_div_less:
  fixes a d m :: int
  assumes "0 < d"
  shows "a div d < m \<longleftrightarrow> a < d * m"
proof
  assume "a div d < m"
  then have "d * (a div d + 1) \<le> d * m" using assms by (intro mult_left_mono) simp_all
  moreover have "a < d * (a div d + 1)"
    using pos_mod_bound [OF assms, of a] mult_div_mod_eq [of d a] unfolding distrib_left mult_1_right
    by linarith
  ultimately show "a < d * m" by simp
next
  assume "a < d * m"
  show "a div d < m"
  proof (rule ccontr)
    assume "\<not> a div d < m"
    then have "d * m \<le> d * (a div d)" using assms by (intro mult_left_mono) simp_all
    also have "\<dots> \<le> a" using pos_mod_sign [OF assms, of a] mult_div_mod_eq [of d a] by linarith
    finally show False using \<open>a < d * m\<close> by simp
  qed
qed

lemma sdiv_nonneg: "0 \<le> a \<Longrightarrow> 0 < b \<Longrightarrow> a sdiv b = a div (b :: int)"
  by (simp add: signed_divide_int_def sgn_if)

lemma int_boundaries:
  fixes lo hi :: i64 and n :: u32
  assumes ord: "sint lo \<le> sint hi" and room: "sint hi - sint lo < 2 ^ 63" and n: "1 < n"
    and S: "S = (sint hi - sint lo) div uint n"
  shows "length (for_int_range lo hi n) = unat n - 1"
    and "i < unat n - 1 \<Longrightarrow> \<exists>b. for_int_range lo hi n ! i = PInt b \<and> sint b = sint lo + S * int (i + 1)"
proof -
  have n0: "0 < uint n" using n by (simp add: word_less_def)
  have diff: "hi - lo = word_of_int (sint hi - sint lo)" by simp
  have "- (2 ^ 63) \<le> sint hi - sint lo" using ord by simp
  then have "sint (hi - lo) = sint hi - sint lo" unfolding diff using room by (rule sint_word_of_int)
  then have step: "sint (hi - lo) sdiv uint n = S"
    using sdiv_nonneg [of "sint hi - sint lo" "uint n"] ord n0 unfolding S by simp
  show len: "length (for_int_range lo hi n) = unat n - 1" using n by (simp add: for_int_range_def Let_def)
  assume i: "i < unat n - 1"
  let ?x = "sint lo + S * int (i + 1)"
  have "int (unat n) = uint n" by simp
  then have "int (i + 1) \<le> uint n" using i by linarith
  moreover have S0: "0 \<le> S" using ord n0 by (simp add: S pos_imp_zdiv_nonneg_iff)
  ultimately have "S * int (i + 1) \<le> S * uint n" by (rule mult_left_mono)
  also have "\<dots> \<le> sint hi - sint lo" 
    using pos_mod_sign [OF n0, of "sint hi - sint lo"] div_mult_mod_eq [of "sint hi - sint lo" "uint n"]
    unfolding S by linarith
  finally have "?x \<le> sint hi" by simp
  moreover have "sint lo \<le> ?x" using S0 by simp
  ultimately have x: "sint (word_of_int ?x :: i64) = ?x"
    using i64_range [of lo] i64_range [of hi] by (intro sint_word_of_int) linarith+
  have "for_int_range lo hi n ! i = PInt (lo + word_of_int S * of_nat (i + 1))"
    using n i by (simp add: for_int_range_def step not_le [symmetric])
  moreover have "lo + word_of_int S * of_nat (i + 1) = word_of_int ?x"
  proof -
    have "word_of_int ?x = word_of_int (sint lo) + word_of_int S * (word_of_int (int (i + 1)) :: i64)"
      by (simp only: wi_hom_add wi_hom_mult)
    then show ?thesis by simp
  qed
  ultimately show "\<exists>b. for_int_range lo hi n ! i = PInt b \<and> sint b = ?x" using x by auto
qed

text \<open>
  C36. A range partitioner with evenly spaced integer boundaries sends a key to the shard given by
  dividing its distance from the minimum by the spacing, and to the last shard beyond the spacings,
  so every shard number is below the number of shards.
\<close>

theorem int_range_route:
  fixes lo hi k :: i64 and n :: u32
  assumes ord: "sint lo \<le> sint hi" and room: "sint hi - sint lo < 2 ^ 63" and n: "1 < n"
    and S: "S = (sint hi - sint lo) div uint n" "0 < S" and k: "sint lo \<le> sint k"
  shows "unat (range_route (for_int_range lo hi n) (PInt k) n)
    = min (unat n - 1) (nat ((sint k - sint lo) div S))"
proof -
  let ?bs = "for_int_range lo hi n" and ?q = "nat ((sint k - sint lo) div S)"
  note len = int_boundaries(1) [OF ord room n S(1)] and bnd = int_boundaries(2) [OF ord room n S(1)]
  have less: "key_less_than (PInt k) (?bs ! i) \<longleftrightarrow> ?q \<le> i" if i: "i < length ?bs" for i
  proof -
    obtain b where "?bs ! i = PInt b" "sint b = sint lo + S * int (i + 1)"
      using bnd [of i] i unfolding len by blast
    moreover have "sint k < sint lo + S * int (i + 1) \<longleftrightarrow> (sint k - sint lo) div S < int (i + 1)"
      using int_div_less [OF S(2), of "sint k - sint lo" "int (i + 1)"] by (simp only: diff_less_eq add.commute)
    moreover have "0 \<le> (sint k - sint lo) div S" using k S(2) by (simp add: pos_imp_zdiv_nonneg_iff)
    ultimately show ?thesis by (auto simp: nat_le_iff)
  qed
  have ok: "boundaries_ok ?bs" unfolding boundaries_ok_def len using unat_lt_32 [of n] by simp
  have "position (key_less_than (PInt k)) ?bs = (if ?q < length ?bs then Some ?q else None)"
  proof (cases "?q < length ?bs")
    case True
    then show ?thesis using less by (auto intro!: position_eqI)
  next
    case False
    then show ?thesis using less by (auto simp: position_None in_set_conv_nth)
  qed
  then show ?thesis unfolding unat_range_route(1) [OF ok] by (auto simp: len min_def)
qed

theorem int_range_route_witness:
  "unat (range_route (for_int_range 0 100 4) (PInt 60) 4) = 2"
proof -
  have "sint (100 :: i64) = 100" "sint (60 :: i64) = 60" "sint (0 :: i64) = 0" "uint (4 :: u32) = 4" by simp_all
  then show ?thesis using int_range_route [of 0 100 4 25 60] by (simp only: ) simp
qed

end
