(* ===== verification/Shard_Manager.thy ===== *)
theory Shard_Manager
  imports Partition
begin

text \<open>
  Shards of a database (\<^verbatim>\<open>scaling/shard.rs\<close>): the catalog of shard metadata, the shards of each
  table, status changes, split and merge plans, and the persisted catalog. The global counter of
  shard identifiers is threaded through the operations; the clock and the codec of the catalog are
  parameters. Theorems: the catalog and the lists of table shards describe the same shards after
  any operations; saving and loading keeps every shard; identifiers are reused after a restart.
\<close>

section \<open>Shards\<close>

datatype shard_status =
  ShActive | ShCreating | ShSplitting | ShMerging | ShMigrating | ShReadOnly | ShOffline

record shard_meta =
  sh_id :: u32
  sh_table :: string
  sh_node :: u32
  sh_status :: shard_status
  sh_path :: string
  sh_rows :: u64
  sh_size :: u64
  sh_key_range :: "(partition_key \<times> partition_key) option"
  sh_created :: i64
  sh_modified :: i64
  sh_replicas :: "u32 list"

definition next_shard_id :: "u32 \<Rightarrow> u32 \<times> u32" where
  "next_shard_id c = (c, c + 1)"

definition meta_new :: "string \<Rightarrow> u32 \<Rightarrow> string \<Rightarrow> i64 \<Rightarrow> u32 \<Rightarrow> shard_meta \<times> u32" where
  "meta_new t node path now c =
     (let (i, c1) = next_shard_id c
      in (\<lparr>sh_id = i, sh_table = t, sh_node = node, sh_status = ShCreating, sh_path = path, sh_rows = 0,
           sh_size = 0, sh_key_range = None, sh_created = now, sh_modified = now, sh_replicas = []\<rparr>, c1))"

definition is_readable :: "shard_meta \<Rightarrow> bool" where
  "is_readable s = (sh_status s = ShActive \<or> sh_status s = ShReadOnly)"

definition is_writable :: "shard_meta \<Rightarrow> bool" where
  "is_writable s = (sh_status s = ShActive)"

section \<open>The manager\<close>

record shard_manager =
  shards :: "(u32, shard_meta) hmap"
  table_shards :: "(string, u32 list) hmap"
  base_dir :: string
  local_node :: u32
  shards_dirty :: bool

definition mgr_new :: "string \<Rightarrow> u32 \<Rightarrow> shard_manager" where
  "mgr_new dir node =
     \<lparr>shards = [], table_shards = [], base_dir = dir, local_node = node, shards_dirty = False\<rparr>"

definition dir_join :: "string \<Rightarrow> string \<Rightarrow> string" where
  "dir_join a b = (if a = [] then b else if last a = CHR ''/'' then a @ b else a @ ''/'' @ b)"

definition catalog_path :: "string \<Rightarrow> string" where
  "catalog_path dir = dir_join dir ''shard_catalog.bin''"

definition list_shard :: "(string, u32 list) hmap \<Rightarrow> u32 \<times> shard_meta \<Rightarrow> (string, u32 list) hmap" where
  "list_shard ts e = hm_upsert (sh_table (snd e)) [] (\<lambda>ids. ids @ [fst e]) ts"

definition mgr_load ::
  "(u32, shard_meta) hmap de \<Rightarrow> files \<Rightarrow> string \<Rightarrow> u32 \<Rightarrow> shard_manager result" where
  "mgr_load de fs dir node =
     (case hm_get fs (catalog_path dir) of
        None \<Rightarrow> Inr (mgr_new dir node)
      | Some d \<Rightarrow>
          (case de d of
             None \<Rightarrow> Inl (IoError InvalidData ''{}'')
           | Some cat \<Rightarrow>
               Inr \<lparr>shards = cat, table_shards = foldl list_shard [] cat, base_dir = dir,
                    local_node = node, shards_dirty = False\<rparr>))"

text \<open>The path is numbered by one draw from the counter and the shard by the next.\<close>

definition create_shard ::
  "string \<Rightarrow> i64 \<Rightarrow> u32 \<times> shard_manager \<Rightarrow> shard_meta \<times> (u32 \<times> shard_manager)" where
  "create_shard t now s =
     (let (c, m) = s;
          (p, c1) = next_shard_id c;
          path = dir_join (dir_join (base_dir m) ''shards'') (''shard_'' @ show_nat (unat p));
          (meta0, c2) = meta_new t (local_node m) path now c1;
          meta = meta0\<lparr>sh_status := ShActive\<rparr>
      in (meta, (c2, m\<lparr>shards := hm_insert (sh_id meta) meta (shards m),
                       table_shards := hm_upsert t [] (\<lambda>ids. ids @ [sh_id meta]) (table_shards m),
                       shards_dirty := True\<rparr>)))"

definition get_shard :: "u32 \<Rightarrow> shard_manager \<Rightarrow> shard_meta option" where
  "get_shard i m = hm_get (shards m) i"

definition get_table_shards :: "string \<Rightarrow> shard_manager \<Rightarrow> shard_meta list" where
  "get_table_shards t m =
     (case hm_get (table_shards m) t of
        None \<Rightarrow> [] | Some ids \<Rightarrow> List.map_filter (hm_get (shards m)) ids)"

definition get_writable_shards :: "string \<Rightarrow> shard_manager \<Rightarrow> shard_meta list" where
  "get_writable_shards t m = filter is_writable (get_table_shards t m)"

definition shard_not_found :: failure where
  "shard_not_found = IoError NotFound ''Shard {} not found''"

definition set_shard_status ::
  "u32 \<Rightarrow> shard_status \<Rightarrow> i64 \<Rightarrow> shard_manager \<Rightarrow> unit result \<times> shard_manager" where
  "set_shard_status i st now m =
     (case hm_get (shards m) i of
        None \<Rightarrow> (Inl shard_not_found, m)
      | Some s \<Rightarrow>
          (Inr (), m\<lparr>shards := hm_insert i (s\<lparr>sh_status := st, sh_modified := now\<rparr>) (shards m),
                     shards_dirty := True\<rparr>))"

definition update_shard_stats :: "u32 \<Rightarrow> u64 \<Rightarrow> u64 \<Rightarrow> i64 \<Rightarrow> shard_manager \<Rightarrow> shard_manager" where
  "update_shard_stats i rows nbytes now m =
     (case hm_get (shards m) i of
        None \<Rightarrow> m
      | Some s \<Rightarrow> m\<lparr>shards := hm_insert i (s\<lparr>sh_rows := rows, sh_size := nbytes, sh_modified := now\<rparr>) (shards m)\<rparr>)"

definition remove_shard :: "u32 \<Rightarrow> shard_manager \<Rightarrow> shard_meta result \<times> shard_manager" where
  "remove_shard i m =
     (case hm_get (shards m) i of
        None \<Rightarrow> (Inl shard_not_found, m)
      | Some s \<Rightarrow>
          (Inr s, m\<lparr>shards := hm_remove i (shards m),
                    table_shards :=
                      (case hm_get (table_shards m) (sh_table s) of
                         None \<Rightarrow> table_shards m
                       | Some ids \<Rightarrow> hm_insert (sh_table s) (filter (\<lambda>x. x \<noteq> i) ids) (table_shards m)),
                    shards_dirty := True\<rparr>))"

record split_plan =
  source_shard :: u32
  split_table :: string
  estimated_rows_per_half :: u64

record merge_plan =
  source_shards :: "u32 \<times> u32"
  merge_table :: string
  estimated_total_rows :: u64

definition plan_split :: "u32 \<Rightarrow> shard_manager \<Rightarrow> split_plan result" where
  "plan_split i m =
     (case hm_get (shards m) i of
        None \<Rightarrow> Inl shard_not_found
      | Some s \<Rightarrow> Inr \<lparr>source_shard = i, split_table = sh_table s, estimated_rows_per_half = sh_rows s div 2\<rparr>)"

definition plan_merge :: "u32 \<Rightarrow> u32 \<Rightarrow> shard_manager \<Rightarrow> merge_plan result" where
  "plan_merge i j m =
     (case hm_get (shards m) i of
        None \<Rightarrow> Inl shard_not_found
      | Some a \<Rightarrow>
          (case hm_get (shards m) j of
             None \<Rightarrow> Inl shard_not_found
           | Some b \<Rightarrow>
               if sh_table a \<noteq> sh_table b
               then Inl (IoError InvalidInput ''Cannot merge shards from different tables'')
               else Inr \<lparr>source_shards = (i, j), merge_table = sh_table a,
                         estimated_total_rows = sh_rows a + sh_rows b\<rparr>))"

definition needs_rebalance :: "string \<Rightarrow> shard_manager \<Rightarrow> bool" where
  "needs_rebalance t m =
     (let ss = get_table_shards t m
      in if length ss < 2 then False
         else let avg = sum_list (map sh_rows ss) div of_nat (length ss)
              in list_ex (\<lambda>s. avg * 2 < sh_rows s \<or> 100 < avg \<and> sh_rows s < avg div 3) ss)"

definition shard_count :: "string \<Rightarrow> shard_manager \<Rightarrow> nat" where
  "shard_count t m = (case hm_get (table_shards m) t of None \<Rightarrow> 0 | Some ids \<Rightarrow> length ids)"

definition total_shards :: "shard_manager \<Rightarrow> nat" where
  "total_shards m = length (shards m)"

definition mgr_save ::
  "(u32, shard_meta) hmap ser \<Rightarrow> files \<Rightarrow> shard_manager \<Rightarrow> (files \<times> shard_manager) result" where
  "mgr_save ser fs m =
     (if \<not> shards_dirty m then Inr (fs, m)
      else case ser (shards m) of
        None \<Rightarrow> Inl (IoError InvalidData ''{}'')
      | Some d \<Rightarrow> Inr (hm_insert (catalog_path (base_dir m)) d fs, m\<lparr>shards_dirty := False\<rparr>))"

section \<open>Consistency of the catalog\<close>

text \<open>The identifier of a shard is its key, and the lists of the tables name exactly the shards.\<close>

definition agree :: "(u32 \<rightharpoonup> shard_meta) \<Rightarrow> (string \<rightharpoonup> u32 list) \<Rightarrow> bool" where
  "agree g ts \<longleftrightarrow>
     (\<forall>i s. g i = Some s \<longrightarrow> sh_id s = i \<and> (\<exists>ids. ts (sh_table s) = Some ids \<and> i \<in> set ids))
     \<and> (\<forall>t ids. ts t = Some ids \<longrightarrow>
          distinct ids \<and> (\<forall>i \<in> set ids. \<exists>s. g i = Some s \<and> sh_table s = t))"

definition shards_ok :: "shard_manager \<Rightarrow> bool" where
  "shards_ok m \<longleftrightarrow> hm_wf (shards m) \<and> hm_wf (table_shards m)
     \<and> agree (hm_get (shards m)) (hm_get (table_shards m))"

datatype shard_op =
  CreateShard string i64 | SetStatus u32 shard_status i64 | SetStats u32 u64 u64 i64 | RemoveShard u32

fun shard_exec :: "shard_op \<Rightarrow> u32 \<times> shard_manager \<Rightarrow> u32 \<times> shard_manager" where
  "shard_exec (CreateShard t now) s = snd (create_shard t now s)"
| "shard_exec (SetStatus i st now) (c, m) = (c, snd (set_shard_status i st now m))"
| "shard_exec (SetStats i r z now) (c, m) = (c, update_shard_stats i r z now m)"
| "shard_exec (RemoveShard i) (c, m) = (c, snd (remove_shard i m))"

text \<open>All identifiers in use were drawn from the counter.\<close>

definition drawn :: "u32 \<times> shard_manager \<Rightarrow> bool" where
  "drawn s \<longleftrightarrow> (\<forall>i x. hm_get (shards (snd s)) i = Some x \<longrightarrow> i < fst s)"

lemma agree_shard:
  assumes "agree g ts" and "g i = Some s"
  obtains ids where "ts (sh_table s) = Some ids" "i \<in> set ids" "sh_id s = i"
  using assms unfolding agree_def by blast

lemma agree_table:
  assumes "agree g ts" and "ts t = Some ids"
  shows "distinct ids" and "i \<in> set ids \<Longrightarrow> \<exists>s. g i = Some s \<and> sh_table s = t"
  using assms unfolding agree_def by blast+

lemma agree_status:
  assumes g: "agree g ts" and i: "g i = Some s" and s': "sh_id s' = sh_id s" "sh_table s' = sh_table s"
  shows "agree (g(i \<mapsto> s')) ts"
  unfolding agree_def
proof (intro conjI allI impI ballI)
  fix k x assume "(g(i \<mapsto> s')) k = Some x"
  then obtain y where y: "g k = Some y" "sh_id x = sh_id y" "sh_table x = sh_table y"
    using i s' by (auto split: if_splits)
  then show "sh_id x = k" "\<exists>ids. ts (sh_table x) = Some ids \<and> k \<in> set ids"
    using agree_shard [OF g y(1)] by metis+
next
  fix t ids assume t: "ts t = Some ids"
  then show "distinct ids" by (rule agree_table [OF g])
  fix k assume "k \<in> set ids"
  then obtain x where x: "g k = Some x" "sh_table x = t" using agree_table(2) [OF g t] by blast
  show "\<exists>x. (g(i \<mapsto> s')) k = Some x \<and> sh_table x = t"
    using x i s' by (cases "k = i") auto
qed

definition listed :: "(string \<rightharpoonup> u32 list) \<Rightarrow> string \<Rightarrow> u32 list" where
  "listed ts t = (case ts t of None \<Rightarrow> [] | Some ids \<Rightarrow> ids)"

lemma agree_create:
  assumes g: "agree g ts" and i: "g i = None" and s: "sh_id s = i" "sh_table s = t"
  shows "agree (g(i \<mapsto> s)) (ts(t \<mapsto> listed ts t @ [i]))"
proof -
  have old: "distinct (listed ts t)" "\<And>k. k \<in> set (listed ts t) \<Longrightarrow> \<exists>x. g k = Some x \<and> sh_table x = t"
    using agree_table [OF g, of t] by (cases "ts t"; simp add: listed_def)+
  have new: "i \<notin> set (listed ts t)" using old(2) i by fastforce
  have here: "k \<in> set (listed ts t)" if "g k = Some x" "sh_table x = t" for k x
    using agree_shard [OF g that(1)] that(2) by (metis listed_def option.simps(5))
  show ?thesis
    unfolding agree_def
  proof (intro conjI allI impI ballI)
    fix k x assume x: "(g(i \<mapsto> s)) k = Some x"
    then show "sh_id x = k" using s agree_shard [OF g] by (metis fun_upd_apply option.inject)
    show "\<exists>ids. (ts(t \<mapsto> listed ts t @ [i])) (sh_table x) = Some ids \<and> k \<in> set ids"
    proof (cases "k = i")
      case True
      then show ?thesis using x s by auto
    next
      case False
      then have k: "g k = Some x" using x by simp
      obtain js where "ts (sh_table x) = Some js" "k \<in> set js" by (rule agree_shard [OF g k])
      then show ?thesis using here [OF k] by (cases "sh_table x = t") auto
    qed
  next
    fix u ids assume u: "(ts(t \<mapsto> listed ts t @ [i])) u = Some ids"
    show "distinct ids" using u old(1) new agree_table(1) [OF g, of u] by (auto split: if_splits)
    fix k assume k: "k \<in> set ids"
    show "\<exists>x. (g(i \<mapsto> s)) k = Some x \<and> sh_table x = u"
    proof (cases "u = t")
      case True
      then show ?thesis using u k s old(2) [of k] i by (cases "k = i") auto
    next
      case False
      then show ?thesis using u k i agree_table(2) [OF g, of u ids k] by (cases "k = i") auto
    qed
  qed
qed

lemma agree_remove:
  assumes g: "agree g ts" and i: "g i = Some s" and ids: "ts (sh_table s) = Some ids"
  shows "agree (g(i := None)) (ts(sh_table s \<mapsto> filter (\<lambda>x. x \<noteq> i) ids))"
  unfolding agree_def
proof (intro conjI allI impI ballI)
  fix k x assume x: "(g(i := None)) k = Some x"
  then have k: "k \<noteq> i" "g k = Some x" by (auto split: if_splits)
  show "sh_id x = k" using agree_shard [OF g k(2)] by metis
  obtain js where "ts (sh_table x) = Some js" "k \<in> set js" by (rule agree_shard [OF g k(2)])
  then show "\<exists>js. (ts(sh_table s \<mapsto> filter (\<lambda>x. x \<noteq> i) ids)) (sh_table x) = Some js \<and> k \<in> set js"
    using k(1) ids by (cases "sh_table x = sh_table s") auto
next
  fix u js assume u: "(ts(sh_table s \<mapsto> filter (\<lambda>x. x \<noteq> i) ids)) u = Some js"
  show "distinct js" using u ids agree_table(1) [OF g] by (auto split: if_splits)
  fix k assume k: "k \<in> set js"
  show "\<exists>x. (g(i := None)) k = Some x \<and> sh_table x = u"
  proof (cases "u = sh_table s")
    case True
    then show ?thesis using u k agree_table(2) [OF g ids, of k] by auto
  next
    case False
    then obtain x where x: "g k = Some x" "sh_table x = u" using u k agree_table(2) [OF g, of u js k] by auto
    then have "k \<noteq> i" using False i by auto
    then show ?thesis using x by simp
  qed
qed

lemma shards_ok_status:
  assumes "shards_ok m" and "hm_get (shards m) i = Some s"
    and "sh_id s' = sh_id s" "sh_table s' = sh_table s"
    and m': "shards m' = hm_insert i s' (shards m)" "table_shards m' = table_shards m"
  shows "shards_ok m'"
  using assms(1) agree_status [of "hm_get (shards m)" "hm_get (table_shards m)", OF _ assms(2-4)]
  unfolding shards_ok_def m' update_conv' by (blast intro: hm_wf_insert)

lemma shards_ok_create:
  assumes ok: "shards_ok m" and "hm_get (shards m) i = None" "sh_id s = i" "sh_table s = t"
    and m': "shards m' = hm_insert i s (shards m)"
      "table_shards m' = hm_upsert t [] (\<lambda>ids. ids @ [i]) (table_shards m)"
  shows "shards_ok m'"
proof -
  have "hm_get (table_shards m') = (hm_get (table_shards m))(t \<mapsto> listed (hm_get (table_shards m)) t @ [i])"
    by (simp add: m' hm_upsert_def update_conv' listed_def)
  then show ?thesis
    using ok agree_create [of "hm_get (shards m)" "hm_get (table_shards m)", OF _ assms(2-4)]
    unfolding shards_ok_def m' update_conv' by (metis hm_wf_insert hm_wf_upsert)
qed

lemma shards_ok_remove:
  assumes ok: "shards_ok m"
  shows "shards_ok (snd (remove_shard i m))"
proof (cases "hm_get (shards m) i")
  case None
  then show ?thesis using ok by (simp only: remove_shard_def option.simps snd_conv)
next
  case (Some s)
  have g: "agree (hm_get (shards m)) (hm_get (table_shards m))" using ok by (simp only: shards_ok_def)
  from agree_shard [OF g Some] obtain ids where ids: "hm_get (table_shards m) (sh_table s) = Some ids" .
  have m': "shards (snd (remove_shard i m)) = hm_remove i (shards m)"
    "table_shards (snd (remove_shard i m)) = hm_insert (sh_table s) (filter (\<lambda>x. x \<noteq> i) ids) (table_shards m)"
    using Some ids by (simp_all add: remove_shard_def)
  show ?thesis
    using ok agree_remove [OF g Some ids] unfolding shards_ok_def m' update_conv' delete_conv
    by (blast intro: hm_wf_insert hm_wf_remove)
qed

lemma create_shard_fields:
  "create_shard t now (c, m) = (meta, s') \<Longrightarrow>
     sh_id meta = c + 1 \<and> sh_table meta = t \<and> fst s' = c + 1 + 1
     \<and> shards (snd s') = hm_insert (c + 1) meta (shards m)
     \<and> table_shards (snd s') = hm_upsert t [] (\<lambda>ids. ids @ [c + 1]) (table_shards m)"
  by (auto simp: create_shard_def next_shard_id_def meta_new_def Let_def)

lemma shard_exec_ok:
  assumes ok: "shards_ok (snd s)" "drawn s" and c: "unat (fst s) + 2 < 2 ^ 32"
  shows "shards_ok (snd (shard_exec a s)) \<and> drawn (shard_exec a s) \<and> unat (fst (shard_exec a s)) \<le> unat (fst s) + 2"
proof -
  obtain c m where s: "s = (c, m)" by (cases s)
  have ids: "i < c" if "hm_get (shards m) i = Some x" for i x
    using ok(2) that by (auto simp: drawn_def s)
  show ?thesis
  proof (cases a)
    case (CreateShard t now)
    obtain meta s' where e: "create_shard t now (c, m) = (meta, s')" by (cases "create_shard t now (c, m)")
    have f: "sh_id meta = c + 1" "sh_table meta = t" "fst s' = c + 1 + 1"
      "shards (snd s') = hm_insert (c + 1) meta (shards m)"
      "table_shards (snd s') = hm_upsert t [] (\<lambda>ids. ids @ [c + 1]) (table_shards m)"
      using create_shard_fields [OF e] by blast+
    have m: "shards_ok m" using ok(1) by (simp only: s snd_conv)
    have u: "unat (c + 1) = unat c + 1" "unat (c + 1 + 1) = unat c + 2"
      using c by (simp_all add: s unat_word_ariths)
    have new: "hm_get (shards m) (c + 1) = None"
    proof (rule ccontr)
      assume "hm_get (shards m) (c + 1) \<noteq> None"
      then have "c + 1 < c" using ids by auto
      then show False using u(1) by (simp add: word_less_nat_alt)
    qed
    have "shards_ok (snd s')" by (rule shards_ok_create [OF m new f(1,2,4,5)])
    moreover have "drawn s'"
    proof -
      have "i < c + 1 + 1" if "hm_get (shards (snd s')) i = Some x" for i x
      proof (cases "i = c + 1")
        case True
        then show ?thesis using u by (simp add: word_less_nat_alt)
      next
        case False
        then have "i < c" using that ids unfolding f(4) hm_get_insert by simp
        then show ?thesis using u by (simp add: word_less_nat_alt)
      qed
      then show ?thesis unfolding drawn_def f(3) by blast
    qed
    ultimately show ?thesis unfolding CreateShard s shard_exec.simps e snd_conv fst_conv f(3) u(2) by simp
  next
    case (SetStatus i st now)
    show ?thesis
    proof (cases "hm_get (shards m) i")
      case (Some x)
      then show ?thesis
        using ok ids shards_ok_status [OF _ Some, of "x\<lparr>sh_status := st, sh_modified := now\<rparr>"]
        by (auto simp: SetStatus s set_shard_status_def drawn_def hm_simps)
    qed (use ok in \<open>simp add: SetStatus s set_shard_status_def\<close>)
  next
    case (SetStats i r z now)
    show ?thesis
    proof (cases "hm_get (shards m) i")
      case (Some x)
      then show ?thesis
        using ok ids shards_ok_status [OF _ Some, of "x\<lparr>sh_rows := r, sh_size := z, sh_modified := now\<rparr>"]
        by (auto simp: SetStats s update_shard_stats_def drawn_def hm_simps)
    qed (use ok in \<open>simp add: SetStats s update_shard_stats_def\<close>)
  next
    case (RemoveShard i)
    have "drawn (c, snd (remove_shard i m))"
      using ids by (auto simp: drawn_def remove_shard_def hm_simps split: option.splits if_splits)
    then show ?thesis using ok shards_ok_remove by (simp add: RemoveShard s)
  qed
qed

lemma shard_run_ok:
  assumes "shards_ok (snd s)" "drawn s" "unat (fst s) + 2 * length ops < 2 ^ 32"
  shows "shards_ok (snd (fold shard_exec ops s))"
  using assms
proof (induction ops arbitrary: s)
  case (Cons a ops)
  have "unat (fst s) + 2 < 2 ^ 32" using Cons.prems(3) by simp
  note step = shard_exec_ok [OF Cons.prems(1,2) this, of a]
  show ?case unfolding fold.simps comp_apply using step Cons.prems(3) by (intro Cons.IH) auto
qed simp

lemma agree_listing:
  assumes g: "agree g ts" and t: "ts t = Some ids"
  shows "set ids = {i. \<exists>s. g i = Some s \<and> sh_table s = t}"
    and "set (List.map_filter g ids) = {s. \<exists>i. g i = Some s \<and> sh_table s = t}"
    and "length (List.map_filter g ids) = length ids"
proof -
  show ids: "set ids = {i. \<exists>s. g i = Some s \<and> sh_table s = t}"
  proof (intro equalityI subsetI CollectI)
    fix i assume "i \<in> set ids"
    then show "\<exists>s. g i = Some s \<and> sh_table s = t" by (rule agree_table(2) [OF g t])
  next
    fix i assume "i \<in> {i. \<exists>s. g i = Some s \<and> sh_table s = t}"
    then obtain s where s: "g i = Some s" "sh_table s = t" by blast
    show "i \<in> set ids" using agree_shard [OF g s(1)] s(2) t by (metis option.inject)
  qed
  have some: "\<forall>i \<in> set ids. g i \<noteq> None" unfolding ids by auto
  then have "filter (\<lambda>i. g i \<noteq> None) ids = ids" by simp
  then have mf: "List.map_filter g ids = map (\<lambda>i. the (g i)) ids"
    unfolding List.map_filter_def comp_def by simp
  show "length (List.map_filter g ids) = length ids" by (simp add: mf)
  show "set (List.map_filter g ids) = {s. \<exists>i. g i = Some s \<and> sh_table s = t}"
    unfolding mf set_map ids by force
qed

lemma shards_ok_listing:
  assumes "shards_ok m"
  shows "set (get_table_shards t m) = {s. \<exists>i. get_shard i m = Some s \<and> sh_table s = t}"
    and "length (get_table_shards t m) = shard_count t m"
    and "get_shard i m = Some s \<Longrightarrow> sh_id s = i"
    and "shard_count t m = card {i. \<exists>s. get_shard i m = Some s \<and> sh_table s = t}"
proof -
  have g: "agree (hm_get (shards m)) (hm_get (table_shards m))" using assms by (simp only: shards_ok_def)
  have present: "hm_get (table_shards m) (sh_table s) \<noteq> None" if s: "hm_get (shards m) i = Some s" for i s
    by (rule agree_shard [OF g s]) simp
  have none: "{i. \<exists>s. hm_get (shards m) i = Some s \<and> sh_table s = t} = {}"
    "{s. \<exists>i. hm_get (shards m) i = Some s \<and> sh_table s = t} = {}"
    if t: "hm_get (table_shards m) t = None"
    using present t by blast+
  show "sh_id s = i" if "get_shard i m = Some s"
    using agree_shard [OF g that [unfolded get_shard_def]] by metis
  show "set (get_table_shards t m) = {s. \<exists>i. get_shard i m = Some s \<and> sh_table s = t}"
    "length (get_table_shards t m) = shard_count t m"
    "shard_count t m = card {i. \<exists>s. get_shard i m = Some s \<and> sh_table s = t}"
    using none agree_listing [OF g, of t] agree_table(1) [OF g, of t]
    unfolding get_table_shards_def get_shard_def shard_count_def
    by (cases "hm_get (table_shards m) t"; simp add: distinct_card [symmetric] del: map_of_eq_Some_iff)+
qed

section \<open>Properties\<close>

text \<open>
  C33. After any sequence of creations, status and statistics updates and removals in one process,
  the shards listed for a table are exactly the catalog's shards of that table, each once and under
  its own identifier, as long as the identifier counter has not run out.
\<close>

theorem shard_catalog_consistent:
  assumes "2 * length ops + 2 < 2 ^ 32"
    and m: "m = snd (fold shard_exec ops (1, mgr_new dir node))"
  shows "set (get_table_shards t m) = {s. \<exists>i. get_shard i m = Some s \<and> sh_table s = t}
    \<and> length (get_table_shards t m) = card {i. \<exists>s. get_shard i m = Some s \<and> sh_table s = t}
    \<and> (get_shard i m = Some s \<longrightarrow> sh_id s = i)"
proof -
  have "shards_ok (mgr_new dir node)" "drawn (1, mgr_new dir node)"
    by (simp_all add: shards_ok_def agree_def mgr_new_def drawn_def)
  then have "shards_ok m" unfolding m using assms(1) by (intro shard_run_ok) simp_all
  note l = shards_ok_listing [OF this]
  show ?thesis using l(1) [of t] l(2) [of t] l(3) [of i s] l(4) [of t] by simp
qed

theorem shard_catalog_consistent_witness:
  "sh_id (the (get_shard 2 (snd (fold shard_exec [CreateShard ''u'' 0] (1, mgr_new ''d'' 1))))) = 2"
proof -
  let ?m = "snd (fold shard_exec [CreateShard ''u'' 0] (1, mgr_new ''d'' 1))"
  have "get_shard 2 ?m \<noteq> None"
    by (simp add: get_shard_def create_shard_def next_shard_id_def meta_new_def mgr_new_def Let_def)
  then obtain s where s: "get_shard 2 ?m = Some s" by blast
  have "sh_id s = 2"
    using shard_catalog_consistent [of "[CreateShard ''u'' 0]" ?m "''d''" 1 "''u''" 2 s] s by simp
  with s show ?thesis by simp
qed

text \<open>Rebuilding the lists of the tables from the catalog.\<close>

lemma foldl_list_shard:
  "hm_get (foldl list_shard [] es) t =
     (let ids = map fst (filter (\<lambda>e. sh_table (snd e) = t) es) in if ids = [] then None else Some ids)"
proof (induction es rule: rev_induct)
  case (snoc e es)
  then show ?case by (cases "sh_table (snd e) = t") (auto simp: list_shard_def hm_get_upsert Let_def)
qed simp

lemma wf_list_shard: "hm_wf (foldl list_shard [] es)"
  by (induction es rule: rev_induct) (simp_all add: list_shard_def hm_wf_upsert)

lemma rebuilt_ok:
  assumes wf: "hm_wf es" and ids: "\<And>i s. hm_get es i = Some s \<Longrightarrow> sh_id s = i"
    and m: "shards m = es" "table_shards m = foldl list_shard [] es"
  shows "shards_ok m"
proof -
  let ?ids = "\<lambda>t. map fst (filter (\<lambda>e. sh_table (snd e) = t) es)"
  have mem: "i \<in> set (?ids t) \<longleftrightarrow> (\<exists>s. hm_get es i = Some s \<and> sh_table s = t)" for i t
    using hm_get_mem [OF wf] by force
  have dist: "distinct (?ids t)" for t using wf by (simp add: distinct_map_filter)
  have get: "hm_get (foldl list_shard [] es) t = (if ?ids t = [] then None else Some (?ids t))" for t
    by (simp only: foldl_list_shard Let_def)
  have "agree (hm_get es) (hm_get (foldl list_shard [] es))"
    unfolding agree_def get
  proof (intro conjI allI impI ballI)
    fix i s assume s: "hm_get es i = Some s"
    show "sh_id s = i" by (rule ids [OF s])
    have "i \<in> set (?ids (sh_table s))" unfolding mem using s by blast
    moreover from this have "?ids (sh_table s) \<noteq> []" by fastforce
    ultimately show "\<exists>js. (if ?ids (sh_table s) = [] then None else Some (?ids (sh_table s))) = Some js \<and> i \<in> set js"
      by (simp only: if_False) blast
  next
    fix t js assume "(if ?ids t = [] then None else Some (?ids t)) = Some js"
    then have js: "js = ?ids t" by (metis option.distinct(1) option.inject)
    show "distinct js" unfolding js by (rule dist)
    show "\<exists>s. hm_get es i = Some s \<and> sh_table s = t" if "i \<in> set js" for i
      using that unfolding js by (simp only: mem)
  qed
  then show ?thesis unfolding shards_ok_def m using wf wf_list_shard by blast
qed

text \<open>
  Saving a modified shard catalog and loading it keeps every shard and the number of shards of
  every table, and the loaded catalog is consistent; the codec need not keep the order in which the
  hash map is visited.
\<close>

theorem shard_catalog_round_trip:
  assumes ok: "shards_ok m" and dirty: "shards_dirty m" and save: "mgr_save ser fs m = Inr (fs', m')"
    and codec: "\<And>d. ser (shards m) = Some d \<Longrightarrow> \<exists>y. de d = Some y \<and> set y = set (shards m) \<and> hm_wf y"
  shows "\<exists>m2. mgr_load de fs' (base_dir m) node = Inr m2 \<and> shards_ok m2
    \<and> (\<forall>i. get_shard i m2 = get_shard i m) \<and> (\<forall>t. shard_count t m2 = shard_count t m)"
proof -
  obtain d where d: "ser (shards m) = Some d" and fs': "fs' = hm_insert (catalog_path (base_dir m)) d fs"
    using save dirty by (auto simp: mgr_save_def split: option.splits)
  obtain y where y: "de d = Some y" "set y = set (shards m)" "hm_wf y" using codec [OF d] by blast
  define m2 where "m2 = \<lparr>shards = y, table_shards = foldl list_shard [] y, base_dir = base_dir m,
    local_node = node, shards_dirty = False\<rparr>"
  have wf: "hm_wf (shards m)" using ok by (simp only: shards_ok_def)
  have get: "hm_get y i = hm_get (shards m) i" for i
    using hm_get_mem [OF wf] hm_get_mem [OF y(3)] y(2) by (metis option.exhaust)
  have ok2: "shards_ok m2"
  proof (rule rebuilt_ok [OF y(3)])
    fix i s assume "hm_get y i = Some s"
    then show "sh_id s = i" using shards_ok_listing(3) [OF ok] unfolding get get_shard_def by blast
  qed (simp_all add: m2_def)
  have same: "get_shard i m2 = get_shard i m" for i by (simp add: get_shard_def m2_def get)
  have "shard_count t m2 = shard_count t m" for t
    unfolding shards_ok_listing(4) [OF ok2] shards_ok_listing(4) [OF ok] same ..
  moreover have "mgr_load de fs' (base_dir m) node = Inr m2"
    by (simp add: mgr_load_def fs' hm_get_insert y(1) m2_def)
  ultimately show ?thesis using ok2 same by blast
qed

definition demo_shards :: shard_manager where
  "demo_shards = snd (fold shard_exec [CreateShard ''u'' 0, CreateShard ''u'' 0] (1, mgr_new ''d'' 1))"

lemma demo_shards_ok: "shards_ok demo_shards"
  unfolding demo_shards_def
  by (rule shard_run_ok) (simp_all add: shards_ok_def agree_def mgr_new_def drawn_def)

theorem shard_catalog_round_trip_witness:
  "\<exists>fs' m' m2. mgr_save (\<lambda>x. Some [7]) [] demo_shards = Inr (fs', m')
    \<and> mgr_load (\<lambda>d. Some (rev (shards demo_shards))) fs' (base_dir demo_shards) 1 = Inr m2
    \<and> (\<forall>i. get_shard i m2 = get_shard i demo_shards)"
proof -
  have dirty: "shards_dirty demo_shards"
    by (simp add: demo_shards_def create_shard_def next_shard_id_def meta_new_def mgr_new_def Let_def)
  then obtain fs' m' where s: "mgr_save (\<lambda>x. Some [7]) [] demo_shards = Inr (fs', m')"
    by (simp add: mgr_save_def)
  have "hm_wf (shards demo_shards)" using demo_shards_ok by (simp only: shards_ok_def)
  then have "\<exists>y. Some (rev (shards demo_shards)) = Some y \<and> set y = set (shards demo_shards) \<and> hm_wf y"
    by (simp add: rev_map [symmetric])
  with shard_catalog_round_trip [OF demo_shards_ok dirty s, of "\<lambda>d. Some (rev (shards demo_shards))" 1] s
  show ?thesis by blast
qed

lemma length_hm_insert: "k \<in> set (hm_keys m) \<Longrightarrow> length (hm_insert k v m) = length m"
  by (induction m) auto

text \<open>
  The identifier counter restarts with the process: whatever catalog was loaded, the first shard
  created afterwards gets identifier 2, replaces the shard that had it and adds no shard.
\<close>

theorem restart_overwrites_shard:
  assumes "mgr_load de fs dir node = Inr m" and "get_shard 2 m = Some s"
    and "create_shard t now (1, m) = (meta, c, m')"
  shows "sh_id meta = 2 \<and> get_shard 2 m' = Some meta \<and> sh_rows meta = 0 \<and> total_shards m' = total_shards m"
proof -
  have f: "sh_id meta = 2" "shards m' = hm_insert 2 meta (shards m)" "sh_rows meta = 0"
    using assms(3) by (auto simp: create_shard_def next_shard_id_def meta_new_def Let_def)
  have "2 \<in> set (hm_keys (shards m))"
    using assms(2) unfolding get_shard_def by (rule hm_get_in_keys)
  then have "length (hm_insert 2 meta (shards m)) = length (shards m)" by (rule length_hm_insert)
  then show ?thesis unfolding get_shard_def total_shards_def f(2) hm_get_insert using f(1,3) by simp
qed

theorem restart_overwrites_shard_witness:
  "\<exists>m meta c m'. mgr_load (\<lambda>d. Some (shards demo_shards)) [(''d/shard_catalog.bin'', [])] ''d'' 1 = Inr m
    \<and> create_shard ''v'' 0 (1, m) = (meta, c, m') \<and> get_shard 2 m' = Some meta
    \<and> total_shards m' = total_shards m"
proof -
  obtain m where m: "mgr_load (\<lambda>d. Some (shards demo_shards)) [(''d/shard_catalog.bin'', [])] ''d'' 1 = Inr m"
    "shards m = shards demo_shards"
    by (simp add: mgr_load_def catalog_path_def dir_join_def)
  have "hm_get (shards demo_shards) 2 \<noteq> None"
    by (simp add: demo_shards_def create_shard_def next_shard_id_def meta_new_def mgr_new_def Let_def)
  then obtain s where "get_shard 2 m = Some s" unfolding get_shard_def m(2) by blast
  then show ?thesis
    using restart_overwrites_shard [OF m(1)] m(1) by (metis prod_cases3)
qed

end
