(* ===== verification/Shard_Router.thy ===== *)
theory Shard_Router
  imports Shard_Manager
begin

text \<open>
  Routing of reads and writes to shards (\<^verbatim>\<open>scaling/router.rs\<close>). Theorems: with no shard in read-only
  state a row is written to the shard its point query asks, and every range query that covers its
  partition key and every full scan visit that shard; a read-only shard breaks this.
\<close>

section \<open>Decisions\<close>

datatype routing_decision =
  SingleShard u32 | MultiShard "u32 list" | AllShards "u32 list" | Local

fun shard_ids :: "routing_decision \<Rightarrow> u32 list" where
  "shard_ids (SingleShard i) = [i]"
| "shard_ids (MultiShard is) = is"
| "shard_ids (AllShards is) = is"
| "shard_ids Local = []"

fun is_single_shard :: "routing_decision \<Rightarrow> bool" where
  "is_single_shard (SingleShard i) = True"
| "is_single_shard Local = True"
| "is_single_shard _ = False"

fun is_scatter_gather :: "routing_decision \<Rightarrow> bool" where
  "is_scatter_gather (MultiShard is) = True"
| "is_scatter_gather (AllShards is) = True"
| "is_scatter_gather _ = False"

section \<open>The router\<close>

record shard_router =
  router_manager :: shard_manager
  strategies :: "(string, strategy) hmap"
  partition_columns :: "(string, string) hmap"

definition router_new :: "shard_manager \<Rightarrow> shard_router" where
  "router_new m = \<lparr>router_manager = m, strategies = [], partition_columns = []\<rparr>"

definition register_strategy :: "string \<Rightarrow> string \<Rightarrow> strategy \<Rightarrow> shard_router \<Rightarrow> shard_router" where
  "register_strategy t col s r =
     r\<lparr>strategies := hm_insert t s (strategies r),
       partition_columns := hm_insert t col (partition_columns r)\<rparr>"

definition partition_column :: "string \<Rightarrow> shard_router \<Rightarrow> string option" where
  "partition_column t r = hm_get (partition_columns r) t"

text \<open>The shard at the strategy's index, or the first one when there are not that many.\<close>

definition shard_at :: "shard_meta list \<Rightarrow> nat \<Rightarrow> routing_decision" where
  "shard_at ss i = SingleShard (sh_id (if i < length ss then ss ! i else ss ! 0))"

definition route_write ::
  "(partition_key \<Rightarrow> u64) \<Rightarrow> string \<Rightarrow> partition_key \<Rightarrow> shard_router \<Rightarrow> routing_decision" where
  "route_write hv t k r =
     (let ss = get_writable_shards t (router_manager r)
      in if ss = [] then Local
         else case hm_get (strategies r) t of
           Some s \<Rightarrow> shard_at ss (unat (route hv s k (of_nat (length ss))))
         | None \<Rightarrow> SingleShard (sh_id (ss ! 0)))"

definition readable_shards :: "string \<Rightarrow> shard_router \<Rightarrow> shard_meta list" where
  "readable_shards t r = filter is_readable (get_table_shards t (router_manager r))"

definition route_point_query ::
  "(partition_key \<Rightarrow> u64) \<Rightarrow> string \<Rightarrow> partition_key \<Rightarrow> shard_router \<Rightarrow> routing_decision" where
  "route_point_query hv t k r =
     (let ss = readable_shards t r
      in if ss = [] then Local
         else case hm_get (strategies r) t of
           Some s \<Rightarrow> shard_at ss (unat (route hv s k (of_nat (length ss))))
         | None \<Rightarrow> SingleShard (sh_id (ss ! 0)))"

definition target_ids :: "shard_meta list \<Rightarrow> u32 list \<Rightarrow> u32 list" where
  "target_ids ss ts =
     List.map_filter (\<lambda>i. if unat i < length ss then Some (map sh_id ss ! unat i) else None) ts"

definition route_range_query ::
  "string \<Rightarrow> partition_key \<Rightarrow> partition_key \<Rightarrow> shard_router \<Rightarrow> routing_decision" where
  "route_range_query t lo hi r =
     (let ss = readable_shards t r
      in if ss = [] then Local
         else case hm_get (strategies r) t of
           Some s \<Rightarrow>
             (case route_range s lo hi (of_nat (length ss)) of
                Some ts \<Rightarrow>
                  let ids = target_ids ss ts
                  in if length ids = 1 then SingleShard (ids ! 0) else MultiShard ids
              | None \<Rightarrow> AllShards (map sh_id ss))
         | None \<Rightarrow> AllShards (map sh_id ss))"

definition route_full_scan :: "string \<Rightarrow> shard_router \<Rightarrow> routing_decision" where
  "route_full_scan t r =
     (let ss = readable_shards t r in if ss = [] then Local else AllShards (map sh_id ss))"

definition is_sharded :: "string \<Rightarrow> shard_router \<Rightarrow> bool" where
  "is_sharded t r = (1 < shard_count t (router_manager r))"

section \<open>Properties\<close>

lemma shard_at_known: "ss \<noteq> [] \<Longrightarrow> \<exists>s \<in> set ss. shard_at ss i = SingleShard (sh_id s)"
  by (auto simp: shard_at_def)

lemma range_query_ids:
  assumes "readable_shards t r \<noteq> []" and "hm_get (strategies r) t = Some s"
    and "route_range s lo hi (of_nat (length (readable_shards t r))) = Some ts"
  shows "set (shard_ids (route_range_query t lo hi r)) = set (target_ids (readable_shards t r) ts)"
proof -
  have "set [xs ! 0] = set xs" if "length xs = 1" for xs :: "u32 list"
    using that by (cases xs) auto
  then show ?thesis using assms by (auto simp: route_range_query_def Let_def)
qed

text \<open>
  A strategy fits a table when its boundaries leave every shard number below the number of readable
  shards.
\<close>

definition strategy_fits :: "string \<Rightarrow> shard_router \<Rightarrow> bool" where
  "strategy_fits t r \<longleftrightarrow>
     (case hm_get (strategies r) t of
        Some (RangeStrategy bs) \<Rightarrow> length bs < length (readable_shards t r) \<and> length (readable_shards t r) \<le> 2 ^ 32
      | _ \<Rightarrow> True)"

lemma write_known:
  assumes "readable_shards t r \<noteq> []" and "get_writable_shards t (router_manager r) = readable_shards t r"
  shows "\<exists>s \<in> set (readable_shards t r). route_write hv t k r = SingleShard (sh_id s)"
proof (cases "hm_get (strategies r) t")
  case None
  then show ?thesis using assms by (auto simp: route_write_def intro!: bexI [of _ "readable_shards t r ! 0"])
next
  case (Some st)
  then show ?thesis using assms shard_at_known [OF assms(1)] by (simp add: route_write_def Let_def)
qed

lemma write_in_range:
  assumes some: "readable_shards t r \<noteq> []" and fits: "strategy_fits t r"
    and same: "get_writable_shards t (router_manager r) = readable_shards t r"
    and k: "key_le lo k" "key_le k hi"
    and s: "s \<in> set (readable_shards t r)" "route_write hv t k r = SingleShard (sh_id s)"
  shows "sh_id s \<in> set (shard_ids (route_range_query t lo hi r))"
proof (cases "\<exists>bs. hm_get (strategies r) t = Some (RangeStrategy bs)")
  case False
  then have "hm_get (strategies r) t = None \<or> (\<exists>p. hm_get (strategies r) t = Some (HashStrategy p))"
    by (metis option.exhaust strategy.exhaust)
  then have "shard_ids (route_range_query t lo hi r) = map sh_id (readable_shards t r)"
    using some by (auto simp: route_range_query_def Let_def)
  then show ?thesis using s(1) by simp
next
  case True
  then obtain bs where bs: "hm_get (strategies r) t = Some (RangeStrategy bs)" by blast
  let ?ss = "readable_shards t r"
  let ?n = "of_nat (length ?ss) :: u32"
  have len: "length bs < length ?ss" "boundaries_ok bs"
    using fits bs by (auto simp: strategy_fits_def boundaries_ok_def)
  have lt: "unat (range_route bs k ?n) < length (map sh_id ?ss)"
    using unat_range_route(2) [OF len(2), of k ?n] len(1) by simp
  obtain ts where ts: "route_interval bs lo hi ?n = Some ts" by (simp add: route_interval_def)
  have "sh_id s = map sh_id ?ss ! unat (range_route bs k ?n)"
    using s(2) bs some lt by (simp add: route_write_def same shard_at_def Let_def)
  also have "\<dots> \<in> set (target_ids ?ss ts)"
    using ranges.resolved [OF len(2) k ts lt] by (simp add: target_ids_def)
  also have "\<dots> = set (shard_ids (route_range_query t lo hi r))"
    using range_query_ids [OF some bs] ts by simp
  finally show ?thesis .
qed

text \<open>
  C11. When a table has a readable shard, every readable shard of it is writable, and a range
  strategy has fewer boundaries than there are readable shards, a write and a point query of a
  key go to the same shard, a writable shard of the table, which is among the shards of every
  range query around the key and of a full scan. With more boundaries a write to a position that
  has no readable shard falls back to the first shard, where a range query around the key does
  not look (\<open>offline_shard_misroutes\<close>).
\<close>

theorem routing_consistent:
  assumes rw: "\<forall>s \<in> set (get_table_shards t (router_manager r)). is_readable s \<longrightarrow> is_writable s"
    and some: "readable_shards t r \<noteq> []" and fits: "strategy_fits t r"
    and k: "key_le lo k" "key_le k hi"
  shows "\<exists>s \<in> set (get_writable_shards t (router_manager r)).
    route_write hv t k r = SingleShard (sh_id s) \<and> route_point_query hv t k r = SingleShard (sh_id s)
    \<and> sh_id s \<in> set (shard_ids (route_range_query t lo hi r))
    \<and> sh_id s \<in> set (shard_ids (route_full_scan t r))"
proof -
  have same: "get_writable_shards t (router_manager r) = readable_shards t r"
    using rw by (auto simp: get_writable_shards_def readable_shards_def is_readable_def is_writable_def
        intro: filter_cong)
  have full: "set (shard_ids (route_full_scan t r)) = sh_id ` set (readable_shards t r)"
    using some by (simp add: route_full_scan_def)
  have wp: "route_point_query hv t k r = route_write hv t k r"
    by (simp only: route_point_query_def route_write_def same)
  obtain s where s: "s \<in> set (readable_shards t r)" "route_write hv t k r = SingleShard (sh_id s)"
    using write_known [OF some same] by blast
  from write_in_range [OF some fits same k s] s wp full
  show ?thesis unfolding same by (intro bexI [of _ s]) auto
qed

definition demo_router :: shard_router where
  "demo_router = register_strategy ''u'' ''id'' (RangeStrategy [PInt 10]) (router_new demo_shards)"

lemma demo_table: "map sh_id (get_table_shards ''u'' demo_shards) = [2, 4]
    \<and> map sh_status (get_table_shards ''u'' demo_shards) = [ShActive, ShActive]"
  by (simp add: demo_shards_def create_shard_def next_shard_id_def meta_new_def mgr_new_def
      get_table_shards_def hm_upsert_def List.map_filter_def Let_def)

theorem routing_consistent_witness:
  "\<exists>i. route_write (\<lambda>k. 0) ''u'' (PInt 12) demo_router = SingleShard i
    \<and> i \<in> set (shard_ids (route_range_query ''u'' (PInt 11) (PInt 20) demo_router))"
proof -
  let ?ss = "get_table_shards ''u'' demo_shards"
  have m: "router_manager demo_router = demo_shards" by (simp add: demo_router_def register_strategy_def router_new_def)
  have active: "\<forall>s \<in> set ?ss. sh_status s = ShActive"
    using demo_table by (metis in_set_conv_nth length_map nth_map set_ConsD set_map image_eqI empty_iff list.set(1))
  then have ss: "readable_shards ''u'' demo_router = ?ss" by (simp add: readable_shards_def m is_readable_def)
  have len: "length ?ss = 2" using demo_table by (metis length_map length_Cons list.size(3) numeral_2_eq_2)
  have "hm_get (strategies demo_router) ''u'' = Some (RangeStrategy [PInt 10])"
    by (simp add: demo_router_def register_strategy_def router_new_def)
  then have "strategy_fits ''u'' demo_router" by (simp add: strategy_fits_def ss len)
  moreover have "readable_shards ''u'' demo_router \<noteq> []" using len ss by auto
  moreover have "\<forall>s \<in> set (get_table_shards ''u'' (router_manager demo_router)). is_readable s \<longrightarrow> is_writable s"
    using active by (simp add: m is_writable_def)
  ultimately show ?thesis
    using routing_consistent [of "''u''" demo_router "PInt 11" "PInt 12" "PInt 20" "\<lambda>k. 0"] by auto
qed

lemmas demo_routing = demo_router_def register_strategy_def router_new_def demo_shards_def create_shard_def
  next_shard_id_def meta_new_def mgr_new_def set_shard_status_def route_write_def
  route_point_query_def route_range_query_def readable_shards_def get_writable_shards_def
  get_table_shards_def hm_upsert_def List.map_filter_def is_readable_def is_writable_def
  shard_at_def range_route_def route_interval_def target_ids_def Let_def

text \<open>
  Once a shard is read-only, writes are routed by the number of writable shards and point
  queries by the number of readable ones: a row written then is looked up in another shard.
\<close>

theorem read_only_shard_misroutes:
  "let r = demo_router\<lparr>router_manager := snd (set_shard_status 2 ShReadOnly 0 demo_shards)\<rparr>
   in route_write (\<lambda>k. 0) ''u'' (PInt 5) r = SingleShard 4
      \<and> route_point_query (\<lambda>k. 0) ''u'' (PInt 5) r = SingleShard 2
      \<and> shard_ids (route_range_query ''u'' (PInt 5) (PInt 5) r) = [2]"
  by (simp add: demo_routing)

text \<open>
  With a shard offline there are as many boundaries as readable shards: a row past the boundary is
  written to the first shard and a range query around it asks no shard at all.
\<close>

theorem offline_shard_misroutes:
  "let r = demo_router\<lparr>router_manager := snd (set_shard_status 4 ShOffline 0 demo_shards)\<rparr>
   in route_write (\<lambda>k. 0) ''u'' (PInt 12) r = SingleShard 2
      \<and> shard_ids (route_range_query ''u'' (PInt 11) (PInt 20) r) = []"
  by (simp add: demo_routing)

end
