(* ===== verification/Node_Manager.thy ===== *)
theory Node_Manager
  imports Prelude
begin

text \<open>
  Cluster membership (\<^verbatim>\<open>scaling/node.rs\<close>): registration, heartbeats, failure detection and the
  selection of nodes for shards and replicas. Node identifiers come from a counter that is threaded
  through; the clock is a parameter. Theorems: the local node is never removed or suspected; replica
  selection takes the least loaded available nodes other than the primary.
\<close>

section \<open>Nodes\<close>

datatype node_status = NActive | NJoining | NLeaving | NSuspect | NDown

record node_info =
  node_id :: u32
  node_name :: string
  node_address :: string
  node_state :: node_status
  node_data_dir :: string
  node_shard_count :: u32
  node_data_size :: u64
  last_heartbeat :: i64
  joined_at :: i64
  node_tags :: "string list"

definition node_local :: "string \<Rightarrow> string \<Rightarrow> i64 \<Rightarrow> u32 \<Rightarrow> node_info \<times> u32" where
  "node_local name dir now c =
     (\<lparr>node_id = c, node_name = name, node_address = [], node_state = NActive, node_data_dir = dir,
       node_shard_count = 0, node_data_size = 0, last_heartbeat = now, joined_at = now,
       node_tags = [''local'']\<rparr>, c + 1)"

definition node_remote :: "string \<Rightarrow> string \<Rightarrow> i64 \<Rightarrow> u32 \<Rightarrow> node_info \<times> u32" where
  "node_remote name addr now c =
     (\<lparr>node_id = c, node_name = name, node_address = addr, node_state = NJoining, node_data_dir = [],
       node_shard_count = 0, node_data_size = 0, last_heartbeat = now, joined_at = now,
       node_tags = []\<rparr>, c + 1)"

definition is_available :: "node_info \<Rightarrow> bool" where
  "is_available n = (node_state n = NActive)"

section \<open>The manager\<close>

record node_manager =
  nodes :: "(u32, node_info) hmap"
  nm_local :: u32
  heartbeat_timeout :: nat
  cluster_mode :: bool

definition new_local :: "string \<Rightarrow> string \<Rightarrow> i64 \<Rightarrow> u32 \<Rightarrow> node_manager \<times> u32" where
  "new_local name dir now c =
     (let (n, c1) = node_local name dir now c
      in (\<lparr>nodes = hm_insert (node_id n) n [], nm_local = node_id n, heartbeat_timeout = 30,
           cluster_mode = False\<rparr>, c1))"

definition new_cluster :: "string \<Rightarrow> string \<Rightarrow> i64 \<Rightarrow> u32 \<Rightarrow> node_manager \<times> u32" where
  "new_cluster name dir now c =
     (let (m, c1) = new_local name dir now c in (m\<lparr>cluster_mode := True\<rparr>, c1))"

definition register_node :: "node_info \<Rightarrow> node_manager \<Rightarrow> u32 \<times> node_manager" where
  "register_node n m = (node_id n, m\<lparr>nodes := hm_insert (node_id n) n (nodes m)\<rparr>)"

definition remove_node :: "u32 \<Rightarrow> node_manager \<Rightarrow> node_info option \<times> node_manager" where
  "remove_node i m =
     (if i = nm_local m then (None, m)
      else (hm_get (nodes m) i, m\<lparr>nodes := hm_remove i (nodes m)\<rparr>))"

definition get_node :: "u32 \<Rightarrow> node_manager \<Rightarrow> node_info option" where
  "get_node i m = hm_get (nodes m) i"

definition active_nodes :: "node_manager \<Rightarrow> node_info list" where
  "active_nodes m = filter is_available (map snd (nodes m))"

definition all_nodes :: "node_manager \<Rightarrow> node_info list" where
  "all_nodes m = map snd (nodes m)"

definition node_active_count :: "node_manager \<Rightarrow> nat" where
  "node_active_count m = length (filter is_available (map snd (nodes m)))"

definition total_count :: "node_manager \<Rightarrow> nat" where
  "total_count m = length (nodes m)"

text \<open>\<open>HashMap::get_mut\<close> followed by an update in place.\<close>

definition on_node :: "u32 \<Rightarrow> (node_info \<Rightarrow> node_info) \<Rightarrow> node_manager \<Rightarrow> node_manager" where
  "on_node i f m =
     (case hm_get (nodes m) i of None \<Rightarrow> m | Some n \<Rightarrow> m\<lparr>nodes := hm_insert i (f n) (nodes m)\<rparr>)"

definition record_heartbeat :: "u32 \<Rightarrow> i64 \<Rightarrow> node_manager \<Rightarrow> node_manager" where
  "record_heartbeat i now m =
     on_node i (\<lambda>n. n\<lparr>last_heartbeat := now,
       node_state := (if node_state n = NSuspect then NActive else node_state n)\<rparr>) m"

definition set_node_status :: "u32 \<Rightarrow> node_status \<Rightarrow> node_manager \<Rightarrow> node_manager" where
  "set_node_status i st m = on_node i (\<lambda>n. n\<lparr>node_state := st\<rparr>) m"

text \<open>The test of one node, and the loop over all of them.\<close>

definition overdue :: "i64 \<Rightarrow> node_manager \<Rightarrow> u32 \<times> node_info \<Rightarrow> bool" where
  "overdue now m e \<longleftrightarrow> fst e \<noteq> nm_local m \<and> node_state (snd e) = NActive
     \<and> int (heartbeat_timeout m) < sint (now - last_heartbeat (snd e))"

definition check_health :: "i64 \<Rightarrow> node_manager \<Rightarrow> u32 list \<times> node_manager" where
  "check_health now m =
     (map fst (filter (overdue now m) (nodes m)),
      m\<lparr>nodes := map (\<lambda>e. if overdue now m e then (fst e, (snd e)\<lparr>node_state := NSuspect\<rparr>) else e) (nodes m)\<rparr>)"

definition update_stats :: "u32 \<Rightarrow> u32 \<Rightarrow> u64 \<Rightarrow> node_manager \<Rightarrow> node_manager" where
  "update_stats i cnt sz m = on_node i (\<lambda>n. n\<lparr>node_shard_count := cnt, node_data_size := sz\<rparr>) m"

text \<open>\<open>Iterator::min_by_key\<close>: the first of the least elements.\<close>

fun min_by_key :: "('a \<Rightarrow> 'k::linorder) \<Rightarrow> 'a list \<Rightarrow> 'a option" where
  "min_by_key f [] = None"
| "min_by_key f (x # xs) =
     (case min_by_key f xs of None \<Rightarrow> Some x | Some y \<Rightarrow> if f x \<le> f y then Some x else Some y)"

definition select_node_for_shard :: "node_manager \<Rightarrow> u32 option" where
  "select_node_for_shard m =
     map_option node_id (min_by_key node_shard_count (filter is_available (map snd (nodes m))))"

definition candidates :: "u32 \<Rightarrow> node_manager \<Rightarrow> node_info list" where
  "candidates primary m = filter (\<lambda>n. is_available n \<and> node_id n \<noteq> primary) (map snd (nodes m))"

definition select_replica_nodes :: "u32 \<Rightarrow> nat \<Rightarrow> node_manager \<Rightarrow> u32 list" where
  "select_replica_nodes primary count m =
     map node_id (take count (sort_key node_shard_count (candidates primary m)))"

section \<open>Membership\<close>

text \<open>
  Every node is filed under its own identifier, and the local node is known and not suspected by
  the failure detector.
\<close>

definition nodes_ok :: "node_manager \<Rightarrow> bool" where
  "nodes_ok m \<longleftrightarrow> hm_wf (nodes m) \<and> (\<forall>i n. hm_get (nodes m) i = Some n \<longrightarrow> node_id n = i)
     \<and> nm_local m \<in> set (hm_keys (nodes m))"

lemma min_by_key_least:
  "min_by_key f xs = Some y \<Longrightarrow> y \<in> set xs \<and> (\<forall>x \<in> set xs. f y \<le> f x)"
proof (induction xs arbitrary: y)
  case (Cons x xs)
  show ?case
  proof (cases "min_by_key f xs")
    case None
    then have "xs = []" by (cases xs) (auto split: option.splits if_splits)
    then show ?thesis using Cons.prems by simp
  next
    case (Some z)
    then show ?thesis using Cons.IH [OF Some] Cons.prems by (auto split: if_splits)
  qed
qed simp

lemma min_by_key_None: "min_by_key f xs = None \<longleftrightarrow> xs = []"
  by (cases xs) (auto split: option.splits)

datatype node_op =
    Register node_info | RemoveNode u32 | Heartbeat u32 i64 | SetNodeStatus u32 node_status
  | CheckHealth i64 | UpdateStats u32 u32 u64

fun node_exec :: "node_op \<Rightarrow> node_manager \<Rightarrow> node_manager" where
  "node_exec (Register n) m = snd (register_node n m)"
| "node_exec (RemoveNode i) m = snd (remove_node i m)"
| "node_exec (Heartbeat i now) m = record_heartbeat i now m"
| "node_exec (SetNodeStatus i st) m = set_node_status i st m"
| "node_exec (CheckHealth now) m = snd (check_health now m)"
| "node_exec (UpdateStats i c z) m = update_stats i c z m"

lemma nodes_ok_insert:
  assumes "nodes_ok m" and "node_id n = i"
  shows "nodes_ok (m\<lparr>nodes := hm_insert i n (nodes m)\<rparr>)"
  using assms unfolding nodes_ok_def
  by (simp add: hm_get_insert hm_keys_insert [simplified] hm_wf_insert del: map_of_eq_Some_iff)

lemma nodes_ok_on_node:
  assumes "nodes_ok m" and "\<And>n. node_id (f n) = node_id n"
  shows "nodes_ok (on_node i f m)"
proof (cases "hm_get (nodes m) i")
  case (Some n)
  then have "node_id n = i" using assms(1) unfolding nodes_ok_def by blast
  then show ?thesis using Some nodes_ok_insert [OF assms(1), of "f n" i] assms(2) by (simp add: on_node_def)
qed (use assms in \<open>simp add: on_node_def\<close>)

lemma nodes_ok_remove: "nodes_ok m \<Longrightarrow> nodes_ok (snd (remove_node i m))"
  unfolding nodes_ok_def
  by (simp add: remove_node_def hm_get_remove hm_keys_remove [simplified] hm_wf_remove del: map_of_eq_Some_iff)

lemma nodes_ok_health:
  assumes m: "nodes_ok m"
  shows "nodes_ok (snd (check_health now m))"
proof -
  let ?g = "\<lambda>e. if overdue now m e then (fst e, (snd e)\<lparr>node_state := NSuspect\<rparr>) else e"
  have wf: "hm_wf (nodes m)" using m by (simp only: nodes_ok_def)
  have keys: "hm_keys (map ?g (nodes m)) = hm_keys (nodes m)" by (simp add: comp_def if_distrib [of fst])
  have "node_id n = i" if i: "hm_get (map ?g (nodes m)) i = Some n" for i n
  proof -
    from map_of_SomeD [OF i] have "(i, n) \<in> ?g ` set (nodes m)" by simp
    then obtain e where e: "e \<in> set (nodes m)" "(i, n) = ?g e" by blast
    then have "fst e = i" "node_id n = node_id (snd e)"
      by (cases "overdue now m e"; auto)+
    moreover have "hm_get (nodes m) (fst e) = Some (snd e)"
      using e(1) hm_get_mem [OF wf, of "fst e" "snd e"] unfolding prod.collapse by blast
    ultimately show ?thesis using m unfolding nodes_ok_def by metis
  qed
  moreover have sel: "nodes (snd (check_health now m)) = map ?g (nodes m)"
    "nm_local (snd (check_health now m)) = nm_local m"
    by (simp_all add: check_health_def)
  moreover have "nm_local m \<in> set (hm_keys (nodes m))" using m unfolding nodes_ok_def by blast
  ultimately show ?thesis using wf unfolding nodes_ok_def sel keys by blast
qed

lemma node_exec_ok: "nodes_ok m \<Longrightarrow> nodes_ok (node_exec a m)"
proof (cases a)
  case (Register n)
  assume "nodes_ok m"
  then show ?thesis using nodes_ok_insert [of m n "node_id n"] by (simp add: Register register_node_def)
qed (simp_all add: nodes_ok_remove nodes_ok_health nodes_ok_on_node record_heartbeat_def
      set_node_status_def update_stats_def)

lemma node_exec_local: "nm_local (node_exec a m) = nm_local m"
  by (cases a) (simp_all add: register_node_def remove_node_def record_heartbeat_def set_node_status_def
      update_stats_def on_node_def check_health_def split: option.splits)

lemma node_run_ok:
  assumes "m = fold node_exec ops (fst (new_cluster name dir now c))"
  shows "nodes_ok m \<and> nm_local m = c"
proof -
  let ?m = "fst (new_cluster name dir now c)"
  have "nodes_ok ?m \<and> nm_local ?m = c"
    by (simp add: nodes_ok_def new_cluster_def new_local_def node_local_def)
  then have "nodes_ok (fold node_exec ops ?m) \<and> nm_local (fold node_exec ops ?m) = c"
    by (induction ops rule: rev_induct) (simp_all add: node_exec_ok node_exec_local)
  then show ?thesis unfolding assms .
qed

section \<open>Properties\<close>

text \<open>
  Whatever nodes join, leave, beat, fail and report, the local node stays a member under its own
  identifier and is never reported as suspect; and a health check reports exactly the other active
  nodes whose last heartbeat is older than the timeout, none of which is available afterwards.
\<close>

theorem local_node_never_suspected:
  assumes m: "m = fold node_exec ops (fst (new_cluster name dir now0 c))"
    and h: "check_health now m = (suspects, m')"
  shows "(\<exists>n. get_node c m = Some n \<and> node_id n = c) \<and> c \<notin> set suspects
    \<and> set suspects = {i. i \<noteq> c \<and> (\<exists>n. get_node i m = Some n \<and> is_available n
        \<and> int (heartbeat_timeout m) < sint (now - last_heartbeat n))}
    \<and> (\<forall>n \<in> set (active_nodes m'). node_id n \<notin> set suspects)"
proof -
  have ok: "nodes_ok m" and c: "nm_local m = c" using node_run_ok [OF m] by auto
  have wf: "hm_wf (nodes m)" and key: "c \<in> set (hm_keys (nodes m))" using ok c by (auto simp: nodes_ok_def)
  have ids: "hm_get (nodes m) i = Some n \<Longrightarrow> node_id n = i" for i n using ok unfolding nodes_ok_def by blast
  obtain n where n: "hm_get (nodes m) c = Some n" using key by (metis hm_get_None option.exhaust)
  have sus: "suspects = map fst (filter (overdue now m) (nodes m))"
    and m': "nodes m' = map (\<lambda>e. if overdue now m e then (fst e, (snd e)\<lparr>node_state := NSuspect\<rparr>) else e) (nodes m)"
    using h by (auto simp: check_health_def)
  have sus_iff: "i \<in> set suspects \<longleftrightarrow> (\<exists>n. hm_get (nodes m) i = Some n \<and> overdue now m (i, n))" for i
    unfolding sus using hm_get_mem [OF wf] by force
  then have set: "set suspects = {i. i \<noteq> c \<and> (\<exists>n. get_node i m = Some n \<and> is_available n
        \<and> int (heartbeat_timeout m) < sint (now - last_heartbeat n))}"
    by (auto simp: overdue_def c get_node_def is_available_def)
  have "node_id x \<notin> set suspects" if x: "x \<in> set (active_nodes m')" for x
  proof -
    obtain e where e: "e \<in> set (nodes m)" "\<not> overdue now m e" "x = snd e"
      using x by (auto simp: active_nodes_def m' is_available_def split: if_splits)
    then have "hm_get (nodes m) (fst e) = Some x" using hm_get_mem [OF wf, of "fst e" x] by simp
    then show ?thesis
      using e ids [of "fst e" x] sus_iff [of "fst e"] by (metis option.inject prod.collapse)
  qed
  then show ?thesis using set n ids [OF n] by (auto simp: get_node_def)
qed

theorem local_node_never_suspected_witness:
  "\<exists>suspects m'. check_health 100 (fold node_exec [Register ((fst (node_remote ''b'' ''x'' 0 2))\<lparr>node_state := NActive\<rparr>)]
      (fst (new_cluster ''a'' ''d'' 0 1))) = (suspects, m') \<and> 1 \<notin> set suspects \<and> 2 \<in> set suspects"
proof -
  let ?m = "fold node_exec [Register ((fst (node_remote ''b'' ''x'' 0 2))\<lparr>node_state := NActive\<rparr>)]
      (fst (new_cluster ''a'' ''d'' 0 1))"
  obtain suspects m' where h: "check_health 100 ?m = (suspects, m')" by (cases "check_health 100 ?m")
  have "2 \<in> set (fst (check_health 100 ?m))"
    by (simp add: check_health_def overdue_def register_node_def node_remote_def new_cluster_def
        new_local_def node_local_def)
  then show ?thesis using local_node_never_suspected [OF refl h] h by auto
qed

text \<open>The nodes of a consistent manager, and the candidates in the order of their load.\<close>

lemma nodes_ok_mem:
  assumes ok: "nodes_ok m"
  shows "n \<in> set (map snd (nodes m)) \<longleftrightarrow> hm_get (nodes m) (node_id n) = Some n"
    and "distinct (map node_id (map snd (nodes m)))"
proof -
  have wf: "hm_wf (nodes m)" and ids: "\<And>i n. hm_get (nodes m) i = Some n \<Longrightarrow> node_id n = i"
    using ok unfolding nodes_ok_def by blast+
  show "n \<in> set (map snd (nodes m)) \<longleftrightarrow> hm_get (nodes m) (node_id n) = Some n"
  proof
    assume "n \<in> set (map snd (nodes m))"
    then obtain i where "(i, n) \<in> set (nodes m)" by auto
    then have "hm_get (nodes m) i = Some n" using hm_get_mem [OF wf] by blast
    then show "hm_get (nodes m) (node_id n) = Some n" using ids by metis
  next
    assume "hm_get (nodes m) (node_id n) = Some n"
    then show "n \<in> set (map snd (nodes m))" by (metis in_set_zipE map_of_SomeD zip_map_fst_snd)
  qed
  have "map node_id (map snd (nodes m)) = hm_keys (nodes m)"
    using hm_get_mem [OF wf] ids by (auto simp: comp_def)
  then show "distinct (map node_id (map snd (nodes m)))" using wf by (simp only:)
qed

lemma sorted_candidates:
  assumes ok: "nodes_ok m" and s: "s = sort_key node_shard_count (candidates p m)"
  shows "n \<in> set s \<longleftrightarrow> hm_get (nodes m) (node_id n) = Some n \<and> is_available n \<and> node_id n \<noteq> p"
    and "distinct (map node_id s)" and "length s = length (candidates p m)"
    and "x \<in> set (take k s) \<Longrightarrow> y \<in> set (drop k s) \<Longrightarrow> node_shard_count x \<le> node_shard_count y"
proof -
  show "n \<in> set s \<longleftrightarrow> hm_get (nodes m) (node_id n) = Some n \<and> is_available n \<and> node_id n \<noteq> p"
    using nodes_ok_mem(1) [OF ok, of n] by (auto simp: s candidates_def)
  have "distinct (map node_id (candidates p m))"
    using nodes_ok_mem(2) [OF ok] unfolding candidates_def by (rule distinct_map_filter)
  then show "distinct (map node_id s)" by (simp add: s distinct_map)
  show "length s = length (candidates p m)" by (simp add: s)
  have "sorted (map node_shard_count (take k s @ drop k s))"
    unfolding s by (simp only: append_take_drop_id sorted_sort_key)
  then show "node_shard_count x \<le> node_shard_count y" if "x \<in> set (take k s)" "y \<in> set (drop k s)"
    using that unfolding map_append sorted_append by auto
qed

text \<open>
  C40. After any cluster operations, replica selection returns distinct available nodes other than the primary, as many as asked for
  or as there are, and no available node it passes over has fewer shards than one it takes.
\<close>

theorem replica_selection:
  assumes m: "m = fold node_exec ops (fst (new_cluster name dir now0 c))"
    and rs: "rs = select_replica_nodes p k m"
  shows "distinct rs \<and> p \<notin> set rs \<and> length rs = min k (length (candidates p m))
    \<and> (\<forall>i \<in> set rs. \<exists>n. get_node i m = Some n \<and> is_available n
        \<and> (\<forall>j n'. get_node j m = Some n' \<longrightarrow> is_available n' \<longrightarrow> j \<noteq> p \<longrightarrow> j \<notin> set rs \<longrightarrow>
             node_shard_count n \<le> node_shard_count n'))"
proof -
  define s where "s = sort_key node_shard_count (candidates p m)"
  have ok: "nodes_ok m" using node_run_ok [OF m] by blast
  note c = sorted_candidates [OF ok s_def]
  have rs: "rs = map node_id (take k s)" by (simp add: rs select_replica_nodes_def s_def)
  have ids: "node_id n = i" if "hm_get (nodes m) i = Some n" for i n using ok that unfolding nodes_ok_def by blast
  have "\<exists>n. get_node i m = Some n \<and> is_available n
      \<and> (\<forall>j n'. get_node j m = Some n' \<longrightarrow> is_available n' \<longrightarrow> j \<noteq> p \<longrightarrow> j \<notin> set rs \<longrightarrow>
           node_shard_count n \<le> node_shard_count n')" if i: "i \<in> set rs" for i
  proof -
    obtain n where n: "n \<in> set (take k s)" "node_id n = i" using i unfolding rs by auto
    have "node_shard_count n \<le> node_shard_count n'"
      if j: "hm_get (nodes m) j = Some n'" "is_available n'" "j \<noteq> p" "j \<notin> set rs" for j n'
    proof -
      have "n' \<in> set s" using c(1) [of n'] j ids [OF j(1)] by simp
      moreover have "n' \<notin> set (take k s)" using j(4) ids [OF j(1)] unfolding rs by auto
      ultimately have "n' \<in> set (drop k s)" by (metis Un_iff append_take_drop_id set_append)
      then show ?thesis by (rule c(4) [OF n(1)])
    qed
    moreover have "hm_get (nodes m) i = Some n" "is_available n" using n c(1) [of n] set_take_subset by fast+
    ultimately show ?thesis by (auto simp: get_node_def)
  qed
  moreover have "p \<notin> set rs" unfolding rs using c(1) set_take_subset by fastforce
  moreover have "distinct rs" using c(2) unfolding rs by (simp only: take_map [symmetric] distinct_take)
  moreover have "length rs = min k (length (candidates p m))" by (simp add: rs c(3) min.commute)
  ultimately show ?thesis by blast
qed

theorem replica_selection_witness:
  "distinct (select_replica_nodes 9 3 (fst (new_cluster ''a'' ''d'' 0 1)))
   \<and> 9 \<notin> set (select_replica_nodes 9 3 (fst (new_cluster ''a'' ''d'' 0 1)))"
  using replica_selection [of "fst (new_cluster ''a'' ''d'' 0 1)" "[]" "''a''" "''d''" 0 1 _ 9 3] by simp

end
