(* ===== verification/Table_Epoch.thy ===== *)
theory Table_Epoch
  imports Prelude
begin

text \<open>
  Table generations and row-id reservation (\<^verbatim>\<open>storage/epoch.rs\<close>). A table's sidecar holds two
  counters shared by all processes, the epoch and the row-id mark; a table without one has local
  counters. Write scopes of a thread collect nested mutations into one published epoch. Theorems:
  concurrent reservations through the compare-and-exchange loop are disjoint and the loop is
  lock-free; a scope publishes one epoch when something in it changed, and none otherwise; without a
  sidecar two threads can reserve the same ids.
\<close>

section \<open>Epochs of a table\<close>

text \<open>
  The sidecars of all tables, by path: the epoch and the row-id mark. Whether a sidecar can be
  opened and mapped is a property of the path.
\<close>

record table_epoch =
  te_local :: u64
  id_local :: u64
  te_shared :: bool

record epoch_state =
  table_epochs :: "(string, table_epoch) hmap"
  sidecars :: "(string, u64 \<times> u64) hmap"
  global_epoch :: u64
  write_scopes :: "(string, nat \<times> bool) hmap"

definition sidecar :: "string \<Rightarrow> epoch_state \<Rightarrow> u64 \<times> u64" where
  "sidecar p s = (case hm_get (sidecars s) p of None \<Rightarrow> (0, 0) | Some x \<Rightarrow> x)"

definition te_open :: "(string \<Rightarrow> bool) \<Rightarrow> string \<Rightarrow> epoch_state \<Rightarrow> table_epoch" where
  "te_open can_map p s =
     \<lparr>te_local = (if can_map p then fst (sidecar p s) else 0), id_local = 0, te_shared = can_map p\<rparr>"

text \<open>\<open>TABLE_EPOCHS.entry(p).or_insert_with(open)\<close>.\<close>

definition te_entry :: "(string \<Rightarrow> bool) \<Rightarrow> string \<Rightarrow> epoch_state \<Rightarrow> table_epoch" where
  "te_entry can_map p s =
     (case hm_get (table_epochs s) p of None \<Rightarrow> te_open can_map p s | Some e \<Rightarrow> e)"

definition te_current :: "string \<Rightarrow> table_epoch \<Rightarrow> epoch_state \<Rightarrow> u64" where
  "te_current p e s = (if te_shared e then fst (sidecar p s) else te_local e)"

definition epoch_current :: "(string \<Rightarrow> bool) \<Rightarrow> string \<Rightarrow> epoch_state \<Rightarrow> u64 \<times> epoch_state" where
  "epoch_current can_map p s =
     (let e = te_entry can_map p s
      in (te_current p e s, s\<lparr>table_epochs := hm_insert p e (table_epochs s)\<rparr>))"

definition te_bump :: "string \<Rightarrow> table_epoch \<Rightarrow> epoch_state \<Rightarrow> u64 \<times> table_epoch \<times> epoch_state" where
  "te_bump p e s =
     (let epoch = te_current p e s + 1;
          s1 = (if te_shared e then s\<lparr>sidecars := hm_insert p (epoch, snd (sidecar p s)) (sidecars s)\<rparr> else s)
      in (epoch, e\<lparr>te_local := epoch\<rparr>, s1))"

definition bump_now :: "(string \<Rightarrow> bool) \<Rightarrow> string \<Rightarrow> epoch_state \<Rightarrow> u64 \<times> epoch_state" where
  "bump_now can_map p s =
     (let (epoch, e, s1) = te_bump p (te_entry can_map p s) s
      in (epoch, s1\<lparr>table_epochs := hm_insert p e (table_epochs s1), global_epoch := global_epoch s1 + 1\<rparr>))"

definition epoch_bump :: "(string \<Rightarrow> bool) \<Rightarrow> string \<Rightarrow> epoch_state \<Rightarrow> u64 \<times> epoch_state" where
  "epoch_bump can_map p s =
     (case hm_get (write_scopes s) p of
        Some (d, c) \<Rightarrow>
          (let (x, s1) = epoch_current can_map p (s\<lparr>write_scopes := hm_insert p (d, True) (write_scopes s)\<rparr>)
           in (sat_add x 1, s1))
      | None \<Rightarrow> bump_now can_map p s)"

definition epoch_remove :: "string \<Rightarrow> epoch_state \<Rightarrow> epoch_state" where
  "epoch_remove p s = s\<lparr>table_epochs := hm_remove p (table_epochs s)\<rparr>"

text \<open>\<open>Path::starts_with\<close> compares whole components.\<close>

definition path_under :: "string \<Rightarrow> string \<Rightarrow> bool" where
  "path_under dir p = (p = dir \<or> take (length dir + 1) p = dir @ ''/'')"

definition epoch_remove_dir :: "string \<Rightarrow> epoch_state \<Rightarrow> epoch_state" where
  "epoch_remove_dir dir s = s\<lparr>table_epochs := hm_retain (\<lambda>p e. \<not> path_under dir p) (table_epochs s)\<rparr>"

section \<open>Write scopes\<close>

definition logical_write :: "string \<Rightarrow> epoch_state \<Rightarrow> epoch_state" where
  "logical_write p s =
     s\<lparr>write_scopes := hm_upsert p (0, False) (\<lambda>st. (fst st + 1, snd st)) (write_scopes s)\<rparr>"

definition lw_commit :: "string \<Rightarrow> epoch_state \<Rightarrow> epoch_state" where
  "lw_commit p s =
     (case hm_get (write_scopes s) p of
        None \<Rightarrow> s | Some (d, c) \<Rightarrow> s\<lparr>write_scopes := hm_insert p (d, True) (write_scopes s)\<rparr>)"

definition lw_drop :: "(string \<Rightarrow> bool) \<Rightarrow> string \<Rightarrow> epoch_state \<Rightarrow> epoch_state" where
  "lw_drop can_map p s =
     (case hm_get (write_scopes s) p of
        None \<Rightarrow> s
      | Some (d, c) \<Rightarrow>
          if d - 1 = 0
          then let s1 = s\<lparr>write_scopes := hm_remove p (write_scopes s)\<rparr>
               in if c then snd (bump_now can_map p s1) else s1
          else s\<lparr>write_scopes := hm_insert p (d - 1, c) (write_scopes s)\<rparr>)"

datatype scope_op = OpenScope | CommitScope | BumpTable | CloseScope

fun scope_exec :: "(string \<Rightarrow> bool) \<Rightarrow> string \<Rightarrow> scope_op \<Rightarrow> epoch_state \<Rightarrow> epoch_state" where
  "scope_exec cm p OpenScope s = logical_write p s"
| "scope_exec cm p CommitScope s = lw_commit p s"
| "scope_exec cm p BumpTable s = snd (epoch_bump cm p s)"
| "scope_exec cm p CloseScope s = lw_drop cm p s"

text \<open>The nesting depth after a sequence, when it never falls to zero on the way.\<close>

fun nests :: "nat \<Rightarrow> scope_op list \<Rightarrow> nat option" where
  "nests d [] = Some d"
| "nests d (OpenScope # ops) = nests (d + 1) ops"
| "nests d (CloseScope # ops) = (if d \<le> 1 then None else nests (d - 1) ops)"
| "nests d (_ # ops) = nests d ops"

text \<open>The published epoch of a table.\<close>

definition published :: "(string \<Rightarrow> bool) \<Rightarrow> string \<Rightarrow> epoch_state \<Rightarrow> u64" where
  "published cm p s = fst (epoch_current cm p s)"

lemma sidecar_cong: "sidecars s' = sidecars s \<Longrightarrow> sidecar p s' = sidecar p s"
  by (simp add: sidecar_def)

lemma published_cong:
  assumes "sidecars s' = sidecars s" and "te_entry cm p s' = te_entry cm p s"
  shows "published cm p s' = published cm p s"
  using assms by (simp add: published_def epoch_current_def te_current_def sidecar_def Let_def)

lemma te_entry_scopes [simp]:
  "te_entry cm p (s\<lparr>write_scopes := w\<rparr>) = te_entry cm p s"
  "te_entry cm p (s\<lparr>table_epochs := hm_insert p e t\<rparr>) = e"
  by (simp_all add: te_entry_def te_open_def sidecar_def hm_simps split: option.splits)

text \<open>Inside a scope nothing is published; the scope remembers that something changed.\<close>

lemma scope_step:
  assumes "hm_get (write_scopes s) p = Some (d, c)" and "0 < d" and "op = CloseScope \<longrightarrow> 1 < d"
    and s': "s' = scope_exec cm p op s"
  shows "published cm p s' = published cm p s"
    and "global_epoch s' = global_epoch s"
    and "hm_get (write_scopes s') p =
      Some (case op of OpenScope \<Rightarrow> d + 1 | CloseScope \<Rightarrow> d - 1 | _ \<Rightarrow> d,
            c \<or> op = CommitScope \<or> op = BumpTable)"
proof -
  have "published cm p s' = published cm p s \<and> global_epoch s' = global_epoch s \<and>
    hm_get (write_scopes s') p =
      Some (case op of OpenScope \<Rightarrow> d + 1 | CloseScope \<Rightarrow> d - 1 | _ \<Rightarrow> d,
            c \<or> op = CommitScope \<or> op = BumpTable)"
  proof (cases op)
    case BumpTable
    let ?s1 = "s\<lparr>write_scopes := hm_insert p (d, True) (write_scopes s)\<rparr>"
    have "s' = ?s1\<lparr>table_epochs := hm_insert p (te_entry cm p ?s1) (table_epochs ?s1)\<rparr>"
      using assms(1) by (simp add: s' BumpTable epoch_bump_def epoch_current_def Let_def)
    then show ?thesis using BumpTable by (auto intro!: published_cong simp: hm_simps)
  qed (use assms in \<open>auto intro!: published_cong
        simp: logical_write_def lw_commit_def lw_drop_def hm_simps Let_def\<close>)
  then show "published cm p s' = published cm p s" "global_epoch s' = global_epoch s"
    "hm_get (write_scopes s') p =
      Some (case op of OpenScope \<Rightarrow> d + 1 | CloseScope \<Rightarrow> d - 1 | _ \<Rightarrow> d,
            c \<or> op = CommitScope \<or> op = BumpTable)" by blast+
qed

lemma scope_run:
  assumes "hm_get (write_scopes s) p = Some (d, c)" and "0 < d" and "nests d ops = Some e"
  shows "published cm p (fold (scope_exec cm p) ops s) = published cm p s
    \<and> global_epoch (fold (scope_exec cm p) ops s) = global_epoch s
    \<and> hm_get (write_scopes (fold (scope_exec cm p) ops s)) p
      = Some (e, c \<or> CommitScope \<in> set ops \<or> BumpTable \<in> set ops) \<and> 0 < e"
  using assms
proof (induction ops arbitrary: s d c)
  case (Cons op ops)
  have close: "op = CloseScope \<longrightarrow> 1 < d" using Cons.prems(3) by (auto split: if_splits)
  note step = scope_step [OF Cons.prems(1,2) close refl, of cm]
  let ?d = "case op of OpenScope \<Rightarrow> d + 1 | CloseScope \<Rightarrow> d - 1 | _ \<Rightarrow> d"
  have "0 < ?d" "nests ?d ops = Some e"
    using Cons.prems close by (cases op; auto split: if_splits)+
  from Cons.IH [OF step(3) this] step(1,2) show ?case by (cases op) auto
qed simp

text \<open>
  C24. A write scope with any properly nested scopes, commits and table changes inside it publishes
  nothing before it closes; when it closes it advances the epoch of the table by one if anything in
  it committed or changed the table, and leaves it otherwise.
\<close>

theorem scope_publishes_once:
  assumes out: "hm_get (write_scopes s) p = None" and ops: "nests 1 ops = Some 1"
    and s1: "s1 = fold (scope_exec cm p) (OpenScope # ops) s"
    and s2: "s2 = scope_exec cm p CloseScope s1"
  shows "published cm p s1 = published cm p s
    \<and> published cm p s2 = published cm p s + (if CommitScope \<in> set ops \<or> BumpTable \<in> set ops then 1 else 0)
    \<and> hm_get (write_scopes s2) p = None"
proof -
  let ?s0 = "logical_write p s"
  have in0: "hm_get (write_scopes ?s0) p = Some (1, False)"
    using out by (simp add: logical_write_def hm_simps)
  have p0: "published cm p ?s0 = published cm p s"
    by (rule published_cong) (simp_all add: logical_write_def)
  have s1: "s1 = fold (scope_exec cm p) ops ?s0" by (simp add: s1)
  define ch where "ch \<longleftrightarrow> CommitScope \<in> set ops \<or> BumpTable \<in> set ops"
  have run: "published cm p s1 = published cm p s" "hm_get (write_scopes s1) p = Some (1, ch)"
    using scope_run [OF in0 _ ops, of cm] p0 unfolding s1 ch_def by simp_all
  let ?s1 = "s1\<lparr>write_scopes := hm_remove p (write_scopes s1)\<rparr>"
  have s2: "s2 = (if ch then snd (bump_now cm p ?s1) else ?s1)"
    using run(2) by (simp add: s2 lw_drop_def Let_def)
  have same: "published cm p ?s1 = published cm p s1" by (rule published_cong) simp_all
  have bump: "published cm p (snd (bump_now cm p ?s1)) = published cm p ?s1 + 1"
    "write_scopes (snd (bump_now cm p ?s1)) = write_scopes ?s1"
    by (auto simp: published_def epoch_current_def bump_now_def te_bump_def te_current_def te_entry_def
        te_open_def sidecar_def Let_def hm_simps split: option.splits)
  show ?thesis
    using run(1) same bump unfolding s2 ch_def [symmetric] by (simp add: hm_get_remove)
qed

definition epoch_new :: epoch_state where
  "epoch_new = \<lparr>table_epochs = [], sidecars = [], global_epoch = 0, write_scopes = []\<rparr>"

theorem scope_publishes_once_witness:
  "published (\<lambda>p. True) ''t'' (fold (scope_exec (\<lambda>p. True) ''t'')
     [OpenScope, BumpTable, OpenScope, BumpTable, CommitScope, CloseScope, CloseScope] epoch_new)
   = published (\<lambda>p. True) ''t'' epoch_new + 1"
  using scope_publishes_once [of epoch_new "''t''" "[BumpTable, OpenScope, BumpTable, CommitScope, CloseScope]"]
  by (simp add: epoch_new_def)

section \<open>Reserving row ids\<close>

text \<open>
  One turn of the loop between the load of the mark and the compare-and-exchange: the first id to
  return and the mark to write.
\<close>

definition claim_ids :: "u64 \<Rightarrow> u64 \<Rightarrow> u64 \<Rightarrow> u64 \<times> u64" where
  "claim_ids current minimum count = (let base = max current minimum in (base, sat_add base count))"

text \<open>
  Callers of one table, in any processes: about to load the mark, or about to exchange it for the
  next one. A granted reservation is its first id and its length.
\<close>

datatype caller = Asking u64 u64 | Holding u64 u64 u64

record id_world =
  mark :: u64
  callers :: "(nat, caller) hmap"
  grants :: "(u64 \<times> u64) list"

datatype id_step = Ask nat u64 u64 | LoadMark nat | Exchange nat

fun id_exec :: "id_world \<Rightarrow> id_step \<Rightarrow> id_world" where
  "id_exec w (Ask i minimum count) =
     (if count = 0 \<or> hm_get (callers w) i \<noteq> None then w
      else w\<lparr>callers := hm_insert i (Asking minimum count) (callers w)\<rparr>)"
| "id_exec w (LoadMark i) =
     (case hm_get (callers w) i of
        Some (Asking minimum count) \<Rightarrow>
          w\<lparr>callers := hm_insert i (Holding minimum count (mark w)) (callers w)\<rparr>
      | _ \<Rightarrow> w)"
| "id_exec w (Exchange i) =
     (case hm_get (callers w) i of
        Some (Holding minimum count current) \<Rightarrow>
          let (base, next) = claim_ids current minimum count
          in if mark w = current
             then w\<lparr>mark := next, callers := hm_remove i (callers w), grants := grants w @ [(base, count)]\<rparr>
             else w\<lparr>callers := hm_insert i (Asking minimum count) (callers w)\<rparr>
      | _ \<Rightarrow> w)"

inductive id_reachable :: "u64 \<Rightarrow> id_world \<Rightarrow> bool" for m0 where
  id_start: "id_reachable m0 \<lparr>mark = m0, callers = [], grants = []\<rparr>"
| id_step: "id_reachable m0 w \<Longrightarrow> id_reachable m0 (id_exec w a)"

text \<open>The ids of a reservation.\<close>

definition id_set :: "u64 \<times> u64 \<Rightarrow> nat set" where
  "id_set g = {unat (fst g)..<unat (fst g) + unat (snd g)}"

text \<open>Granted intervals lie one after the other between the first mark and the current one.\<close>

definition grants_ok :: "u64 \<Rightarrow> id_world \<Rightarrow> bool" where
  "grants_ok m0 w \<longleftrightarrow>
     (\<forall>g \<in> set (grants w). unat m0 \<le> unat (fst g) \<and> unat (fst g) + unat (snd g) \<le> unat (mark w))
     \<and> sorted_wrt (\<lambda>g h. unat (fst g) + unat (snd g) \<le> unat (fst h)) (grants w)"

lemma claim_ids_bounds:
  assumes "claim_ids current minimum count = (base, next)"
  shows "current \<le> next" and "unat current \<le> unat base"
    and "next \<noteq> u64_max \<Longrightarrow> unat next = unat base + unat count"
proof -
  have b: "base = max current minimum" and n: "next = sat_add base count"
    using assms by (auto simp: claim_ids_def Let_def)
  show le: "unat current \<le> unat base" unfolding b by (metis max.cobounded1 word_le_nat_alt)
  have top: "unat base \<le> 18446744073709551615"
    using u64_max_top [of base] unfolding word_le_nat_alt unat_u64_max .
  show "current \<le> next" unfolding n word_le_nat_alt unat_sat_add using le top by simp
  show "unat next = unat base + unat count" if "next \<noteq> u64_max"
    using that unfolding n by (auto simp: sat_add_def unat_word_ariths split: if_splits)
qed

lemma grants_ok_extend:
  assumes ok: "grants_ok m0 w" and m0: "m0 \<le> mark w"
    and base: "unat (mark w) \<le> unat base" and nx: "unat next = unat base + unat count"
    and w': "mark w' = next" "grants w' = grants w @ [(base, count)]"
  shows "grants_ok m0 w'"
proof -
  have old: "unat m0 \<le> unat (fst g)" "unat (fst g) + unat (snd g) \<le> unat (mark w)"
    if "g \<in> set (grants w)" for g using ok that by (simp_all add: grants_ok_def)
  have "unat m0 \<le> unat base" using m0 base by (simp add: word_le_nat_alt)
  moreover have "unat (fst g) + unat (snd g) \<le> unat base" if "g \<in> set (grants w)" for g
    using old(2) [OF that] base by linarith
  ultimately show ?thesis
    using ok old nx by (auto simp: grants_ok_def w' sorted_wrt_append intro: trans_le_add1)
qed

lemma id_exec_ok:
  assumes ok: "mark w \<noteq> u64_max \<longrightarrow> grants_ok m0 w" and m0: "m0 \<le> mark w"
  shows "(mark (id_exec w a) \<noteq> u64_max \<longrightarrow> grants_ok m0 (id_exec w a)) \<and> mark w \<le> mark (id_exec w a)"
proof -
  have same: ?thesis if "mark (id_exec w a) = mark w" "grants (id_exec w a) = grants w"
    using ok that by (simp add: grants_ok_def)
  show ?thesis
  proof (cases "\<exists>i minimum count. a = Exchange i \<and> hm_get (callers w) i = Some (Holding minimum count (mark w))")
    case True
    then obtain i minimum count where a: "a = Exchange i" "hm_get (callers w) i = Some (Holding minimum count (mark w))"
      by blast
    obtain base nxt where c: "claim_ids (mark w) minimum count = (base, nxt)" by (cases "claim_ids (mark w) minimum count")
    note b = claim_ids_bounds [OF c]
    have w': "mark (id_exec w a) = nxt" "grants (id_exec w a) = grants w @ [(base, count)]"
      using a c by simp_all
    have "grants_ok m0 (id_exec w a)" if "nxt \<noteq> u64_max"
    proof (rule grants_ok_extend [OF _ m0 b(2) b(3) [OF that] w'])
      have "mark w \<noteq> u64_max" using that b(1) u64_max_top [of nxt] by (metis order_antisym)
      then show "grants_ok m0 w" using ok by blast
    qed
    then show ?thesis using b(1) w'(1) by simp
  next
    case False
    then show ?thesis
      by (intro same; cases a; auto simp: case_prod_beta Let_def split: option.splits caller.splits)
  qed
qed

lemma id_reachable_ok: "id_reachable m0 w \<Longrightarrow> (mark w \<noteq> u64_max \<longrightarrow> grants_ok m0 w) \<and> m0 \<le> mark w"
proof (induction rule: id_reachable.induct)
  case id_start
  show ?case by (simp add: grants_ok_def)
next
  case (id_step w a)
  then show ?case using id_exec_ok [of w m0 a] by (meson order_trans)
qed

lemma id_run: "id_reachable m0 (foldl id_exec \<lparr>mark = m0, callers = [], grants = []\<rparr> as)"
  by (induction as rule: rev_induct) (auto intro: id_reachable.intros)

text \<open>
  C13. Row ids reserved by any number of processes through the shared mark of a table, in any
  interleaving of their loads and exchanges, are disjoint, and all lie between the first mark and
  the current one, until the mark saturates.
\<close>

theorem reservations_disjoint:
  assumes "id_reachable m0 w" and "mark w \<noteq> u64_max" and "i < j" and "j < length (grants w)"
  shows "id_set (grants w ! i) \<inter> id_set (grants w ! j) = {}
    \<and> id_set (grants w ! j) \<subseteq> {unat m0..<unat (mark w)}"
proof -
  have ok: "grants_ok m0 w" using id_reachable_ok [OF assms(1)] assms(2) by blast
  have "unat (fst (grants w ! i)) + unat (snd (grants w ! i)) \<le> unat (fst (grants w ! j))"
    using ok assms(3,4) sorted_wrt_nth_less [of _ "grants w" i j] unfolding grants_ok_def by fast
  moreover have "grants w ! j \<in> set (grants w)" using assms(4) by simp
  then have "unat m0 \<le> unat (fst (grants w ! j))"
    "unat (fst (grants w ! j)) + unat (snd (grants w ! j)) \<le> unat (mark w)"
    using ok unfolding grants_ok_def by blast+
  ultimately show ?thesis by (auto simp: id_set_def)
qed

definition demo_ids :: id_world where
  "demo_ids = foldl id_exec \<lparr>mark = 5, callers = [], grants = []\<rparr>
     [Ask 1 0 3, Ask 2 7 2, LoadMark 1, LoadMark 2, Exchange 1, Exchange 2, LoadMark 2, Exchange 2]"

lemma demo_ids: "mark demo_ids = 10 \<and> grants demo_ids = [(5, 3), (8, 2)]"
  by (simp add: demo_ids_def claim_ids_def sat_add_def max_def Let_def)

theorem reservations_disjoint_witness:
  "id_set (5, 3) \<inter> id_set (8, 2) = {} \<and> mark demo_ids \<noteq> u64_max \<and> grants demo_ids = [(5, 3), (8, 2)]"
proof -
  have "id_reachable 5 demo_ids" unfolding demo_ids_def by (rule id_run)
  from reservations_disjoint [OF this, of 0 1] demo_ids show ?thesis by simp
qed

text \<open>Steps of other callers, and what they leave alone.\<close>

fun step_of :: "id_step \<Rightarrow> nat" where
  "step_of (Ask i m c) = i"
| "step_of (LoadMark i) = i"
| "step_of (Exchange i) = i"

lemma id_exec_others:
  assumes "step_of a \<noteq> i"
  shows "hm_get (callers (id_exec w a)) i = hm_get (callers w) i"
  using assms by (cases a) (auto simp: hm_simps case_prod_beta Let_def split: option.splits caller.splits)

lemma id_exec_grants:
  "length (grants w) < length (grants (id_exec w a))
   \<or> grants (id_exec w a) = grants w \<and> mark (id_exec w a) = mark w"
  by (cases a) (auto simp: case_prod_beta Let_def split: option.splits caller.splits)

lemma id_run_others:
  assumes "\<forall>a \<in> set as. step_of a \<noteq> i" and "w' = foldl id_exec w as"
  shows "hm_get (callers w') i = hm_get (callers w) i"
    and "length (grants w) < length (grants w') \<or> grants w' = grants w \<and> mark w' = mark w"
proof -
  have "hm_get (callers (foldl id_exec w as)) i = hm_get (callers w) i
    \<and> (length (grants w) < length (grants (foldl id_exec w as))
       \<or> grants (foldl id_exec w as) = grants w \<and> mark (foldl id_exec w as) = mark w)"
    using assms(1)
  proof (induction as rule: rev_induct)
    case (snoc a as)
    then show ?case
      using id_exec_others [of a i "foldl id_exec w as"] id_exec_grants [of "foldl id_exec w as" a] by auto
  qed simp
  then show "hm_get (callers w') i = hm_get (callers w) i"
    "length (grants w) < length (grants w') \<or> grants w' = grants w \<and> mark w' = mark w"
    unfolding assms(2) by blast+
qed

text \<open>
  C35. The reservation loop is lock-free: whatever other callers do between a caller's load and its
  exchange, a turn of its loop ends with more reservations granted than when it began, its own if no
  other was granted meanwhile.
\<close>

theorem reservation_lock_free:
  assumes ask: "hm_get (callers w) i = Some (Asking minimum count)"
    and others: "\<forall>a \<in> set as. step_of a \<noteq> i"
    and w1: "w1 = foldl id_exec (id_exec w (LoadMark i)) as" and w2: "w2 = id_exec w1 (Exchange i)"
  shows "length (grants w) < length (grants w2)
    \<and> (grants w1 = grants w \<longrightarrow> grants w2 = grants w @ [(max (mark w) minimum, count)]
        \<and> hm_get (callers w2) i = None)"
proof -
  let ?w0 = "id_exec w (LoadMark i)"
  have w0: "grants ?w0 = grants w" "mark ?w0 = mark w" using ask by simp_all
  have hold: "hm_get (callers w1) i = Some (Holding minimum count (mark w))"
    using id_run_others(1) [OF others w1] ask by (simp add: hm_simps)
  show ?thesis
  proof (cases "grants w1 = grants w")
    case True
    then have "mark w1 = mark w" using id_run_others(2) [OF others w1] w0 by auto
    then show ?thesis using hold True by (simp add: w2 claim_ids_def Let_def hm_simps)
  next
    case False
    then have "length (grants w) < length (grants w1)" using id_run_others(2) [OF others w1] w0 by auto
    then show ?thesis using id_exec_grants [of w1 "Exchange i"] False unfolding w2 by auto
  qed
qed

theorem reservation_lock_free_witness:
  "length (grants (id_exec (foldl id_exec
     (id_exec \<lparr>mark = 5, callers = [(1, Asking 0 3)], grants = []\<rparr> (LoadMark 1)) [Ask 2 7 2, LoadMark 2, Exchange 2])
     (Exchange 1))) > 0"
  using reservation_lock_free [of "\<lparr>mark = 5, callers = [(1, Asking 0 3)], grants = []\<rparr>" 1 0 3
      "[Ask 2 7 2, LoadMark 2, Exchange 2]", OF _ _ refl refl]
  by simp

text \<open>
  Without a sidecar the cursor is loaded and stored in two steps, and the table entry is only held
  for reading in between.
\<close>

definition local_load :: "table_epoch \<Rightarrow> u64 \<Rightarrow> u64" where
  "local_load e minimum = max (id_local e) minimum"

definition local_store :: "u64 \<Rightarrow> u64 \<Rightarrow> table_epoch \<Rightarrow> table_epoch" where
  "local_store base count e = e\<lparr>id_local := sat_add base count\<rparr>"

definition te_reserve_row_ids ::
  "string \<Rightarrow> table_epoch \<Rightarrow> u64 \<Rightarrow> u64 \<Rightarrow> epoch_state \<Rightarrow> u64 \<times> table_epoch \<times> epoch_state" where
  "te_reserve_row_ids p e minimum count s =
     (if te_shared e
      then let (base, nxt) = claim_ids (snd (sidecar p s)) minimum count
           in (base, e, s\<lparr>sidecars := hm_insert p (fst (sidecar p s), nxt) (sidecars s)\<rparr>)
      else let base = local_load e minimum in (base, local_store base count e, s))"

definition reserve_row_ids ::
  "(string \<Rightarrow> bool) \<Rightarrow> string \<Rightarrow> u64 \<Rightarrow> u64 \<Rightarrow> epoch_state \<Rightarrow> u64 \<times> epoch_state" where
  "reserve_row_ids can_map p minimum count s =
     (if count = 0 then (minimum, s)
      else let (base, e, s1) = te_reserve_row_ids p (te_entry can_map p s) minimum count s
           in (base, s1\<lparr>table_epochs := hm_insert p e (table_epochs s1)\<rparr>))"

text \<open>Two threads that both load the local cursor before either stores reserve the same ids.\<close>

lemma local_reservations_collide:
  assumes "count \<noteq> 0" and "a = local_load e minimum" and "b = local_load e minimum"
  shows "id_set (a, count) \<inter> id_set (b, count) \<noteq> {}
    \<and> id_local (local_store b count (local_store a count e)) = sat_add a count"
  using assms by (simp add: local_load_def local_store_def id_set_def unat_gt_0)

end
