(* ===== verification/Edit_Distance.thy ===== *)
theory Edit_Distance
  imports Prelude
begin

text \<open>
  Edit distance of the full-text engine (\<^verbatim>\<open>fts/analyzer.rs\<close>, \<open>levenshtein\<close>): the two-row dynamic
  program with its early exits, and the proof that it computes the least number of
  single-character edits between two words, or nothing when that number is above the bound.
\<close>

section \<open>Characters of a string\<close>

text \<open>
  \<open>str::chars\<close> and \<open>String::from_iter\<close>: the scalar values a UTF-8 string encodes.
\<close>

fun decode_utf8 :: "nat list \<Rightarrow> nat list" where
  "decode_utf8 [] = []"
| "decode_utf8 (a # bs) =
     (if a < 128 then a # decode_utf8 bs
      else if a < 224 then
        (case bs of b # bs' \<Rightarrow> ((a - 192) * 64 + (b - 128)) # decode_utf8 bs' | [] \<Rightarrow> [])
      else if a < 240 then
        (case bs of b # c # bs' \<Rightarrow> ((a - 224) * 4096 + (b - 128) * 64 + (c - 128)) # decode_utf8 bs'
         | _ \<Rightarrow> [])
      else
        (case bs of b # c # d # bs' \<Rightarrow>
           ((a - 240) * 262144 + (b - 128) * 4096 + (c - 128) * 64 + (d - 128)) # decode_utf8 bs'
         | _ \<Rightarrow> []))"

definition encode_utf8 :: "nat \<Rightarrow> nat list" where
  "encode_utf8 n =
     (if n < 128 then [n]
      else if n < 2048 then [192 + n div 64, 128 + n mod 64]
      else if n < 65536 then [224 + n div 4096, 128 + n div 64 mod 64, 128 + n mod 64]
      else [240 + n div 262144, 128 + n div 4096 mod 64, 128 + n div 64 mod 64, 128 + n mod 64])"

definition chars :: "string \<Rightarrow> nat list" where
  "chars s = decode_utf8 (map of_char s)"

definition of_chars :: "nat list \<Rightarrow> string" where
  "of_chars cs = concat (map (\<lambda>n. map char_of (encode_utf8 n)) cs)"

definition scalar :: "nat \<Rightarrow> bool" where
  "scalar n \<longleftrightarrow> n < 0x110000"

lemma div_mod_64:
  fixes n :: nat
  shows "n div 64 * 64 + n mod 64 = n"
    and "n div 4096 * 4096 + n div 64 mod 64 * 64 + n mod 64 = n"
    and "n div 262144 * 262144 + n div 4096 mod 64 * 4096 + n div 64 mod 64 * 64 + n mod 64 = n"
proof -
  have a: "m div 64 * 64 + m mod 64 = m" for m :: nat
    by (rule div_mult_mod_eq)
  have b: "n div 4096 = n div 64 div 64" "n div 262144 = n div 4096 div 64"
    by (simp_all add: div_mult2_eq [symmetric])
  show "n div 64 * 64 + n mod 64 = n" by (rule a)
  moreover have "n div 4096 * 64 + n div 64 mod 64 = n div 64" unfolding b by (rule a)
  ultimately show two: "n div 4096 * 4096 + n div 64 mod 64 * 64 + n mod 64 = n" by linarith
  have "n div 262144 * 64 + n div 4096 mod 64 = n div 4096" unfolding b(2) by (rule a)
  with two show "n div 262144 * 262144 + n div 4096 mod 64 * 4096 + n div 64 mod 64 * 64 + n mod 64 = n"
    by linarith
qed

lemma decode_encode: "decode_utf8 (encode_utf8 n @ bs) = n # decode_utf8 bs" if "scalar n"
proof -
  have "n div 64 < 32" if "n < 2048" using that by simp
  moreover have "n div 4096 < 16" if "n < 65536" using that by simp
  ultimately show ?thesis
    using div_mod_64 [of n] by (auto simp: encode_utf8_def)
qed

lemma encode_byte: "scalar n \<Longrightarrow> b \<in> set (encode_utf8 n) \<Longrightarrow> b < 256"
  by (auto simp: scalar_def encode_utf8_def split: if_splits)

lemma codes_of_chars:
  "list_all scalar cs \<Longrightarrow> map of_char (of_chars cs) = concat (map encode_utf8 cs)"
proof (induction cs)
  case (Cons c cs)
  have "map of_char (map char_of (encode_utf8 c) :: string) = encode_utf8 c"
    using Cons.prems encode_byte [of c] by (auto simp: map_idI)
  with Cons show ?case by (simp add: of_chars_def)
qed (simp add: of_chars_def)

lemma chars_of_chars: "list_all scalar cs \<Longrightarrow> chars (of_chars cs) = cs"
proof -
  have "decode_utf8 (concat (map encode_utf8 cs)) = cs" if "list_all scalar cs"
    using that by (induction cs) (simp_all add: decode_encode)
  then show "list_all scalar cs \<Longrightarrow> ?thesis" by (simp add: chars_def codes_of_chars)
qed

section \<open>The two-row program\<close>

definition lev_cell :: "'a \<Rightarrow> nat list \<Rightarrow> nat list \<times> nat \<Rightarrow> nat \<times> 'a \<Rightarrow> nat list \<times> nat" where
  "lev_cell a previous st jb =
     (case (st, jb) of ((current, row_min), (j, b)) \<Rightarrow>
        let v = min (min (previous ! (j + 1) + 1) (current ! j + 1)) (previous ! j + of_bool (a \<noteq> b))
        in (current[j + 1 := v], min row_min v))"

definition lev_row :: "'a list \<Rightarrow> nat \<Rightarrow> 'a \<Rightarrow> nat list \<Rightarrow> nat list \<Rightarrow> nat list \<times> nat" where
  "lev_row right i a previous current =
     foldl (lev_cell a previous) (current[0 := i + 1], i + 1) (enumerate 0 right)"

fun lev_rows :: "'a list \<Rightarrow> nat \<Rightarrow> nat \<Rightarrow> 'a list \<Rightarrow> nat list \<Rightarrow> nat list \<Rightarrow> nat option" where
  "lev_rows right max_distance i [] previous current =
     (if previous ! length right \<le> max_distance then Some (previous ! length right) else None)"
| "lev_rows right max_distance i (a # rest) previous current =
     (let (current', row_min) = lev_row right i a previous current
      in if max_distance < row_min then None
         else lev_rows right max_distance (Suc i) rest current' previous)"

definition lev_chars :: "'a list \<Rightarrow> 'a list \<Rightarrow> nat \<Rightarrow> nat option" where
  "lev_chars left right max_distance =
     (if max_distance < (if length left < length right then length right - length left
                         else length left - length right) then None
      else lev_rows right max_distance 0 left [0..<length right + 1]
             (replicate (length right + 1) 0))"

definition levenshtein :: "string \<Rightarrow> string \<Rightarrow> nat \<Rightarrow> nat option" where
  "levenshtein left right max_distance = lev_chars (chars left) (chars right) max_distance"

section \<open>Edits\<close>

text \<open>One insertion, deletion or substitution of a character, anywhere in the word.\<close>

inductive edit_step :: "'a list \<Rightarrow> 'a list \<Rightarrow> bool" where
  ins: "edit_step (u @ v) (u @ c # v)"
| del: "edit_step (u @ c # v) (u @ v)"
| sub: "edit_step (u @ c # v) (u @ d # v)"

text \<open>\<open>aligned k xs ys\<close>: an alignment of the two words at cost \<open>k\<close>.\<close>

inductive aligned :: "nat \<Rightarrow> 'a list \<Rightarrow> 'a list \<Rightarrow> bool" where
  a_nil: "aligned 0 [] []"
| a_keep: "aligned k xs ys \<Longrightarrow> aligned k (x # xs) (x # ys)"
| a_sub: "aligned k xs ys \<Longrightarrow> aligned (Suc k) (x # xs) (y # ys)"
| a_ins: "aligned k xs ys \<Longrightarrow> aligned (Suc k) xs (y # ys)"
| a_del: "aligned k xs ys \<Longrightarrow> aligned (Suc k) (x # xs) ys"

inductive_cases aligned_NilE: "aligned k [] ys"
inductive_cases aligned_NilE2: "aligned k xs []"
inductive_cases aligned_ConsE: "aligned k (x # xs) ys"
inductive_cases aligned_ConsConsE: "aligned k (x # xs) (y # ys)"

lemma aligned_Nil1: "aligned k [] ys \<longleftrightarrow> k = length ys"
proof
  show "aligned k [] ys \<Longrightarrow> k = length ys"
    by (induction k "[] :: 'a list" ys rule: aligned.induct) auto
  have "aligned (length ys) [] ys" by (induction ys) (auto intro: aligned.intros)
  then show "k = length ys \<Longrightarrow> aligned k [] ys" by simp
qed

lemma aligned_Nil2: "aligned k xs [] \<longleftrightarrow> k = length xs"
proof
  show "aligned k xs [] \<Longrightarrow> k = length xs"
    by (induction k xs "[] :: 'a list" rule: aligned.induct) auto
  have "aligned (length xs) xs []" by (induction xs) (auto intro: aligned.intros)
  then show "k = length xs \<Longrightarrow> aligned k xs []" by simp
qed

lemma aligned_append: "aligned k u v \<Longrightarrow> aligned l u' v' \<Longrightarrow> aligned (k + l) (u @ u') (v @ v')"
  by (induction rule: aligned.induct) (auto intro: aligned.intros)

lemma aligned_refl: "aligned 0 xs xs"
  by (induction xs) (auto intro: aligned.intros)

lemma aligned_split:
  assumes "aligned k (u @ w) zs"
  shows "\<exists>k1 k2 z1 z2. k = k1 + k2 \<and> zs = z1 @ z2 \<and> aligned k1 u z1 \<and> aligned k2 w z2"
  using assms
proof (induction k "u @ w" zs arbitrary: u rule: aligned.induct)
  case a_nil
  then show ?case using aligned.a_nil by force
next
  case (a_keep k xs ys x)
  show ?case
  proof (cases u)
    case Nil
    then show ?thesis using a_keep aligned.a_nil aligned.a_keep by force
  next
    case (Cons y u')
    then obtain k1 k2 z1 z2 where "k = k1 + k2" "ys = z1 @ z2" "aligned k1 u' z1" "aligned k2 w z2"
      using a_keep by auto
    then show ?thesis using Cons a_keep(3) aligned.a_keep [of k1 u' z1 x]
      by (intro exI [of _ k1] exI [of _ k2] exI [of _ "x # z1"] exI [of _ z2]) auto
  qed
next
  case (a_sub k xs ys x y)
  show ?case
  proof (cases u)
    case Nil
    then show ?thesis using a_sub aligned.a_nil aligned.a_sub by force
  next
    case (Cons y' u')
    then obtain k1 k2 z1 z2 where "k = k1 + k2" "ys = z1 @ z2" "aligned k1 u' z1" "aligned k2 w z2"
      using a_sub by auto
    then show ?thesis using Cons a_sub(3) aligned.a_sub [of k1 u' z1 x y]
      by (intro exI [of _ "Suc k1"] exI [of _ k2] exI [of _ "y # z1"] exI [of _ z2]) auto
  qed
next
  case (a_ins k ys y)
  then obtain k1 k2 z1 z2 where "k = k1 + k2" "ys = z1 @ z2" "aligned k1 u z1" "aligned k2 w z2"
    by blast
  then show ?case using aligned.a_ins [of k1 u z1 y]
    by (intro exI [of _ "Suc k1"] exI [of _ k2] exI [of _ "y # z1"] exI [of _ z2]) auto
next
  case (a_del k xs ys x)
  show ?case
  proof (cases u)
    case Nil
    then show ?thesis using a_del aligned.a_nil aligned.a_del by force
  next
    case (Cons y' u')
    then obtain k1 k2 z1 z2 where "k = k1 + k2" "ys = z1 @ z2" "aligned k1 u' z1" "aligned k2 w z2"
      using a_del by auto
    then show ?thesis using Cons a_del(3) aligned.a_del [of k1 u' z1 x]
      by (intro exI [of _ "Suc k1"] exI [of _ k2] exI [of _ z1] exI [of _ z2]) auto
  qed
qed

text \<open>One edit on the left changes the cost of an alignment by at most one.\<close>

lemma aligned_single: "aligned k [c] z \<Longrightarrow> \<exists>m \<le> Suc k. aligned m [d] z" "aligned k [c] z \<Longrightarrow> length z \<le> Suc k"
proof -
  have len: "length z \<le> Suc k \<and> 1 \<le> k + length z" if "aligned k [c] z" for z k
    using that by (induction k "[c]" z rule: aligned.induct) (auto simp: aligned_Nil1)
  show "aligned k [c] z \<Longrightarrow> length z \<le> Suc k" using len by blast
  show "\<exists>m \<le> Suc k. aligned m [d] z" if "aligned k [c] z"
  proof (cases z)
    case Nil
    then show ?thesis using len [OF that] by (auto simp: aligned_Nil2 intro: exI [of _ 1])
  next
    case (Cons y z')
    have "aligned (length z') [] z'" by (simp add: aligned_Nil1)
    then have "aligned (Suc (length z')) [d] z" unfolding Cons by (rule a_sub)
    then show ?thesis using len [OF that] Cons by auto
  qed
qed

lemma aligned_edit:
  assumes "edit_step xs ys" and "aligned k ys zs"
  shows "\<exists>m \<le> Suc k. aligned m xs zs"
  using assms
proof (cases rule: edit_step.cases)
  case (ins u v c)
  then obtain k1 k2 z1 z2 where k: "k = k1 + k2" "zs = z1 @ z2" "aligned k1 u z1" "aligned k2 ([c] @ v) z2"
    using aligned_split [of k u "c # v" zs] assms(2) by auto
  from aligned_split [OF k(4)] obtain k3 k4 z3 z4 where
    l: "k2 = k3 + k4" "z2 = z3 @ z4" "aligned k3 [c] z3" "aligned k4 v z4" by blast
  have "aligned (length z3) [] z3" by (simp add: aligned_Nil1)
  from aligned_append [OF k(3) aligned_append [OF this l(4)]]
  have "aligned (k1 + (length z3 + k4)) xs zs" by (simp add: ins k(2) l(2))
  then show ?thesis using aligned_single(2) [OF l(3)] k(1) l(1) by (intro exI [of _ "k1 + (length z3 + k4)"]) auto
next
  case (del u c v)
  then obtain k1 k2 z1 z2 where k: "k = k1 + k2" "zs = z1 @ z2" "aligned k1 u z1" "aligned k2 v z2"
    using aligned_split [of k u v zs] assms(2) by auto
  from aligned_append [OF k(3) a_del [OF k(4), of c]] show ?thesis
    using k(1,2) del by (intro exI [of _ "Suc k"]) auto
next
  case (sub u c v d)
  then obtain k1 k2 z1 z2 where k: "k = k1 + k2" "zs = z1 @ z2" "aligned k1 u z1" "aligned k2 ([d] @ v) z2"
    using aligned_split [of k u "d # v" zs] assms(2) by auto
  from aligned_split [OF k(4)] obtain k3 k4 z3 z4 where
    l: "k2 = k3 + k4" "z2 = z3 @ z4" "aligned k3 [d] z3" "aligned k4 v z4" by blast
  from aligned_single(1) [OF l(3)] obtain m where m: "m \<le> Suc k3" "aligned m [c] z3" by blast
  from aligned_append [OF k(3) aligned_append [OF m(2) l(4)]]
  have "aligned (k1 + (m + k4)) xs zs" by (simp add: sub k(2) l(2))
  then show ?thesis using m(1) k(1) l(1) by (intro exI [of _ "k1 + (m + k4)"]) auto
qed

lemma edits_align: "(edit_step ^^ k) xs ys \<Longrightarrow> \<exists>m \<le> k. aligned m xs ys"
proof (induction k arbitrary: xs)
  case 0
  then show ?case using aligned_refl by auto
next
  case (Suc k)
  from Suc.prems obtain zs where "edit_step xs zs" "(edit_step ^^ k) zs ys"
    by (blast elim: relpowp_Suc_E2)
  with Suc.IH aligned_edit show ?case by (meson Suc_le_mono le_trans)
qed

lemma edit_step_Cons: "edit_step xs ys \<Longrightarrow> edit_step (x # xs) (x # ys)"
  by (induction rule: edit_step.induct) (metis append_Cons edit_step.intros)+

lemma edits_Cons: "(edit_step ^^ k) xs ys \<Longrightarrow> (edit_step ^^ k) (x # xs) (x # ys)"
  by (induction k arbitrary: ys) (auto intro: edit_step_Cons elim!: relpowp_Suc_E intro!: relcomppI)

lemma align_edits: "aligned k xs ys \<Longrightarrow> (edit_step ^^ k) xs ys"
proof (induction rule: aligned.induct)
  case (a_keep k xs ys x)
  from a_keep.IH show ?case by (rule edits_Cons)
next
  case (a_sub k xs ys x y)
  have "edit_step (x # ys) (y # ys)" using edit_step.sub [of "[]"] by simp
  with edits_Cons [OF a_sub.IH] show ?case by (rule relpowp_Suc_I)
next
  case (a_ins k xs ys y)
  have "edit_step ys (y # ys)" using edit_step.ins [of "[]"] by simp
  with a_ins.IH show ?case by (rule relpowp_Suc_I)
next
  case (a_del k xs ys x)
  have "edit_step (x # ys) ys" using edit_step.del [of "[]"] by simp
  with edits_Cons [OF a_del.IH] show ?case by (rule relpowp_Suc_I)
qed simp

section \<open>Distance\<close>

text \<open>The recursion the program tabulates, on words read from their last character.\<close>

fun dist :: "'a list \<Rightarrow> 'a list \<Rightarrow> nat" where
  "dist [] ys = length ys"
| "dist xs [] = length xs"
| "dist (x # xs) (y # ys) =
     min (min (dist xs (y # ys) + 1) (dist (x # xs) ys + 1)) (dist xs ys + of_bool (x \<noteq> y))"

lemma dist_Nil2 [simp]: "dist xs [] = length xs"
  by (cases xs) auto

lemma dist_aligned: "aligned (dist xs ys) xs ys"
proof (induction xs ys rule: dist.induct)
  case (3 x xs y ys)
  have "aligned (dist xs ys + of_bool (x \<noteq> y)) (x # xs) (y # ys)"
    using 3 by (cases "x = y") (auto intro: a_keep a_sub)
  then show ?case
    using a_del [OF 3(1)] a_ins [OF 3(2)] by (auto simp: min_def)
qed (auto simp: aligned_Nil1 aligned_Nil2)

lemma dist_least: "aligned k xs ys \<Longrightarrow> dist xs ys \<le> k"
proof (induction xs ys arbitrary: k rule: dist.induct)
  case (3 x xs y ys)
  from 3(4) show ?case
    by (cases rule: aligned_ConsConsE) (auto dest!: 3(1-3) simp: min_def)
qed (auto simp: aligned_Nil1 aligned_Nil2)

definition edit_distance :: "'a list \<Rightarrow> 'a list \<Rightarrow> nat" where
  "edit_distance xs ys = (LEAST k. (edit_step ^^ k) xs ys)"

lemma dist_edit_distance: "edit_distance xs ys = dist xs ys"
  unfolding edit_distance_def
proof (rule Least_equality)
  show "(edit_step ^^ dist xs ys) xs ys" by (rule align_edits [OF dist_aligned])
  show "dist xs ys \<le> k" if "(edit_step ^^ k) xs ys" for k
    using edits_align [OF that] dist_least by (meson le_trans)
qed

lemma aligned_rev: "aligned k xs ys \<Longrightarrow> aligned k (rev xs) (rev ys)"
proof (induction rule: aligned.induct)
  case (a_keep k xs ys x)
  from aligned_append [OF a_keep.IH aligned_refl [of "[x]"]] show ?case by simp
next
  case (a_sub k xs ys x y)
  from aligned_append [OF a_sub.IH aligned.a_sub [OF aligned.a_nil]] show ?case by simp
next
  case (a_ins k xs ys y)
  from aligned_append [OF a_ins.IH aligned.a_ins [OF aligned.a_nil]] show ?case by simp
next
  case (a_del k xs ys x)
  from aligned_append [OF a_del.IH aligned.a_del [OF aligned.a_nil]] show ?case by simp
qed (simp add: aligned.a_nil)

lemma dist_rev: "dist (rev xs) (rev ys) = dist xs ys"
  using dist_least [OF aligned_rev [OF dist_aligned [of xs ys]]]
    dist_least [OF aligned_rev [OF dist_aligned [of "rev xs" "rev ys"]]] by simp

lemma dist_length: "length xs \<le> length ys + dist xs ys" "length ys \<le> length xs + dist xs ys"
proof -
  have "length xs \<le> length ys + k \<and> length ys \<le> length xs + k" if "aligned k xs ys" for k
    using that by (induction rule: aligned.induct) auto
  from this [OF dist_aligned] show "length xs \<le> length ys + dist xs ys" "length ys \<le> length xs + dist xs ys"
    by auto
qed

section \<open>The program computes the distance\<close>

text \<open>\<open>row right u\<close> is the finished row of the table for the reversed prefix \<open>u\<close>.\<close>

definition row :: "'a list \<Rightarrow> 'a list \<Rightarrow> nat list" where
  "row right u = map (\<lambda>j. dist u (rev (take j right))) [0..<length right + 1]"

lemma row_nth: "j \<le> length right \<Longrightarrow> row right u ! j = dist u (rev (take j right))"
  unfolding row_def by (subst nth_map) (simp_all del: upt_Suc)

lemma length_row [simp]: "length (row right u) = length right + 1"
  by (simp add: row_def)

lemma lev_cells:
  assumes "length current = length right + 1" and "k \<le> length right" and "i = length u"
  shows "\<exists>c m. foldl (lev_cell a (row right u)) (current[0 := i + 1], i + 1) (enumerate 0 (take k right)) = (c, m)
    \<and> length c = length right + 1 \<and> (\<forall>j \<le> k. c ! j = dist (a # u) (rev (take j right)))
    \<and> m = Min ((\<lambda>j. dist (a # u) (rev (take j right))) ` {..k})"
  using assms(2)
proof (induction k)
  case 0
  then show ?case using assms by (cases current) auto
next
  case (Suc k)
  let ?d = "\<lambda>j. dist (a # u) (rev (take j right))"
  from Suc obtain c m where IH:
    "foldl (lev_cell a (row right u)) (current[0 := i + 1], i + 1) (enumerate 0 (take k right)) = (c, m)"
    "length c = length right + 1" "\<forall>j \<le> k. c ! j = ?d j" "m = Min (?d ` {..k})" by auto
  have k: "k < length right" using Suc.prems by simp
  have en: "enumerate 0 (take (Suc k) right) = enumerate 0 (take k right) @ [(k, right ! k)]"
    using k by (simp add: take_Suc_conv_app_nth enumerate_append_eq)
  have dk: "?d (Suc k) = min (min (dist u (rev (take (Suc k) right)) + 1) (?d k + 1))
      (dist u (rev (take k right)) + of_bool (a \<noteq> right ! k))"
    using k by (simp add: take_Suc_conv_app_nth)
  have "lev_cell a (row right u) (c, m) (k, right ! k) = (c[Suc k := ?d (Suc k)], min m (?d (Suc k)))"
    unfolding lev_cell_def dk using k IH(3) by (simp add: row_nth Let_def)
  moreover have "min m (?d (Suc k)) = Min (?d ` {..Suc k})"
    unfolding IH(4) atMost_Suc image_insert by (subst Min_insert) (auto simp: min.commute)
  moreover have "\<forall>j \<le> Suc k. c[Suc k := ?d (Suc k)] ! j = ?d j"
    using IH(2,3) k by (auto simp: nth_list_update le_Suc_eq)
  ultimately show ?case unfolding en using IH(1,2) by simp
qed

lemma lev_row_step:
  assumes "length current = length right + 1" and "i = length u"
  shows "lev_row right i a (row right u) current
    = (row right (a # u), Min ((\<lambda>j. dist (a # u) (rev (take j right))) ` {..length right}))"
proof -
  obtain c m where c: "lev_row right i a (row right u) current = (c, m)"
    "length c = length right + 1" "\<forall>j \<le> length right. c ! j = dist (a # u) (rev (take j right))"
    "m = Min ((\<lambda>j. dist (a # u) (rev (take j right))) ` {..length right})"
    using lev_cells [OF assms(1) order_refl assms(2), of a] unfolding lev_row_def by auto
  have "c = row right (a # u)" by (rule nth_equalityI) (use c in \<open>auto simp: row_nth\<close>)
  then show ?thesis using c by simp
qed

text \<open>The distance of an extension is at least the least entry of an earlier row.\<close>

lemma aligned_prefix:
  assumes "aligned k (v @ u) zs"
  shows "\<exists>z. (\<exists>y. zs = y @ z) \<and> dist u z \<le> k"
proof -
  from aligned_split [OF assms] obtain k1 k2 z1 z2 where
    "k = k1 + k2" "zs = z1 @ z2" "aligned k1 v z1" "aligned k2 u z2" by blast
  then show ?thesis using dist_least [of k2 u z2] by auto
qed

lemma row_min_bound:
  "Min ((\<lambda>j. dist u (rev (take j right))) ` {..length right}) \<le> dist (v @ u) (rev right)"
proof -
  obtain z y where z: "rev right = y @ z" "dist u z \<le> dist (v @ u) (rev right)"
    using aligned_prefix [OF dist_aligned] by blast
  then have "right = rev z @ rev y" by (metis rev_append rev_rev_ident)
  then have "take (length z) right = rev z" "length z \<le> length right" by simp_all
  then have "dist u z \<in> (\<lambda>j. dist u (rev (take j right))) ` {..length right}"
    by (intro image_eqI [of _ _ "length z"]) auto
  then show ?thesis using z(2) by (meson Min_le finite_atMost finite_imageI le_trans)
qed

lemma lev_rows_distance:
  assumes "length current = length right + 1" and "i = length u"
  shows "lev_rows right d i left (row right u) current =
    (let n = dist (rev left @ u) (rev right) in if n \<le> d then Some n else None)"
  using assms
proof (induction left arbitrary: i u current)
  case Nil
  then show ?case by (simp add: row_nth Let_def)
next
  case (Cons a left)
  note step = lev_row_step [OF Cons.prems, of a]
  note IH = Cons.IH [of "row right u" "Suc i" "a # u"]
  define m where "m = Min ((\<lambda>j. dist (a # u) (rev (take j right))) ` {..length right})"
  have "m \<le> dist (rev left @ a # u) (rev right)" unfolding m_def by (rule row_min_bound)
  then show ?case using IH Cons.prems unfolding lev_rows.simps step m_def [symmetric]
    by (auto simp: Let_def)
qed

lemma lev_chars_distance:
  "lev_chars left right d = (if edit_distance left right \<le> d then Some (edit_distance left right) else None)"
proof -
  have row0: "[0..<length right + 1] = row right []"
    by (rule nth_equalityI) (simp_all add: row_nth del: upt_Suc)
  have "lev_rows right d 0 left [0..<length right + 1] (replicate (length right + 1) 0)
      = (if dist left right \<le> d then Some (dist left right) else None)"
    unfolding row0 by (subst lev_rows_distance) (simp_all add: Let_def dist_rev)
  moreover have "d < dist left right"
    if "d < (if length left < length right then length right - length left else length left - length right)"
    using that dist_length [where xs = left and ys = right] by (simp split: if_splits)
  ultimately show ?thesis unfolding lev_chars_def dist_edit_distance by fastforce
qed

text \<open>
  C18. Fuzzy matching measures words exactly: \<open>levenshtein\<close>, which fills a table two rows at a time
  and gives up early on a difference of lengths or on a row whose entries all exceed the bound,
  returns the least number of single-character insertions, deletions and substitutions that turn
  one word into the other when that number is within the bound, and nothing otherwise.
\<close>

theorem levenshtein_exact:
  "levenshtein left right max_distance =
     (let n = edit_distance (chars left) (chars right) in if n \<le> max_distance then Some n else None)"
  by (simp add: levenshtein_def lev_chars_distance Let_def)

end
