(* ===== verification/Fts_Analyzer.thy ===== *)
theory Fts_Analyzer
  imports Edit_Distance "HOL-Library.List_Lexorder" "HOL-Library.Char_ord"
begin

text \<open>
  Text analysis of the full-text engine (\<^verbatim>\<open>fts/analyzer.rs\<close>): normalization, tokens of ASCII and
  Unicode text, n-grams of Han, Kana and Hangul runs, and the builder that numbers the terms of a
  document. Theorems: the numbered tokens of an analyzed document spell out the tokens of its
  fields in order, with a boundary between two fields, and its terms are exactly its tokens and
  n-grams, sorted. Normalization and segmentation of Unicode text are parameters; \<open>String\<close>
  comparison is the lexicographic order of \<^verbatim>\<open>List_Lexorder\<close> and \<^verbatim>\<open>Char_ord\<close> on bytes.
\<close>

section \<open>Configuration\<close>

record fts_config =
  max_chinese_length :: nat
  min_term_length :: nat
  fuzzy_threshold :: f64
  fuzzy_max_distance :: nat
  fuzzy_max_candidates :: nat
  track_doc_terms :: bool
  lazy_load :: bool
  cache_size :: nat

text \<open>\<open>0.7\<close> has the bits \<open>0x3FE6666666666666\<close>.\<close>

definition default_config :: fts_config where
  "default_config = \<lparr>max_chinese_length = 3, min_term_length = 2,
     fuzzy_threshold = 0x3FE6666666666666, fuzzy_max_distance = 2, fuzzy_max_candidates = 20,
     track_doc_terms = True, lazy_load = False, cache_size = 10000\<rparr>"

text \<open>
  The Unicode tables: normalization form KC, lower case of a character, word segmentation
  (\<open>split_word_bounds\<close>) and the words among the segments (\<open>unicode_words\<close>).
\<close>

record unicode =
  nfkc :: "string \<Rightarrow> string"
  to_lower :: "nat \<Rightarrow> nat list"
  split_word_bounds :: "string \<Rightarrow> string list"
  unicode_words :: "string \<Rightarrow> string list"

section \<open>Tokens\<close>

definition is_ascii :: "string \<Rightarrow> bool" where
  "is_ascii s = list_all (\<lambda>c. (of_char c :: nat) < 128) s"

definition normalize :: "unicode \<Rightarrow> string \<Rightarrow> string" where
  "normalize U txt =
     (if is_ascii txt then map ascii_lower txt
      else of_chars (concat (map (to_lower U) (chars (nfkc U txt)))))"

definition is_cjk :: "nat \<Rightarrow> bool" where
  "is_cjk c =
     (0x3400 \<le> c \<and> c \<le> 0x4dbf \<or> 0x4e00 \<le> c \<and> c \<le> 0x9fff \<or> 0xf900 \<le> c \<and> c \<le> 0xfaff
      \<or> 0x3040 \<le> c \<and> c \<le> 0x309f \<or> 0x30a0 \<le> c \<and> c \<le> 0x30ff \<or> 0x31f0 \<le> c \<and> c \<le> 0x31ff
      \<or> 0xac00 \<le> c \<and> c \<le> 0xd7af)"

definition flush_non_cjk :: "unicode \<Rightarrow> fts_config \<Rightarrow> nat list \<Rightarrow> string list \<Rightarrow> string list" where
  "flush_non_cjk U cfg buffer output =
     output @ filter (\<lambda>w. min_term_length cfg \<le> length (chars w)) (unicode_words U (of_chars buffer))"

fun segment_tokens :: "unicode \<Rightarrow> fts_config \<Rightarrow> nat list \<Rightarrow> nat list \<Rightarrow> string list \<Rightarrow> string list" where
  "segment_tokens U cfg [] non_cjk tokens = flush_non_cjk U cfg non_cjk tokens"
| "segment_tokens U cfg (c # cs) non_cjk tokens =
     (if is_cjk c then segment_tokens U cfg cs [] (flush_non_cjk U cfg non_cjk tokens @ [of_chars [c]])
      else segment_tokens U cfg cs (non_cjk @ [c]) tokens)"

definition primary_tokens :: "unicode \<Rightarrow> fts_config \<Rightarrow> string \<Rightarrow> string list" where
  "primary_tokens U cfg normalized =
     foldl (\<lambda>tokens segment. segment_tokens U cfg (chars segment) [] tokens) []
       (split_word_bounds U normalized)"

text \<open>\<open>str::split\<close>: the pieces between the characters that satisfy the predicate, empty ones included.\<close>

fun split_on :: "('a \<Rightarrow> bool) \<Rightarrow> 'a list \<Rightarrow> 'a list list" where
  "split_on P [] = [[]]"
| "split_on P (c # cs) =
     (if P c then [] # split_on P cs
      else (case split_on P cs of w # ws \<Rightarrow> (c # w) # ws | [] \<Rightarrow> [[c]]))"

definition is_word_char :: "char \<Rightarrow> bool" where
  "is_word_char c =
     (let n = of_char c :: nat
      in 48 \<le> n \<and> n \<le> 57 \<or> 65 \<le> n \<and> n \<le> 90 \<or> 97 \<le> n \<and> n \<le> 122 \<or> n = 95)"

definition ascii_words :: "fts_config \<Rightarrow> string \<Rightarrow> string list" where
  "ascii_words cfg normalized =
     filter (\<lambda>w. min_term_length cfg \<le> length w) (split_on (\<lambda>c. \<not> is_word_char c) normalized)"

text \<open>Maximal runs of CJK characters and their n-grams.\<close>

function cjk_runs :: "nat list \<Rightarrow> nat list list" where
  "cjk_runs [] = []"
| "cjk_runs (c # cs) =
     (if \<not> is_cjk c then cjk_runs cs
      else (c # takeWhile is_cjk cs) # cjk_runs (dropWhile is_cjk cs))"
  by pat_completeness auto

termination
  by (relation "measure length") (auto simp: le_imp_less_Suc length_dropWhile_le)

definition run_grams :: "fts_config \<Rightarrow> nat list \<Rightarrow> string list" where
  "run_grams cfg run =
     (let max_n = min (max (max_chinese_length cfg) 1) (length run)
      in concat (map (\<lambda>n. map (\<lambda>off. of_chars (take n (drop off run))) [0..<length run - n + 1])
                     [1..<max_n + 1]))"

definition cjk_grams :: "fts_config \<Rightarrow> string \<Rightarrow> string list" where
  "cjk_grams cfg normalized = concat (map (run_grams cfg) (cjk_runs (chars normalized)))"

section \<open>Numbering of terms\<close>

record analysis_builder =
  b_terms :: "(string, u32) hmap"
  b_tokens :: "u32 list"

record analyzed_document =
  a_terms :: "string list"
  a_tokens :: "u32 list"

definition builder_new :: analysis_builder where
  "builder_new = \<lparr>b_terms = [], b_tokens = []\<rparr>"

definition intern :: "string \<Rightarrow> analysis_builder \<Rightarrow> u32 \<times> analysis_builder" where
  "intern term b =
     (case hm_get (b_terms b) term of
        Some term_id \<Rightarrow> (term_id, b)
      | None \<Rightarrow>
          let term_id = of_nat (length (b_terms b)) + 1
          in (term_id, b\<lparr>b_terms := hm_insert term term_id (b_terms b)\<rparr>))"

definition push_term :: "string \<Rightarrow> analysis_builder \<Rightarrow> analysis_builder" where
  "push_term w b = (let (term_id, b') = intern w b in b'\<lparr>b_tokens := b_tokens b' @ [term_id]\<rparr>)"

definition add_text :: "unicode \<Rightarrow> fts_config \<Rightarrow> string \<Rightarrow> analysis_builder \<Rightarrow> analysis_builder" where
  "add_text U cfg txt b =
     (let normalized = normalize U txt
      in if is_ascii normalized then foldl (\<lambda>b w. push_term w b) b (ascii_words cfg normalized)
         else let b1 = foldl (\<lambda>b w. push_term w b) b (primary_tokens U cfg normalized)
              in foldl (\<lambda>b g. snd (intern g b)) b1 (cjk_grams cfg normalized))"

definition builder_finish :: "analysis_builder \<Rightarrow> analyzed_document" where
  "builder_finish b =
     (let entries = sort_key fst (b_terms b);
          remap = foldl (\<lambda>r (new_index, (term, old_id)). r[unat old_id := of_nat new_index + 1])
                    (replicate (length entries + 1) 0) (enumerate 0 entries)
      in \<lparr>a_terms = map fst entries,
          a_tokens = map (\<lambda>i. if i = 0 then 0 else remap ! unat i) (b_tokens b)\<rparr>)"

definition analyze_document :: "unicode \<Rightarrow> fts_config \<Rightarrow> string \<Rightarrow> analyzed_document" where
  "analyze_document U cfg txt = builder_finish (add_text U cfg txt builder_new)"

definition add_value :: "unicode \<Rightarrow> fts_config \<Rightarrow> analysis_builder \<Rightarrow> string \<Rightarrow> analysis_builder" where
  "add_value U cfg b value =
     (let prior_tokens = length (b_tokens b);
          b1 = (if 0 < prior_tokens then b\<lparr>b_tokens := b_tokens b @ [0]\<rparr> else b);
          boundary_index = length (b_tokens b1);
          b2 = add_text U cfg value b1
      in if length (b_tokens b2) = boundary_index \<and> 0 < prior_tokens
         then b2\<lparr>b_tokens := butlast (b_tokens b2)\<rparr> else b2)"

definition analyze_values :: "unicode \<Rightarrow> fts_config \<Rightarrow> string list \<Rightarrow> analyzed_document" where
  "analyze_values U cfg values = builder_finish (foldl (add_value U cfg) builder_new values)"

definition analyze :: "unicode \<Rightarrow> fts_config \<Rightarrow> string \<Rightarrow> string list" where
  "analyze U cfg txt = a_terms (analyze_document U cfg txt)"

section \<open>What the numbers stand for\<close>

text \<open>The words a token stream spells; a boundary is \<open>None\<close>.\<close>

definition spell :: "string list \<Rightarrow> u32 list \<Rightarrow> string option list" where
  "spell ts is = map (\<lambda>i. if i = 0 then None else Some (ts ! (unat i - 1))) is"

definition doc_words :: "analyzed_document \<Rightarrow> string option list" where
  "doc_words a = spell (a_terms a) (a_tokens a)"

definition analyzed_ok :: "analyzed_document \<Rightarrow> bool" where
  "analyzed_ok a \<longleftrightarrow> distinct (a_terms a) \<and> list_all (\<lambda>i. unat i \<le> length (a_terms a)) (a_tokens a)"

definition field_tokens :: "unicode \<Rightarrow> fts_config \<Rightarrow> string \<Rightarrow> string list" where
  "field_tokens U cfg txt =
     (let n = normalize U txt in if is_ascii n then ascii_words cfg n else primary_tokens U cfg n)"

definition field_grams :: "unicode \<Rightarrow> fts_config \<Rightarrow> string \<Rightarrow> string list" where
  "field_grams U cfg txt =
     (let n = normalize U txt in if is_ascii n then [] else cjk_grams cfg n)"

definition join_fields :: "'a option list \<Rightarrow> 'a list \<Rightarrow> 'a option list" where
  "join_fields acc ts =
     (if ts = [] then acc else if acc = [] then map Some ts else acc @ None # map Some ts)"

section \<open>The builder\<close>

abbreviation b_words :: "analysis_builder \<Rightarrow> string list" where
  "b_words b \<equiv> map fst (b_terms b)"

definition b_spell :: "analysis_builder \<Rightarrow> string option list" where
  "b_spell b = spell (b_words b) (b_tokens b)"

text \<open>Terms are numbered from one in the order in which they came.\<close>

definition builder_ok :: "analysis_builder \<Rightarrow> bool" where
  "builder_ok b \<longleftrightarrow> distinct (b_words b)
     \<and> map snd (b_terms b) = map (\<lambda>k. of_nat (Suc k)) [0..<length (b_terms b)]
     \<and> length (b_terms b) < 2 ^ 32 \<and> list_all (\<lambda>i. unat i \<le> length (b_terms b)) (b_tokens b)"

lemma builder_id:
  assumes "builder_ok b" and "k < length (b_terms b)"
  shows "snd (b_terms b ! k) = of_nat (Suc k)" and "unat (snd (b_terms b ! k)) = Suc k"
proof -
  have "snd (b_terms b ! k) = map snd (b_terms b) ! k" using assms(2) by simp
  also have "\<dots> = of_nat (Suc k)" using assms by (simp add: builder_ok_def)
  finally show id: "snd (b_terms b ! k) = of_nat (Suc k)" .
  have "Suc k < 2 ^ LENGTH(32)" using assms by (simp add: builder_ok_def)
  then show "unat (snd (b_terms b ! k)) = Suc k" unfolding id by (rule unat_of_nat_lt)
qed

lemma spell_append: "list_all (\<lambda>i. unat i \<le> length ts) is \<Longrightarrow> spell (ts @ us) is = spell ts is"
  by (auto simp: spell_def list_all_iff nth_append dest!: unat_gt_0 [THEN iffD2, rotated])

lemma spell_snoc: "spell ts (is @ js) = spell ts is @ spell ts js"
  by (simp add: spell_def)

text \<open>What \<open>intern\<close> does to a well-formed builder.\<close>

definition interns :: "string \<Rightarrow> analysis_builder \<Rightarrow> u32 \<Rightarrow> analysis_builder \<Rightarrow> bool" where
  "interns t b i b' \<longleftrightarrow> builder_ok b' \<and> b_words b' = (if t \<in> set (b_words b) then b_words b else b_words b @ [t])
     \<and> b_tokens b' = b_tokens b \<and> i \<noteq> 0 \<and> unat i \<le> length (b_terms b') \<and> b_words b' ! (unat i - 1) = t"

lemma intern_ok:
  assumes "builder_ok b" and "intern t b = (i, b')" and "length (b_terms b') < 2 ^ 32"
  shows "interns t b i b'"
proof (cases "hm_get (b_terms b) t")
  case None
  let ?n = "length (b_terms b)"
  have fresh: "t \<notin> set (b_words b)" using None hm_get_None by metis
  have i: "i = of_nat (Suc ?n)" and b': "b' = b\<lparr>b_terms := b_terms b @ [(t, of_nat (Suc ?n))]\<rparr>"
    using assms(2) fresh None by (auto simp: intern_def hm_insert_fresh add.commute Let_def)
  have lt: "Suc ?n < 2 ^ LENGTH(32)" using assms(3) by (simp add: b')
  have u: "unat i = Suc ?n" unfolding i by (rule unat_of_nat_lt [OF lt])
  have "list_all (\<lambda>i. unat i \<le> Suc ?n) (b_tokens b)"
    using assms(1) by (auto simp: builder_ok_def list_all_iff intro: le_SucI)
  then have "builder_ok b'"
    using assms(1) fresh lt by (auto simp: builder_ok_def b')
  then show ?thesis using fresh u by (auto simp: interns_def b' nth_append)
next
  case (Some j)
  then have b': "b' = b" and i: "i = j" using assms(2) by (auto simp: intern_def)
  from map_of_SomeD [OF Some] obtain k where k: "k < length (b_terms b)" "b_terms b ! k = (t, j)"
    by (auto simp: in_set_conv_nth)
  have "unat j = Suc k" using builder_id(2) [OF assms(1) k(1)] k(2) by simp
  moreover have "t \<in> set (b_words b)" using hm_get_in_keys [OF Some] .
  ultimately show ?thesis using k assms(1) by (auto simp: interns_def b' i)
qed

text \<open>A run of the builder: what is added to the terms and to the spelled tokens.\<close>

definition extends :: "analysis_builder \<Rightarrow> string set \<Rightarrow> string option list \<Rightarrow> analysis_builder \<Rightarrow> bool" where
  "extends b T W b' \<longleftrightarrow> builder_ok b' \<and> (\<exists>us. b_words b' = b_words b @ us)
     \<and> set (b_words b') = set (b_words b) \<union> T \<and> b_spell b' = b_spell b @ W
     \<and> length (b_tokens b') = length (b_tokens b) + length W"

lemma extends_refl: "builder_ok b \<Longrightarrow> extends b {} [] b"
  by (simp add: extends_def)

lemma extends_trans: "extends b T W c \<Longrightarrow> extends c T' W' d \<Longrightarrow> extends b (T \<union> T') (W @ W') d"
  unfolding extends_def by auto

lemma extends_ok: "extends b T W c \<Longrightarrow> builder_ok c"
  by (simp add: extends_def)

lemma intern_extends:
  assumes "builder_ok b" and "length (b_terms (snd (intern t b))) < 2 ^ 32"
  shows "extends b {t} [] (snd (intern t b))"
proof -
  obtain i b' where e: "intern t b = (i, b')" by fastforce
  have "interns t b i b'" using intern_ok [OF assms(1) e] assms(2) e by simp
  moreover have "list_all (\<lambda>i. unat i \<le> length (b_words b)) (b_tokens b)"
    using assms(1) by (simp add: builder_ok_def)
  ultimately show ?thesis
    using spell_append [of "b_words b" "b_tokens b" "[t]"]
    by (auto simp: e interns_def extends_def b_spell_def)
qed

lemma push_extends:
  assumes "builder_ok b" and "length (b_terms (push_term t b)) < 2 ^ 32"
  shows "extends b {t} [Some t] (push_term t b)"
proof -
  obtain i b' where e: "intern t b = (i, b')" by fastforce
  have "interns t b i b'" using intern_ok [OF assms(1) e] assms(2) e by (simp add: push_term_def)
  moreover have "extends b {t} [] b'"
    using intern_extends [OF assms(1), of t] assms(2) e by (simp add: push_term_def)
  moreover have "spell (b_words b') [i] = [Some t]"
  proof -
    have "b_words b' ! (unat i - 1) = t" "i \<noteq> 0"
      using \<open>interns t b i b'\<close> unfolding interns_def by blast+
    then show ?thesis unfolding spell_def by simp
  qed
  ultimately show ?thesis
    unfolding extends_def b_spell_def push_term_def e interns_def builder_ok_def by (simp add: spell_snoc)
qed

lemma intern_grows: "length (b_terms b) \<le> length (b_terms (snd (intern t b)))"
  by (auto simp: intern_def Let_def hm_get_None hm_insert_fresh split: option.splits)

lemma push_grows: "length (b_terms b) \<le> length (b_terms (push_term t b))"
  using intern_grows [of b t] by (simp add: push_term_def case_prod_beta)

lemma fold_grows:
  assumes "\<And>x b. length (b_terms b) \<le> length (b_terms (f b x))"
  shows "length (b_terms b) \<le> length (b_terms (foldl f b xs))"
  by (induction xs arbitrary: b) (auto intro: order_trans assms)

lemma fold_extends:
  assumes step: "\<And>b x. builder_ok b \<Longrightarrow> length (b_terms (f b x)) < 2 ^ 32 \<Longrightarrow> extends b (T x) (W x) (f b x)"
    and grows: "\<And>x b. length (b_terms b) \<le> length (b_terms (f b x))"
    and "builder_ok b" and "length (b_terms (foldl f b xs)) < 2 ^ 32"
  shows "extends b (\<Union> (T ` set xs)) (concat (map W xs)) (foldl f b xs)"
  using assms(4)
proof (induction xs rule: rev_induct)
  case Nil
  then show ?case using extends_refl [OF assms(3)] by simp
next
  case (snoc x xs)
  have "length (b_terms (foldl f b xs)) < 2 ^ 32"
    using snoc.prems grows [of "foldl f b xs" x] by simp
  then have IH: "extends b (\<Union> (T ` set xs)) (concat (map W xs)) (foldl f b xs)" by (rule snoc.IH)
  from extends_trans [OF IH step [OF extends_ok [OF IH]], of x] snoc.prems
  show ?case by (simp add: Un_commute)
qed

lemma concat_map_Some: "concat (map (\<lambda>x. [Some x]) xs) = map Some xs"
  by (induction xs) auto

lemma concat_map_Nil: "concat (map (\<lambda>x. []) xs) = []"
  by (induction xs) auto

lemma add_text_grows: "length (b_terms b) \<le> length (b_terms (add_text U cfg txt b))"
proof -
  have p: "length (b_terms b) \<le> length (b_terms (foldl (\<lambda>b w. push_term w b) b ws))" for b ws
    by (rule fold_grows) (rule push_grows)
  have i: "length (b_terms b) \<le> length (b_terms (foldl (\<lambda>b g. snd (intern g b)) b ws))" for b ws
    by (rule fold_grows) (rule intern_grows)
  show ?thesis unfolding add_text_def Let_def using p order_trans [OF p i] by auto
qed

lemma add_text_extends:
  assumes "builder_ok b" and "length (b_terms (add_text U cfg txt b)) < 2 ^ 32"
  shows "extends b (set (field_tokens U cfg txt) \<union> set (field_grams U cfg txt))
    (map Some (field_tokens U cfg txt)) (add_text U cfg txt b)"
proof -
  note push = fold_extends [where f = "\<lambda>b w. push_term w b" and T = "\<lambda>w. {w}" and W = "\<lambda>w. [Some w]",
      OF push_extends push_grows, simplified concat_map_Some, simplified]
  note grams = fold_extends [where f = "\<lambda>b w. snd (intern w b)" and T = "\<lambda>w. {w}" and W = "\<lambda>w. []",
      OF intern_extends intern_grows, simplified concat_map_Nil, simplified]
  show ?thesis
  proof (cases "is_ascii (normalize U txt)")
    case True
    with assms show ?thesis
      using push [of b "ascii_words cfg (normalize U txt)"]
      by (simp add: add_text_def field_tokens_def field_grams_def Let_def)
  next
    case False
    define b1 where "b1 = foldl (\<lambda>b w. push_term w b) b (primary_tokens U cfg (normalize U txt))"
    have r: "add_text U cfg txt b = foldl (\<lambda>b w. snd (intern w b)) b1 (cjk_grams cfg (normalize U txt))"
      using False by (simp add: add_text_def b1_def Let_def)
    have "length (b_terms b1) \<le> length (b_terms (add_text U cfg txt b))"
      unfolding r by (rule fold_grows) (rule intern_grows)
    then have e1: "extends b (set (primary_tokens U cfg (normalize U txt)))
        (map Some (primary_tokens U cfg (normalize U txt))) b1"
      using push [OF assms(1)] assms(2) by (simp add: b1_def)
    have "extends b1 (set (cjk_grams cfg (normalize U txt))) [] (add_text U cfg txt b)"
      using grams [OF extends_ok [OF e1]] assms(2) unfolding r by simp
    from extends_trans [OF e1 this] False show ?thesis
      by (simp add: field_tokens_def field_grams_def Let_def)
  qed
qed

lemma add_value_grows: "length (b_terms b) \<le> length (b_terms (add_value U cfg b v))"
proof -
  define b1 where "b1 = (if 0 < length (b_tokens b) then b\<lparr>b_tokens := b_tokens b @ [0]\<rparr> else b)"
  have "b_terms (add_value U cfg b v) = b_terms (add_text U cfg v b1)"
    unfolding add_value_def Let_def b1_def [symmetric] by (simp only: if_distrib) simp
  moreover have "b_terms b1 = b_terms b" by (simp add: b1_def)
  ultimately show ?thesis using add_text_grows [of b1 U cfg v] by simp
qed

text \<open>A value adds its tokens after a boundary, and nothing when it has none.\<close>

definition boundary :: "'a list \<Rightarrow> 'b list \<Rightarrow> 'b option list" where
  "boundary acc ts = (if ts = [] then [] else if acc = [] then map Some ts else None # map Some ts)"

lemma join_boundary: "join_fields acc ts = acc @ boundary acc ts"
  by (simp add: join_fields_def boundary_def)

lemma length_b_spell [simp]: "length (b_spell b) = length (b_tokens b)"
  by (simp add: b_spell_def spell_def)

lemma b_spell_Nil: "b_spell b = [] \<longleftrightarrow> b_tokens b = []"
  by (metis length_0_conv length_b_spell)

lemma add_value_extends:
  assumes "builder_ok b" and "length (b_terms (add_value U cfg b v)) < 2 ^ 32"
  shows "extends b (set (field_tokens U cfg v) \<union> set (field_grams U cfg v))
    (boundary (b_spell b) (field_tokens U cfg v)) (add_value U cfg b v)"
proof (cases "b_tokens b = []")
  case True
  then have "add_value U cfg b v = add_text U cfg v b" by (simp add: add_value_def Let_def)
  moreover have "boundary (b_spell b) (field_tokens U cfg v) = map Some (field_tokens U cfg v)"
    using True by (simp add: boundary_def b_spell_Nil)
  ultimately show ?thesis using add_text_extends [OF assms(1), of U cfg v] assms(2) by simp
next
  case False
  define b1 where "b1 = b\<lparr>b_tokens := b_tokens b @ [0]\<rparr>"
  have b1: "builder_ok b1" "b_words b1 = b_words b" "b_spell b1 = b_spell b @ [None]"
    using assms(1) by (auto simp: b1_def builder_ok_def b_spell_def spell_def)
  have lb1: "length (b_tokens b1) = Suc (length (b_tokens b))" by (simp add: b1_def)
  define b2 where "b2 = add_text U cfg v b1"
  have av: "add_value U cfg b v = (if length (b_tokens b2) = length (b_tokens b1)
      then b2\<lparr>b_tokens := butlast (b_tokens b2)\<rparr> else b2)"
    using False by (simp add: add_value_def b2_def b1_def Let_def)
  then have "length (b_terms b2) < 2 ^ 32" using assms(2) by (simp split: if_splits)
  then have e: "extends b1 (set (field_tokens U cfg v) \<union> set (field_grams U cfg v))
      (map Some (field_tokens U cfg v)) b2"
    unfolding b2_def by (rule add_text_extends [OF b1(1)])
  have len: "length (b_tokens b2) = length (b_tokens b) + 1 + length (field_tokens U cfg v)"
    using e by (simp add: extends_def b1_def)
  show ?thesis
  proof (cases "field_tokens U cfg v = []")
    case True
    have av: "add_value U cfg b v = b2\<lparr>b_tokens := butlast (b_tokens b2)\<rparr>"
      using av len True by (simp add: b1_def)
    have "spell ts (butlast is) = butlast (spell ts is)" for ts "is"
      by (simp add: spell_def map_butlast)
    moreover have "list_all P (butlast is)" if "list_all P is" for P and "is" :: "u32 list"
      using that by (auto simp: list_all_iff dest: in_set_butlastD)
    ultimately show ?thesis
      using e b1 True len lb1 unfolding av extends_def builder_ok_def b_spell_def boundary_def by simp
  next
    case nonempty: False
    then have "add_value U cfg b v = b2" using av len by (simp add: b1_def)
    then show ?thesis
      using e b1 nonempty len False by (simp add: extends_def boundary_def b_spell_Nil)
  qed
qed

definition values_words :: "unicode \<Rightarrow> fts_config \<Rightarrow> string list \<Rightarrow> string option list" where
  "values_words U cfg vs = foldl (\<lambda>acc v. join_fields acc (field_tokens U cfg v)) [] vs"

definition values_terms :: "unicode \<Rightarrow> fts_config \<Rightarrow> string list \<Rightarrow> string set" where
  "values_terms U cfg vs = (\<Union>v \<in> set vs. set (field_tokens U cfg v) \<union> set (field_grams U cfg v))"

lemma add_values_extends:
  assumes "length (b_terms (foldl (add_value U cfg) builder_new vs)) < 2 ^ 32"
  shows "extends builder_new (values_terms U cfg vs) (values_words U cfg vs)
    (foldl (add_value U cfg) builder_new vs)"
  using assms
proof (induction vs rule: rev_induct)
  case Nil
  then show ?case
    using extends_refl [of builder_new]
    by (simp add: values_words_def values_terms_def builder_ok_def builder_new_def)
next
  case (snoc v vs)
  let ?b = "foldl (add_value U cfg) builder_new vs"
  have "length (b_terms ?b) < 2 ^ 32"
    using snoc.prems add_value_grows [of ?b U cfg v] by simp
  then have IH: "extends builder_new (values_terms U cfg vs) (values_words U cfg vs) ?b" by (rule snoc.IH)
  then have sp: "b_spell ?b = values_words U cfg vs"
    by (simp add: extends_def builder_new_def b_spell_def spell_def)
  have "length (b_terms (add_value U cfg ?b v)) < 2 ^ 32" using snoc.prems by simp
  from extends_trans [OF IH add_value_extends [OF extends_ok [OF IH] this]]
  have "extends builder_new (values_terms U cfg (vs @ [v]))
      (join_fields (values_words U cfg vs) (field_tokens U cfg v)) (add_value U cfg ?b v)"
    by (simp add: values_terms_def join_boundary sp Un_commute)
  then show ?case by (simp add: values_words_def)
qed

section \<open>Sorting the terms\<close>

lemma remap_fold:
  assumes "distinct (map (\<lambda>e. unat (snd e)) es)" and "\<forall>e \<in> set es. unat (snd e) < length r"
    and "k < length es"
  shows "foldl (\<lambda>r (n, (t, old)). r[unat old := of_nat n + 1]) r (enumerate m es) ! unat (snd (es ! k))
    = of_nat (m + k) + 1"
  using assms
proof (induction es arbitrary: r m k)
  case (Cons e es)
  obtain t old where e: "e = (t, old)" by fastforce
  have keep: "foldl (\<lambda>r (n, (t, old)). r[unat old := of_nat n + 1]) r' (enumerate l xs) ! j = r' ! j"
    if "j \<notin> set (map (\<lambda>e. unat (snd e)) xs)" for r' :: "'c::{semiring_1,one} list" and l xs j
    using that by (induction xs arbitrary: r' l) (auto simp: case_prod_beta)
  show ?case
  proof (cases k)
    case 0
    have "unat old \<notin> set (map (\<lambda>e. unat (snd e)) es)" using Cons.prems(1) by (simp add: e)
    from keep [OF this] show ?thesis using 0 Cons.prems(2) by (simp add: e)
  next
    case (Suc j)
    then show ?thesis using Cons.prems Cons.IH [of "r[unat old := of_nat m + 1]" j "Suc m"]
      by (simp add: e)
  qed
qed simp

lemma finish_spells:
  assumes "builder_ok b"
  shows "doc_words (builder_finish b) = b_spell b" and "analyzed_ok (builder_finish b)"
    and "sorted_wrt (<) (a_terms (builder_finish b))" and "set (a_terms (builder_finish b)) = set (b_words b)"
    and "length (a_terms (builder_finish b)) = length (b_terms b)"
proof -
  let ?n = "length (b_terms b)" and ?es = "sort_key fst (b_terms b)"
  define remap where "remap = foldl (\<lambda>r (n, (t, old)). r[unat old := of_nat n + 1])
      (replicate (?n + 1) (0::u32)) (enumerate 0 ?es)"
  have n: "?n < 2 ^ 32" and dw: "distinct (b_words b)" using assms by (auto simp: builder_ok_def)
  have ids: "map (\<lambda>e. unat (snd e)) (b_terms b) = map Suc [0..<?n]"
    by (rule nth_equalityI) (simp_all add: builder_id(2) [OF assms])
  have "distinct (map (\<lambda>e. unat (snd e)) (b_terms b))" unfolding ids by (simp add: distinct_map)
  then have "distinct (map (\<lambda>e. unat (snd e)) ?es)" by (simp add: distinct_map)
  moreover have lt: "\<forall>e \<in> set ?es. unat (snd e) < ?n + 1"
  proof
    fix e assume "e \<in> set ?es"
    then have "unat (snd e) \<in> set (map (\<lambda>e. unat (snd e)) (b_terms b))" by auto
    then show "unat (snd e) < ?n + 1" unfolding ids by auto
  qed
  ultimately have rm: "remap ! unat (snd (?es ! k)) = of_nat k + 1" if "k < ?n" for k
    using remap_fold [of ?es "replicate (?n + 1) 0" k 0] that by (simp add: remap_def)
  have fin: "a_terms (builder_finish b) = map fst ?es"
    "a_tokens (builder_finish b) = map (\<lambda>i. if i = 0 then 0 else remap ! unat i) (b_tokens b)"
    by (simp_all add: builder_finish_def Let_def remap_def)
  have tok: "remap ! unat i \<noteq> 0 \<and> unat (remap ! unat i) \<le> ?n
      \<and> map fst ?es ! (unat (remap ! unat i) - 1) = b_words b ! (unat i - 1)"
    if "i \<in> set (b_tokens b)" "i \<noteq> 0" for i
  proof -
    have pos: "0 < unat i" using that(2) by (simp add: unat_gt_0)
    have i: "unat i - 1 < ?n" using that pos assms by (fastforce simp: builder_ok_def list_all_iff)
    let ?e = "b_terms b ! (unat i - 1)"
    have id: "unat (snd ?e) = unat i" using builder_id(2) [OF assms i] pos by simp
    have "?e \<in> set ?es" using i by simp
    then obtain k where k: "k < ?n" "?es ! k = ?e" by (metis in_set_conv_nth length_sort)
    have "unat (of_nat (Suc k) :: u32) = Suc k" by (rule unat_of_nat_lt) (use k n in simp)
    moreover have "remap ! unat i = of_nat (Suc k)" using rm [OF k(1)] k(2) id by (simp add: add.commute)
    ultimately have "unat (remap ! unat i) = Suc k" by simp
    then show ?thesis using k i by (auto simp: nth_map)
  qed
  show "doc_words (builder_finish b) = b_spell b"
    using tok by (auto simp: doc_words_def b_spell_def spell_def fin)
  show "analyzed_ok (builder_finish b)"
    using tok dw by (auto simp: analyzed_ok_def fin list_all_iff distinct_map distinct_sort)
  have "sorted (map fst ?es)" by simp
  moreover have "distinct (map fst ?es)" using dw by (simp add: distinct_map)
  ultimately show "sorted_wrt (<) (a_terms (builder_finish b))"
    unfolding fin by (simp add: strict_sorted_iff)
  show "set (a_terms (builder_finish b)) = set (b_words b)" "length (a_terms (builder_finish b)) = ?n"
    by (simp_all add: fin)
qed

text \<open>
  C20. Analysis is faithful: unless a document has more terms than term numbers, the terms of an
  analyzed document are the tokens and n-grams of its field values, strictly sorted, and its
  numbered tokens spell out the tokens of the fields in order with one boundary between two
  fields that have tokens.
\<close>

theorem analysis_faithful:
  fixes U cfg vs
  defines "a \<equiv> analyze_values U cfg vs"
  assumes "length (a_terms a) < 2 ^ 32"
  shows "set (a_terms a) = values_terms U cfg vs \<and> sorted_wrt (<) (a_terms a)
    \<and> doc_words a = values_words U cfg vs \<and> analyzed_ok a"
proof -
  let ?b = "foldl (add_value U cfg) builder_new vs"
  have "length (b_terms ?b) < 2 ^ 32"
    using assms by (simp add: analyze_values_def builder_finish_def Let_def)
  from add_values_extends [OF this]
  have e: "extends builder_new (values_terms U cfg vs) (values_words U cfg vs) ?b" .
  then have "set (b_words ?b) = values_terms U cfg vs" "b_spell ?b = values_words U cfg vs"
    by (auto simp: extends_def builder_new_def b_spell_def spell_def)
  with finish_spells [OF extends_ok [OF e]] show ?thesis unfolding a_def analyze_values_def by simp
qed

definition plain_unicode :: unicode where
  "plain_unicode = \<lparr>nfkc = (\<lambda>s. s), to_lower = (\<lambda>c. [c]), split_word_bounds = (\<lambda>s. [s]),
     unicode_words = (\<lambda>s. [s])\<rparr>"

theorem analysis_faithful_witness:
  "let a = analyze_values plain_unicode default_config [''Rust, go'', ''-'', ''go_2 rust'']
   in length (a_terms a) < 2 ^ 32 \<and> sorted_wrt (<) (a_terms a)
     \<and> doc_words a = [Some ''rust'', Some ''go'', None, Some ''go_2'', Some ''rust'']"
proof -
  let ?vs = "[''Rust, go'', ''-'', ''go_2 rust'']"
  have "length (a_terms (analyze_values plain_unicode default_config ?vs)) = 3" by code_simp
  then have "length (a_terms (analyze_values plain_unicode default_config ?vs)) < 2 ^ 32" by simp
  moreover have "values_words plain_unicode default_config ?vs
      = [Some ''rust'', Some ''go'', None, Some ''go_2'', Some ''rust'']" by code_simp
  ultimately show ?thesis
    using analysis_faithful [of plain_unicode default_config ?vs] unfolding Let_def by simp
qed

end
