(* ===== verification/Fts_Directory.thy ===== *)
theory Fts_Directory
  imports Fts_Postings
begin

text \<open>
  The term directory of a memory-mapped snapshot (\<^verbatim>\<open>fts/index.rs\<close>, \<open>MmapTermDirectory\<close>): bounds
  checks on its entries, binary search for a term, decoding of postings and the bounded cache of
  decoded postings. Theorems: the cache is transparent and never larger than its capacity, its
  eviction loop ends; on the bytes of a sorted list of terms a lookup finds exactly those terms.
\<close>

section \<open>Errors\<close>

text \<open>
  \<open>FtsDiverges\<close> is the failure of a loop that the code would run forever.
\<close>

datatype fts_error =
    FtsIo error_kind string | CorruptIndex string | BackgroundFlush string | FtsPanic | FtsDiverges

type_synonym 'a fts = "fts_error + 'a"

text \<open>\<open>slice::get\<close> with a range.\<close>

definition get_range :: "'a list \<Rightarrow> nat \<Rightarrow> nat \<Rightarrow> 'a list option" where
  "get_range xs a b = (if a \<le> b \<and> b \<le> length xs then Some (take (b - a) (drop a xs)) else None)"

definition ok_or :: "'e \<Rightarrow> 'a option \<Rightarrow> 'e + 'a" where
  "ok_or e x = (case x of None \<Rightarrow> Inl e | Some y \<Rightarrow> Inr y)"

lemma ok_or_simps [simp]: "ok_or e None = Inl e" "ok_or e (Some y) = Inr y"
  by (simp_all add: ok_or_def)

text \<open>The reader of a serialized bitmap: its value and the bytes it consumed.\<close>

type_synonym treemap_de = "bytes \<Rightarrow> (treemap \<times> nat) option"

section \<open>Entries\<close>

definition MAX_TERM_BYTES :: nat where "MAX_TERM_BYTES = 1048576"
definition TERM_DIRECTORY_ENTRY_BYTES :: nat where "TERM_DIRECTORY_ENTRY_BYTES = 40"
definition POSTING_CODEC_ROARING :: u32 where "POSTING_CODEC_ROARING = 0"
definition POSTING_CODEC_SINGLE_DOC :: u32 where "POSTING_CODEC_SINGLE_DOC = 1"

record mmap_term_meta =
  term_offset :: nat
  term_len :: nat
  m_term_id :: u32
  posting_value :: u64
  posting_len :: nat
  posting_codec :: u32

record mmap_term_directory =
  mmap :: bytes
  directory_offset :: nat
  term_count :: nat
  cache_capacity :: nat
  dir_cache :: "(nat, posting) hmap \<times> nat list"

definition read_u32_at :: "mmap_term_directory \<Rightarrow> nat \<Rightarrow> u32 fts" where
  "read_u32_at dir off =
     rbind (ok_or (CorruptIndex ''term directory exceeds snapshot bounds'') (get_range (mmap dir) off (off + 4)))
       (\<lambda>b. Inr (from_le_bytes b))"

definition read_u64_at :: "mmap_term_directory \<Rightarrow> nat \<Rightarrow> u64 fts" where
  "read_u64_at dir off =
     rbind (ok_or (CorruptIndex ''term directory exceeds snapshot bounds'') (get_range (mmap dir) off (off + 8)))
       (\<lambda>b. Inr (from_le_bytes b))"

definition check_posting :: "mmap_term_directory \<Rightarrow> mmap_term_meta \<Rightarrow> mmap_term_meta fts" where
  "check_posting dir m =
     (if posting_codec m = POSTING_CODEC_ROARING then
        let posting_offset = unat (posting_value m)
        in if 2 ^ 64 \<le> posting_offset + posting_len m \<or> length (mmap dir) - 4 < posting_offset + posting_len m
           then Inl (CorruptIndex ''posting entry exceeds snapshot bounds'') else Inr m
      else if posting_codec m = POSTING_CODEC_SINGLE_DOC then
        if posting_len m = 0 then Inr m
        else Inl (CorruptIndex ''single-document posting has a payload'')
      else Inl (CorruptIndex ''unsupported posting codec {posting_codec}''))"

definition dir_meta :: "mmap_term_directory \<Rightarrow> nat \<Rightarrow> mmap_term_meta fts" where
  "dir_meta dir index =
     (if term_count dir \<le> index then Inl (CorruptIndex ''term directory index out of bounds'')
      else let off = directory_offset dir + index * TERM_DIRECTORY_ENTRY_BYTES in
        rbind (read_u64_at dir off) (\<lambda>t_off.
        rbind (read_u32_at dir (off + 8)) (\<lambda>t_len.
        rbind (read_u32_at dir (off + 12)) (\<lambda>t_id.
        rbind (read_u64_at dir (off + 16)) (\<lambda>p_value.
        rbind (read_u64_at dir (off + 24)) (\<lambda>p_len.
        rbind (read_u32_at dir (off + 32)) (\<lambda>codec.
          let to' = unat t_off; tl' = unat t_len in
          if MAX_TERM_BYTES < tl' \<or> 2 ^ 64 \<le> to' + tl' \<or> length (mmap dir) - 4 < to' + tl'
          then Inl (CorruptIndex ''term entry exceeds snapshot bounds'')
          else check_posting dir \<lparr>term_offset = to', term_len = tl', m_term_id = t_id,
                 posting_value = p_value, posting_len = unat p_len, posting_codec = codec\<rparr>)))))))"

definition dir_term_bytes :: "mmap_term_directory \<Rightarrow> mmap_term_meta \<Rightarrow> bytes fts" where
  "dir_term_bytes dir m =
     ok_or (CorruptIndex ''term exceeds snapshot bounds'')
       (get_range (mmap dir) (term_offset m) (term_offset m + term_len m))"

definition check_utf8 :: "bytes \<Rightarrow> string fts" where
  "check_utf8 b = (if utf8_valid b then Inr (of_bytes b) else Inl (CorruptIndex ''invalid term UTF-8: {error}''))"

definition dir_term :: "mmap_term_directory \<Rightarrow> nat \<Rightarrow> string fts" where
  "dir_term dir index =
     rbind (dir_meta dir index) (\<lambda>m. rbind (dir_term_bytes dir m) check_utf8)"

text \<open>A directory is accepted when its terms are valid and strictly sorted.\<close>

fun dir_check :: "mmap_term_directory \<Rightarrow> nat list \<Rightarrow> bytes option \<Rightarrow> unit fts" where
  "dir_check dir [] previous = Inr ()"
| "dir_check dir (i # rest) previous =
     rbind (dir_meta dir i) (\<lambda>m.
     rbind (dir_term_bytes dir m) (\<lambda>t.
     rbind (check_utf8 t) (\<lambda>_.
       if (case previous of None \<Rightarrow> False | Some p \<Rightarrow> t \<le> p)
       then Inl (CorruptIndex ''mmap term directory is not strictly sorted'')
       else dir_check dir rest (Some t))))"

definition dir_new :: "bytes \<Rightarrow> nat \<Rightarrow> nat \<Rightarrow> nat \<Rightarrow> mmap_term_directory fts" where
  "dir_new mm off n capacity =
     (let dir = \<lparr>mmap = mm, directory_offset = off, term_count = n, cache_capacity = capacity,
                 dir_cache = ([], [])\<rparr>
      in rbind (dir_check dir [0..<n] None) (\<lambda>_. Inr dir))"

section \<open>Lookups\<close>

function dir_search :: "mmap_term_directory \<Rightarrow> bytes \<Rightarrow> nat \<Rightarrow> nat \<Rightarrow> (nat \<times> mmap_term_meta) option fts" where
  "dir_search dir t low high =
     (if low < high then
        let mid = low + (high - low) div 2 in
        rbind (dir_meta dir mid) (\<lambda>m.
        rbind (dir_term_bytes dir m) (\<lambda>b.
          case cmp_of b t of
            Less \<Rightarrow> dir_search dir t (mid + 1) high
          | Greater \<Rightarrow> dir_search dir t low mid
          | Equal \<Rightarrow> Inr (Some (mid, m))))
      else Inr None)"
  by pat_completeness auto

termination
  by (relation "measure (\<lambda>(dir, t, low, high). high - low)") auto

declare dir_search.simps [simp del]

definition dir_find :: "mmap_term_directory \<Rightarrow> string \<Rightarrow> (nat \<times> mmap_term_meta) option fts" where
  "dir_find dir t = dir_search dir (as_bytes t) 0 (term_count dir)"

definition decode_posting :: "treemap_de \<Rightarrow> mmap_term_directory \<Rightarrow> mmap_term_meta \<Rightarrow> posting fts" where
  "decode_posting R dir m =
     (if posting_codec m = POSTING_CODEC_SINGLE_DOC
      then Inr \<lparr>p_term_id = m_term_id m, p_docs = POne (posting_value m)\<rparr>
      else case get_range (mmap dir) (unat (posting_value m)) (unat (posting_value m) + posting_len m) of
             None \<Rightarrow> Inl FtsPanic
           | Some bytes \<Rightarrow>
               (case R bytes of
                  None \<Rightarrow> Inl (CorruptIndex ''invalid mmap posting: {error}'')
                | Some (docs, consumed) \<Rightarrow>
                    if consumed \<noteq> length bytes then Inl (CorruptIndex ''unexpected bytes after mmap posting'')
                    else Inr \<lparr>p_term_id = m_term_id m, p_docs = pd_from_roaring docs\<rparr>))"

text \<open>Moving an entry of the cache to the back of its queue.\<close>

definition touch :: "nat \<Rightarrow> nat list \<Rightarrow> nat list" where
  "touch index q =
     (case position (\<lambda>c. c = index) q of None \<Rightarrow> q | Some p \<Rightarrow> vec_remove p q) @ [index]"

fun evict :: "nat \<Rightarrow> (nat, posting) hmap \<Rightarrow> nat list \<Rightarrow> ((nat, posting) hmap \<times> nat list) fts" where
  "evict cap m [] = (if cap < length m then Inl FtsDiverges else Inr (m, []))"
| "evict cap m (e # q) = (if cap < length m then evict cap (hm_remove e m) q else Inr (m, e # q))"

definition cache_put :: "nat \<Rightarrow> posting \<Rightarrow> mmap_term_directory \<Rightarrow> mmap_term_directory fts" where
  "cache_put index p dir =
     rbind (evict (cache_capacity dir) (hm_insert index p (fst (dir_cache dir))) (touch index (snd (dir_cache dir))))
       (\<lambda>c. Inr (dir\<lparr>dir_cache := c\<rparr>))"

definition dir_posting :: "treemap_de \<Rightarrow> mmap_term_directory \<Rightarrow> string \<Rightarrow>
    (posting option \<times> mmap_term_directory) fts" where
  "dir_posting R dir t =
     rbind (dir_find dir t) (\<lambda>found. case found of
       None \<Rightarrow> Inr (None, dir)
     | Some (index, m) \<Rightarrow>
         if posting_codec m = POSTING_CODEC_SINGLE_DOC
         then Inr (Some \<lparr>p_term_id = m_term_id m, p_docs = POne (posting_value m)\<rparr>, dir)
         else
           (case (if 0 < cache_capacity dir then hm_get (fst (dir_cache dir)) index else None) of
              Some p \<Rightarrow> Inr (Some p, dir\<lparr>dir_cache := (fst (dir_cache dir), touch index (snd (dir_cache dir)))\<rparr>)
            | None \<Rightarrow>
                rbind (decode_posting R dir m) (\<lambda>p.
                  if 0 < cache_capacity dir
                  then rbind (cache_put index p dir) (\<lambda>dir'. Inr (Some p, dir'))
                  else Inr (Some p, dir))))"

definition dir_term_id :: "mmap_term_directory \<Rightarrow> string \<Rightarrow> u32 option" where
  "dir_term_id dir t =
     (case dir_find dir t of Inr (Some (_, m)) \<Rightarrow> Some (m_term_id m) | _ \<Rightarrow> None)"

definition dir_terms :: "mmap_term_directory \<Rightarrow> string list fts" where
  "dir_terms dir = rmap (dir_term dir) [0..<term_count dir]"

definition materialize :: "treemap_de \<Rightarrow> mmap_term_directory \<Rightarrow> (string, posting) hmap fts" where
  "materialize R dir =
     rfold (\<lambda>index ps.
       rbind (dir_meta dir index) (\<lambda>m.
       rbind (dir_term_bytes dir m) (\<lambda>b.
       rbind (check_utf8 b) (\<lambda>t.
       rbind (decode_posting R dir m) (\<lambda>p. Inr (hm_insert t p ps)))))) [0..<term_count dir] []"

section \<open>The cache\<close>

text \<open>A lookup without the cache.\<close>

definition dir_lookup :: "treemap_de \<Rightarrow> mmap_term_directory \<Rightarrow> string \<Rightarrow> posting option fts" where
  "dir_lookup R dir t =
     rbind (dir_find dir t) (\<lambda>found. case found of
       None \<Rightarrow> Inr None | Some (index, m) \<Rightarrow> rbind (decode_posting R dir m) (\<lambda>p. Inr (Some p)))"

text \<open>The queue lists the cached entries once each, and every cached posting is the decoded one.\<close>

definition cache_ok :: "treemap_de \<Rightarrow> mmap_term_directory \<Rightarrow> bool" where
  "cache_ok R dir \<longleftrightarrow> (case dir_cache dir of (m, q) \<Rightarrow>
     hm_wf m \<and> distinct q \<and> set q = set (hm_keys m) \<and> (0 < cache_capacity dir \<longrightarrow> length m \<le> cache_capacity dir)
     \<and> (\<forall>e \<in> set m. \<exists>meta. dir_meta dir (fst e) = Inr meta \<and> decode_posting R dir meta = Inr (snd e)))"

lemma dir_cong:
  assumes "mmap dir' = mmap dir" "directory_offset dir' = directory_offset dir" "term_count dir' = term_count dir"
  shows "dir_meta dir' = dir_meta dir" and "dir_term_bytes dir' = dir_term_bytes dir"
    and "decode_posting R dir' = decode_posting R dir" and "dir_search dir' t = dir_search dir t"
proof -
  have rd: "read_u32_at dir' = read_u32_at dir" "read_u64_at dir' = read_u64_at dir"
    using assms by (auto simp: fun_eq_iff read_u32_at_def read_u64_at_def)
  have cp: "check_posting dir' = check_posting dir"
    using assms by (auto simp: fun_eq_iff check_posting_def)
  show m: "dir_meta dir' = dir_meta dir" unfolding dir_meta_def rd cp assms by (rule refl)
  show b: "dir_term_bytes dir' = dir_term_bytes dir" using assms by (auto simp: fun_eq_iff dir_term_bytes_def)
  show "decode_posting R dir' = decode_posting R dir" unfolding decode_posting_def assms by (rule refl)
  have "dir_search dir' t low high = dir_search dir t low high" for low high
  proof (induction "high - low" arbitrary: low high rule: less_induct)
    case less
    show ?case
      by (subst (1 2) dir_search.simps)
         (auto simp: m b Let_def rbind_def split: sum.splits ordering.splits intro!: less)
  qed
  then show "dir_search dir' t = dir_search dir t" by (auto simp: fun_eq_iff)
qed

lemma touch:
  assumes "distinct q"
  shows "distinct (touch i q)" and "set (touch i q) = insert i (set q)"
proof -
  have "distinct (touch i q) \<and> set (touch i q) = insert i (set q)"
  proof (cases "position (\<lambda>c. c = i) q")
    case None
    then have "i \<notin> set q" by (auto simp: position_None)
    then show ?thesis using assms None by (simp add: touch_def)
  next
    case (Some p)
    then have p: "p < length q" "q ! p = i" using position_Some by blast+
    then have "q = take p q @ i # drop (Suc p) q" by (metis id_take_nth_drop)
    moreover have "touch i q = take p q @ drop (Suc p) q @ [i]" by (simp add: touch_def Some vec_remove_def)
    ultimately obtain a b where "q = a @ i # b" "touch i q = a @ b @ [i]" by metis
    then show ?thesis using assms by auto
  qed
  then show "distinct (touch i q)" and "set (touch i q) = insert i (set q)" by auto
qed

lemma set_update_sub: "set (hm_insert k v m) \<subseteq> insert (k, v) (set m)"
  by (induction m) auto

lemma evict_ok:
  assumes "hm_wf m" and "distinct q" and "set q = set (hm_keys m)"
  shows "\<exists>m' q'. evict cap m q = Inr (m', q') \<and> hm_wf m' \<and> distinct q' \<and> set q' = set (hm_keys m')
    \<and> length m' \<le> cap \<and> set m' \<subseteq> set m"
  using assms
proof (induction cap m q rule: evict.induct)
  case (2 cap m e q)
  have sub: "set (hm_remove e m) \<subseteq> set m" by (auto simp: AList.delete_eq)
  have "set q = set (hm_keys (hm_remove e m))"
    using "2.prems" unfolding hm_keys_remove by auto
  then show ?case using 2 sub hm_wf_remove [OF "2.prems"(1), of e] by fastforce
qed auto

lemma dir_search_meta: "dir_search dir b low high = Inr (Some (i, x)) \<Longrightarrow> dir_meta dir i = Inr x"
proof (induction "high - low" arbitrary: low high rule: less_induct)
  case less
  let ?mid = "low + (high - low) div 2"
  have lt: "low < high" using less.prems by (subst (asm) dir_search.simps) (auto split: if_splits)
  then obtain m t where m: "dir_meta dir ?mid = Inr m" "dir_term_bytes dir m = Inr t"
    using less.prems by (subst (asm) dir_search.simps) (auto simp: Let_def rbind_eq_Inr)
  have r: "dir_search dir b low high = (case cmp_of t b of Less \<Rightarrow> dir_search dir b (?mid + 1) high
      | Greater \<Rightarrow> dir_search dir b low ?mid | Equal \<Rightarrow> Inr (Some (?mid, m)))"
    using lt m by (subst dir_search.simps) (simp add: Let_def)
  show ?case
    using less.prems less.hyps [of high "?mid + 1"] less.hyps [of ?mid low] lt m(1) unfolding r
    by (cases "cmp_of t b") auto
qed

lemma dir_find_meta: "dir_find dir t = Inr (Some (i, x)) \<Longrightarrow> dir_meta dir i = Inr x"
  unfolding dir_find_def by (rule dir_search_meta)

text \<open>Replacing the cache of a directory.\<close>

lemma cache_okI:
  assumes "hm_wf m'" "distinct q'" "set q' = set (hm_keys m')" "length m' \<le> cache_capacity dir"
    and "\<And>e. e \<in> set m' \<Longrightarrow> \<exists>meta. dir_meta dir (fst e) = Inr meta \<and> decode_posting R dir meta = Inr (snd e)"
  shows "cache_ok R (dir\<lparr>dir_cache := (m', q')\<rparr>)"
  using assms dir_cong(1,3) [of "dir\<lparr>dir_cache := (m', q')\<rparr>" dir] by (simp add: cache_ok_def)

lemma cache_okD:
  assumes "cache_ok R dir"
  shows "hm_wf (fst (dir_cache dir))" "distinct (snd (dir_cache dir))"
    "set (snd (dir_cache dir)) = set (hm_keys (fst (dir_cache dir)))"
    "0 < cache_capacity dir \<Longrightarrow> length (fst (dir_cache dir)) \<le> cache_capacity dir"
    "e \<in> set (fst (dir_cache dir)) \<Longrightarrow>
       \<exists>meta. dir_meta dir (fst e) = Inr meta \<and> decode_posting R dir meta = Inr (snd e)"
  using assms by (auto simp: cache_ok_def split: prod.splits)

lemma cache_touch_ok:
  assumes "cache_ok R dir" and "hm_get (fst (dir_cache dir)) i = Some p" and "0 < cache_capacity dir"
  shows "cache_ok R (dir\<lparr>dir_cache := (fst (dir_cache dir), touch i (snd (dir_cache dir)))\<rparr>)"
  using touch [OF cache_okD(2) [OF assms(1)], of i] cache_okD [OF assms(1)] assms(3)
    hm_get_in_keys [OF assms(2)]
  by (intro cache_okI) auto

lemma cache_put_ok:
  assumes "cache_ok R dir" and "dir_meta dir i = Inr x" and "decode_posting R dir x = Inr p"
  shows "\<exists>dir'. cache_put i p dir = Inr dir' \<and> cache_ok R dir' \<and> mmap dir' = mmap dir"
proof -
  obtain m q where c: "dir_cache dir = (m, q)" by fastforce
  note ok = cache_okD [OF assms(1), unfolded c, simplified]
  let ?m = "hm_insert i p m"
  have keys: "set (touch i q) = set (hm_keys ?m)"
    using touch(2) [OF ok(2), of i] ok(3) hm_keys_insert [of i p m] by simp
  obtain m' q' where e: "evict (cache_capacity dir) ?m (touch i q) = Inr (m', q')" "hm_wf m'"
    "distinct q'" "set q' = set (hm_keys m')" "length m' \<le> cache_capacity dir" "set m' \<subseteq> set ?m"
    using evict_ok [OF hm_wf_insert [OF ok(1)] touch(1) [OF ok(2)] keys] by blast
  have "\<exists>meta. dir_meta dir (fst e) = Inr meta \<and> decode_posting R dir meta = Inr (snd e)"
    if "e \<in> set m'" for e
  proof -
    have "e = (i, p) \<or> e \<in> set m" using that subset_trans [OF e(6) set_update_sub] by auto
    then show ?thesis using ok(5) assms(2,3) by auto
  qed
  then have "cache_ok R (dir\<lparr>dir_cache := (m', q')\<rparr>)" using e by (intro cache_okI) auto
  then show ?thesis using e(1) by (simp add: cache_put_def c)
qed

lemma cached_lookup:
  assumes "cache_ok R dir"
  shows "case dir_posting R dir t of
      Inl e \<Rightarrow> dir_lookup R dir t = Inl e
    | Inr (p, dir') \<Rightarrow> dir_lookup R dir t = Inr p \<and> cache_ok R dir' \<and> mmap dir' = mmap dir"
proof (cases "dir_find dir t")
  case (Inr found)
  show ?thesis
  proof (cases found)
    case (Some ix)
    obtain i x where ix: "ix = (i, x)" by fastforce
    have x: "dir_meta dir i = Inr x" using Inr Some ix dir_find_meta by simp
    note [simp] = dir_posting_def dir_lookup_def Inr Some ix
    show ?thesis
    proof (cases "posting_codec x = POSTING_CODEC_SINGLE_DOC \<or> cache_capacity dir = 0")
      case True
      then show ?thesis using assms by (cases "decode_posting R dir x") (auto simp: decode_posting_def)
    next
      case False
      show ?thesis
      proof (cases "hm_get (fst (dir_cache dir)) i")
        case hit: (Some p)
        have "decode_posting R dir x = Inr p"
          using cache_okD(5) [OF assms map_of_SomeD [OF hit]] x by auto
        then show ?thesis using False hit cache_touch_ok [OF assms hit] by simp
      next
        case None
        show ?thesis
        proof (cases "decode_posting R dir x")
          case p: (Inr p)
          from cache_put_ok [OF assms x p] show ?thesis using False None p by auto
        qed (use False None in simp)
      qed
    qed
  qed (use Inr assms in \<open>simp add: dir_posting_def dir_lookup_def\<close>)
qed (simp add: dir_posting_def dir_lookup_def)

text \<open>
  The posting cache is transparent and bounded: whatever the cache holds, a lookup in a
  memory-mapped term directory returns what decoding the entry returns, errors included; the
  eviction loop ends; and afterwards the cache is consistent again, holds no more postings than
  its capacity, and the mapped bytes are untouched.
\<close>

theorem posting_cache_transparent:
  assumes "cache_ok R dir"
  shows "case dir_posting R dir t of
      Inl e \<Rightarrow> dir_lookup R dir t = Inl e
    | Inr (p, dir') \<Rightarrow> dir_lookup R dir t = Inr p \<and> cache_ok R dir' \<and> mmap dir' = mmap dir"
  using assms by (rule cached_lookup)

section \<open>What a directory holds\<close>

text \<open>The bytes of a term order as the term does.\<close>

lemma as_bytes_simps: "as_bytes [] = []" "as_bytes (c # s) = of_nat (of_char c) # as_bytes s"
  by (simp_all add: as_bytes_def)

lemma byte_less: "(of_nat (of_char c) :: u8) < of_nat (of_char d) \<longleftrightarrow> c < d"
proof -
  have "unat (of_nat (of_char c) :: u8) = of_char c" for c :: char
    by (rule unat_of_nat_lt) simp
  then show ?thesis by (simp add: word_less_nat_alt less_char_def)
qed

lemma as_bytes_inj: "as_bytes s = as_bytes t \<longleftrightarrow> s = t"
  by (metis of_as_bytes)

lemma as_bytes_less: "as_bytes s < as_bytes t \<longleftrightarrow> s < t"
proof (induction s arbitrary: t)
  case Nil
  then show ?case by (cases t) (simp_all add: as_bytes_simps)
next
  case (Cons c s)
  have "(of_nat (of_char c) :: u8) = of_nat (of_char d) \<longleftrightarrow> c = d" for d
    using as_bytes_inj [of "[c]" "[d]"] by (simp add: as_bytes_simps)
  with Cons show ?case by (cases t) (simp_all add: as_bytes_simps byte_less)
qed

lemma as_bytes_cmp: "cmp_of (as_bytes s) (as_bytes t) = cmp_of s t"
  by (simp add: cmp_of_def as_bytes_less as_bytes_inj)

text \<open>
  \<open>dir_holds R dir es\<close>: the entries of the directory are the terms \<open>es\<close> with their postings, strictly
  sorted.
\<close>

definition entry_holds :: "treemap_de \<Rightarrow> mmap_term_directory \<Rightarrow> nat \<Rightarrow> string \<times> posting \<Rightarrow> bool" where
  "entry_holds R dir k e \<longleftrightarrow> (\<exists>m. dir_meta dir k = Inr m \<and> dir_term_bytes dir m = Inr (as_bytes (fst e))
     \<and> utf8_valid (as_bytes (fst e)) \<and> decode_posting R dir m = Inr (snd e) \<and> m_term_id m = p_term_id (snd e))"

definition dir_holds :: "treemap_de \<Rightarrow> mmap_term_directory \<Rightarrow> (string \<times> posting) list \<Rightarrow> bool" where
  "dir_holds R dir es \<longleftrightarrow> term_count dir = length es \<and> sorted_wrt (<) (map fst es)
     \<and> (\<forall>k < length es. entry_holds R dir k (es ! k))"

lemma dir_search_finds:
  assumes h: "dir_holds R dir es" and "high \<le> length es"
    and "\<And>k. k < low \<Longrightarrow> fst (es ! k) < t" and "\<And>k. high \<le> k \<Longrightarrow> k < length es \<Longrightarrow> t < fst (es ! k)"
  shows "(\<exists>k m. dir_search dir (as_bytes t) low high = Inr (Some (k, m)) \<and> k < length es
      \<and> fst (es ! k) = t \<and> dir_meta dir k = Inr m)
    \<or> dir_search dir (as_bytes t) low high = Inr None \<and> t \<notin> fst ` set es"
  using assms(2-)
proof (induction "high - low" arbitrary: low high rule: less_induct)
  case less
  let ?mid = "low + (high - low) div 2"
  have sorted: "fst (es ! a) < fst (es ! b)" if "a < b" "b < length es" for a b
    using h sorted_wrt_nth_less [of "(<)" "map fst es" a b] that by (simp add: dir_holds_def)
  show ?case
  proof (cases "low < high")
    case True
    then have mid: "?mid < high" "?mid < length es" "low \<le> ?mid" using less.prems(1) by auto
    then obtain m where m: "dir_meta dir ?mid = Inr m" "dir_term_bytes dir m = Inr (as_bytes (fst (es ! ?mid)))"
      using h by (auto simp: dir_holds_def entry_holds_def)
    have r: "dir_search dir (as_bytes t) low high = (case cmp_of (fst (es ! ?mid)) t of
        Less \<Rightarrow> dir_search dir (as_bytes t) (?mid + 1) high
      | Greater \<Rightarrow> dir_search dir (as_bytes t) low ?mid | Equal \<Rightarrow> Inr (Some (?mid, m)))"
      using True m by (subst dir_search.simps) (simp add: Let_def as_bytes_cmp)
    show ?thesis
    proof (cases "cmp_of (fst (es ! ?mid)) t")
      case Less
      have "fst (es ! k) < t" if "k < ?mid + 1" for k
        using that Less sorted [of k ?mid] mid by (cases "k = ?mid") auto
      then show ?thesis unfolding r Less ordering.case
        using less.hyps [of high "?mid + 1"] less.prems mid by simp
    next
      case Equal
      then have "fst (es ! ?mid) = t" by simp
      then show ?thesis unfolding r Equal ordering.case using m mid by simp
    next
      case Greater
      have "t < fst (es ! k)" if "?mid \<le> k" "k < length es" for k
        using that Greater sorted [of ?mid k] by (cases "k = ?mid") auto
      then show ?thesis unfolding r Greater ordering.case
        using less.hyps [of ?mid low] less.prems mid by simp
    qed
  next
    case False
    have "t \<notin> fst ` set es"
    proof
      assume "t \<in> fst ` set es"
      then obtain k where "k < length es" "fst (es ! k) = t" by (auto simp: in_set_conv_nth)
      then show False using less.prems(2,3) [of k] False by (cases "k < low") auto
    qed
    then show ?thesis using False by (subst (2) dir_search.simps) simp
  qed
qed

lemma dir_find_holds:
  assumes "dir_holds R dir es"
  shows "case hm_get es t of None \<Rightarrow> dir_find dir t = Inr None
    | Some p \<Rightarrow> \<exists>k m. dir_find dir t = Inr (Some (k, m)) \<and> decode_posting R dir m = Inr p \<and> m_term_id m = p_term_id p"
proof -
  have wf: "hm_wf es" using assms by (simp add: dir_holds_def strict_sorted_iff)
  consider k m where "dir_search dir (as_bytes t) 0 (length es) = Inr (Some (k, m))" "k < length es"
      "fst (es ! k) = t" "dir_meta dir k = Inr m"
    | "dir_search dir (as_bytes t) 0 (length es) = Inr None" "t \<notin> fst ` set es"
    using dir_search_finds [OF assms order_refl, of 0 t] by auto
  then show ?thesis
  proof cases
    case k: (1 k m)
    then have "hm_get es t = Some (snd (es ! k))"
      using hm_get_mem [OF wf, of t] by (metis nth_mem prod.collapse)
    then show ?thesis using k assms by (auto simp: dir_holds_def dir_find_def entry_holds_def)
  next
    case 2
    then have "hm_get es t = None" by (simp add: hm_get_None)
    then show ?thesis using 2 assms by (simp add: dir_holds_def dir_find_def)
  qed
qed

lemma dir_lookup_holds: "dir_holds R dir es \<Longrightarrow> dir_lookup R dir t = Inr (hm_get es t)"
  using dir_find_holds [of R dir es t] by (auto simp: dir_lookup_def split: option.splits)

lemma dir_term_id_holds: "dir_holds R dir es \<Longrightarrow> dir_term_id dir t = map_option p_term_id (hm_get es t)"
  using dir_find_holds [of R dir es t] by (auto simp: dir_term_id_def split: option.splits)

lemma dir_terms_holds:
  assumes "dir_holds R dir es"
  shows "dir_terms dir = Inr (map fst es)"
proof -
  have "dir_term dir k = Inr (fst (es ! k))" if "k < length es" for k
    using assms that by (auto simp: dir_holds_def entry_holds_def dir_term_def check_utf8_def)
  then have "rmap (dir_term dir) [0..<term_count dir] = Inr (map fst es)"
    using assms unfolding rmap_Inr by (auto simp: list_all2_conv_all_nth dir_holds_def)
  then show ?thesis by (simp add: dir_terms_def)
qed

lemma materialize_holds:
  assumes "dir_holds R dir es"
  shows "materialize R dir = Inr es"
proof -
  have wf: "hm_wf es" and len: "term_count dir = length es"
    using assms by (auto simp: dir_holds_def strict_sorted_iff)
  have "rfold (\<lambda>index ps. rbind (dir_meta dir index) (\<lambda>m. rbind (dir_term_bytes dir m) (\<lambda>b.
      rbind (check_utf8 b) (\<lambda>t. rbind (decode_posting R dir m) (\<lambda>p. Inr (hm_insert t p ps))))))
      [k..<length es] (take k es) = Inr es" if "k \<le> length es" for k
    using that
  proof (induction "length es - k" arbitrary: k)
    case (Suc n)
    then have k: "k < length es" by simp
    obtain t p where e: "es ! k = (t, p)" by fastforce
    have fresh: "t \<notin> set (hm_keys (take k es))"
    proof
      assume "t \<in> set (hm_keys (take k es))"
      then obtain j where "j < k" "fst (es ! j) = t" using k by (auto simp: in_set_conv_nth)
      then show False using wf k e nth_eq_iff_index_eq [of "map fst es" j k] by simp
    qed
    have "hm_insert t p (take k es) = take (Suc k) es"
      using hm_insert_fresh [OF fresh, of p] k e by (simp add: take_Suc_conv_app_nth)
    moreover have "entry_holds R dir k (t, p)" using assms k e by (metis dir_holds_def)
    ultimately show ?case
      using Suc(1) [of "Suc k"] Suc(2) k by (auto simp: upt_conv_Cons entry_holds_def check_utf8_def)
  qed simp
  from this [of 0] show ?thesis by (simp add: materialize_def len)
qed

end
