(* ===== verification/Fts_Index.thy ===== *)
theory Fts_Index
  imports Fts_Directory
begin

text \<open>
  State of the full-text index (\<^verbatim>\<open>fts/index.rs\<close>, \<open>IndexState\<close>): an immutable base, in memory or
  memory-mapped, and a delta of updated and deleted documents that shadows it. Theorems: the
  state refines a map from documents to their terms and words, under updates, deletes and the
  merge of the delta into the base. Error theorems: the first index built in one batch numbers two
  terms alike; a document deleted before the first batch stays hidden; the cached statistics can
  be those of an earlier state.
\<close>

section \<open>State\<close>

datatype fts_wal_op = FUpsert u64 "string list" "u32 list" | FDelete u64

record index_state =
  base_postings :: "(string, posting) hmap"
  mmap_postings :: "mmap_term_directory option"
  base_docs :: treemap
  base_tokens :: packed_doc_tokens
  delta_postings :: "(string, posting) hmap"
  delta_docs :: treemap
  delta_tokens :: "(u64, u32 list) hmap"
  shadowed_docs :: treemap
  deleted_docs :: treemap
  pending_wal :: "fts_wal_op list"
  next_term_id :: u32
  needs_rebuild :: bool
  stats_cache :: "(u64 \<times> u64 \<times> u64) option"

definition index_default :: index_state where
  "index_default = \<lparr>base_postings = [], mmap_postings = None, base_docs = {}, base_tokens = packed_empty,
     delta_postings = [], delta_docs = {}, delta_tokens = [], shadowed_docs = {}, deleted_docs = {},
     pending_wal = [], next_term_id = 0, needs_rebuild = False, stats_cache = None\<rparr>"

definition sat_inc :: "u32 \<Rightarrow> u32" where
  "sat_inc x = (if x = - 1 then x else x + 1)"

definition can_build_base :: "index_state \<Rightarrow> bool" where
  "can_build_base st \<longleftrightarrow> base_postings st = [] \<and> base_docs st = {} \<and> mmap_postings st = None
     \<and> doc_ids (base_tokens st) = [] \<and> delta_postings st = [] \<and> delta_docs st = {}
     \<and> delta_tokens st = [] \<and> pending_wal st = []"

text \<open>Local token numbers of a document, through the global numbers of its terms.\<close>

definition globalize :: "u32 list \<Rightarrow> u32 list \<Rightarrow> u32 list" where
  "globalize ids ts =
     map (\<lambda>i. if i = 0 then 0 else if unat i - 1 < length ids then ids ! (unat i - 1) else 0) ts"

definition base_term :: "u64 \<Rightarrow> index_state \<times> u32 list \<Rightarrow> string \<Rightarrow> index_state \<times> u32 list" where
  "base_term d acc term =
     (case acc of (st, ids) \<Rightarrow>
        case hm_get (base_postings st) term of
          Some p \<Rightarrow>
            (st\<lparr>base_postings := hm_insert term (p\<lparr>p_docs := snd (pd_insert d (p_docs p))\<rparr>) (base_postings st)\<rparr>,
             ids @ [p_term_id p])
        | None \<Rightarrow>
            let term_id = max (next_term_id st) 1
            in (st\<lparr>next_term_id := sat_inc (next_term_id st),
                   base_postings := hm_insert term \<lparr>p_term_id = term_id, p_docs = snd (pd_insert d PEmpty)\<rparr>
                     (base_postings st)\<rparr>, ids @ [term_id]))"

definition base_document :: "index_state \<times> (u64 \<times> u32 list) list \<Rightarrow> u64 \<times> analyzed_document \<Rightarrow>
    index_state \<times> (u64 \<times> u32 list) list" where
  "base_document acc doc =
     (case (acc, doc) of ((st, records), (d, a)) \<Rightarrow>
        let (st', ids) = foldl (base_term d) (st\<lparr>base_docs := insert d (base_docs st)\<rparr>, []) (a_terms a)
        in (st', records @ [(d, globalize ids (a_tokens a))]))"

definition build_base :: "(u64 \<times> analyzed_document) list \<Rightarrow> index_state \<Rightarrow> index_state" where
  "build_base analyzed st =
     (let (st', records) = foldl base_document (st\<lparr>base_postings := []\<rparr>, []) analyzed
      in st'\<lparr>base_tokens := from_records records, needs_rebuild := False\<rparr>)"

section \<open>Updates\<close>

definition remove_from_delta :: "u64 \<Rightarrow> index_state \<Rightarrow> index_state" where
  "remove_from_delta d st =
     (if d \<notin> delta_docs st then st
      else st\<lparr>delta_docs := delta_docs st - {d}, delta_tokens := hm_remove d (delta_tokens st),
              delta_postings := hm_retain (\<lambda>_ p. \<not> pd_is_empty (p_docs p))
                (hm_map (\<lambda>p. p\<lparr>p_docs := snd (pd_remove d (p_docs p))\<rparr>) (delta_postings st))\<rparr>)"

definition term_id :: "index_state \<Rightarrow> string \<Rightarrow> u32 option" where
  "term_id st term =
     (case hm_get (delta_postings st) term of
        Some p \<Rightarrow> Some (p_term_id p)
      | None \<Rightarrow>
          (case hm_get (base_postings st) term of
             Some p \<Rightarrow> Some (p_term_id p)
           | None \<Rightarrow> (case mmap_postings st of None \<Rightarrow> None | Some dir \<Rightarrow> dir_term_id dir term)))"

definition fresh_term_id :: "u32 \<Rightarrow> u32 \<times> u32" where
  "fresh_term_id n =
     (let i = max n 1; n' = sat_inc n in (i, if n' \<le> i then sat_inc i else n'))"

definition upsert_term :: "u64 \<Rightarrow> index_state \<times> u32 list \<Rightarrow> string \<Rightarrow> index_state \<times> u32 list" where
  "upsert_term d acc term =
     (case acc of (st, ids) \<Rightarrow>
        let base_term_id = term_id st term in
        case hm_get (delta_postings st) term of
          Some p \<Rightarrow>
            (st\<lparr>delta_postings := hm_insert term (p\<lparr>p_docs := snd (pd_insert d (p_docs p))\<rparr>) (delta_postings st)\<rparr>,
             ids @ [p_term_id p])
        | None \<Rightarrow>
            let (i, n) = (case base_term_id of Some i \<Rightarrow> (i, next_term_id st) | None \<Rightarrow> fresh_term_id (next_term_id st))
            in (st\<lparr>next_term_id := n,
                   delta_postings := hm_insert term \<lparr>p_term_id = i, p_docs = snd (pd_insert d PEmpty)\<rparr>
                     (delta_postings st)\<rparr>, ids @ [i]))"

definition apply_upsert :: "u64 \<Rightarrow> analyzed_document \<Rightarrow> bool \<Rightarrow> index_state \<Rightarrow> index_state" where
  "apply_upsert d a record_wal st =
     (let st1 = remove_from_delta d st;
          st2 = st1\<lparr>shadowed_docs := insert d (shadowed_docs st1), deleted_docs := deleted_docs st1 - {d},
                    delta_docs := insert d (delta_docs st1)\<rparr>;
          (st3, ids) = foldl (upsert_term d) (st2, []) (a_terms a);
          st4 = st3\<lparr>delta_tokens := hm_insert d (globalize ids (a_tokens a)) (delta_tokens st3)\<rparr>
      in if record_wal then st4\<lparr>pending_wal := pending_wal st4 @ [FUpsert d (a_terms a) (a_tokens a)]\<rparr> else st4)"

definition apply_delete :: "u64 \<Rightarrow> bool \<Rightarrow> index_state \<Rightarrow> index_state" where
  "apply_delete d record_wal st =
     (let st1 = remove_from_delta d st;
          st2 = st1\<lparr>shadowed_docs := insert d (shadowed_docs st1), deleted_docs := insert d (deleted_docs st1)\<rparr>
      in if record_wal then st2\<lparr>pending_wal := pending_wal st2 @ [FDelete d]\<rparr> else st2)"

section \<open>Reads\<close>

text \<open>A search only reads the state; the entries it leaves in the posting cache are not kept here.\<close>

definition posting_of :: "treemap_de \<Rightarrow> index_state \<Rightarrow> string \<Rightarrow> treemap fts" where
  "posting_of R st term =
     rbind (case hm_get (base_postings st) term of
              Some p \<Rightarrow> Inr (to_roaring (p_docs p))
            | None \<Rightarrow>
                (case mmap_postings st of
                   None \<Rightarrow> Inr {}
                 | Some dir \<Rightarrow> rbind (dir_posting R dir term) (\<lambda>(p, _).
                     Inr (case p of None \<Rightarrow> {} | Some p \<Rightarrow> to_roaring (p_docs p)))))
       (\<lambda>result.
          let r1 = result - shadowed_docs st;
              r2 = (case hm_get (delta_postings st) term of None \<Rightarrow> r1 | Some p \<Rightarrow> pd_union_into (p_docs p) r1)
          in Inr (r2 - deleted_docs st))"

definition tokens_for_doc :: "index_state \<Rightarrow> u64 \<Rightarrow> u32 list option" where
  "tokens_for_doc st d =
     (if d \<in> deleted_docs st then None
      else case hm_get (delta_tokens st) d of
             Some ts \<Rightarrow> Some ts
           | None \<Rightarrow> if d \<in> shadowed_docs st then None else packed_get (base_tokens st) d)"

definition live_docs :: "index_state \<Rightarrow> treemap" where
  "live_docs st = (((base_docs st - shadowed_docs st) \<union> delta_docs st) - deleted_docs st)"

definition live_term_total :: "index_state \<Rightarrow> u64" where
  "live_term_total st =
     (let shadowed = sum_list (map nonzero_count (List.map_filter (packed_get (base_tokens st)) (tm_iter (shadowed_docs st))));
          delta = sum_list (map (\<lambda>(d, ts). nonzero_count ts)
                    (filter (\<lambda>(d, ts). d \<notin> deleted_docs st) (delta_tokens st)))
      in sat_sub (packed_terms (base_tokens st)) shadowed + delta)"

definition stats_signature :: "index_state \<Rightarrow> u64" where
  "stats_signature st =
     foldl (\<lambda>hash value. hash * 0x9E3779B97F4A7C15 + value) 0
       [of_nat (card (base_docs st)), of_nat (card (delta_docs st)), of_nat (card (shadowed_docs st)),
        of_nat (card (deleted_docs st)), packed_terms (base_tokens st),
        of_nat (length (delta_tokens st)), sum_list (map (\<lambda>(d, ts). nonzero_count ts) (delta_tokens st))]"

definition cached_stats :: "index_state \<Rightarrow> (u64 \<times> u64) \<times> index_state" where
  "cached_stats st =
     (let signature = stats_signature st;
          fresh = (of_nat (card (live_docs st)), live_term_total st)
      in case stats_cache st of
           Some (s, docs, terms) \<Rightarrow>
             if s = signature then ((docs, terms), st)
             else (fresh, st\<lparr>stats_cache := Some (signature, fresh)\<rparr>)
         | None \<Rightarrow> (fresh, st\<lparr>stats_cache := Some (signature, fresh)\<rparr>))"

definition live_doc_count :: "index_state \<Rightarrow> u64 \<times> index_state" where
  "live_doc_count st = (let ((docs, _), st') = cached_stats st in (docs, st'))"

definition live_term_total_cached :: "index_state \<Rightarrow> u64 \<times> index_state" where
  "live_term_total_cached st = (let ((_, terms), st') = cached_stats st in (terms, st'))"

definition base_terms :: "index_state \<Rightarrow> string list fts" where
  "base_terms st =
     (case mmap_postings st of
        None \<Rightarrow> Inr (hm_keys (base_postings st))
      | Some dir \<Rightarrow> rbind (dir_terms dir) (\<lambda>ts. Inr (hm_keys (base_postings st) @ ts)))"

section \<open>Merging the delta\<close>

definition merge_posting :: "(string, posting) hmap \<Rightarrow> string \<times> posting \<Rightarrow> (string, posting) hmap" where
  "merge_posting base e =
     (case e of (term, delta) \<Rightarrow>
        case hm_get base term of
          Some b \<Rightarrow> hm_insert term (b\<lparr>p_docs := pd_union_owned (p_docs b) (p_docs delta)\<rparr>) base
        | None \<Rightarrow> hm_insert term delta base)"

definition merge_base :: "index_state \<Rightarrow> index_state" where
  "merge_base st =
     (let st1 = (if shadowed_docs st = {} then st
                 else st\<lparr>base_postings := hm_retain (\<lambda>_ p. \<not> pd_is_empty (p_docs p))
                           (hm_map (\<lambda>p. p\<lparr>p_docs := pd_subtract (p_docs p) (shadowed_docs st)\<rparr>) (base_postings st)),
                         base_docs := base_docs st - shadowed_docs st\<rparr>);
          postings = foldl merge_posting (base_postings st1) (delta_postings st1);
          records = filter (\<lambda>(d, _). d \<notin> shadowed_docs st \<and> d \<notin> deleted_docs st) (base_records (base_tokens st))
                    @ filter (\<lambda>(d, _). d \<notin> deleted_docs st) (delta_tokens st)
      in st1\<lparr>base_postings := postings, delta_postings := [], delta_tokens := [],
             base_tokens := from_records records,
             base_docs := (base_docs st1 \<union> delta_docs st1) - deleted_docs st1,
             delta_docs := {}, shadowed_docs := {}, deleted_docs := {}\<rparr>)"

text \<open>The mapped directory is taken out of the state before it is read.\<close>

definition merge_delta :: "treemap_de \<Rightarrow> index_state \<Rightarrow> unit fts \<times> index_state" where
  "merge_delta R st =
     (case mmap_postings st of
        None \<Rightarrow> (Inr (), merge_base st)
      | Some dir \<Rightarrow>
          (case materialize R dir of
             Inl e \<Rightarrow> (Inl e, st\<lparr>mmap_postings := None\<rparr>)
           | Inr ps \<Rightarrow> (Inr (), merge_base (st\<lparr>mmap_postings := None, base_postings := ps\<rparr>))))"

section \<open>The documents a state holds\<close>

declare map_of_eq_Some_iff [simp del]

text \<open>The base, in memory or mapped, is a map from terms to postings.\<close>

definition base_rep :: "treemap_de \<Rightarrow> index_state \<Rightarrow> (string \<rightharpoonup> posting) \<Rightarrow> bool" where
  "base_rep R st B \<longleftrightarrow> hm_wf (base_postings st)
     \<and> (case mmap_postings st of
          None \<Rightarrow> B = hm_get (base_postings st)
        | Some dir \<Rightarrow> base_postings st = [] \<and> cache_ok R dir \<and> (\<exists>es. dir_holds R dir es \<and> B = hm_get es))"

definition docs_of :: "(string \<rightharpoonup> posting) \<Rightarrow> string \<Rightarrow> treemap" where
  "docs_of P t = (case P t of None \<Rightarrow> {} | Some p \<Rightarrow> to_roaring (p_docs p))"

abbreviation delta_map :: "index_state \<Rightarrow> string \<rightharpoonup> posting" where
  "delta_map st \<equiv> hm_get (delta_postings st)"

definition postings_ok :: "(string \<rightharpoonup> posting) \<Rightarrow> treemap \<Rightarrow> bool" where
  "postings_ok P D \<longleftrightarrow> (\<forall>t p. P t = Some p \<longrightarrow> pd_ok (p_docs p)) \<and> (\<forall>t. docs_of P t \<subseteq> D)"

definition packs :: "packed_doc_tokens \<Rightarrow> treemap \<Rightarrow> bool" where
  "packs p D \<longleftrightarrow> (\<exists>rs. (p = from_records rs \<or> p = packed_empty \<and> rs = []) \<and> hm_wf rs
     \<and> sum_list (map (length \<circ> snd) rs) < 2 ^ 64 \<and> fst ` set rs = D)"

definition index_ok :: "treemap_de \<Rightarrow> (string \<rightharpoonup> posting) \<Rightarrow> index_state \<Rightarrow> bool" where
  "index_ok R B st \<longleftrightarrow> base_rep R st B \<and> postings_ok B (base_docs st)
     \<and> hm_wf (delta_postings st) \<and> postings_ok (delta_map st) (delta_docs st)
     \<and> hm_wf (delta_tokens st) \<and> fst ` set (delta_tokens st) = delta_docs st
     \<and> delta_docs st \<subseteq> shadowed_docs st \<and> deleted_docs st \<subseteq> shadowed_docs st
     \<and> delta_docs st \<inter> deleted_docs st = {} \<and> packs (base_tokens st) (base_docs st)"

text \<open>The terms of a document: those of the delta when the delta has it, else those of the base.\<close>

definition doc_terms :: "(string \<rightharpoonup> posting) \<Rightarrow> index_state \<Rightarrow> u64 \<rightharpoonup> string set" where
  "doc_terms B st d =
     (if d \<in> delta_docs st then Some {t. d \<in> docs_of (delta_map st) t}
      else if d \<in> base_docs st - shadowed_docs st then Some {t. d \<in> docs_of B t} else None)"

definition having :: "(u64 \<rightharpoonup> string set) \<Rightarrow> string \<Rightarrow> treemap" where
  "having M t = {d. \<exists>T. M d = Some T \<and> t \<in> T}"

lemma index_okD:
  assumes "index_ok R B st"
  shows "base_rep R st B" "\<forall>t p. B t = Some p \<longrightarrow> pd_ok (p_docs p)" "\<forall>t. docs_of B t \<subseteq> base_docs st"
    "hm_wf (delta_postings st)" "\<forall>t p. delta_map st t = Some p \<longrightarrow> pd_ok (p_docs p)"
    "\<forall>t. docs_of (delta_map st) t \<subseteq> delta_docs st" "hm_wf (delta_tokens st)"
    "fst ` set (delta_tokens st) = delta_docs st" "delta_docs st \<subseteq> shadowed_docs st"
    "deleted_docs st \<subseteq> shadowed_docs st" "delta_docs st \<inter> deleted_docs st = {}"
    "packs (base_tokens st) (base_docs st)"
proof -
  have P: "postings_ok B (base_docs st)" "postings_ok (delta_map st) (delta_docs st)"
    using assms by (simp_all only: index_ok_def)
  show "\<forall>t p. B t = Some p \<longrightarrow> pd_ok (p_docs p)" "\<forall>t. docs_of B t \<subseteq> base_docs st"
    using P(1) unfolding postings_ok_def by blast+
  show "\<forall>t p. delta_map st t = Some p \<longrightarrow> pd_ok (p_docs p)" "\<forall>t. docs_of (delta_map st) t \<subseteq> delta_docs st"
    using P(2) unfolding postings_ok_def by blast+
qed (use assms in \<open>simp_all only: index_ok_def\<close>)

lemma index_okI:
  assumes "base_rep R st B" "\<forall>t p. B t = Some p \<longrightarrow> pd_ok (p_docs p)" "\<forall>t. docs_of B t \<subseteq> base_docs st"
    "hm_wf (delta_postings st)" "\<forall>t p. delta_map st t = Some p \<longrightarrow> pd_ok (p_docs p)"
    "\<forall>t. docs_of (delta_map st) t \<subseteq> delta_docs st" "hm_wf (delta_tokens st)"
    "fst ` set (delta_tokens st) = delta_docs st" "delta_docs st \<subseteq> shadowed_docs st"
    "deleted_docs st \<subseteq> shadowed_docs st" "delta_docs st \<inter> deleted_docs st = {}"
    "packs (base_tokens st) (base_docs st)"
  shows "index_ok R B st"
  unfolding index_ok_def postings_ok_def by (intro conjI assms)

lemma base_lookup:
  assumes "base_rep R st B"
  shows "(case hm_get (base_postings st) t of
            Some p \<Rightarrow> Inr (to_roaring (p_docs p))
          | None \<Rightarrow> (case mmap_postings st of None \<Rightarrow> Inr {}
              | Some dir \<Rightarrow> rbind (dir_posting R dir t) (\<lambda>(p, _).
                  Inr (case p of None \<Rightarrow> {} | Some p \<Rightarrow> to_roaring (p_docs p))))) = Inr (docs_of B t)"
proof (cases "mmap_postings st")
  case None
  then show ?thesis using assms by (auto simp: base_rep_def docs_of_def split: option.splits)
next
  case (Some dir)
  then obtain es where es: "base_postings st = []" "cache_ok R dir" "dir_holds R dir es" "B = hm_get es"
    using assms by (auto simp: base_rep_def)
  from cached_lookup [OF es(2), of t] dir_lookup_holds [OF es(3), of t]
  obtain dir' where "dir_posting R dir t = Inr (B t, dir')"
    by (cases "dir_posting R dir t") (auto simp: es(4))
  then show ?thesis using Some es(1) by (simp add: docs_of_def)
qed

lemma posting_having:
  assumes "index_ok R B st"
  shows "posting_of R st t = Inr (having (doc_terms B st) t)"
proof -
  have "posting_of R st t = Inr ((docs_of B t - shadowed_docs st \<union> docs_of (delta_map st) t) - deleted_docs st)"
    using assms unfolding posting_of_def
    by (subst base_lookup) (auto simp: index_ok_def Let_def docs_of_def split: option.splits)
  also have "(docs_of B t - shadowed_docs st \<union> docs_of (delta_map st) t) - deleted_docs st
      = having (doc_terms B st) t"
    using assms unfolding index_ok_def postings_ok_def having_def doc_terms_def
    by (auto split: if_splits)
  finally show ?thesis .
qed

lemma live_docs_dom: "index_ok R B st \<Longrightarrow> live_docs st = dom (doc_terms B st)"
  by (auto simp: index_ok_def live_docs_def doc_terms_def dom_def split: if_splits)

section \<open>Updates of the delta\<close>

definition same_frame :: "index_state \<Rightarrow> index_state \<Rightarrow> bool" where
  "same_frame st st' \<longleftrightarrow> base_postings st' = base_postings st \<and> mmap_postings st' = mmap_postings st
     \<and> base_docs st' = base_docs st \<and> base_tokens st' = base_tokens st"

definition only_postings :: "index_state \<Rightarrow> index_state \<Rightarrow> bool" where
  "only_postings st st' \<longleftrightarrow> same_frame st st' \<and> delta_docs st' = delta_docs st \<and> delta_tokens st' = delta_tokens st
     \<and> shadowed_docs st' = shadowed_docs st \<and> deleted_docs st' = deleted_docs st \<and> pending_wal st' = pending_wal st"

lemma base_rep_frame: "same_frame st st' \<Longrightarrow> base_rep R st' B = base_rep R st B"
  unfolding same_frame_def base_rep_def by metis

lemma remove_postings:
  fixes d :: u64
  assumes "hm_wf ps" and "\<forall>t p. hm_get ps t = Some p \<longrightarrow> pd_ok (p_docs p)"
  defines "ps' \<equiv> hm_retain (\<lambda>_ p. \<not> pd_is_empty (p_docs p))
      (hm_map (\<lambda>p. p\<lparr>p_docs := snd (pd_remove d (p_docs p))\<rparr>) ps)"
  shows "hm_wf ps'" and "docs_of (hm_get ps') t = docs_of (hm_get ps) t - {d}"
    and "hm_get ps' t = (case hm_get ps t of None \<Rightarrow> None | Some p \<Rightarrow>
      if to_roaring (p_docs p) \<subseteq> {d} then None else Some (p\<lparr>p_docs := snd (pd_remove d (p_docs p))\<rparr>))"
proof -
  have wf: "hm_wf (hm_map (\<lambda>p. p\<lparr>p_docs := snd (pd_remove d (p_docs p))\<rparr>) ps)"
    using assms(1) by (simp add: hm_keys_map)
  show "hm_wf ps'" unfolding ps'_def using wf by (rule hm_wf_retain)
  show g: "hm_get ps' t = (case hm_get ps t of None \<Rightarrow> None | Some p \<Rightarrow>
      if to_roaring (p_docs p) \<subseteq> {d} then None else Some (p\<lparr>p_docs := snd (pd_remove d (p_docs p))\<rparr>))"
    unfolding ps'_def hm_get_retain [OF wf] hm_get_map using assms(2)
    by (cases "hm_get ps t") auto
  show "docs_of (hm_get ps') t = docs_of (hm_get ps) t - {d}"
    unfolding docs_of_def g using assms(2) by (cases "hm_get ps t") auto
qed

lemma remove_from_delta:
  fixes d :: u64
  assumes "index_ok R B st"
  defines "st' \<equiv> remove_from_delta d st"
  shows "hm_wf (delta_postings st')" and "\<forall>t p. delta_map st' t = Some p \<longrightarrow> pd_ok (p_docs p)"
    and "docs_of (delta_map st') t = docs_of (delta_map st) t - {d}"
    and "delta_docs st' = delta_docs st - {d}" and "delta_tokens st' = hm_remove d (delta_tokens st)"
    and "same_frame st st'" and "shadowed_docs st' = shadowed_docs st" and "deleted_docs st' = deleted_docs st"
    and "next_term_id st' = next_term_id st"
    and "delta_map st' t = Some p' \<Longrightarrow> \<exists>p. delta_map st t = Some p \<and> p_term_id p' = p_term_id p"
    and "delta_map st t = Some p \<Longrightarrow> docs_of (delta_map st) t - {d} \<noteq> {} \<Longrightarrow>
      \<exists>p'. delta_map st' t = Some p' \<and> p_term_id p' = p_term_id p"
proof -
  have wf: "hm_wf (delta_postings st)" and pd: "\<forall>t p. delta_map st t = Some p \<longrightarrow> pd_ok (p_docs p)"
    and sub: "\<And>t. docs_of (delta_map st) t \<subseteq> delta_docs st"
    and keys: "fst ` set (delta_tokens st) = delta_docs st"
    using assms(1) by (auto simp: index_ok_def postings_ok_def)
  note rm = remove_postings [OF wf pd, where d = d]
  have out: "delta_docs st - {d} = delta_docs st" "hm_remove d (delta_tokens st) = delta_tokens st"
    "\<And>t. docs_of (delta_map st) t - {d} = docs_of (delta_map st) t" if "d \<notin> delta_docs st"
    using that sub keys hm_remove_fresh [of d "delta_tokens st"] by auto
  show "hm_wf (delta_postings st')" and "docs_of (delta_map st') t = docs_of (delta_map st) t - {d}"
    and "delta_docs st' = delta_docs st - {d}" and "delta_tokens st' = hm_remove d (delta_tokens st)"
    using wf out rm by (auto simp: st'_def remove_from_delta_def)
  show "\<forall>t p. delta_map st' t = Some p \<longrightarrow> pd_ok (p_docs p)"
    using pd rm(3) by (auto simp: st'_def remove_from_delta_def split: option.splits if_splits)
  show "same_frame st st'" and "shadowed_docs st' = shadowed_docs st" and "deleted_docs st' = deleted_docs st"
    and "next_term_id st' = next_term_id st"
    by (simp_all add: st'_def remove_from_delta_def same_frame_def)
  show "delta_map st' t = Some p' \<Longrightarrow> \<exists>p. delta_map st t = Some p \<and> p_term_id p' = p_term_id p"
    using rm(3) [of t] by (auto simp: st'_def remove_from_delta_def split: option.splits if_splits)
  show "delta_map st t = Some p \<Longrightarrow> docs_of (delta_map st) t - {d} \<noteq> {} \<Longrightarrow>
      \<exists>p'. delta_map st' t = Some p' \<and> p_term_id p' = p_term_id p"
    using rm(3) [of t] by (auto simp: st'_def remove_from_delta_def docs_of_def)
qed

lemma upsert_term_eq:
  obtains q n where
    "upsert_term d (st, ids) t =
       (st\<lparr>delta_postings := hm_insert t q (delta_postings st), next_term_id := n\<rparr>, ids @ [p_term_id q])"
    and "p_docs q = snd (pd_insert d (case delta_map st t of None \<Rightarrow> PEmpty | Some p \<Rightarrow> p_docs p))"
    and "case term_id st t of Some i \<Rightarrow> p_term_id q = i \<and> n = next_term_id st
         | None \<Rightarrow> (p_term_id q, n) = fresh_term_id (next_term_id st)"
proof (cases "delta_map st t")
  case (Some p)
  then show ?thesis
    by (intro that [where q = "p\<lparr>p_docs := snd (pd_insert d (p_docs p))\<rparr>" and n = "next_term_id st"])
       (simp_all add: upsert_term_def term_id_def)
next
  case None
  let ?in = "case term_id st t of Some i \<Rightarrow> (i, next_term_id st) | None \<Rightarrow> fresh_term_id (next_term_id st)"
  from None show ?thesis
    by (intro that [where q = "\<lparr>p_term_id = fst ?in, p_docs = snd (pd_insert d PEmpty)\<rparr>" and n = "snd ?in"])
       (auto simp: upsert_term_def Let_def case_prod_beta split: option.splits)
qed

lemma upsert_term_docs:
  assumes "upsert_term d (st, ids) t = (st', ids')" and "hm_wf (delta_postings st)"
    and "\<forall>t p. delta_map st t = Some p \<longrightarrow> pd_ok (p_docs p)"
  shows "hm_wf (delta_postings st')" and "\<forall>t p. delta_map st' t = Some p \<longrightarrow> pd_ok (p_docs p)"
    and "docs_of (delta_map st') s = (if s = t then insert d (docs_of (delta_map st) s) else docs_of (delta_map st) s)"
    and "only_postings st st'"
proof -
  from upsert_term_eq [of d st ids t] obtain q n where
    st': "st' = st\<lparr>delta_postings := hm_insert t q (delta_postings st), next_term_id := n\<rparr>"
    and q: "p_docs q = snd (pd_insert d (case delta_map st t of None \<Rightarrow> PEmpty | Some p \<Rightarrow> p_docs p))"
    using assms(1) by (metis prod.inject)
  show "hm_wf (delta_postings st')" using assms(2) by (simp add: st' hm_wf_insert)
  have "pd_ok (p_docs q)" using assms(3) unfolding q by (auto split: option.splits)
  then show "\<forall>t p. delta_map st' t = Some p \<longrightarrow> pd_ok (p_docs p)" using assms(3) by (simp add: st' hm_get_insert)
  show "docs_of (delta_map st') s = (if s = t then insert d (docs_of (delta_map st) s) else docs_of (delta_map st) s)"
    by (auto simp: st' docs_of_def hm_get_insert q split: option.splits)
  show "only_postings st st'" by (simp add: st' only_postings_def same_frame_def)
qed

lemma upsert_terms_docs:
  assumes "foldl (upsert_term d) (st, ids) ts = (st', ids')" and "hm_wf (delta_postings st)"
    and "\<forall>t p. delta_map st t = Some p \<longrightarrow> pd_ok (p_docs p)"
  shows "hm_wf (delta_postings st') \<and> (\<forall>t p. delta_map st' t = Some p \<longrightarrow> pd_ok (p_docs p))
    \<and> (\<forall>s. docs_of (delta_map st') s = (if s \<in> set ts then insert d (docs_of (delta_map st) s) else docs_of (delta_map st) s))
    \<and> only_postings st st'"
  using assms
proof (induction ts arbitrary: st ids)
  case Nil
  then show ?case by (simp add: only_postings_def same_frame_def)
next
  case (Cons t ts)
  obtain st1 ids1 where one: "upsert_term d (st, ids) t = (st1, ids1)" by fastforce
  note u = upsert_term_docs [OF one Cons.prems(2,3)]
  have "foldl (upsert_term d) (st1, ids1) ts = (st', ids')" using Cons.prems(1) one by simp
  note IH = Cons.IH [OF this u(1,2)]
  then have "only_postings st st'" using u(4) by (simp add: only_postings_def same_frame_def)
  then show ?case using IH u(3) by auto
qed

lemma token_keys:
  "fst ` set (hm_insert d ts m) = insert d (fst ` set m)" "fst ` set (hm_remove d m) = fst ` set m - {d}"
  using hm_keys_insert [of d ts m] hm_keys_remove [of d m] by (simp_all only: list.set_map)

text \<open>What an update and a delete do to the documents.\<close>

definition staged :: "u64 \<Rightarrow> index_state \<Rightarrow> index_state" where
  "staged d st = (let st1 = remove_from_delta d st
     in st1\<lparr>shadowed_docs := insert d (shadowed_docs st1), deleted_docs := deleted_docs st1 - {d},
            delta_docs := insert d (delta_docs st1)\<rparr>)"

lemma staged_simps [simp]: "delta_postings (staged d st) = delta_postings (remove_from_delta d st)"
  by (simp add: staged_def Let_def)

lemma apply_upsert_fields:
  fixes w :: bool
  assumes "index_ok R B st" and "foldl (upsert_term d) (staged d st, []) (a_terms a) = (st3, ids)"
  defines "st4 \<equiv> apply_upsert d a w st"
  shows "same_frame st st4" and "shadowed_docs st4 = insert d (shadowed_docs st)"
    and "deleted_docs st4 = deleted_docs st - {d}" and "delta_docs st4 = insert d (delta_docs st)"
    and "delta_tokens st4 = hm_insert d (globalize ids (a_tokens a)) (hm_remove d (delta_tokens st))"
    and "delta_postings st4 = delta_postings st3" and "next_term_id st4 = next_term_id st3"
    and "docs_of (delta_map st4) s =
      (if s \<in> set (a_terms a) then insert d (docs_of (delta_map st) s) else docs_of (delta_map st) s - {d})"
    and "hm_wf (delta_postings st4)" and "\<forall>t p. delta_map st4 t = Some p \<longrightarrow> pd_ok (p_docs p)"
proof -
  note rm = remove_from_delta [OF assms(1), where d = d]
  note u = upsert_terms_docs [OF assms(2), unfolded staged_simps, OF rm(1,2)]
  have o: "only_postings (staged d st) st3" using u by blast
  have up: "st4 = (let st5 = st3\<lparr>delta_tokens := hm_insert d (globalize ids (a_tokens a)) (delta_tokens st3)\<rparr>
      in if w then st5\<lparr>pending_wal := pending_wal st5 @ [FUpsert d (a_terms a) (a_tokens a)]\<rparr> else st5)"
    using assms(2) by (simp add: st4_def apply_upsert_def staged_def Let_def)
  show dp: "delta_postings st4 = delta_postings st3" "next_term_id st4 = next_term_id st3"
    by (simp_all add: up Let_def)
  show "same_frame st st4" "shadowed_docs st4 = insert d (shadowed_docs st)"
    "deleted_docs st4 = deleted_docs st - {d}" "delta_docs st4 = insert d (delta_docs st)"
    "delta_tokens st4 = hm_insert d (globalize ids (a_tokens a)) (hm_remove d (delta_tokens st))"
    using o rm by (auto simp: up only_postings_def same_frame_def staged_def Let_def)
  show "docs_of (delta_map st4) s =
      (if s \<in> set (a_terms a) then insert d (docs_of (delta_map st) s) else docs_of (delta_map st) s - {d})"
    using u rm(3) by (auto simp: dp)
  show "hm_wf (delta_postings st4)" and "\<forall>t p. delta_map st4 t = Some p \<longrightarrow> pd_ok (p_docs p)"
    unfolding dp using u by blast+
qed

lemma apply_upsert_ok:
  assumes "index_ok R B st"
  shows "index_ok R B (apply_upsert d a w st)"
    and "doc_terms B (apply_upsert d a w st) = (doc_terms B st)(d \<mapsto> set (a_terms a))"
proof -
  obtain st3 ids where "foldl (upsert_term d) (staged d st, []) (a_terms a) = (st3, ids)" by fastforce
  note f = apply_upsert_fields [OF assms this, where w = w] and ok = index_okD [OF assms]
  let ?st4 = "apply_upsert d a w st"
  have same: "base_docs ?st4 = base_docs st" "base_tokens ?st4 = base_tokens st"
    using f(1) by (simp_all add: same_frame_def)
  show "index_ok R B ?st4"
  proof (rule index_okI)
    show "base_rep R ?st4 B" using ok(1) base_rep_frame [OF f(1)] by blast
    show "fst ` set (delta_tokens ?st4) = delta_docs ?st4" unfolding f(4,5) token_keys ok(8) by blast
    show "hm_wf (delta_tokens ?st4)" unfolding f(5) by (intro hm_wf_insert hm_wf_remove ok(7))
    show "\<forall>t. docs_of (delta_map ?st4) t \<subseteq> delta_docs ?st4" unfolding f(4,8) using ok(6) by auto
    show "delta_docs ?st4 \<subseteq> shadowed_docs ?st4" "deleted_docs ?st4 \<subseteq> shadowed_docs ?st4"
      "delta_docs ?st4 \<inter> deleted_docs ?st4 = {}"
      unfolding f(2-4) using ok(9-11) by blast+
    show "hm_wf (delta_postings ?st4)" "\<forall>t p. delta_map ?st4 t = Some p \<longrightarrow> pd_ok (p_docs p)"
      using f(9,10) by blast+
  qed (use ok same in simp_all)
  show "doc_terms B ?st4 = (doc_terms B st)(d \<mapsto> set (a_terms a))"
    unfolding fun_eq_iff doc_terms_def f(2,4,8) same by auto
qed

lemma apply_delete_ok:
  assumes "index_ok R B st"
  shows "index_ok R B (apply_delete d w st)"
    and "doc_terms B (apply_delete d w st) = (doc_terms B st)(d := None)"
proof -
  note rm = remove_from_delta [OF assms, where d = d]
  let ?st' = "apply_delete d w st"
  have f: "same_frame st ?st'" "shadowed_docs ?st' = insert d (shadowed_docs st)"
    "deleted_docs ?st' = insert d (deleted_docs st)" "delta_docs ?st' = delta_docs st - {d}"
    "delta_tokens ?st' = hm_remove d (delta_tokens st)" "delta_postings ?st' = delta_postings (remove_from_delta d st)"
    using rm by (auto simp: apply_delete_def Let_def same_frame_def)
  note ok = index_okD [OF assms]
  have same: "base_docs ?st' = base_docs st" "base_tokens ?st' = base_tokens st"
    using f(1) by (simp_all add: same_frame_def)
  have d': "docs_of (delta_map ?st') t = docs_of (delta_map st) t - {d}" for t
    unfolding f(6) by (rule rm(3))
  show "index_ok R B ?st'"
  proof (rule index_okI)
    show "base_rep R ?st' B" using ok(1) base_rep_frame [OF f(1)] by blast
    show "fst ` set (delta_tokens ?st') = delta_docs ?st'" unfolding f(4,5) token_keys ok(8) by blast
    show "hm_wf (delta_tokens ?st')" unfolding f(5) by (intro hm_wf_remove ok(7))
    show "\<forall>t. docs_of (delta_map ?st') t \<subseteq> delta_docs ?st'" unfolding d' f(4) using ok(6) by auto
    show "delta_docs ?st' \<subseteq> shadowed_docs ?st'" "deleted_docs ?st' \<subseteq> shadowed_docs ?st'"
      "delta_docs ?st' \<inter> deleted_docs ?st' = {}"
      unfolding f using ok(9-11) by blast+
  qed (use ok rm(1,2) f(6) same in simp_all)
  show "doc_terms B ?st' = (doc_terms B st)(d := None)"
    unfolding fun_eq_iff doc_terms_def f(2,4) d' same by auto
qed

section \<open>Merging keeps the documents\<close>

lemma packs_records:
  assumes "packs p D"
  shows "hm_wf (base_records p)" and "hm_get (base_records p) d = packed_get p d"
    and "fst ` set (base_records p) = D"
proof -
  from assms obtain rs where rs: "p = from_records rs \<or> p = packed_empty \<and> rs = []" "hm_wf rs"
    "sum_list (map (length \<circ> snd) rs) < 2 ^ 64" "fst ` set rs = D" unfolding packs_def by blast
  have e: "base_records packed_empty = []" "packed_get packed_empty d = None"
    by (simp_all add: base_records_def packed_empty_def packed_get_def binary_search_def)
  have wf: "hm_wf (sort_key fst rs)" using rs(2) by (simp add: distinct_map)
  have "hm_get (sort_key fst rs) d = hm_get rs d"
    using map_of_inject_set [OF wf rs(2)] by simp
  then show "hm_wf (base_records p)" "hm_get (base_records p) d = packed_get p d" "fst ` set (base_records p) = D"
    using rs e wf packed_records [OF rs(3,2)] by auto
qed

definition merged :: "posting option \<Rightarrow> posting option \<Rightarrow> posting option" where
  "merged b p = (case p of None \<Rightarrow> b | Some q \<Rightarrow>
     (case b of None \<Rightarrow> p | Some c \<Rightarrow> Some (c\<lparr>p_docs := pd_union_owned (p_docs c) (p_docs q)\<rparr>)))"

lemma merge_postings:
  assumes "hm_wf base" and "hm_wf delta"
  shows "hm_wf (foldl merge_posting base delta)
    \<and> (\<forall>t. hm_get (foldl merge_posting base delta) t = merged (hm_get base t) (hm_get delta t))"
  using assms
proof (induction delta arbitrary: base)
  case Nil
  then show ?case by (simp add: merged_def)
next
  case (Cons e delta)
  obtain s p where e: "e = (s, p)" by fastforce
  have wf: "hm_wf (merge_posting base e)"
    using Cons.prems(1) by (simp add: merge_posting_def e hm_wf_insert split: option.splits)
  have out: "hm_get delta s = None" using Cons.prems(2) by (simp add: e hm_get_None)
  have "hm_get (merge_posting base e) t = merged (hm_get base t) (if t = s then Some p else None)" for t
    by (auto simp: merge_posting_def e merged_def hm_get_insert split: option.splits)
  moreover have "merged b None = b" for b by (simp add: merged_def)
  ultimately have "merged (hm_get (merge_posting base e) t) (hm_get delta t)
      = merged (hm_get base t) (hm_get (e # delta) t)" for t
    using out by (cases "t = s") (simp_all add: e)
  then show ?case using Cons.IH [OF wf] Cons.prems(2) by (simp add: e)
qed

lemma docs_of_merged:
  "docs_of (\<lambda>t. merged (P t) (Q t)) t = docs_of P t \<union> docs_of Q t"
  by (auto simp: docs_of_def merged_def split: option.splits)

lemma subtract_postings:
  fixes S :: treemap
  assumes "hm_wf ps"
  defines "ps' \<equiv> hm_retain (\<lambda>_ p. \<not> pd_is_empty (p_docs p))
      (hm_map (\<lambda>p. p\<lparr>p_docs := pd_subtract (p_docs p) S\<rparr>) ps)"
  shows "hm_wf ps'" and "hm_get ps' t = (case hm_get ps t of None \<Rightarrow> None | Some p \<Rightarrow>
      if to_roaring (p_docs p) \<subseteq> S then None else Some (p\<lparr>p_docs := pd_subtract (p_docs p) S\<rparr>))"
    and "docs_of (hm_get ps') t = docs_of (hm_get ps) t - S"
proof -
  have wf: "hm_wf (hm_map (\<lambda>p. p\<lparr>p_docs := pd_subtract (p_docs p) S\<rparr>) ps)"
    using assms(1) by (simp add: hm_keys_map)
  show "hm_wf ps'" unfolding ps'_def using wf by (rule hm_wf_retain)
  show g: "hm_get ps' t = (case hm_get ps t of None \<Rightarrow> None | Some p \<Rightarrow>
      if to_roaring (p_docs p) \<subseteq> S then None else Some (p\<lparr>p_docs := pd_subtract (p_docs p) S\<rparr>))"
    unfolding ps'_def hm_get_retain [OF wf] hm_get_map by (cases "hm_get ps t") auto
  show "docs_of (hm_get ps') t = docs_of (hm_get ps) t - S"
    unfolding docs_of_def g by (cases "hm_get ps t") auto
qed

definition tokens_fit :: "index_state \<Rightarrow> bool" where
  "tokens_fit st \<longleftrightarrow> sum_list (map (length \<circ> snd) (base_records (base_tokens st)))
     + sum_list (map (length \<circ> snd) (delta_tokens st)) < 2 ^ 64"

text \<open>The base postings without the shadowed documents.\<close>

definition unshadowed :: "index_state \<Rightarrow> (string, posting) hmap" where
  "unshadowed st = (if shadowed_docs st = {} then base_postings st
     else hm_retain (\<lambda>_ p. \<not> pd_is_empty (p_docs p))
       (hm_map (\<lambda>p. p\<lparr>p_docs := pd_subtract (p_docs p) (shadowed_docs st)\<rparr>) (base_postings st)))"

definition kept_records :: "index_state \<Rightarrow> (u64 \<times> u32 list) list" where
  "kept_records st =
     filter (\<lambda>(d, _). d \<notin> shadowed_docs st \<and> d \<notin> deleted_docs st) (base_records (base_tokens st))
     @ filter (\<lambda>(d, _). d \<notin> deleted_docs st) (delta_tokens st)"

lemma merge_base_fields:
  "base_postings (merge_base st) = foldl merge_posting (unshadowed st) (delta_postings st)"
  "base_tokens (merge_base st) = from_records (kept_records st)"
  "base_docs (merge_base st) = ((base_docs st - shadowed_docs st) \<union> delta_docs st) - deleted_docs st"
  "mmap_postings (merge_base st) = mmap_postings st" "next_term_id (merge_base st) = next_term_id st"
  "delta_postings (merge_base st) = []" "delta_docs (merge_base st) = {}" "delta_tokens (merge_base st) = []"
  "shadowed_docs (merge_base st) = {}" "deleted_docs (merge_base st) = {}"
  by (auto simp: merge_base_def unshadowed_def kept_records_def Let_def)

lemma kept_records:
  assumes "index_ok R B st" and "tokens_fit st"
  shows "hm_wf (kept_records st)" and "hm_get (kept_records st) d = tokens_for_doc st d"
    and "fst ` set (kept_records st) = ((base_docs st - shadowed_docs st) \<union> delta_docs st) - deleted_docs st"
    and "sum_list (map (length \<circ> snd) (kept_records st)) < 2 ^ 64"
proof -
  note ok = index_okD [OF assms(1)]
  note pk = packs_records [OF ok(12)]
  let ?b = "hm_retain (\<lambda>d _. d \<notin> shadowed_docs st \<and> d \<notin> deleted_docs st) (base_records (base_tokens st))"
  let ?e = "hm_retain (\<lambda>d _. d \<notin> deleted_docs st) (delta_tokens st)"
  have k: "kept_records st = ?b @ ?e" by (simp add: kept_records_def hm_retain_def)
  have kb: "fst ` set ?b = base_docs st - shadowed_docs st - deleted_docs st"
    using pk(3) by (force simp: hm_retain_def)
  have ke: "fst ` set ?e = delta_docs st - deleted_docs st" using ok(8) by (force simp: hm_retain_def)
  show "fst ` set (kept_records st) = ((base_docs st - shadowed_docs st) \<union> delta_docs st) - deleted_docs st"
    unfolding k set_append image_Un kb ke by blast
  have "hm_wf ?b" "hm_wf ?e" using hm_wf_retain pk(1) ok(7) by blast+
  moreover have "fst ` set ?b \<inter> fst ` set ?e = {}" unfolding kb ke using ok(9) by blast
  ultimately show "hm_wf (kept_records st)" unfolding k by simp
  show "hm_get (kept_records st) d = tokens_for_doc st d"
  proof -
    have "hm_get (delta_tokens st) d = None \<longleftrightarrow> d \<notin> delta_docs st"
      unfolding hm_get_None list.set_map ok(8) by (rule refl)
    then show ?thesis
      unfolding k map_of_append map_add_def hm_get_retain [OF ok(7)] hm_get_retain [OF pk(1)] pk(2)
        tokens_for_doc_def
      using ok(9) by (auto split: option.splits)
  qed
  have "sum_list (map (length \<circ> snd) ?b) \<le> sum_list (map (length \<circ> snd) (base_records (base_tokens st)))"
    "sum_list (map (length \<circ> snd) ?e) \<le> sum_list (map (length \<circ> snd) (delta_tokens st))"
    unfolding hm_retain_def by (rule sum_list_filter_le_nat)+
  then show "sum_list (map (length \<circ> snd) (kept_records st)) < 2 ^ 64"
    using assms(2) unfolding k tokens_fit_def map_append sum_list_append by linarith
qed

lemma unshadowed:
  assumes "index_ok R B st" and "mmap_postings st = None"
  shows "hm_wf (unshadowed st)" and "docs_of (hm_get (unshadowed st)) t = docs_of B t - shadowed_docs st"
    and "\<forall>t p. hm_get (unshadowed st) t = Some p \<longrightarrow> pd_ok (p_docs p)"
    and "hm_get (unshadowed st) t = Some p' \<Longrightarrow> \<exists>p. B t = Some p \<and> p_term_id p' = p_term_id p"
    and "B t = Some p \<Longrightarrow> docs_of B t - shadowed_docs st \<noteq> {} \<Longrightarrow> hm_get (unshadowed st) t \<noteq> None"
proof -
  note ok = index_okD [OF assms(1)]
  have wf: "hm_wf (base_postings st)" and B: "B = hm_get (base_postings st)"
    using ok(1) assms(2) by (simp_all add: base_rep_def)
  note s = subtract_postings [OF wf, where S = "shadowed_docs st"]
  show "hm_wf (unshadowed st)" "docs_of (hm_get (unshadowed st)) t = docs_of B t - shadowed_docs st"
    using wf s by (auto simp: unshadowed_def B)
  show "\<forall>t p. hm_get (unshadowed st) t = Some p \<longrightarrow> pd_ok (p_docs p)"
    using ok(2) s(2) by (auto simp: unshadowed_def B split: option.splits if_splits)
  show "hm_get (unshadowed st) t = Some p' \<Longrightarrow> \<exists>p. B t = Some p \<and> p_term_id p' = p_term_id p"
    using s(2) [of t] by (auto simp: unshadowed_def B split: option.splits if_splits)
  show "B t = Some p \<Longrightarrow> docs_of B t - shadowed_docs st \<noteq> {} \<Longrightarrow> hm_get (unshadowed st) t \<noteq> None"
    using s(2) [of t] by (auto simp: unshadowed_def B docs_of_def)
qed

lemma merge_base_ok:
  assumes "index_ok R B st" and "mmap_postings st = None" and "tokens_fit st"
  defines "B' \<equiv> hm_get (base_postings (merge_base st))"
  shows "index_ok R B' (merge_base st)" and "doc_terms B' (merge_base st) = doc_terms B st"
    and "tokens_for_doc (merge_base st) = tokens_for_doc st"
proof -
  note ok = index_okD [OF assms(1)] and u = unshadowed [OF assms(1,2)]
  note k = kept_records [OF assms(1,3)] and f = merge_base_fields [of st]
  have wf: "hm_wf (base_postings (merge_base st))" and B': "B' t = merged (hm_get (unshadowed st) t) (delta_map st t)" for t
    unfolding B'_def f(1) using merge_postings [OF u(1) ok(4)] by blast+
  have d': "docs_of B' t = (docs_of B t - shadowed_docs st) \<union> docs_of (delta_map st) t" for t
    using docs_of_merged [of "hm_get (unshadowed st)" "delta_map st" t] u(2) [of t]
    by (simp add: docs_of_def B')
  show "index_ok R B' (merge_base st)"
  proof (rule index_okI)
    show "base_rep R (merge_base st) B'" using wf assms(2) by (simp add: base_rep_def f(4) B'_def)
    show "\<forall>t p. B' t = Some p \<longrightarrow> pd_ok (p_docs p)"
      using u(3) ok(5) by (auto simp: B' merged_def split: option.splits)
    show "\<forall>t. docs_of B' t \<subseteq> base_docs (merge_base st)"
      unfolding d' f(3) using ok(3,6,10,11) by blast
    show "packs (base_tokens (merge_base st)) (base_docs (merge_base st))"
      unfolding packs_def f(2,3) using k by blast
  qed (simp_all add: f docs_of_def)
  show "doc_terms B' (merge_base st) = doc_terms B st"
    using ok(3,6,9-11) unfolding fun_eq_iff doc_terms_def d' f by (auto 0 3)
  show "tokens_for_doc (merge_base st) = tokens_for_doc st"
    using k(2) packed_records(1) [OF k(4,1)] by (simp add: fun_eq_iff tokens_for_doc_def f)
qed

text \<open>A mapped base is first read into memory, which changes nothing else.\<close>

definition same_delta :: "index_state \<Rightarrow> index_state \<Rightarrow> bool" where
  "same_delta st st' \<longleftrightarrow> base_docs st' = base_docs st \<and> base_tokens st' = base_tokens st
     \<and> delta_postings st' = delta_postings st \<and> delta_docs st' = delta_docs st \<and> delta_tokens st' = delta_tokens st
     \<and> shadowed_docs st' = shadowed_docs st \<and> deleted_docs st' = deleted_docs st \<and> next_term_id st' = next_term_id st"

lemma same_deltaD:
  assumes "same_delta st st'"
  shows "doc_terms B st' = doc_terms B st" and "tokens_for_doc st' = tokens_for_doc st"
    and "tokens_fit st' = tokens_fit st" and "delta_map st' = delta_map st" and "next_term_id st' = next_term_id st"
  using assms unfolding same_delta_def
  by (auto simp: fun_eq_iff doc_terms_def tokens_for_doc_def tokens_fit_def split: option.splits)

lemma merge_delta_loads:
  assumes "index_ok R B st"
  obtains st1 where "merge_delta R st = (Inr (), merge_base st1)" "index_ok R B st1"
    "mmap_postings st1 = None" "same_delta st st1"
proof (cases "mmap_postings st")
  case None
  then show ?thesis using assms by (intro that [of st]) (auto simp: merge_delta_def same_delta_def)
next
  case (Some dir)
  note ok = index_okD [OF assms]
  obtain es where es: "dir_holds R dir es" "B = hm_get es" using ok(1) Some by (auto simp: base_rep_def)
  define st1 where "st1 = st\<lparr>mmap_postings := None, base_postings := es\<rparr>"
  have "index_ok R B st1"
  proof (rule index_okI)
    show "base_rep R st1 B" using es by (auto simp: base_rep_def st1_def dir_holds_def strict_sorted_iff)
  qed (use ok in \<open>simp_all add: st1_def\<close>)
  moreover have "merge_delta R st = (Inr (), merge_base st1)"
    using Some materialize_holds [OF es(1)] by (simp add: merge_delta_def st1_def)
  ultimately show ?thesis by (intro that [of st1]) (simp_all add: st1_def same_delta_def)
qed

section \<open>Term numbers\<close>

definition tid :: "(string \<rightharpoonup> posting) \<Rightarrow> index_state \<Rightarrow> string \<rightharpoonup> u32" where
  "tid B st t = (case delta_map st t of Some p \<Rightarrow> Some (p_term_id p) | None \<Rightarrow> map_option p_term_id (B t))"

text \<open>Numbers are positive, below the counter, and identify their term.\<close>

definition ids_ok :: "(string \<rightharpoonup> posting) \<Rightarrow> index_state \<Rightarrow> bool" where
  "ids_ok B st \<longleftrightarrow> (\<forall>t i. tid B st t = Some i \<longrightarrow> i \<noteq> 0 \<and> i < next_term_id st)
     \<and> (\<forall>s t i. tid B st s = Some i \<and> tid B st t = Some i \<longrightarrow> s = t)
     \<and> (\<forall>t p q. B t = Some p \<and> delta_map st t = Some q \<longrightarrow> p_term_id p = p_term_id q)"

definition spelled :: "(string \<rightharpoonup> u32) \<Rightarrow> u32 list \<Rightarrow> string option list \<Rightarrow> bool" where
  "spelled f = list_all2 (\<lambda>i w. case w of None \<Rightarrow> i = 0 | Some t \<Rightarrow> i \<noteq> 0 \<and> f t = Some i)"

lemma term_id_tid: "base_rep R st B \<Longrightarrow> term_id st t = tid B st t"
  by (auto simp: term_id_def tid_def base_rep_def dir_term_id_holds split: option.splits)

lemma spelled_mono:
  assumes "spelled f is W" and "\<And>t i. Some t \<in> set W \<Longrightarrow> f t = Some i \<Longrightarrow> g t = Some i"
  shows "spelled g is W"
  using assms(1) unfolding spelled_def
  by (rule list.rel_mono_strong) (use assms(2) in \<open>auto split: option.splits\<close>)

text \<open>The documents of a state: their terms and the words their tokens spell.\<close>

type_synonym documents = "u64 \<rightharpoonup> string set \<times> string option list"

definition holds :: "(string \<rightharpoonup> posting) \<Rightarrow> index_state \<Rightarrow> documents \<Rightarrow> bool" where
  "holds B st M \<longleftrightarrow> ids_ok B st \<and> doc_terms B st = map_option fst \<circ> M
     \<and> (\<forall>d T W. M d = Some (T, W) \<longrightarrow> (\<exists>ts. tokens_for_doc st d = Some ts \<and> spelled (tid B st) ts W)
          \<and> (\<forall>t. Some t \<in> set W \<longrightarrow> t \<in> T))"

definition entry_of :: "analyzed_document \<Rightarrow> string set \<times> string option list" where
  "entry_of a = (set (a_terms a), doc_words a)"

lemma ids_okD:
  assumes "ids_ok B st"
  shows "tid B st t = Some i \<Longrightarrow> i \<noteq> 0 \<and> i < next_term_id st"
    and "tid B st s = Some i \<Longrightarrow> tid B st t = Some i \<Longrightarrow> s = t"
    and "B t = Some p \<Longrightarrow> delta_map st t = Some q \<Longrightarrow> p_term_id p = p_term_id q"
  using assms unfolding ids_ok_def by blast+

lemma ids_ok_sub:
  assumes "ids_ok B st" and "\<And>t i. tid B' st' t = Some i \<Longrightarrow> tid B st t = Some i"
    and "next_term_id st' = next_term_id st"
    and "\<And>t p q. B' t = Some p \<Longrightarrow> delta_map st' t = Some q \<Longrightarrow> p_term_id p = p_term_id q"
  shows "ids_ok B' st'"
  using assms unfolding ids_ok_def by metis

lemma remove_ids:
  fixes d :: u64
  assumes "index_ok R B st" and "ids_ok B st"
  defines "st' \<equiv> remove_from_delta d st"
  shows "ids_ok B st'"
    and "tid B st t = Some i \<Longrightarrow> e \<noteq> d \<Longrightarrow> e \<in> docs_of (delta_map st) t \<union> docs_of B t \<Longrightarrow> tid B st' t = Some i"
proof -
  note rm = remove_from_delta [OF assms(1), where d = d, folded st'_def]
  have down: "tid B st t = Some i" if h: "tid B st' t = Some i" for t i
  proof (cases "delta_map st' t")
    case None
    then obtain p where p: "B t = Some p" "p_term_id p = i" using h by (auto simp: tid_def)
    then show ?thesis using ids_okD(3) [OF assms(2) p(1)] by (cases "delta_map st t") (auto simp: tid_def)
  next
    case (Some p')
    then show ?thesis using rm(10) [OF Some] h by (auto simp: tid_def)
  qed
  show "ids_ok B st'"
  proof (rule ids_ok_sub [OF assms(2) down rm(9)])
    fix t p q assume "B t = Some p" "delta_map st' t = Some q"
    then show "p_term_id p = p_term_id q" using rm(10) [of t q] ids_okD(3) [OF assms(2), of t p] by auto
  qed
  show "tid B st t = Some i \<Longrightarrow> e \<noteq> d \<Longrightarrow> e \<in> docs_of (delta_map st) t \<union> docs_of B t \<Longrightarrow> tid B st' t = Some i"
  proof -
    assume a: "tid B st t = Some i" "e \<noteq> d" "e \<in> docs_of (delta_map st) t \<union> docs_of B t"
    have "tid B st' t \<noteq> None"
    proof (cases "e \<in> docs_of B t")
      case True
      then show ?thesis by (auto simp: tid_def docs_of_def split: option.splits)
    next
      case False
      then have e: "e \<in> docs_of (delta_map st) t - {d}" using a by blast
      then obtain p where "delta_map st t = Some p" by (auto simp: docs_of_def split: option.splits)
      moreover have "docs_of (delta_map st) t - {d} \<noteq> {}" using e by blast
      ultimately show ?thesis using rm(11) [of t p] by (auto simp: tid_def)
    qed
    then show ?thesis using down [of t] a(1) by auto
  qed
qed

lemma fresh_term_id:
  assumes "unat n < 2 ^ 32 - 2"
  shows "fst (fresh_term_id n) = max n 1" and "unat (snd (fresh_term_id n)) = Suc (unat (max n 1))"
proof -
  have inc: "unat (sat_inc x) = Suc (unat x)" if "unat x < 2 ^ 32 - 1" for x :: u32
  proof -
    have "x \<noteq> - 1" using that by (auto simp: unsigned_minus_1_eq_mask mask_eq_exp_minus_1)
    moreover have "unat (x + 1) = Suc (unat x)" using that by (subst unat_add_lem [THEN iffD1]) auto
    ultimately show ?thesis by (simp add: sat_inc_def)
  qed
  show "fst (fresh_term_id n) = max n 1" by (simp add: fresh_term_id_def Let_def)
  show "unat (snd (fresh_term_id n)) = Suc (unat (max n 1))"
  proof (cases "n = 0")
    case True
    have "sat_inc (0::u32) = 1" "sat_inc (1::u32) = 2" by (simp_all add: sat_inc_def)
    then show ?thesis using True by (simp add: fresh_term_id_def Let_def)
  next
    case False
    then have m: "max n 1 = n" by (simp add: max_absorb1 word_le_nat_alt Suc_leI unat_gt_0)
    have "unat (sat_inc n) = Suc (unat n)" using inc assms by simp
    then show ?thesis by (simp add: fresh_term_id_def Let_def m word_le_nat_alt)
  qed
qed

lemma upsert_term_ids:
  assumes "base_rep R st B" and "ids_ok B st" and "unat (next_term_id st) < 2 ^ 32 - 2"
    and "upsert_term d (st, ids) t = (st', ids')"
  shows "ids_ok B st'" and "\<exists>i. ids' = ids @ [i] \<and> tid B st' t = Some i"
    and "tid B st s = Some j \<Longrightarrow> tid B st' s = Some j"
    and "unat (next_term_id st') \<le> Suc (max 1 (unat (next_term_id st)))"
proof -
  from upsert_term_eq [of d st ids t] obtain q n where
    st': "st' = st\<lparr>delta_postings := hm_insert t q (delta_postings st), next_term_id := n\<rparr>"
    and ids': "ids' = ids @ [p_term_id q]"
    and q: "case tid B st t of Some i \<Rightarrow> p_term_id q = i \<and> n = next_term_id st
         | None \<Rightarrow> (p_term_id q, n) = fresh_term_id (next_term_id st)"
    using assms(4) term_id_tid [OF assms(1)] by (metis prod.inject)
  have tid': "tid B st' s = (if s = t then Some (p_term_id q) else tid B st s)" for s
    by (simp add: tid_def st' hm_get_insert)
  show "\<exists>i. ids' = ids @ [i] \<and> tid B st' t = Some i" by (simp add: ids' tid')
  have mx: "unat (max (next_term_id st) 1) = max 1 (unat (next_term_id st))"
    by (auto simp: max_def word_le_nat_alt)
  show up: "tid B st' s = Some j" if "tid B st s = Some j" for s j
    using that q by (auto simp: tid')
  show "unat (next_term_id st') \<le> Suc (max 1 (unat (next_term_id st)))"
  proof (cases "tid B st t")
    case None
    then have "n = snd (fresh_term_id (next_term_id st))" using q by (simp add: prod_eq_iff)
    then show ?thesis using fresh_term_id(2) [OF assms(3)] mx by (simp add: st')
  qed (use q in \<open>simp add: st'\<close>)
  show "ids_ok B st'"
  proof (cases "tid B st t")
    case (Some i)
    then have "tid B st' = tid B st" using q by (auto simp: fun_eq_iff tid')
    then show ?thesis
      using assms(2) Some q by (auto simp: ids_ok_def st' hm_get_insert tid_def split: option.splits)
  next
    case None
    then have qi: "p_term_id q = max (next_term_id st) 1" and n: "unat n = Suc (unat (max (next_term_id st) 1))"
      using q fresh_term_id [OF assms(3)] by (auto simp: prod_eq_iff)
    have Bt: "B t = None" using None by (auto simp: tid_def split: option.splits)
    have old: "tid B st s = Some i \<Longrightarrow> i < p_term_id q \<and> i < n \<and> i \<noteq> 0" for s i
      using ids_okD(1) [OF assms(2), of s i] n unfolding qi by (auto simp: word_less_nat_alt mx)
    have new: "p_term_id q \<noteq> 0" "p_term_id q < n"
      using n by (auto simp: qi word_less_nat_alt max_def)
    have nx: "next_term_id st' = n" and dm: "delta_map st' s = (if s = t then Some q else delta_map st s)" for s
      by (simp_all add: st' hm_get_insert)
    show ?thesis unfolding ids_ok_def tid' nx dm
      using old new ids_okD(2,3) [OF assms(2)] Bt by (auto split: if_splits)
  qed
qed

lemma upsert_term_frame:
  assumes "upsert_term d (st, ids) t = (st', ids')"
  shows "same_frame st st'"
proof (rule upsert_term_eq [of d st ids t])
  fix q n
  assume "upsert_term d (st, ids) t =
    (st\<lparr>delta_postings := hm_insert t q (delta_postings st), next_term_id := n\<rparr>, ids @ [p_term_id q])"
  then have "st' = st\<lparr>delta_postings := hm_insert t q (delta_postings st), next_term_id := n\<rparr>"
    using assms by simp
  then show ?thesis by (simp add: same_frame_def)
qed

lemma upsert_terms_ids:
  assumes "base_rep R st B" and "ids_ok B st" and "max 1 (unat (next_term_id st)) + length ts < 2 ^ 32 - 2"
    and "foldl (upsert_term d) (st, ids) ts = (st', ids')"
  shows "ids_ok B st' \<and> (\<exists>js. ids' = ids @ js \<and> list_all2 (\<lambda>t j. tid B st' t = Some j) ts js)
    \<and> (\<forall>s j. tid B st s = Some j \<longrightarrow> tid B st' s = Some j)
    \<and> unat (next_term_id st') \<le> max 1 (unat (next_term_id st)) + length ts"
  using assms
proof (induction ts arbitrary: st ids)
  case (Cons t ts)
  obtain st1 ids1 where one: "upsert_term d (st, ids) t = (st1, ids1)" by fastforce
  have lt: "unat (next_term_id st) < 2 ^ 32 - 2" using Cons.prems(3) by simp
  note u = upsert_term_ids [OF Cons.prems(1,2) lt one]
  have rep: "base_rep R st1 B" using Cons.prems(1) base_rep_frame [OF upsert_term_frame [OF one]] by blast
  obtain i where i: "ids1 = ids @ [i]" "tid B st1 t = Some i" using u(2) by blast
  have "foldl (upsert_term d) (st1, ids1) ts = (st', ids')" using Cons.prems(4) one by simp
  moreover have "max 1 (unat (next_term_id st1)) + length ts < 2 ^ 32 - 2" using u(4) Cons.prems(3) by auto
  ultimately have IH: "ids_ok B st'" "\<exists>js. ids' = ids1 @ js \<and> list_all2 (\<lambda>t j. tid B st' t = Some j) ts js"
    "\<forall>s j. tid B st1 s = Some j \<longrightarrow> tid B st' s = Some j"
    "unat (next_term_id st') \<le> max 1 (unat (next_term_id st1)) + length ts"
    using Cons.IH [OF rep u(1)] by blast+
  then obtain js where "ids' = ids1 @ js" "list_all2 (\<lambda>t j. tid B st' t = Some j) ts js" by blast
  then have "ids' = ids @ i # js \<and> list_all2 (\<lambda>t j. tid B st' t = Some j) (t # ts) (i # js)"
    using i IH(3) by simp
  then show ?case using IH(1,3,4) u(3,4) by auto
qed simp

text \<open>The tokens of the other documents do not change.\<close>

lemma tokens_frame:
  assumes "same_frame st st'" and "e \<noteq> d"
    and "deleted_docs st' - {d} = deleted_docs st - {d}" and "shadowed_docs st' - {d} = shadowed_docs st - {d}"
    and "hm_get (delta_tokens st') e = hm_get (delta_tokens st) e"
  shows "tokens_for_doc st' e = tokens_for_doc st e"
proof -
  have "e \<in> deleted_docs st' \<longleftrightarrow> e \<in> deleted_docs st" "e \<in> shadowed_docs st' \<longleftrightarrow> e \<in> shadowed_docs st"
    using assms(2-4) by blast+
  moreover have bt: "base_tokens st' = base_tokens st" using assms(1) by (simp add: same_frame_def)
  ultimately show ?thesis unfolding tokens_for_doc_def assms(5) bt by simp
qed

text \<open>A document that keeps its terms keeps their numbers when another one is removed from the delta.\<close>

lemma remove_spelled:
  assumes "index_ok R B st" and "holds B st M" and "M e = Some (T, W)" and "e \<noteq> d"
  shows "\<exists>ts. tokens_for_doc st e = Some ts \<and> spelled (tid B (remove_from_delta d st)) ts W"
    and "\<forall>t. Some t \<in> set W \<longrightarrow> t \<in> T"
proof -
  have ids: "ids_ok B st" and T: "doc_terms B st e = Some T" and sub: "\<forall>t. Some t \<in> set W \<longrightarrow> t \<in> T"
    and ts: "\<exists>ts. tokens_for_doc st e = Some ts \<and> spelled (tid B st) ts W"
    using assms(2,3) by (auto simp: holds_def)
  show "\<forall>t. Some t \<in> set W \<longrightarrow> t \<in> T" by (rule sub)
  have "e \<in> docs_of (delta_map st) t \<union> docs_of B t" if "t \<in> T" for t
    using that T by (auto simp: doc_terms_def split: if_splits)
  then show "\<exists>ts. tokens_for_doc st e = Some ts \<and> spelled (tid B (remove_from_delta d st)) ts W"
    using ts sub remove_ids(2) [OF assms(1) ids _ assms(4)] by (meson spelled_mono)
qed

lemma globalize_spelled:
  assumes "analyzed_ok a" and "list_all2 (\<lambda>t j. f t = Some j) (a_terms a) js" and "\<And>t j. f t = Some j \<Longrightarrow> j \<noteq> 0"
  shows "spelled f (globalize js (a_tokens a)) (doc_words a)"
proof -
  have len: "length js = length (a_terms a)" using assms(2) by (simp add: list_all2_lengthD)
  have "(case if i = 0 then None else Some (a_terms a ! (unat i - 1)) of
        None \<Rightarrow> (if i = 0 then 0 else if unat i - 1 < length js then js ! (unat i - 1) else 0) = 0
      | Some t \<Rightarrow> (if i = 0 then 0 else if unat i - 1 < length js then js ! (unat i - 1) else 0) \<noteq> 0
          \<and> f t = Some (if i = 0 then 0 else if unat i - 1 < length js then js ! (unat i - 1) else 0))"
    if "i \<in> set (a_tokens a)" for i
  proof (cases "i = 0")
    case False
    then have "0 < unat i" by (simp add: unat_gt_0)
    moreover have "unat i \<le> length (a_terms a)" using assms(1) that by (simp add: analyzed_ok_def list_all_iff)
    ultimately have "unat i - 1 < length (a_terms a)" by simp
    then show ?thesis using False assms(2,3) len by (auto simp: list_all2_conv_all_nth)
  qed simp
  then show ?thesis
    by (simp add: spelled_def globalize_def doc_words_def spell_def list_all2_map1 list_all2_map2 list_all2_same)
qed

text \<open>An update, a delete and a merge on the documents of a state.\<close>

lemma apply_upsert_ids:
  fixes w :: bool
  assumes ok: "index_ok R B st" and ids: "ids_ok B st"
    and "max 1 (unat (next_term_id st)) + length (a_terms a) < 2 ^ 32 - 2"
    and f: "foldl (upsert_term d) (staged d st, []) (a_terms a) = (st3, js)"
  defines "st4 \<equiv> apply_upsert d a w st"
  shows "ids_ok B st4" and "list_all2 (\<lambda>t j. tid B st4 t = Some j) (a_terms a) js"
    and "tid B (remove_from_delta d st) s = Some j \<Longrightarrow> tid B st4 s = Some j"
    and "unat (next_term_id st4) \<le> max 1 (unat (next_term_id st)) + length (a_terms a)"
proof -
  note rm = remove_from_delta [OF ok, where d = d] and fld = apply_upsert_fields [OF ok f, where w = w, folded st4_def]
  have "same_frame st (staged d st)" using rm(6) by (simp add: same_frame_def staged_def Let_def)
  then have rep: "base_rep R (staged d st) B" using base_rep_frame index_okD(1) [OF ok] by blast
  have t: "tid B (staged d st) = tid B (remove_from_delta d st)" by (simp add: fun_eq_iff tid_def)
  have n: "next_term_id (staged d st) = next_term_id st"
    "next_term_id (remove_from_delta d st) = next_term_id st" using rm(9) by (simp_all add: staged_def Let_def)
  have ids1: "ids_ok B (staged d st)"
    using remove_ids(1) [OF ok ids, of d] unfolding ids_ok_def t n staged_simps .
  have u: "ids_ok B st3" "list_all2 (\<lambda>t j. tid B st3 t = Some j) (a_terms a) js"
    "\<forall>s j. tid B (staged d st) s = Some j \<longrightarrow> tid B st3 s = Some j"
    "unat (next_term_id st3) \<le> max 1 (unat (next_term_id st)) + length (a_terms a)"
    using upsert_terms_ids [OF rep ids1 _ f] assms(3) by (auto simp: n)
  have t4: "tid B st4 = tid B st3" by (simp add: fun_eq_iff tid_def fld(6))
  show "ids_ok B st4" using u(1) unfolding ids_ok_def t4 fld(6,7) .
  show "list_all2 (\<lambda>t j. tid B st4 t = Some j) (a_terms a) js" using u(2) by (simp add: t4)
  show "tid B (remove_from_delta d st) s = Some j \<Longrightarrow> tid B st4 s = Some j" using u(3) by (simp add: t4 t)
  show "unat (next_term_id st4) \<le> max 1 (unat (next_term_id st)) + length (a_terms a)" using u(4) by (simp add: fld(7))
qed

lemma doc_words_terms:
  assumes "analyzed_ok a" and "Some t \<in> set (doc_words a)"
  shows "t \<in> set (a_terms a)"
proof -
  obtain i where i: "i \<in> set (a_tokens a)" "i \<noteq> 0" "t = a_terms a ! (unat i - 1)"
    using assms(2) by (auto simp: doc_words_def spell_def split: if_splits)
  have "0 < unat i" using i(2) by (simp add: unat_gt_0)
  moreover have "unat i \<le> length (a_terms a)" using assms(1) i(1) by (simp add: analyzed_ok_def list_all_iff)
  ultimately show ?thesis using i(3) by (simp add: Suc_le_lessD)
qed

lemma apply_upsert_holds:
  assumes ok: "index_ok R B st" and h: "holds B st M" and a: "analyzed_ok a"
    and lt: "max 1 (unat (next_term_id st)) + length (a_terms a) < 2 ^ 32 - 2"
  shows "holds B (apply_upsert d a w st) (M(d \<mapsto> entry_of a))"
    and "unat (next_term_id (apply_upsert d a w st)) \<le> max 1 (unat (next_term_id st)) + length (a_terms a)"
proof -
  obtain st3 js where f: "foldl (upsert_term d) (staged d st, []) (a_terms a) = (st3, js)" by fastforce
  have ids: "ids_ok B st" using h by (simp add: holds_def)
  note fld = apply_upsert_fields [OF ok f, where w = w] and u = apply_upsert_ids [OF ok ids lt f, where w = w]
  let ?st4 = "apply_upsert d a w st"
  show "unat (next_term_id ?st4) \<le> max 1 (unat (next_term_id st)) + length (a_terms a)" by (rule u(4))
  show "holds B ?st4 (M(d \<mapsto> entry_of a))" unfolding holds_def
  proof (intro conjI allI impI u(1))
    show "doc_terms B ?st4 = map_option fst \<circ> M(d \<mapsto> entry_of a)"
      using h unfolding apply_upsert_ok(2) [OF ok] holds_def by (auto simp: fun_eq_iff entry_of_def)
  next
    fix e T W assume e: "(M(d \<mapsto> entry_of a)) e = Some (T, W)"
    show "\<exists>ts. tokens_for_doc ?st4 e = Some ts \<and> spelled (tid B ?st4) ts W"
    proof (cases "e = d")
      case True
      have "spelled (tid B ?st4) (globalize js (a_tokens a)) (doc_words a)"
        using globalize_spelled [OF a u(2)] ids_okD(1) [OF u(1)] by blast
      then show ?thesis using True e by (simp add: tokens_for_doc_def fld(3,5) hm_get_insert entry_of_def)
    next
      case False
      then obtain ts where ts: "tokens_for_doc st e = Some ts" "spelled (tid B (remove_from_delta d st)) ts W"
        using remove_spelled(1) [OF ok h, of e T W d] e by auto
      have "tokens_for_doc ?st4 e = tokens_for_doc st e"
        using False by (intro tokens_frame [OF fld(1), of e d]) (auto simp: fld(2,3,5) hm_get_insert hm_get_remove)
      then show ?thesis using ts spelled_mono [OF ts(2) u(3)] by simp
    qed
    show "t \<in> T" if "Some t \<in> set W" for t
      using that e a doc_words_terms [of a t] remove_spelled(2) [OF ok h, of e T W d]
      by (cases "e = d") (auto simp: entry_of_def)
  qed
qed

lemma apply_delete_holds:
  assumes ok: "index_ok R B st" and h: "holds B st M"
  shows "holds B (apply_delete d w st) (M(d := None))"
    and "next_term_id (apply_delete d w st) = next_term_id st"
proof -
  let ?st' = "apply_delete d w st" and ?st1 = "remove_from_delta d st"
  note rm = remove_from_delta [OF ok, where d = d]
  have ids: "ids_ok B st" using h by (simp add: holds_def)
  have f: "delta_postings ?st' = delta_postings ?st1" "next_term_id ?st' = next_term_id ?st1" "same_frame st ?st'"
    "deleted_docs ?st' = insert d (deleted_docs st)" "shadowed_docs ?st' = insert d (shadowed_docs st)"
    "delta_tokens ?st' = hm_remove d (delta_tokens st)"
    using rm by (auto simp: apply_delete_def Let_def same_frame_def)
  show "next_term_id ?st' = next_term_id st" using f(2) rm(9) by simp
  have t: "tid B ?st' = tid B ?st1" by (simp add: fun_eq_iff tid_def f(1))
  show "holds B ?st' (M(d := None))" unfolding holds_def
  proof (intro conjI allI impI)
    show "ids_ok B ?st'" using remove_ids(1) [OF ok ids, of d] unfolding ids_ok_def t f(1,2) .
    show "doc_terms B ?st' = map_option fst \<circ> M(d := None)"
      using h unfolding apply_delete_ok(2) [OF ok] holds_def by (auto simp: fun_eq_iff)
  next
    fix e T W assume e: "(M(d := None)) e = Some (T, W)"
    then have ne: "e \<noteq> d" "M e = Some (T, W)" by (auto split: if_splits)
    note r = remove_spelled [OF ok h ne(2,1)]
    have "tokens_for_doc ?st' e = tokens_for_doc st e"
      using ne(1) by (intro tokens_frame [OF f(3), of e d]) (auto simp: f(4-6) hm_get_remove)
    then show "\<exists>ts. tokens_for_doc ?st' e = Some ts \<and> spelled (tid B ?st') ts W" using r(1) by (simp add: t)
    show "t \<in> T" if "Some t \<in> set W" for t using r(2) that by blast
  qed
qed

lemma merge_base_holds:
  assumes ok: "index_ok R B st" and mm: "mmap_postings st = None" and fit: "tokens_fit st" and h: "holds B st M"
  shows "holds (hm_get (base_postings (merge_base st))) (merge_base st) M"
proof -
  let ?st' = "merge_base st" and ?B = "hm_get (base_postings (merge_base st))"
  note f = merge_base_fields [of st] and m = merge_base_ok [OF ok mm fit] and u = unshadowed [OF ok mm]
  have ids: "ids_ok B st" using h by (simp add: holds_def)
  have B': "?B t = merged (hm_get (unshadowed st) t) (delta_map st t)" for t
    unfolding f(1) using merge_postings [OF u(1) index_okD(4) [OF ok]] by blast
  have t': "tid ?B ?st' t = map_option p_term_id (?B t)" for t by (simp add: tid_def f(6))
  have down: "tid B st t = Some i" if i: "tid ?B ?st' t = Some i" for t i
  proof (cases "hm_get (unshadowed st) t")
    case None
    then obtain q where "delta_map st t = Some q" "p_term_id q = i"
      using i unfolding t' B' merged_def by (auto split: option.splits)
    then show ?thesis by (simp add: tid_def)
  next
    case (Some p')
    then obtain p where p: "B t = Some p" "p_term_id p' = p_term_id p" using u(4) by blast
    have "i = p_term_id p" using i Some p unfolding t' B' merged_def by (auto split: option.splits)
    then show ?thesis using p ids_okD(3) [OF ids p(1)] by (auto simp: tid_def split: option.splits)
  qed
  show ?thesis unfolding holds_def m(2,3)
  proof (intro conjI allI impI)
    show "ids_ok ?B ?st'" by (rule ids_ok_sub [OF ids down f(5)]) (simp_all add: f(6))
    show "doc_terms B st = map_option fst \<circ> M" using h by (simp add: holds_def)
  next
    fix d T W assume d: "M d = Some (T, W)"
    then have T: "doc_terms ?B ?st' d = Some T" using h unfolding m(2) by (simp add: holds_def)
    from d h obtain ts where ts: "tokens_for_doc st d = Some ts" "spelled (tid B st) ts W"
      and sub: "\<forall>t. Some t \<in> set W \<longrightarrow> t \<in> T" unfolding holds_def by blast
    have "tid ?B ?st' t = Some i" if "Some t \<in> set W" "tid B st t = Some i" for t i
    proof -
      have "d \<in> docs_of ?B t" using T sub that(1) by (auto simp: doc_terms_def f(7) split: if_splits)
      then have "?B t \<noteq> None" by (auto simp: docs_of_def split: option.splits)
      then show ?thesis using down [of t] that(2) by (auto simp: t')
    qed
    then show "\<exists>ts. tokens_for_doc st d = Some ts \<and> spelled (tid ?B ?st') ts W"
      using ts spelled_mono [OF ts(2)] by blast
    show "t \<in> T" if "Some t \<in> set W" for t using sub that by blast
  qed
qed

section \<open>Refinement of a map of documents\<close>

text \<open>The documents a state represents, and the reads that show them.\<close>

definition represents :: "treemap_de \<Rightarrow> index_state \<Rightarrow> documents \<Rightarrow> bool" where
  "represents R st M \<longleftrightarrow> (\<exists>B. index_ok R B st \<and> holds B st M)"

lemma represents_reads:
  assumes "represents R st M"
  shows "posting_of R st t = Inr {d. \<exists>T W. M d = Some (T, W) \<and> t \<in> T}" and "live_docs st = dom M"
    and "M d = Some (T, W) \<Longrightarrow> \<exists>ts. tokens_for_doc st d = Some ts \<and> spelled (term_id st) ts W"
proof -
  from assms obtain B where ok: "index_ok R B st" and h: "holds B st M" by (auto simp: represents_def)
  have dt: "doc_terms B st = map_option fst \<circ> M" using h by (simp add: holds_def)
  show "posting_of R st t = Inr {d. \<exists>T W. M d = Some (T, W) \<and> t \<in> T}"
    unfolding posting_having [OF ok] having_def dt by auto
  show "live_docs st = dom M" unfolding live_docs_dom [OF ok] dt by (auto simp: dom_def)
  have "term_id st = tid B st" using term_id_tid [OF index_okD(1) [OF ok]] by blast
  then show "M d = Some (T, W) \<Longrightarrow> \<exists>ts. tokens_for_doc st d = Some ts \<and> spelled (term_id st) ts W"
    using h by (auto simp: holds_def)
qed

datatype index_op = IUpsert u64 analyzed_document bool | IDelete u64 bool | IMerge

fun index_exec :: "treemap_de \<Rightarrow> index_state \<Rightarrow> index_op \<Rightarrow> index_state" where
  "index_exec R st (IUpsert d a w) = apply_upsert d a w st"
| "index_exec R st (IDelete d w) = apply_delete d w st"
| "index_exec R st IMerge = snd (merge_delta R st)"

fun doc_exec :: "documents \<Rightarrow> index_op \<Rightarrow> documents" where
  "doc_exec M (IUpsert d a w) = M(d \<mapsto> entry_of a)"
| "doc_exec M (IDelete d w) = M(d := None)"
| "doc_exec M IMerge = M"

fun op_ok :: "index_op \<Rightarrow> bool" where
  "op_ok (IUpsert d a w) = analyzed_ok a"
| "op_ok _ = True"

fun op_terms :: "index_op \<Rightarrow> nat" where
  "op_terms (IUpsert d a w) = length (a_terms a)"
| "op_terms _ = 0"

fun op_tokens :: "index_op \<Rightarrow> nat" where
  "op_tokens (IUpsert d a w) = length (a_tokens a)"
| "op_tokens _ = 0"

definition token_total :: "index_state \<Rightarrow> nat" where
  "token_total st = sum_list (map (length \<circ> snd) (base_records (base_tokens st)))
     + sum_list (map (length \<circ> snd) (delta_tokens st))"

lemma remove_sum: "sum_list (map (length \<circ> snd) (hm_remove d m)) \<le> sum_list (map (length \<circ> snd) m)"
  by (induction m) auto

lemma upsert_total:
  assumes "index_ok R B st"
  shows "token_total (apply_upsert d a w st) \<le> token_total st + length (a_tokens a)"
proof -
  obtain st3 ids where "foldl (upsert_term d) (staged d st, []) (a_terms a) = (st3, ids)" by fastforce
  note f = apply_upsert_fields [OF assms this, where w = w]
  have "d \<notin> set (hm_keys (hm_remove d (delta_tokens st)))" by (simp add: token_keys)
  from hm_insert_fresh [OF this] have "delta_tokens (apply_upsert d a w st)
      = hm_remove d (delta_tokens st) @ [(d, globalize ids (a_tokens a))]" by (simp add: f(5))
  moreover have "base_tokens (apply_upsert d a w st) = base_tokens st" using f(1) by (simp add: same_frame_def)
  ultimately show ?thesis using remove_sum [of d "delta_tokens st"] by (simp add: token_total_def globalize_def)
qed

lemma delete_total:
  assumes "index_ok R B st"
  shows "token_total (apply_delete d w st) \<le> token_total st"
proof -
  have "delta_tokens (apply_delete d w st) = hm_remove d (delta_tokens st)"
    "base_tokens (apply_delete d w st) = base_tokens st"
    using remove_from_delta(5,6) [OF assms, where d = d]
    by (simp_all add: apply_delete_def Let_def same_frame_def)
  then show ?thesis using remove_sum [of d "delta_tokens st"] by (simp add: token_total_def)
qed

lemma merge_total:
  assumes "index_ok R B st" and "tokens_fit st"
  shows "token_total (merge_base st) \<le> token_total st"
proof -
  note k = kept_records [OF assms]
  have le: "sum_list (map (length \<circ> snd) (kept_records st)) \<le> token_total st"
    unfolding kept_records_def token_total_def map_append sum_list_append
    by (intro add_mono sum_list_filter_le_nat)
  have "base_records (base_tokens (merge_base st)) = sort_key fst (kept_records st)"
    using packed_records(4) [OF k(4,1)] by (simp add: merge_base_fields)
  moreover have "sum_list (map (length \<circ> snd) (sort_key fst (kept_records st)))
      = sum_list (map (length \<circ> snd) (kept_records st))"
    by (metis mset_map mset_sort sum_mset_sum_list)
  ultimately show ?thesis using le by (simp add: token_total_def merge_base_fields)
qed

lemma index_step:
  assumes "represents R st M" and "op_ok op" and "max 1 (unat (next_term_id st)) + op_terms op < 2 ^ 32 - 2"
    and "token_total st + op_tokens op < 2 ^ 64"
  shows "represents R (index_exec R st op) (doc_exec M op)
    \<and> unat (next_term_id (index_exec R st op)) \<le> max 1 (unat (next_term_id st)) + op_terms op
    \<and> token_total (index_exec R st op) \<le> token_total st + op_tokens op"
proof -
  from assms(1) obtain B where ok: "index_ok R B st" and h: "holds B st M" by (auto simp: represents_def)
  show ?thesis
  proof (cases op)
    case (IUpsert d a w)
    then show ?thesis
      using apply_upsert_ok(1) [OF ok, of d a w] apply_upsert_holds [OF ok h, of a d w] upsert_total [OF ok, of d a w] assms(2,3)
      by (auto simp: represents_def)
  next
    case (IDelete d w)
    then show ?thesis
      using apply_delete_ok(1) [OF ok, of d w] apply_delete_holds [OF ok h, of d w] delete_total [OF ok, of d w]
      by (auto simp: represents_def)
  next
    case IMerge
    from merge_delta_loads [OF ok] obtain st1 where s: "merge_delta R st = (Inr (), merge_base st1)"
      "index_ok R B st1" "mmap_postings st1 = None" "same_delta st st1" by blast
    note sd = same_deltaD [OF s(4)]
    have "tokens_fit st" using assms(4) IMerge by (simp add: tokens_fit_def token_total_def)
    then have fit: "tokens_fit st1" by (simp add: sd(3))
    have "tid B st1 = tid B st" by (simp add: fun_eq_iff tid_def sd(4))
    then have "holds B st1 M" using h unfolding holds_def ids_ok_def by (simp add: sd)
    then have "represents R (merge_base st1) M"
      using merge_base_ok(1) [OF s(2,3) fit] merge_base_holds [OF s(2,3) fit] unfolding represents_def by blast
    moreover have "token_total st1 = token_total st" using s(4) by (simp add: token_total_def same_delta_def)
    ultimately show ?thesis
      using IMerge s(1) merge_total [OF s(2) fit] merge_base_fields(5) [of st1] sd(5) by simp
  qed
qed

lemma index_run:
  assumes "represents R st M" and "list_all op_ok ops"
    and "max 1 (unat (next_term_id st)) + sum_list (map op_terms ops) < 2 ^ 32 - 2"
    and "token_total st + sum_list (map op_tokens ops) < 2 ^ 64"
  shows "represents R (foldl (index_exec R) st ops) (foldl doc_exec M ops)"
  using assms
proof (induction ops arbitrary: st M)
  case (Cons op ops)
  have s: "represents R (index_exec R st op) (doc_exec M op)"
    "unat (next_term_id (index_exec R st op)) \<le> max 1 (unat (next_term_id st)) + op_terms op"
    "token_total (index_exec R st op) \<le> token_total st + op_tokens op"
    using index_step [OF Cons.prems(1), of op] Cons.prems(2-) by auto
  show ?case using Cons.IH [OF s(1)] s(2,3) Cons.prems(2-) by auto
qed simp

lemma default_represents: "represents R index_default Map.empty"
proof -
  have "packs packed_empty {}" unfolding packs_def by (intro exI [of _ "[]"]) simp
  then have "index_ok R Map.empty index_default"
    by (intro index_okI) (simp_all add: base_rep_def index_default_def docs_of_def)
  moreover have "holds Map.empty index_default Map.empty"
    by (auto simp: holds_def ids_ok_def tid_def doc_terms_def index_default_def fun_eq_iff)
  ultimately show ?thesis unfolding represents_def by blast
qed

text \<open>
  C14. The index refines a map of documents: over any sequence of updates, deletes and merges of the
  delta that start from a state representing some documents, below the limits of the term counter
  and of the token offsets, a term's posting is exactly the set of live documents with that term, the live
  documents are those of the map, and the token stream of each one spells its words.
\<close>

theorem index_refines_documents:
  assumes "represents R st M" and "list_all op_ok ops"
    and "max 1 (unat (next_term_id st)) + sum_list (map op_terms ops) < 2 ^ 32 - 2"
    and "token_total st + sum_list (map op_tokens ops) < 2 ^ 64"
  defines "st' \<equiv> foldl (index_exec R) st ops" and "M' \<equiv> foldl doc_exec M ops"
  shows "posting_of R st' t = Inr {d. \<exists>T W. M' d = Some (T, W) \<and> t \<in> T} \<and> live_docs st' = dom M'
    \<and> (\<forall>d T W. M' d = Some (T, W) \<longrightarrow>
          (\<exists>ts. tokens_for_doc st' d = Some ts \<and> spelled (term_id st') ts W))"
  using represents_reads [OF index_run [OF assms(1-4)]] unfolding st'_def M'_def by blast

definition word_doc :: "string list \<Rightarrow> u32 list \<Rightarrow> analyzed_document" where
  "word_doc ts is = \<lparr>a_terms = ts, a_tokens = is\<rparr>"

definition no_treemap :: treemap_de where
  "no_treemap b = None"

theorem index_refines_documents_witness:
  "let ops = [IUpsert 1 (word_doc [''alpha'', ''beta''] [1, 2]) True, IUpsert 2 (word_doc [''beta''] [1, 1]) True,
              IMerge, IDelete 1 True];
       st = foldl (index_exec no_treemap) index_default ops
   in list_all op_ok ops \<and> posting_of no_treemap st ''beta'' = Inr {2} \<and> posting_of no_treemap st ''alpha'' = Inr {}
     \<and> live_docs st = {2}"
proof -
  let ?ops = "[IUpsert 1 (word_doc [''alpha'', ''beta''] [1, 2]) True, IUpsert 2 (word_doc [''beta''] [1, 1]) True,
              IMerge, IDelete 1 True]"
  have ok: "list_all op_ok ?ops" by (simp add: word_doc_def analyzed_ok_def)
  have "max 1 (unat (next_term_id index_default)) + sum_list (map op_terms ?ops) < 2 ^ 32 - 2"
    "token_total index_default + sum_list (map op_tokens ?ops) < 2 ^ 64"
    by (simp_all add: index_default_def word_doc_def token_total_def base_records_def packed_empty_def)
  note r = index_refines_documents [OF default_represents ok this, where R = no_treemap]
  have M: "foldl doc_exec Map.empty ?ops = [2 \<mapsto> ({''beta''}, [Some ''beta'', Some ''beta''])]"
    by (auto simp: fun_eq_iff entry_of_def word_doc_def doc_words_def spell_def)
  show ?thesis unfolding Let_def
    using ok r [where t = "''beta''"] r [where t = "''alpha''"] unfolding M by (auto simp del: foldl.simps)
qed

end
