(* ===== verification/Fts_Build.thy ===== *)
theory Fts_Build
  imports Fts_Index
begin

text \<open>
  The first batch of the full-text index and its statistics (\<^verbatim>\<open>fts/index.rs\<close>, \<open>build_base\<close>,
  \<open>cached_stats\<close>). Theorems: the batch files every document under its terms; the numbers it gives
  the first two terms coincide; documents deleted before the batch stay hidden after it; the cached
  statistics can be those of an earlier state.
\<close>

section \<open>Terms of the documents of a batch\<close>

text \<open>What term searches rely on: the documents of a state with their terms.\<close>

definition indexes :: "treemap_de \<Rightarrow> index_state \<Rightarrow> (u64 \<rightharpoonup> string set) \<Rightarrow> bool" where
  "indexes R st D \<longleftrightarrow> (\<exists>B. index_ok R B st \<and> doc_terms B st = D)"

lemma represents_indexes: "represents R st M \<Longrightarrow> indexes R st (map_option fst \<circ> M)"
  by (auto simp: represents_def indexes_def holds_def)

lemma indexes_posting: "indexes R st D \<Longrightarrow> posting_of R st t = Inr (having D t)"
  by (auto simp: indexes_def posting_having)

lemma indexes_live: "indexes R st D \<Longrightarrow> live_docs st = dom D"
  by (auto simp: indexes_def live_docs_dom)

lemma indexes_upsert: "indexes R st D \<Longrightarrow> indexes R (apply_upsert d a w st) (D(d \<mapsto> set (a_terms a)))"
  unfolding indexes_def using apply_upsert_ok by metis

lemma indexes_delete: "indexes R st D \<Longrightarrow> indexes R (apply_delete d w st) (D(d := None))"
  unfolding indexes_def using apply_delete_ok by metis

lemma indexes_merge:
  assumes "indexes R st D" and "tokens_fit st"
  shows "\<exists>st'. merge_delta R st = (Inr (), st') \<and> indexes R st' D"
proof -
  from assms(1) obtain B where ok: "index_ok R B st" and D: "doc_terms B st = D" by (auto simp: indexes_def)
  from merge_delta_loads [OF ok] obtain st1 where s: "merge_delta R st = (Inr (), merge_base st1)"
    "index_ok R B st1" "mmap_postings st1 = None" "same_delta st st1" by blast
  note sd = same_deltaD [OF s(4)]
  have "tokens_fit st1" using assms(2) by (simp add: sd(3))
  from merge_base_ok(1,2) [OF s(2,3) this] show ?thesis unfolding indexes_def using s(1) D sd(1) by auto
qed

abbreviation base_map :: "index_state \<Rightarrow> string \<rightharpoonup> posting" where
  "base_map st \<equiv> hm_get (base_postings st)"

definition base_wf :: "index_state \<Rightarrow> bool" where
  "base_wf st \<longleftrightarrow> hm_wf (base_postings st) \<and> (\<forall>t p. base_map st t = Some p \<longrightarrow> pd_ok (p_docs p))"

text \<open>A batch changes the base postings, the documents and the counter only.\<close>

definition same_rest :: "index_state \<Rightarrow> index_state \<Rightarrow> bool" where
  "same_rest st st' \<longleftrightarrow> mmap_postings st' = mmap_postings st \<and> base_tokens st' = base_tokens st
     \<and> delta_postings st' = delta_postings st \<and> delta_docs st' = delta_docs st \<and> delta_tokens st' = delta_tokens st
     \<and> shadowed_docs st' = shadowed_docs st \<and> deleted_docs st' = deleted_docs st \<and> pending_wal st' = pending_wal st"

lemma base_term_docs:
  assumes "base_term d (st, ids) t = (st', ids')" and "base_wf st"
  shows "base_wf st'" and "docs_of (base_map st') s = docs_of (base_map st) s \<union> (if s = t then {d} else {})"
    and "same_rest st st'" and "base_docs st' = base_docs st"
    and "base_map st s = Some p \<Longrightarrow> \<exists>p'. base_map st' s = Some p' \<and> p_term_id p' = p_term_id p"
  using assms
  by (auto simp: base_term_def base_wf_def same_rest_def Let_def docs_of_def hm_simps split: option.splits if_splits)

lemma base_terms_docs:
  assumes "foldl (base_term d) (st, ids) ts = (st', ids')" and "base_wf st"
  shows "base_wf st' \<and> (\<forall>s. docs_of (base_map st') s = docs_of (base_map st) s \<union> (if s \<in> set ts then {d} else {}))
    \<and> same_rest st st' \<and> base_docs st' = base_docs st
    \<and> (\<forall>s p. base_map st s = Some p \<longrightarrow> (\<exists>p'. base_map st' s = Some p' \<and> p_term_id p' = p_term_id p))"
  using assms
proof (induction ts arbitrary: st ids)
  case (Cons t ts)
  obtain st1 ids1 where one: "base_term d (st, ids) t = (st1, ids1)" by fastforce
  note b = base_term_docs [OF one Cons.prems(2)]
  have "foldl (base_term d) (st1, ids1) ts = (st', ids')" using Cons.prems(1) one by simp
  note IH = Cons.IH [OF this b(1)]
  then have "same_rest st st'" using b(3) by (simp add: same_rest_def)
  then show ?case using IH b(2,4,5) by auto metis
qed (simp add: same_rest_def)

lemma base_document_docs:
  assumes "base_document (st, rs) (d, a) = (st', rs')" and "base_wf st"
  shows "base_wf st'" and "docs_of (base_map st') s = docs_of (base_map st) s \<union> (if s \<in> set (a_terms a) then {d} else {})"
    and "same_rest st st'" and "base_docs st' = insert d (base_docs st)"
    and "\<exists>ts. rs' = rs @ [(d, ts)] \<and> length ts = length (a_tokens a)"
    and "base_map st s = Some p \<Longrightarrow> \<exists>p'. base_map st' s = Some p' \<and> p_term_id p' = p_term_id p"
proof -
  let ?st = "st\<lparr>base_docs := insert d (base_docs st)\<rparr>"
  obtain st1 ids where f: "foldl (base_term d) (?st, []) (a_terms a) = (st1, ids)" by fastforce
  then have eq: "st' = st1" "rs' = rs @ [(d, globalize ids (a_tokens a))]"
    using assms(1) by (auto simp: base_document_def)
  have wf: "base_wf ?st" using assms(2) by (simp add: base_wf_def)
  note b = base_terms_docs [OF f wf]
  show "base_wf st'" "docs_of (base_map st') s = docs_of (base_map st) s \<union> (if s \<in> set (a_terms a) then {d} else {})"
    "same_rest st st'" "base_docs st' = insert d (base_docs st)"
    "\<exists>ts. rs' = rs @ [(d, ts)] \<and> length ts = length (a_tokens a)"
    "base_map st s = Some p \<Longrightarrow> \<exists>p'. base_map st' s = Some p' \<and> p_term_id p' = p_term_id p"
    using b by (auto simp: eq same_rest_def globalize_def)
qed

lemma base_documents_docs:
  assumes "foldl base_document (st, rs) docs = (st', rs')" and "base_wf st"
  shows "base_wf st'
    \<and> (\<forall>s. docs_of (base_map st') s = docs_of (base_map st) s \<union> {d. \<exists>a. (d, a) \<in> set docs \<and> s \<in> set (a_terms a)})
    \<and> same_rest st st' \<and> base_docs st' = base_docs st \<union> fst ` set docs
    \<and> (\<exists>ts. rs' = rs @ ts \<and> map fst ts = map fst docs
         \<and> sum_list (map (length \<circ> snd) ts) = sum_list (map (\<lambda>(d, a). length (a_tokens a)) docs))
    \<and> (\<forall>s p. base_map st s = Some p \<longrightarrow> (\<exists>p'. base_map st' s = Some p' \<and> p_term_id p' = p_term_id p))"
  using assms
proof (induction docs arbitrary: st rs)
  case (Cons da docs)
  obtain d a where da: "da = (d, a)" by fastforce
  obtain st1 rs1 where one: "base_document (st, rs) (d, a) = (st1, rs1)" by fastforce
  note b = base_document_docs [OF one Cons.prems(2)]
  have "foldl base_document (st1, rs1) docs = (st', rs')" using Cons.prems(1) one by (simp add: da)
  note IH = Cons.IH [OF this b(1)]
  obtain ts where ts: "rs1 = rs @ [(d, ts)]" "length ts = length (a_tokens a)" using b(5) by blast
  obtain us where us: "rs' = rs1 @ us" "map fst us = map fst docs"
    "sum_list (map (length \<circ> snd) us) = sum_list (map (\<lambda>(d, a). length (a_tokens a)) docs)" using IH by blast
  have "\<exists>vs. rs' = rs @ vs \<and> map fst vs = map fst (da # docs)
      \<and> sum_list (map (length \<circ> snd) vs) = sum_list (map (\<lambda>(d, a). length (a_tokens a)) (da # docs))"
    by (intro exI [of _ "(d, ts) # us"]) (simp add: ts us da)
  moreover have "same_rest st st'" using IH b(3) by (simp add: same_rest_def)
  moreover have "\<exists>p'. base_map st' s = Some p' \<and> p_term_id p' = p_term_id p" if "base_map st s = Some p" for s p
    using b(6) [OF that] IH by metis
  moreover have "docs_of (base_map st') s
      = docs_of (base_map st) s \<union> {d. \<exists>a. (d, a) \<in> set (da # docs) \<and> s \<in> set (a_terms a)}" for s
    using IH b(2) [of s] by (auto simp: da)
  moreover have "base_docs st' = base_docs st \<union> fst ` set (da # docs)" using IH b(4) by (simp add: da)
  ultimately show ?case using IH by blast
qed (auto simp: same_rest_def)

lemma build_base_fields:
  assumes "can_build_base st" and "foldl base_document (st\<lparr>base_postings := []\<rparr>, []) docs = (st', rs)"
  shows "build_base docs st = st'\<lparr>base_tokens := from_records rs, needs_rebuild := False\<rparr>"
    and "base_wf st'" and "docs_of (base_map st') s = {d. \<exists>a. (d, a) \<in> set docs \<and> s \<in> set (a_terms a)}"
    and "same_rest st st'" and "base_docs st' = fst ` set docs" and "map fst rs = map fst docs"
    and "sum_list (map (length \<circ> snd) rs) = sum_list (map (\<lambda>(d, a). length (a_tokens a)) docs)"
proof -
  have wf: "base_wf (st\<lparr>base_postings := []\<rparr>)" by (simp add: base_wf_def)
  note b = base_documents_docs [OF assms(2) wf]
  show "build_base docs st = st'\<lparr>base_tokens := from_records rs, needs_rebuild := False\<rparr>"
    using assms(2) by (simp add: build_base_def)
  show "base_wf st'" "docs_of (base_map st') s = {d. \<exists>a. (d, a) \<in> set docs \<and> s \<in> set (a_terms a)}"
    "same_rest st st'" "base_docs st' = fst ` set docs" "map fst rs = map fst docs"
    "sum_list (map (length \<circ> snd) rs) = sum_list (map (\<lambda>(d, a). length (a_tokens a)) docs)"
    using b assms(1) by (auto simp: same_rest_def can_build_base_def docs_of_def)
qed

text \<open>
  A first batch of distinct documents, on a state from which nothing was deleted, files each
  document under its terms.
\<close>

lemma build_base_indexes:
  assumes "can_build_base st" and "shadowed_docs st = {}" and "deleted_docs st = {}"
    and "distinct (map fst docs)" and "sum_list (map (\<lambda>(d, a). length (a_tokens a)) docs) < 2 ^ 64"
  shows "indexes R (build_base docs st) (map_of (map (\<lambda>(d, a). (d, set (a_terms a))) docs))"
proof -
  obtain st' rs where f: "foldl base_document (st\<lparr>base_postings := []\<rparr>, []) docs = (st', rs)" by fastforce
  note b = build_base_fields [OF assms(1) f]
  let ?st = "build_base docs st"
  have r: "mmap_postings ?st = None" "delta_postings ?st = []" "delta_docs ?st = {}" "delta_tokens ?st = []"
    "shadowed_docs ?st = {}" "deleted_docs ?st = {}" "base_postings ?st = base_postings st'"
    "base_docs ?st = fst ` set docs" "base_tokens ?st = from_records rs"
    using assms(1-3) b(4,5) by (auto simp: b(1) same_rest_def can_build_base_def)
  have "index_ok R (base_map st') ?st"
  proof (rule index_okI)
    show "base_rep R ?st (base_map st')" using b(2) r by (simp add: base_rep_def base_wf_def)
    show "\<forall>t p. base_map st' t = Some p \<longrightarrow> pd_ok (p_docs p)" using b(2) by (simp add: base_wf_def)
    show "\<forall>t. docs_of (base_map st') t \<subseteq> base_docs ?st" unfolding r b(3) by force
    have "fst ` set rs = fst ` set docs" using b(6) by (metis list.set_map)
    then show "packs (base_tokens ?st) (base_docs ?st)"
      unfolding packs_def r using assms(4,5) b(6,7) by auto
  qed (simp_all add: r docs_of_def)
  moreover have "doc_terms (base_map st') ?st d = map_of (map (\<lambda>(d, a). (d, set (a_terms a))) docs) d" for d
  proof (cases "d \<in> fst ` set docs")
    case True
    then obtain a where a: "(d, a) \<in> set docs" by auto
    have "map_of docs d = Some a" using a assms(4) by (simp add: map_of_is_SomeI)
    then have "map_of (map (\<lambda>(d, a). (d, set (a_terms a))) docs) d = Some (set (a_terms a))"
      by (simp add: map_of_map [unfolded comp_def])
    moreover have "{t. d \<in> docs_of (base_map st') t} = set (a_terms a)"
      unfolding b(3) using a eq_key_imp_eq_value [OF assms(4) _ a] by blast
    ultimately show ?thesis using True unfolding doc_terms_def r by simp
  next
    case False
    then have "map_of (map (\<lambda>(d, a). (d, set (a_terms a))) docs) d = None"
      by (force simp: map_of_eq_None_iff)
    then show ?thesis using False by (simp add: doc_terms_def r)
  qed
  ultimately show ?thesis unfolding indexes_def by blast
qed

section \<open>Numbers of the first terms\<close>

text \<open>
  C39. The first batch gives two terms the same number: on a fresh index, whose counter is zero, the
  first two terms of the first document of a batch are both numbered one, because the counter is
  raised to one for the number but incremented from zero. Phrase search compares these
  numbers.
\<close>

theorem first_batch_merges_terms:
  assumes "next_term_id st = 0" and "can_build_base st" and "a_terms a = s # t # ts" and "s \<noteq> t"
  shows "term_id (build_base ((d, a) # docs) st) s = Some 1
    \<and> term_id (build_base ((d, a) # docs) st) t = Some 1"
proof -
  let ?st0 = "st\<lparr>base_postings := []\<rparr>"
  define st1 where "st1 = ?st0\<lparr>base_docs := insert d (base_docs st)\<rparr>"
  have wf1: "base_wf st1" by (simp add: base_wf_def st1_def)
  obtain st2 ids2 where two: "base_term d (base_term d (st1, []) s) t = (st2, ids2)" by fastforce
  have p: "map_option p_term_id (base_map st2 s) = Some 1" "map_option p_term_id (base_map st2 t) = Some 1"
    using two assms(1,4) by (auto simp: base_term_def st1_def Let_def hm_get_insert sat_inc_def)
  have wf2: "base_wf st2"
    using base_term_docs(1) [OF _ wf1, of d "[]" s] base_term_docs(1) [of d _ _ t st2 ids2] two
    by (metis prod.collapse)
  obtain st3 ids3 where "foldl (base_term d) (st2, ids2) ts = (st3, ids3)" by fastforce
  note b3 = base_terms_docs [OF this wf2]
  have one: "base_document (?st0, []) (d, a) = (st3, [(d, globalize ids3 (a_tokens a))])"
    using two \<open>foldl (base_term d) (st2, ids2) ts = (st3, ids3)\<close> assms(3) by (simp add: base_document_def st1_def)
  obtain st4 rs where f: "foldl base_document (st3, [(d, globalize ids3 (a_tokens a))]) docs = (st4, rs)" by fastforce
  note b4 = base_documents_docs [OF f] b3
  have "foldl base_document (?st0, []) ((d, a) # docs) = (st4, rs)" using one f by simp
  note b = build_base_fields [OF assms(2) this]
  have dp: "delta_postings (build_base ((d, a) # docs) st) = []" "base_postings (build_base ((d, a) # docs) st) = base_postings st4"
    using b(4) assms(2) by (simp_all add: b(1) same_rest_def can_build_base_def)
  have keep: "map_option p_term_id (base_map st4 x) = Some 1" if "map_option p_term_id (base_map st2 x) = Some 1" for x
    using that b4 by (auto simp: map_option_eq_Some) metis
  have "term_id (build_base ((d, a) # docs) st) x = Some 1" if "map_option p_term_id (base_map st4 x) = Some 1" for x
    using that by (auto simp: term_id_def dp)
  then show ?thesis using keep p by blast
qed

definition alpha_beta :: analyzed_document where
  "alpha_beta = word_doc [''alpha'', ''beta''] [1, 2]"

theorem first_batch_merges_terms_witness:
  "next_term_id index_default = 0 \<and> can_build_base index_default
   \<and> term_id (build_base [(7, alpha_beta)] index_default) ''alpha'' = Some 1
   \<and> term_id (build_base [(7, alpha_beta)] index_default) ''beta'' = Some 1"
proof -
  have "next_term_id index_default = 0" "can_build_base index_default"
    by (simp_all add: index_default_def can_build_base_def packed_empty_def)
  then show ?thesis
    using first_batch_merges_terms [of index_default alpha_beta "''alpha''" "''beta''" "[]" 7 "[]"]
    by (simp add: alpha_beta_def word_doc_def)
qed

section \<open>Deletions before the batch\<close>

text \<open>
  A document deleted before the first batch stays hidden: the check that allows the batch looks
  at the base and the delta but not at the deleted documents, so a batch on an index from which
  only a deletion was recorded is built under that deletion, and the document it adds is neither
  live nor in any posting.
\<close>

theorem deleted_before_batch_hidden:
  "can_build_base (apply_delete d False index_default)
   \<and> d \<notin> live_docs (build_base docs (apply_delete d False index_default))
   \<and> (\<exists>D. posting_of R (build_base docs (apply_delete d False index_default)) t = Inr D \<and> d \<notin> D)"
proof -
  let ?st = "apply_delete d False index_default"
  have s: "?st = index_default\<lparr>shadowed_docs := {d}, deleted_docs := {d}\<rparr>"
    by (simp add: apply_delete_def remove_from_delta_def index_default_def Let_def)
  have can: "can_build_base ?st" unfolding s by (simp add: index_default_def can_build_base_def packed_empty_def)
  obtain st' rs where f: "foldl base_document (?st\<lparr>base_postings := []\<rparr>, []) docs = (st', rs)" by fastforce
  note b = build_base_fields [OF can f]
  have "mmap_postings (build_base docs ?st) = None" "deleted_docs (build_base docs ?st) = {d}"
  proof -
    have "mmap_postings ?st = None" "deleted_docs ?st = {d}" unfolding s by (simp_all add: index_default_def)
    then show "mmap_postings (build_base docs ?st) = None" "deleted_docs (build_base docs ?st) = {d}"
      using b(4) by (simp_all add: b(1) same_rest_def)
  qed
  then show ?thesis using can by (auto simp: live_docs_def posting_of_def Let_def split: option.splits)
qed

section \<open>Cached statistics\<close>

definition three_words :: analyzed_document where
  "three_words = word_doc [''x''] [1, 1, 1]"

definition one_word :: analyzed_document where
  "one_word = word_doc [''x''] [1]"

definition stats_before :: index_state where
  "stats_before = foldl (index_exec no_treemap) index_default
     [IUpsert 1 one_word False, IUpsert 2 three_words False, IMerge, IDelete 1 False]"

definition stats_after :: index_state where
  "stats_after = foldl (index_exec no_treemap) (snd (cached_stats stats_before))
     [IUpsert 3 one_word False, IMerge, IDelete 2 False]"

text \<open>
  The cached statistics can be those of an earlier state: the signature that guards the cache
  mixes counters only, so a state with other documents but equal counters reuses the totals of the
  state that filled the cache.
\<close>

theorem stats_cache_stale:
  "snd (fst (cached_stats stats_after)) = 3 \<and> live_term_total stats_after = 1"
  unfolding stats_after_def stats_before_def by code_simp

end
