(* ===== verification/Fts_Query.thy ===== *)
theory Fts_Query
  imports Fts_Build "HOL-Library.Sublist"
begin

text \<open>
  Queries of the full-text engine (\<^verbatim>\<open>fts/query.rs\<close> and \<open>FtsEngine::search\<close> of \<^verbatim>\<open>fts/engine.rs\<close>):
  phrases, conjunctions of terms, and boolean queries with their groups. Theorems: a conjunction
  selects the live documents that have all its terms, whatever the order in which the postings are
  intersected; a phrase selects those in which its words stand next to each other in order; a
  boolean query selects the documents that satisfy one of its groups. Error theorems show a phrase
  that matches its reversal and a quoted phrase that is read as a boolean query.
\<close>

section \<open>White space\<close>

definition is_whitespace :: "nat \<Rightarrow> bool" where
  "is_whitespace c = (9 \<le> c \<and> c \<le> 13 \<or> c = 32 \<or> c = 0x85 \<or> c = 0xA0 \<or> c = 0x1680
     \<or> 0x2000 \<le> c \<and> c \<le> 0x200A \<or> c = 0x2028 \<or> c = 0x2029 \<or> c = 0x202F \<or> c = 0x205F \<or> c = 0x3000)"

definition trim :: "string \<Rightarrow> string" where
  "trim s = of_chars (rev (dropWhile is_whitespace (rev (dropWhile is_whitespace (chars s)))))"

definition split_whitespace :: "string \<Rightarrow> string list" where
  "split_whitespace s = map of_chars (filter (\<lambda>w. w \<noteq> []) (split_on is_whitespace (chars s)))"

definition phrase_query :: "string \<Rightarrow> string \<times> bool" where
  "phrase_query query =
     (let q = trim query
      in if 2 \<le> length q \<and> hd q = CHR 0x22 \<and> last q = CHR 0x22 then (butlast (tl q), True) else (q, False))"

section \<open>Conjunctions and phrases\<close>

fun intersect_rest :: "treemap list \<Rightarrow> nat list \<Rightarrow> treemap \<Rightarrow> treemap" where
  "intersect_rest ps [] result = result"
| "intersect_rest ps (i # is) result =
     (let r = result \<inter> ps ! i in if r = {} then r else intersect_rest ps is r)"

definition windows :: "nat \<Rightarrow> 'a list \<Rightarrow> 'a list list" where
  "windows n xs = (if n \<le> length xs then map (\<lambda>i. take n (drop i xs)) [0..<length xs - n + 1] else [])"

definition query_tokens :: "index_state \<Rightarrow> analyzed_document \<Rightarrow> u32 list" where
  "query_tokens st a =
     List.map_filter (\<lambda>i. if i = 0 then None
       else if unat i - 1 < length (a_terms a) then term_id st (a_terms a ! (unat i - 1)) else None) (a_tokens a)"

definition matching_docs_from_postings :: "index_state \<Rightarrow> treemap list \<Rightarrow> analyzed_document \<Rightarrow> bool \<Rightarrow> treemap" where
  "matching_docs_from_postings st ps a phrase =
     (case sort_key (\<lambda>i. card (ps ! i)) [0..<length ps] of
        [] \<Rightarrow> {}
      | smallest # order \<Rightarrow>
          let result = (if ps ! smallest = {} then {} else intersect_rest ps order (ps ! smallest)) in
          if result = {} \<or> \<not> phrase then result
          else let q = query_tokens st a in
            if q = [] then {}
            else Set.filter (\<lambda>d. case tokens_for_doc st d of
                   None \<Rightarrow> False | Some ts \<Rightarrow> list_ex (\<lambda>w. w = q) (windows (length q) ts)) result)"

definition matching_docs :: "treemap_de \<Rightarrow> index_state \<Rightarrow> analyzed_document \<Rightarrow> bool \<Rightarrow> treemap fts" where
  "matching_docs R st a phrase =
     rbind (rmap (posting_of R st) (a_terms a)) (\<lambda>ps. Inr (matching_docs_from_postings st ps a phrase))"

section \<open>Boolean queries\<close>

definition starts_minus :: "string \<Rightarrow> bool" where
  "starts_minus w = (case w of [] \<Rightarrow> False | c # _ \<Rightarrow> c = CHR ''-'')"

definition is_operator :: "string \<Rightarrow> bool" where
  "is_operator w \<longleftrightarrow> eq_ignore_ascii_case w ''OR'' \<or> eq_ignore_ascii_case w ''AND''
     \<or> eq_ignore_ascii_case w ''NOT'' \<or> starts_minus w"

text \<open>\<open>strip_prefix('-')\<close>, or else \<open>strip_prefix('+')\<close>.\<close>

definition strip_sign :: "string \<Rightarrow> string" where
  "strip_sign w = (case w of [] \<Rightarrow> [] | c # cs \<Rightarrow> if c = CHR ''-'' \<or> c = CHR ''+'' then cs else w)"

definition push_last :: "'a \<Rightarrow> 'a list list \<Rightarrow> 'a list list" where
  "push_last x gs = butlast gs @ [last gs @ [x]]"

fun bool_groups :: "string list \<Rightarrow> (bool \<times> string) list list \<Rightarrow> bool \<Rightarrow> (bool \<times> string) list list fts" where
  "bool_groups [] groups negate_next =
     (if negate_next \<or> last groups = [] then Inl (CorruptIndex ''FTS query ends with an operator'')
      else Inr groups)"
| "bool_groups (w # ws) groups negate_next =
     (if eq_ignore_ascii_case w ''OR'' then
        if last groups = [] then Inl (CorruptIndex ''FTS query has OR without a left operand'')
        else bool_groups ws (groups @ [[]]) False
      else if eq_ignore_ascii_case w ''AND'' then bool_groups ws groups negate_next
      else if eq_ignore_ascii_case w ''NOT'' then bool_groups ws groups True
      else if CHR ''*'' \<in> set w \<or> CHR ''?'' \<in> set w \<or> CHR '':'' \<in> set w
      then Inl (CorruptIndex (''Unsupported FTS query operator in '' @ [CHR 0x27] @ w @ [CHR 0x27]))
      else let prefixed_negative = (starts_minus w \<and> 1 < length w); t = strip_sign w in
        if t = [] then Inl (CorruptIndex ''Empty FTS query term'')
        else bool_groups ws (push_last (negate_next \<or> prefixed_negative, t) groups) False)"

fun group_docs :: "(string \<Rightarrow> treemap fts) \<Rightarrow> (bool \<times> string) list \<Rightarrow> treemap option \<Rightarrow> treemap list \<Rightarrow>
    (treemap option \<times> treemap list) fts" where
  "group_docs search_term [] positives negatives = Inr (positives, negatives)"
| "group_docs search_term ((negative, t) # rest) positives negatives =
     rbind (search_term t) (\<lambda>docs.
       if negative then group_docs search_term rest positives (negatives @ [docs])
       else group_docs search_term rest
              (Some (case positives of Some current \<Rightarrow> current \<inter> docs | None \<Rightarrow> docs)) negatives)"

definition eval_groups :: "(string \<Rightarrow> treemap fts) \<Rightarrow> (bool \<times> string) list list \<Rightarrow> treemap fts" where
  "eval_groups search_term groups =
     rfold (\<lambda>group union.
       rbind (group_docs search_term group None []) (\<lambda>(positives, negatives).
         let docs = (case positives of None \<Rightarrow> {} | Some p \<Rightarrow> p)
         in Inr (union \<union> foldl (\<lambda>g forbidden. g - forbidden) docs negatives))) groups {}"

definition matching_boolean_query :: "unicode \<Rightarrow> treemap_de \<Rightarrow> index_state \<Rightarrow> string \<Rightarrow> fts_config \<Rightarrow>
    treemap option fts" where
  "matching_boolean_query U R st query cfg =
     (let tokens = split_whitespace query in
      if \<not> list_ex is_operator tokens then Inr None
      else rbind (bool_groups tokens [[]] False) (\<lambda>groups.
        rbind (eval_groups (\<lambda>t. matching_docs R st (analyze_document U cfg t) False) groups)
          (\<lambda>u. Inr (Some u))))"

text \<open>\<open>FtsEngine::search\<close> on the configuration and the state of the engine.\<close>

definition search_state :: "unicode \<Rightarrow> treemap_de \<Rightarrow> fts_config \<Rightarrow> index_state \<Rightarrow> string \<Rightarrow> treemap fts" where
  "search_state U R cfg st query =
     rbind (matching_boolean_query U R st query cfg) (\<lambda>b. case b of
       Some result \<Rightarrow> Inr result
     | None \<Rightarrow>
         let (q, phrase) = phrase_query query; a = analyze_document U cfg q in
         if a_terms a = [] then Inr {} else matching_docs R st a phrase)"

section \<open>Conjunctions\<close>

lemma intersect_rest: "intersect_rest ps is r = r \<inter> (\<Inter>i \<in> set is. ps ! i)"
  by (induction ps "is" r rule: intersect_rest.induct) (auto simp: Let_def)

lemma intersect_all:
  "(case sort_key (\<lambda>i. card (ps ! i)) [0..<length ps] of [] \<Rightarrow> {}
    | smallest # order \<Rightarrow> if ps ! smallest = {} then {} else intersect_rest ps order (ps ! smallest))
   = (if ps = [] then {} else \<Inter> (set ps))"
proof (cases "sort_key (\<lambda>i. card (ps ! i)) [0..<length ps]")
  case Nil
  then have "length (sort_key (\<lambda>i. card (ps ! i)) [0..<length ps]) = 0" by simp
  then show ?thesis by simp
next
  case (Cons i order)
  have is_range: "set (i # order) = {0..<length ps}"
    using arg_cong [OF Cons, of set] by simp
  have "ps \<noteq> []" using is_range by auto
  moreover have "(\<Inter>k \<in> set (i # order). ps ! k) = \<Inter> (set ps)"
    unfolding is_range by (metis atLeast0LessThan atLeast_upt set_map list.set_map map_nth)
  ultimately show ?thesis by (auto simp: Cons intersect_rest)
qed

text \<open>The documents with all the given terms.\<close>

definition having_all :: "(u64 \<rightharpoonup> string set) \<Rightarrow> string list \<Rightarrow> treemap" where
  "having_all D ts = {d. \<exists>T. D d = Some T \<and> ts \<noteq> [] \<and> set ts \<subseteq> T}"

lemma rmap_total: "(\<And>x. x \<in> set xs \<Longrightarrow> f x = Inr (g x)) \<Longrightarrow> rmap f xs = Inr (map g xs)"
  by (induction xs) auto

lemma having_inter: "(if ts = [] then {} else \<Inter> (having D ` set ts)) = having_all D ts"
  by (cases ts) (auto simp: having_def having_all_def)

lemma matching_terms:
  assumes "indexes R st D"
  shows "matching_docs R st a False = Inr (having_all D (a_terms a))"
proof -
  have "rmap (posting_of R st) (a_terms a) = Inr (map (having D) (a_terms a))"
    by (rule rmap_total) (simp add: indexes_posting [OF assms])
  moreover have "matching_docs_from_postings st (map (having D) (a_terms a)) a False = having_all D (a_terms a)"
    using intersect_all [of "map (having D) (a_terms a)"] having_inter [of "a_terms a" D]
    unfolding matching_docs_from_postings_def by (auto simp: Let_def split: list.splits if_splits)
  ultimately show ?thesis by (simp add: matching_docs_def)
qed

text \<open>The words of a query and the terms it asks for.\<close>

lemma analyzed_query:
  assumes "length (a_terms (analyze_document U cfg q)) < 2 ^ 32"
  shows "analyzed_ok (analyze_document U cfg q)"
    and "set (a_terms (analyze_document U cfg q)) = set (field_tokens U cfg q) \<union> set (field_grams U cfg q)"
    and "doc_words (analyze_document U cfg q) = map Some (field_tokens U cfg q)"
proof -
  let ?b = "add_text U cfg q builder_new"
  have "length (b_terms ?b) < 2 ^ 32"
    using assms by (simp add: analyze_document_def builder_finish_def Let_def)
  moreover have "builder_ok builder_new" by (simp add: builder_ok_def builder_new_def)
  ultimately have e: "extends builder_new (set (field_tokens U cfg q) \<union> set (field_grams U cfg q))
      (map Some (field_tokens U cfg q)) ?b" by (intro add_text_extends)
  show "analyzed_ok (analyze_document U cfg q)"
    "set (a_terms (analyze_document U cfg q)) = set (field_tokens U cfg q) \<union> set (field_grams U cfg q)"
    "doc_words (analyze_document U cfg q) = map Some (field_tokens U cfg q)"
    using finish_spells [OF extends_ok [OF e]] e
    by (auto simp: analyze_document_def extends_def builder_new_def b_spell_def spell_def)
qed

section \<open>Phrases\<close>

lemma windows_sublist:
  assumes "q \<noteq> []"
  shows "list_ex (\<lambda>w. w = q) (windows (length q) xs) \<longleftrightarrow> sublist q xs"
proof
  assume "list_ex (\<lambda>w. w = q) (windows (length q) xs)"
  then have "q \<in> (\<lambda>i. take (length q) (drop i xs)) ` {0..<length xs - length q + 1}"
    unfolding list_ex_iff windows_def by (auto simp del: upt_Suc split: if_splits)
  then obtain i where "q = take (length q) (drop i xs)" by blast
  then show "sublist q xs" by (metis append_take_drop_id sublist_appendI)
next
  assume "sublist q xs"
  then obtain ps ss where xs: "xs = ps @ q @ ss" by (auto simp: sublist_def)
  then have "q = take (length q) (drop (length ps) xs)" "length ps < length xs - length q + 1"
    "length q \<le> length xs" by simp_all
  then show "list_ex (\<lambda>w. w = q) (windows (length q) xs)"
    unfolding list_ex_iff windows_def by (auto simp del: upt_Suc intro!: bexI [of _ "length ps"])
qed

text \<open>Numbers in the documents and in the query identify their words.\<close>

lemma represents_ids:
  assumes "represents R st M"
  shows "term_id st s = Some i \<Longrightarrow> i \<noteq> 0" and "term_id st s = Some i \<Longrightarrow> term_id st t = Some i \<Longrightarrow> s = t"
    and "M d = Some (T, W) \<Longrightarrow> t \<in> T \<Longrightarrow> \<exists>i. term_id st t = Some i"
    and "M d = Some (T, W) \<Longrightarrow> Some t \<in> set W \<Longrightarrow> t \<in> T"
proof -
  from assms obtain B where ok: "index_ok R B st" and h: "holds B st M" by (auto simp: represents_def)
  have tid: "term_id st = tid B st" using term_id_tid [OF index_okD(1) [OF ok]] by blast
  have ids: "ids_ok B st" using h by (simp add: holds_def)
  show "term_id st s = Some i \<Longrightarrow> i \<noteq> 0" using ids_okD(1) [OF ids] by (simp add: tid)
  show "term_id st s = Some i \<Longrightarrow> term_id st t = Some i \<Longrightarrow> s = t" using ids_okD(2) [OF ids] by (simp add: tid)
  show "M d = Some (T, W) \<Longrightarrow> Some t \<in> set W \<Longrightarrow> t \<in> T" using h by (auto simp: holds_def)
  assume "M d = Some (T, W)" and "t \<in> T"
  then have "d \<in> docs_of (delta_map st) t \<or> d \<in> docs_of B t"
    using h by (auto simp: holds_def doc_terms_def fun_eq_iff split: if_splits dest: spec [of _ d])
  then show "\<exists>i. term_id st t = Some i"
    unfolding tid by (auto simp: tid_def docs_of_def split: option.splits)
qed

lemma spelled_sublist:
  assumes "\<And>s i. f s = Some i \<Longrightarrow> i \<noteq> 0" and "\<And>s t i. f s = Some i \<Longrightarrow> f t = Some i \<Longrightarrow> s = t"
    and "spelled f ts W" and "\<forall>w \<in> set ws. f w \<noteq> None"
  shows "sublist (map (the \<circ> f) ws) ts \<longleftrightarrow> sublist (map Some ws) W"
proof -
  have eq: "spelled f is V \<Longrightarrow> is = map (the \<circ> f) ws \<longleftrightarrow> V = map Some ws"
    if "\<forall>w \<in> set ws. f w \<noteq> None" for "is" V ws
    using that
  proof (induction ws arbitrary: "is" V)
    case (Cons w ws)
    obtain j where j: "f w = Some j" "j \<noteq> 0" using Cons.prems(2) assms(1) by auto
    show ?case
    proof (cases "is")
      case (Cons i is')
      then obtain v V' where V: "V = v # V'" "spelled f is' V'" "case v of None \<Rightarrow> i = 0 | Some t \<Rightarrow> i \<noteq> 0 \<and> f t = Some i"
        using Cons.prems(1) by (auto simp: spelled_def list_all2_Cons1)
      have "i = j \<longleftrightarrow> v = Some w" using V(3) j assms(2) by (auto split: option.splits)
      then show ?thesis using Cons.IH [OF V(2)] Cons.prems(2) j by (simp add: Cons V(1))
    qed (use Cons.prems(1) in \<open>simp add: spelled_def\<close>)
  qed (auto simp: spelled_def)
  show ?thesis
  proof
    assume "sublist (map (the \<circ> f) ws) ts"
    then obtain ps ss where "ts = ps @ map (the \<circ> f) ws @ ss" by (auto simp: sublist_def)
    then obtain P V S where "W = P @ V @ S" "spelled f (map (the \<circ> f) ws) V"
      using assms(3) by (auto simp: spelled_def list_all2_append1)
    then show "sublist (map Some ws) W" using eq [OF assms(4)] by auto
  next
    assume "sublist (map Some ws) W"
    then obtain P S where "W = P @ map Some ws @ S" by (auto simp: sublist_def)
    then obtain ps us ss where "ts = ps @ us @ ss" "spelled f us (map Some ws)"
      using assms(3) by (auto simp: spelled_def list_all2_append2)
    then show "sublist (map (the \<circ> f) ws) ts" using eq [OF assms(4)] by auto
  qed
qed

text \<open>The numbers of the query are those of its words.\<close>

lemma query_tokens_words:
  assumes "analyzed_ok a" and "doc_words a = map Some ws" and "\<forall>w \<in> set ws. term_id st w \<noteq> None"
  shows "query_tokens st a = map (the \<circ> term_id st) ws"
proof -
  have "List.map_filter (\<lambda>i. if i = 0 then None
      else if unat i - 1 < length ts then term_id st (ts ! (unat i - 1)) else None) is
      = map (the \<circ> term_id st) ws"
    if "list_all (\<lambda>i. unat i \<le> length ts) is" "spell ts is = map Some ws" "\<forall>w \<in> set ws. term_id st w \<noteq> None"
    for ts "is" ws
    using that
  proof (induction "is" arbitrary: ws)
    case (Cons i "is")
    then obtain v vs where ws: "ws = v # vs" "i \<noteq> 0" "v = ts ! (unat i - 1)" "spell ts is = map Some vs"
      by (cases ws) (auto simp: spell_def split: if_splits)
    have "0 < unat i" using ws(2) by (simp add: unat_gt_0)
    then have "unat i - 1 < length ts" using Cons.prems(1) by auto
    then show ?case
      using Cons.IH [of vs] Cons.prems ws by (auto simp: List.map_filter_def)
  qed (simp add: spell_def List.map_filter_def)
  then show ?thesis
    using assms unfolding query_tokens_def doc_words_def analyzed_ok_def by blast
qed

text \<open>The documents in which the words of a phrase stand next to each other.\<close>

definition phrase_in :: "documents \<Rightarrow> string set \<Rightarrow> string list \<Rightarrow> treemap" where
  "phrase_in M terms ws =
     {d. \<exists>T W. M d = Some (T, W) \<and> terms \<subseteq> T \<and> ws \<noteq> [] \<and> sublist (map Some ws) W}"

lemma matching_phrase:
  assumes "represents R st M" and "analyzed_ok a" and "doc_words a = map Some ws"
  shows "matching_docs R st a True = Inr (phrase_in M (set (a_terms a)) ws)"
proof -
  let ?D = "map_option fst \<circ> M" and ?H = "having_all (map_option fst \<circ> M) (a_terms a)"
  have ix: "indexes R st ?D" by (rule represents_indexes [OF assms(1)])
  have ps: "rmap (posting_of R st) (a_terms a) = Inr (map (having ?D) (a_terms a))"
    by (rule rmap_total) (simp add: indexes_posting [OF ix])
  have H: "(case sort_key (\<lambda>i. card (map (having ?D) (a_terms a) ! i)) [0..<length (map (having ?D) (a_terms a))] of
       [] \<Rightarrow> {} | smallest # order \<Rightarrow> if map (having ?D) (a_terms a) ! smallest = {} then {}
         else intersect_rest (map (having ?D) (a_terms a)) order (map (having ?D) (a_terms a) ! smallest)) = ?H"
    unfolding intersect_all using having_inter [of "a_terms a" ?D] by (cases "a_terms a") simp_all
  have sub_terms: "set ws \<subseteq> set (a_terms a)"
    using doc_words_terms [OF assms(2)] assms(3) by (metis (no_types, lifting) image_eqI list.set_map subsetI)
  have "matching_docs_from_postings st (map (having ?D) (a_terms a)) a True
      = (if ?H = {} then {} else if query_tokens st a = [] then {}
         else Set.filter (\<lambda>d. case tokens_for_doc st d of None \<Rightarrow> False
           | Some ts \<Rightarrow> list_ex (\<lambda>w. w = query_tokens st a) (windows (length (query_tokens st a)) ts)) ?H)"
    unfolding matching_docs_from_postings_def H [symmetric] by (auto simp: Let_def split: list.split)
  also have "\<dots> = phrase_in M (set (a_terms a)) ws"
  proof (cases "?H = {}")
    case True
    have "d \<in> ?H" if "d \<in> phrase_in M (set (a_terms a)) ws" for d
      using that sub_terms by (auto simp: phrase_in_def having_all_def)
    then show ?thesis using True by auto
  next
    case False
    then obtain d T W where "M d = Some (T, W)" "set (a_terms a) \<subseteq> T" by (auto simp: having_all_def)
    then have ids: "\<forall>w \<in> set ws. term_id st w \<noteq> None"
      using sub_terms represents_ids(3) [OF assms(1)] by (metis option.discI subsetD)
    have sub: "sublist (map (the \<circ> term_id st) ws) ts \<longleftrightarrow> sublist (map Some ws) W" if "spelled (term_id st) ts W" for ts W
      using represents_ids(1,2) [OF assms(1)] that ids by (rule spelled_sublist)
    have q: "query_tokens st a = map (the \<circ> term_id st) ws" by (rule query_tokens_words [OF assms(2,3) ids])
    have "(case tokens_for_doc st d of None \<Rightarrow> False
          | Some ts \<Rightarrow> list_ex (\<lambda>w. w = query_tokens st a) (windows (length (query_tokens st a)) ts))
        \<longleftrightarrow> sublist (map Some ws) W" if d: "M d = Some (T, W)" and ws: "ws \<noteq> []" for d T W
    proof -
      obtain ts where "tokens_for_doc st d = Some ts" "spelled (term_id st) ts W"
        using represents_reads(3) [OF assms(1) d] by blast
      moreover have "query_tokens st a \<noteq> []" using ws by (simp add: q)
      ultimately show ?thesis
        using sub [of ts W] windows_sublist [of "query_tokens st a" ts] by (simp add: q)
    qed
    then have "(case tokens_for_doc st d of None \<Rightarrow> False
          | Some ts \<Rightarrow> list_ex (\<lambda>w. w = query_tokens st a) (windows (length (query_tokens st a)) ts))
        \<longleftrightarrow> sublist (map Some ws) (snd (the (M d)))" if "d \<in> ?H" and "ws \<noteq> []" for d
      using that by (auto simp: having_all_def)
    moreover have "phrase_in M (set (a_terms a)) ws = {d \<in> ?H. ws \<noteq> [] \<and> sublist (map Some ws) (snd (the (M d)))}"
      using sub_terms by (auto simp: phrase_in_def having_all_def)
    ultimately show ?thesis using False by (auto simp: q)
  qed
  finally show ?thesis by (simp add: matching_docs_def ps)
qed

text \<open>
  C16. A quoted phrase without operator words finds exactly the live documents in which its words
  stand next to each other in their order, on an index that gives different terms different
  numbers: for every index that represents a set of documents with their words, a query in quotes
  in which none of the words is an operator returns the documents that have the n-grams of the phrase and its
  tokens as a contiguous part of their token sequence, field boundaries included. An index grown
  by single updates is of that kind; one whose first content was a batch is not, because its first
  two terms share a number (\<open>phrase_false_match\<close>), and a quoted query with an operator word is
  read as a boolean query (\<open>quoted_operator_not_phrase\<close>).
\<close>

theorem phrase_search_semantics:
  assumes "represents R st M" and "\<not> list_ex is_operator (split_whitespace query)"
    and "phrase_query query = (q, True)" and "length (a_terms (analyze_document U cfg q)) < 2 ^ 32"
  shows "search_state U R cfg st query
    = Inr {d. \<exists>T W. M d = Some (T, W) \<and> set (field_grams U cfg q) \<subseteq> T
             \<and> field_tokens U cfg q \<noteq> [] \<and> sublist (map Some (field_tokens U cfg q)) W}"
proof -
  note a = analyzed_query [OF assms(4)]
  have "phrase_in M (set (a_terms (analyze_document U cfg q))) (field_tokens U cfg q)
      = {d. \<exists>T W. M d = Some (T, W) \<and> set (field_grams U cfg q) \<subseteq> T
           \<and> field_tokens U cfg q \<noteq> [] \<and> sublist (map Some (field_tokens U cfg q)) W}" (is "_ = ?R")
  proof -
    have "set (field_tokens U cfg q) \<subseteq> T" if "M d = Some (T, W)" "sublist (map Some (field_tokens U cfg q)) W" for d T W
      using represents_ids(4) [OF assms(1) that(1)] set_mono_sublist [OF that(2)] by auto
    then show ?thesis unfolding phrase_in_def a(2) by (intro Collect_cong) (metis Un_subset_iff)
  qed
  moreover have "?R = {}" if "a_terms (analyze_document U cfg q) = []"
    using a(2) that by simp
  ultimately show ?thesis
    using matching_phrase [OF assms(1) a(1,3)] assms(2,3)
    by (cases "a_terms (analyze_document U cfg q) = []") (simp_all add: search_state_def matching_boolean_query_def Let_def)
qed

section \<open>Boolean queries\<close>

lemma group_docs_value:
  assumes "\<And>t. search_term t = Inr (S t)"
  shows "group_docs search_term g P N =
    Inr (if list_all fst g then P else Some ((case P of None \<Rightarrow> UNIV | Some p \<Rightarrow> p) \<inter> (\<Inter>t \<in> {t. (False, t) \<in> set g}. S t)),
         N @ map (S \<circ> snd) (filter fst g))"
proof (induction g arbitrary: P N)
  case (Cons x g)
  obtain n t where x: "x = (n, t)" by fastforce
  show ?case
  proof (cases n)
    case True
    then show ?thesis using Cons.IH by (simp add: x assms)
  next
    case False
    have "{s. (False, s) \<in> set (x # g)} = insert t {s. (False, s) \<in> set g}" using False by (auto simp: x)
    moreover have "list_all fst g \<Longrightarrow> {s. (False, s) \<in> set g} = {}" by (auto simp: list_all_iff)
    ultimately show ?thesis using False Cons.IH by (auto simp: x assms split: option.splits)
  qed
qed simp

lemma subtract_all: "foldl (\<lambda>g forbidden. g - forbidden) X Ns = X - \<Union> (set Ns)"
  by (induction Ns arbitrary: X) auto

text \<open>The documents that a group selects: it has a positive term, all its positive terms match, no negative one does.\<close>

definition group_selects :: "(string \<Rightarrow> treemap) \<Rightarrow> (bool \<times> string) list \<Rightarrow> treemap" where
  "group_selects S g = {d. (\<exists>t. (False, t) \<in> set g) \<and> (\<forall>(negative, t) \<in> set g. d \<in> S t \<longleftrightarrow> \<not> negative)}"

lemma eval_groups_value:
  assumes "\<And>t. search_term t = Inr (S t)"
  shows "eval_groups search_term gs = Inr (\<Union>g \<in> set gs. group_selects S g)"
proof -
  have one: "foldl (\<lambda>g forbidden. g - forbidden) (case fst P of None \<Rightarrow> {} | Some p \<Rightarrow> p) (snd P) = group_selects S g"
    if "P = (if list_all fst g then None else Some (UNIV \<inter> (\<Inter>t \<in> {t. (False, t) \<in> set g}. S t)),
         [] @ map (S \<circ> snd) (filter fst g))" for P g
    unfolding subtract_all that group_selects_def by (auto simp: list_all_iff)
  have "rfold (\<lambda>group union. rbind (group_docs search_term group None []) (\<lambda>(positives, negatives).
         let docs = (case positives of None \<Rightarrow> {} | Some p \<Rightarrow> p)
         in Inr (union \<union> foldl (\<lambda>g forbidden. g - forbidden) docs negatives))) gs X
      = Inr (X \<union> (\<Union>g \<in> set gs. group_selects S g))" for X
  proof (induction gs arbitrary: X)
    case (Cons g gs)
    have "(rbind (group_docs search_term g None []) (\<lambda>(positives, negatives).
         let docs = (case positives of None \<Rightarrow> {} | Some p \<Rightarrow> p)
         in Inr (X \<union> foldl (\<lambda>g forbidden. g - forbidden) docs negatives))) = Inr (X \<union> group_selects S g)"
      unfolding group_docs_value [where search_term = search_term and S = S, OF assms] using one [OF refl, of g] by (simp split: if_splits)
    then show ?case using Cons.IH by (simp add: Un_assoc)
  qed simp
  then show ?thesis by (simp add: eval_groups_def)
qed

text \<open>
  C17. A boolean query selects the documents of its groups: on an index that files documents under
  their terms, a query with an operator word that parses into the groups \<open>gs\<close> returns the live
  documents for which some group has a positive operand, all of whose positive operands match and
  none of whose negated operands matches, where an operand matches the documents that have all
  its terms (an operand without terms matches none).
\<close>

theorem boolean_search_semantics:
  assumes "indexes R st D" and "list_ex is_operator (split_whitespace query)"
    and "bool_groups (split_whitespace query) [[]] False = Inr gs"
  shows "search_state U R cfg st query = Inr {d. \<exists>g \<in> set gs. (\<exists>t. (False, t) \<in> set g)
    \<and> (\<forall>(negative, t) \<in> set g. (\<exists>T. D d = Some T \<and> analyze U cfg t \<noteq> [] \<and> set (analyze U cfg t) \<subseteq> T) \<longleftrightarrow> \<not> negative)}"
proof -
  let ?S = "\<lambda>t. having_all D (a_terms (analyze_document U cfg t))"
  have "search_state U R cfg st query = Inr (\<Union>g \<in> set gs. group_selects ?S g)"
    using eval_groups_value [of _ ?S gs, OF matching_terms [OF assms(1)]] assms(2,3)
    by (simp add: search_state_def matching_boolean_query_def Let_def)
  also have "(\<Union>g \<in> set gs. group_selects ?S g) = {d. \<exists>g \<in> set gs. (\<exists>t. (False, t) \<in> set g)
    \<and> (\<forall>(negative, t) \<in> set g. (\<exists>T. D d = Some T \<and> analyze U cfg t \<noteq> [] \<and> set (analyze U cfg t) \<subseteq> T) \<longleftrightarrow> \<not> negative)}"
    by (auto simp: group_selects_def having_all_def analyze_def)
  finally show ?thesis .
qed

text \<open>
  A conjunction finds the live documents with all its terms, whatever the lengths of the
  postings, which decide the order in which they are intersected.
\<close>

theorem term_search_semantics:
  assumes "indexes R st D" and "\<not> list_ex is_operator (split_whitespace query)" and "phrase_query query = (q, False)"
  shows "search_state U R cfg st query
    = Inr {d. \<exists>T. D d = Some T \<and> analyze U cfg q \<noteq> [] \<and> set (analyze U cfg q) \<subseteq> T}"
  using matching_terms [OF assms(1), of "analyze_document U cfg q"] assms(2,3)
  by (simp add: search_state_def matching_boolean_query_def Let_def having_all_def analyze_def)

section \<open>Concrete searches\<close>

definition fox_ops :: "index_op list" where
  "fox_ops = [IUpsert 1 (word_doc [''fox'', ''red'', ''runs''] [2, 1, 3]) False,
     IUpsert 2 (word_doc [''fox'', ''red''] [1, 2]) False]"

definition fox_index :: index_state where
  "fox_index = foldl (index_exec no_treemap) index_default fox_ops"

definition fox_docs :: documents where
  "fox_docs = [1 \<mapsto> ({''fox'', ''red'', ''runs''}, [Some ''red'', Some ''fox'', Some ''runs'']),
     2 \<mapsto> ({''fox'', ''red''}, [Some ''fox'', Some ''red''])]"

definition quoted :: "string \<Rightarrow> string" where
  "quoted s = CHR 0x22 # s @ [CHR 0x22]"

definition pepper_doc :: index_state where
  "pepper_doc = apply_upsert 4 (analyze_values plain_unicode default_config [''pepper with salt'']) False index_default"

lemma fox_represents: "represents no_treemap fox_index fox_docs"
proof -
  have "list_all op_ok fox_ops" by (simp add: fox_ops_def word_doc_def analyzed_ok_def)
  moreover have "max 1 (unat (next_term_id index_default)) + sum_list (map op_terms fox_ops) < 2 ^ 32 - 2"
    "token_total index_default + sum_list (map op_tokens fox_ops) < 2 ^ 64"
    by (simp_all add: fox_ops_def index_default_def word_doc_def token_total_def base_records_def packed_empty_def)
  moreover have "foldl doc_exec Map.empty fox_ops = fox_docs"
    by (auto simp: fox_ops_def fox_docs_def fun_eq_iff entry_of_def word_doc_def doc_words_def spell_def)
  ultimately show ?thesis
    using index_run [OF default_represents, of fox_ops no_treemap] by (simp add: fox_index_def)
qed

lemmas fox_indexes = represents_indexes [OF fox_represents]

text \<open>The words of the queries below.\<close>

lemma quoted_words:
  "split_whitespace (quoted ''beta alpha'') = [CHR 0x22 # ''beta'', ''alpha'' @ [CHR 0x22]]"
  "split_whitespace (quoted ''red fox'') = [CHR 0x22 # ''red'', ''fox'' @ [CHR 0x22]]"
  "split_whitespace (quoted ''salt and pepper'') = [CHR 0x22 # ''salt'', ''and'', ''pepper'' @ [CHR 0x22]]"
  "split_whitespace ''fox -runs'' = [''fox'', ''-runs'']"
  "split_whitespace ''red fox'' = [''red'', ''fox'']"
proof -
  have c: "chars (quoted ''beta alpha'') = [34,98,101,116,97,32,97,108,112,104,97,34]"
    "chars (quoted ''red fox'') = [34,114,101,100,32,102,111,120,34]"
    "chars (quoted ''salt and pepper'') = [34,115,97,108,116,32,97,110,100,32,112,101,112,112,101,114,34]"
    "chars ''fox -runs'' = [102,111,120,32,45,114,117,110,115]"
    "chars ''red fox'' = [114,101,100,32,102,111,120]"
    by code_simp+
  show "split_whitespace (quoted ''beta alpha'') = [CHR 0x22 # ''beta'', ''alpha'' @ [CHR 0x22]]"
    unfolding split_whitespace_def c by (simp add: is_whitespace_def) code_simp
  show "split_whitespace (quoted ''red fox'') = [CHR 0x22 # ''red'', ''fox'' @ [CHR 0x22]]"
    unfolding split_whitespace_def c by (simp add: is_whitespace_def) code_simp
  show "split_whitespace (quoted ''salt and pepper'') = [CHR 0x22 # ''salt'', ''and'', ''pepper'' @ [CHR 0x22]]"
    unfolding split_whitespace_def c by (simp add: is_whitespace_def) code_simp
  show "split_whitespace ''fox -runs'' = [''fox'', ''-runs'']"
    unfolding split_whitespace_def c by (simp add: is_whitespace_def) code_simp
  show "split_whitespace ''red fox'' = [''red'', ''fox'']"
    unfolding split_whitespace_def c by (simp add: is_whitespace_def) code_simp
qed

lemma quoted_operators:
  "\<not> list_ex is_operator (split_whitespace (quoted ''beta alpha''))"
  "\<not> list_ex is_operator (split_whitespace (quoted ''red fox''))"
  "list_ex is_operator (split_whitespace (quoted ''salt and pepper''))"
  "list_ex is_operator (split_whitespace ''fox -runs'')"
  "\<not> list_ex is_operator (split_whitespace ''red fox'')"
  unfolding quoted_words by code_simp+

theorem phrase_search_semantics_witness:
  "represents no_treemap fox_index fox_docs \<and> phrase_query (quoted ''red fox'') = (''red fox'', True)
   \<and> search_state plain_unicode no_treemap default_config fox_index (quoted ''red fox'') = Inr {1}"
proof -
  have p: "phrase_query (quoted ''red fox'') = (''red fox'', True)" by code_simp
  have "length (a_terms (analyze_document plain_unicode default_config ''red fox'')) = 2" by code_simp
  then have "length (a_terms (analyze_document plain_unicode default_config ''red fox'')) < 2 ^ 32" by simp
  note s = phrase_search_semantics [OF fox_represents quoted_operators(2) p this]
  have "field_tokens plain_unicode default_config ''red fox'' = [''red'', ''fox'']"
    "field_grams plain_unicode default_config ''red fox'' = []" by code_simp+
  then have "{d. \<exists>T W. fox_docs d = Some (T, W) \<and> set (field_grams plain_unicode default_config ''red fox'') \<subseteq> T
      \<and> field_tokens plain_unicode default_config ''red fox'' \<noteq> []
      \<and> sublist (map Some (field_tokens plain_unicode default_config ''red fox'')) W} = {1}"
    by (auto simp: fox_docs_def sublist_Cons_right split: if_splits)
  then show ?thesis using fox_represents p s by simp
qed

theorem term_search_semantics_witness:
  "phrase_query ''red fox'' = (''red fox'', False)
   \<and> search_state plain_unicode no_treemap default_config fox_index ''red fox'' = Inr {1, 2}"
proof -
  have p: "phrase_query ''red fox'' = (''red fox'', False)" by code_simp
  have "analyze plain_unicode default_config ''red fox'' = [''fox'', ''red'']" by code_simp
  then show ?thesis
    using p term_search_semantics [OF fox_indexes quoted_operators(5) p, of plain_unicode default_config]
    by (auto simp: fox_docs_def split: if_splits)
qed

theorem boolean_search_semantics_witness:
  "bool_groups (split_whitespace ''fox -runs'') [[]] False = Inr [[(False, ''fox''), (True, ''runs'')]]
   \<and> search_state plain_unicode no_treemap default_config fox_index ''fox -runs'' = Inr {2}"
proof -
  have g: "bool_groups (split_whitespace ''fox -runs'') [[]] False = Inr [[(False, ''fox''), (True, ''runs'')]]"
    unfolding quoted_words by code_simp
  have "analyze plain_unicode default_config ''fox'' = [''fox'']" "analyze plain_unicode default_config ''runs'' = [''runs'']"
    by code_simp+
  then show ?thesis
    using g boolean_search_semantics [OF fox_indexes quoted_operators(4) g, of plain_unicode default_config]
    by (auto simp: fox_docs_def split: if_splits)
qed

text \<open>
  A phrase search on an index built by one batch of documents can return a document that does
  not hold the phrase: the reversal of the first two words matches, because the batch gives both
  words the same number.
\<close>

theorem phrase_false_match:
  "search_state plain_unicode no_treemap default_config (build_base [(7, alpha_beta)] index_default)
     (quoted ''beta alpha'') = Inr {7}"
proof -
  have "phrase_query (quoted ''beta alpha'') = (''beta alpha'', True)" by code_simp
  moreover have "a_terms (analyze_document plain_unicode default_config ''beta alpha'') \<noteq> []" by code_simp
  moreover have "matching_docs no_treemap (build_base [(7, alpha_beta)] index_default)
      (analyze_document plain_unicode default_config ''beta alpha'') True = Inr {7}" by code_simp
  ultimately show ?thesis
    using quoted_operators(1) by (simp add: search_state_def matching_boolean_query_def Let_def)
qed

text \<open>
  A quoted phrase with an operator word is not searched as a phrase: it becomes a boolean query
  of its words, and matches a document that has them in another order and far apart.
\<close>

theorem quoted_operator_not_phrase:
  "search_state plain_unicode no_treemap default_config pepper_doc (quoted ''salt and pepper'') = Inr {4}"
proof -
  let ?gs = "[[(False, CHR 0x22 # ''salt''), (False, ''pepper'' @ [CHR 0x22])]]"
  have "bool_groups (split_whitespace (quoted ''salt and pepper'')) [[]] False = Inr ?gs"
    unfolding quoted_words by code_simp
  moreover have "eval_groups (\<lambda>t. matching_docs no_treemap pepper_doc (analyze_document plain_unicode default_config t) False) ?gs
      = Inr {4}" by code_simp
  ultimately show ?thesis
    using quoted_operators(3) by (simp add: search_state_def matching_boolean_query_def Let_def)
qed
end
