(* ===== verification/Fts_Wal.thy ===== *)
theory Fts_Wal
  imports Fts_Query Record_Log
begin

text \<open>
  The log of the full-text index (\<^verbatim>\<open>fts/storage.rs\<close>, \<open>append_pending_wal\<close> and \<open>replay_wal\<close>), with the
  state of an engine (\<^verbatim>\<open>fts/engine.rs\<close>, \<open>EngineCore\<close>). Theorems: whatever prefix of the log a crash
  leaves, replaying it applies the operations of the whole records in it, in order, cuts the file
  behind them, and a second replay finds the same records. An error theorem shows the operations
  that are lost behind a record larger than the reader accepts.
\<close>

section \<open>The engine\<close>

text \<open>Packages and tables the engine uses: checksum, bincode, the bitmap codec, the Unicode tables.\<close>

record fts_env =
  crc32 :: "bytes \<Rightarrow> u32"
  wal_ser :: "fts_wal_op \<Rightarrow> bytes option"
  wal_de :: "bytes \<Rightarrow> fts_wal_op option"
  tm_ser :: "treemap \<Rightarrow> bytes"
  tm_de :: treemap_de
  tables :: unicode

text \<open>The codecs read back what they wrote.\<close>

definition env_ok :: "fts_env \<Rightarrow> bool" where
  "env_ok E \<longleftrightarrow> (\<forall>op b. wal_ser E op = Some b \<longrightarrow> wal_de E b = Some op)
     \<and> (\<forall>s. tm_de E (tm_ser E s) = Some (s, length (tm_ser E s)))"

record source_meta =
  sm_rows :: u64
  sm_epoch :: u64
  sm_generation :: u64

record engine_core =
  index_path :: string
  wal_path :: string
  e_config :: fts_config
  e_state :: index_state
  search_count :: u64
  table_path :: "string option"
  snapshot_meta :: "source_meta option"
  wal_epoch :: u64
  stale_reason :: "string option"
  reconciled :: bool
  loaded_snapshot :: bool

section \<open>Appending\<close>

definition FTS_WAL_MAGIC :: bytes where
  "FTS_WAL_MAGIC = as_bytes ''APXFTSW2''"

definition MAX_WAL_RECORD_BYTES :: nat where
  "MAX_WAL_RECORD_BYTES = 64 * 1024 * 1024"

definition wal_frame :: "fts_env \<Rightarrow> u64 \<Rightarrow> bytes \<Rightarrow> bytes" where
  "wal_frame E epoch payload =
     to_le_bytes (of_nat (length payload) :: u32) @ to_le_bytes (crc32 E (to_le_bytes epoch @ payload))
     @ to_le_bytes epoch @ payload"

fun append_frames :: "fts_env \<Rightarrow> u64 \<Rightarrow> fts_wal_op list \<Rightarrow> bytes \<Rightarrow> unit fts \<times> bytes" where
  "append_frames E epoch [] file = (Inr (), file)"
| "append_frames E epoch (op # ops) file =
     (case wal_ser E op of
        None \<Rightarrow> (Inl (CorruptIndex ''cannot encode WAL entry''), file)
      | Some payload \<Rightarrow> append_frames E epoch ops (file @ wal_frame E epoch payload))"

text \<open>The epoch of the table, or 0 for an engine without one; \<open>ep\<close> is \<open>storage::epoch::current\<close>.\<close>

definition core_epoch :: "(string \<Rightarrow> u64) \<Rightarrow> engine_core \<Rightarrow> u64" where
  "core_epoch ep core = (case table_path core of None \<Rightarrow> 0 | Some p \<Rightarrow> ep p)"

definition append_pending_wal :: "fts_env \<Rightarrow> (string \<Rightarrow> u64) \<Rightarrow> files \<Rightarrow> engine_core \<Rightarrow>
    nat fts \<times> files \<times> engine_core" where
  "append_pending_wal E ep fs core =
     (let st = e_state core in
      if pending_wal st = [] then (Inr 0, fs, core)
      else
        let file = (case hm_get fs (wal_path core) of None \<Rightarrow> [] | Some b \<Rightarrow> b);
            file1 = (if file = [] then FTS_WAL_MAGIC else file);
            epoch = core_epoch ep core;
            (res, file2) = append_frames E epoch (pending_wal st) file1;
            fs' = hm_insert (wal_path core) file2 fs
        in case res of
             Inl e \<Rightarrow> (Inl e, fs', core)
           | Inr _ \<Rightarrow> (Inr (length (pending_wal st)), fs',
               core\<lparr>wal_epoch := max (wal_epoch core) epoch, e_state := st\<lparr>pending_wal := []\<rparr>\<rparr>))"

section \<open>Replaying\<close>

fun replay_op :: "fts_wal_op \<Rightarrow> index_state \<Rightarrow> index_state" where
  "replay_op (FUpsert d ts is) st = apply_upsert d \<lparr>a_terms = ts, a_tokens = is\<rparr> False st"
| "replay_op (FDelete d) st = apply_delete d False st"

text \<open>
  The next record, its epoch and operation, and the bytes it takes; nothing when the loop ends: at
  the end of the file, at a record cut short or too long, at a wrong checksum, at a payload that
  does not decode. A log without the magic has no epochs.
\<close>

definition next_frame :: "fts_env \<Rightarrow> bool \<Rightarrow> bytes \<Rightarrow> ((u64 \<times> fts_wal_op) \<times> nat) option" where
  "next_frame E gen2 bs =
     (if length bs < 4 then None
      else let len = unat (from_le_bytes (take 4 bs) :: u32) in
        if MAX_WAL_RECORD_BYTES < len then None
        else if length bs < 8 then None
        else let expected_crc = from_le_bytes (take 4 (drop 4 bs)) :: u32;
                 start = (if gen2 then 16 else 8) in
          if length bs < start then None
          else let epoch = (if gen2 then from_le_bytes (take 8 (drop 8 bs)) else 0) :: u64 in
            if length bs < start + len then None
            else let payload = take len (drop start bs);
                     crc_input = (if gen2 then to_le_bytes epoch else []) @ payload in
              if crc32 E crc_input \<noteq> expected_crc then None
              else case wal_de E payload of None \<Rightarrow> None | Some op \<Rightarrow> Some ((epoch, op), start + len))"

lemma next_frame_Nil [simp]: "next_frame E gen2 [] = None"
  by (simp add: next_frame_def)

lemma next_frame_bounds:
  assumes "next_frame E gen2 bs = Some (x, n)"
  shows "0 < n" and "n \<le> length bs"
  using assms by (auto simp: next_frame_def Let_def split: if_splits option.splits)

function replay_loop :: "fts_env \<Rightarrow> bool \<Rightarrow> bytes \<Rightarrow> nat \<Rightarrow> u64 \<Rightarrow> index_state \<Rightarrow> index_state \<times> u64 \<times> nat" where
  "replay_loop E gen2 bs valid_len max_epoch st =
     (case next_frame E gen2 bs of
        None \<Rightarrow> (st, max_epoch, valid_len)
      | Some ((epoch, op), n) \<Rightarrow>
          replay_loop E gen2 (drop n bs) (valid_len + n) (max max_epoch epoch) (replay_op op st))"
  by pat_completeness auto

termination
  by (relation "measure (\<lambda>(E, g, bs, v, m, st). length bs)")
     (auto dest: next_frame_bounds intro!: diff_less)

declare replay_loop.simps [simp del]

definition replay_wal :: "fts_env \<Rightarrow> files \<Rightarrow> string \<Rightarrow> index_state \<Rightarrow> (u64 \<times> index_state \<times> files) fts" where
  "replay_wal E fs path st =
     (case hm_get fs path of
        None \<Rightarrow> Inl (FtsIo NotFound ''No such file or directory'')
      | Some bs \<Rightarrow>
          let generation_two = (8 \<le> length bs \<and> take 8 bs = FTS_WAL_MAGIC);
              start = (if generation_two then 8 else 0);
              (st', max_epoch, valid_len) = replay_loop E generation_two (drop start bs) start 0 st
          in Inr (max_epoch, st', if valid_len < length bs then hm_insert path (take valid_len bs) fs else fs))"

section \<open>Records in the log\<close>

definition frame_of :: "fts_env \<Rightarrow> u64 \<times> fts_wal_op \<Rightarrow> bytes" where
  "frame_of E r = wal_frame E (fst r) (the (wal_ser E (snd r)))"

definition frame_ok :: "fts_env \<Rightarrow> u64 \<times> fts_wal_op \<Rightarrow> bool" where
  "frame_ok E r \<longleftrightarrow> (\<exists>p. wal_ser E (snd r) = Some p \<and> wal_de E p = Some (snd r) \<and> length p \<le> MAX_WAL_RECORD_BYTES)"

function frames :: "fts_env \<Rightarrow> nat \<Rightarrow> bytes \<Rightarrow> (nat \<times> u64 \<times> fts_wal_op) list \<times> nat" where
  "frames E pos bs =
     (case next_frame E True bs of
        None \<Rightarrow> ([], pos)
      | Some (x, n) \<Rightarrow> (let (rs, e) = frames E (pos + n) (drop n bs) in ((pos, x) # rs, e)))"
  by pat_completeness auto

termination
  by (relation "measure (\<lambda>(E, pos, bs). length bs)") (auto dest: next_frame_bounds intro!: diff_less)

declare frames.simps [simp del]

lemma replay_frames:
  "replay_loop E True bs pos m st = (let (rs, e) = frames E pos bs; ops = map snd rs
     in (foldl (\<lambda>s op. replay_op op s) st (map snd ops), foldl max m (map fst ops), e))"
proof (induction E True bs pos m st rule: replay_loop.induct)
  case (1 E bs valid_len max_epoch st)
  show ?case
    by (subst replay_loop.simps, subst frames.simps) (auto simp: 1 Let_def split: option.splits prod.splits)
qed

lemma length_wal_frame [simp]: "length (wal_frame E epoch p) = 16 + length p"
  by (simp add: wal_frame_def)

lemma frame_okD:
  assumes "frame_ok E r"
  obtains p where "wal_ser E (snd r) = Some p" "wal_de E p = Some (snd r)" "length p \<le> MAX_WAL_RECORD_BYTES"
    "frame_of E r = wal_frame E (fst r) p" "unat (of_nat (length p) :: u32) = length p"
proof -
  obtain p where p: "wal_ser E (snd r) = Some p" "wal_de E p = Some (snd r)" "length p \<le> MAX_WAL_RECORD_BYTES"
    using assms by (auto simp: frame_ok_def)
  have "unat (of_nat (length p) :: u32) = length p"
    by (rule unat_of_nat_lt) (use p(3) in \<open>simp add: MAX_WAL_RECORD_BYTES_def\<close>)
  then show ?thesis using that p by (simp add: frame_of_def)
qed

lemma frame_app:
  assumes "frame_ok E r"
  shows "next_frame E True (frame_of E r @ tail) = Some (r, length (frame_of E r))"
proof -
  obtain p where p: "wal_de E p = Some (snd r)" "length p \<le> MAX_WAL_RECORD_BYTES"
    "frame_of E r = wal_frame E (fst r) p" "unat (of_nat (length p) :: u32) = length p"
    using frame_okD [OF assms] by blast
  show ?thesis
    unfolding p(3) next_frame_def using p(2) by (simp add: p wal_frame_def Let_def not_less)
qed

lemma frame_torn:
  assumes "frame_ok E r" and "n < length (frame_of E r)"
  shows "next_frame E True (take n (frame_of E r)) = None"
proof -
  obtain p where p: "frame_of E r = wal_frame E (fst r) p" "unat (of_nat (length p) :: u32) = length p"
    using frame_okD [OF assms(1)] by blast
  have n: "n < 16 + length p" using assms(2) by (simp add: p)
  show ?thesis
  proof (cases "n < 4")
    case False
    then have "take 4 (take n (wal_frame E (fst r) p)) = to_le_bytes (of_nat (length p) :: u32)"
      by (simp add: wal_frame_def)
    then show ?thesis unfolding p(1) next_frame_def using n False by (auto simp: Let_def p(2) min_def)
  qed (auto simp: next_frame_def)
qed

interpretation fwal: record_log "frame_of E"
  "\<lambda>bs. case next_frame E True bs of None \<Rightarrow> Inl (IoError InvalidData []) | Some x \<Rightarrow> Inr x"
  "frame_ok E" "\<lambda>r. r" "\<lambda>pos bs. Inr (frames E pos bs)" for E
proof (unfold_locales, goal_cases)
  case (1 r tail)
  then show ?case by (simp add: frame_app)
next
  case (2 r n)
  then show ?case by (simp add: frame_torn)
next
  case (3 r)
  have "length (frame_of E r) \<noteq> 0" by (simp add: frame_of_def)
  then show ?case by auto
next
  case (4 pos)
  show ?case by (subst frames.simps) simp
next
  case (5 bs k msg pos)
  then show ?case by (subst frames.simps) (simp split: option.splits)
next
  case (6 bs x n pos)
  then show ?case by (subst frames.simps) (simp split: option.splits prod.splits)
qed

section \<open>Crashes\<close>

text \<open>The records of a sequence of flushes, and the file they leave.\<close>

definition logged_ops :: "(u64 \<times> fts_wal_op list) list \<Rightarrow> (u64 \<times> fts_wal_op) list" where
  "logged_ops batches = concat (map (\<lambda>(epoch, ops). map (Pair epoch) ops) batches)"

definition wal_image :: "fts_env \<Rightarrow> (u64 \<times> fts_wal_op list) list \<Rightarrow> bytes" where
  "wal_image E batches = foldl (\<lambda>log (epoch, ops). snd (append_frames E epoch ops log)) FTS_WAL_MAGIC batches"

lemma logged_ops_simps [simp]:
  "logged_ops [] = []" "logged_ops ((epoch, ops) # batches) = map (Pair epoch) ops @ logged_ops batches"
  "logged_ops (as @ bs) = logged_ops as @ logged_ops bs"
  by (simp_all add: logged_ops_def)

lemma append_frames_ok:
  assumes "\<forall>op \<in> set ops. wal_ser E op \<noteq> None"
  shows "append_frames E epoch ops log = (Inr (), log @ concat (map (frame_of E \<circ> Pair epoch) ops))"
  using assms by (induction ops arbitrary: log) (auto simp: frame_of_def)

lemma wal_image_frames:
  assumes "\<forall>r \<in> set (logged_ops batches). wal_ser E (snd r) \<noteq> None"
  shows "wal_image E batches = FTS_WAL_MAGIC @ concat (map (frame_of E) (logged_ops batches))"
proof -
  have "foldl (\<lambda>log (epoch, ops). snd (append_frames E epoch ops log)) log batches
      = log @ concat (map (frame_of E) (logged_ops batches))" for log
    using assms
  proof (induction batches arbitrary: log)
    case (Cons b batches)
    obtain epoch ops where b: "b = (epoch, ops)" by fastforce
    have "\<forall>op \<in> set ops. wal_ser E op \<noteq> None" using Cons.prems by (auto simp: b ball_Un)
    from append_frames_ok [OF this] show ?case
      using Cons by (simp add: b comp_def ball_Un)
  qed simp
  then show ?thesis by (simp add: wal_image_def)
qed

lemma length_fts_magic [simp]: "length FTS_WAL_MAGIC = 8"
  by (simp add: FTS_WAL_MAGIC_def as_bytes_def)

lemma torn_magic:
  assumes "n < 8"
  shows "next_frame E False (take n FTS_WAL_MAGIC) = None"
proof (cases "n < 4")
  case False
  have "take 4 FTS_WAL_MAGIC = as_bytes ''APXF''"
    by (simp add: FTS_WAL_MAGIC_def as_bytes_def)
  moreover have "unat (from_le_bytes (as_bytes ''APXF'') :: u32) = 0x46585041"
  proof -
    have "as_bytes ''APXF'' = [0x41, 0x50, 0x58, 0x46]" by code_simp
    then have "nat_of_le (as_bytes ''APXF'') = 0x46585041" by simp
    moreover have "unat (of_nat 0x46585041 :: u32) = 0x46585041" by (rule unat_of_nat_lt) simp
    ultimately show ?thesis by (simp only: from_le_bytes_def)
  qed
  ultimately show ?thesis using False by (simp add: next_frame_def MAX_WAL_RECORD_BYTES_def min_def Let_def)
qed (auto simp: next_frame_def)

text \<open>
  C25. The log of the full-text index survives a crash: whatever prefix of the file written by a
  sequence of flushes is left, replaying it applies the operations of a prefix of the logged
  records to the state, in order, which includes every record that is whole in the file; it
  returns the highest epoch of these records and cuts the file behind the last of them, so that
  later flushes append to a sound log.
\<close>

theorem fts_wal_survives_crash:
  assumes "\<forall>r \<in> set (logged_ops batches). frame_ok E r"
    and "hm_get fs path = Some (take n (wal_image E batches))"
  shows "\<exists>k fs'. replay_wal E fs path st
      = Inr (foldl max 0 (map fst (take k (logged_ops batches))),
             foldl (\<lambda>s op. replay_op op s) st (map snd (take k (logged_ops batches))), fs')
    \<and> hm_get fs' path = Some (if n < 8 then [] else FTS_WAL_MAGIC @ concat (map (frame_of E) (take k (logged_ops batches))))
    \<and> (\<forall>f \<le> length (logged_ops batches).
          8 + length (concat (map (frame_of E) (take f (logged_ops batches)))) \<le> n \<longrightarrow> f \<le> k)"
proof -
  let ?L = "logged_ops batches"
  have image: "wal_image E batches = FTS_WAL_MAGIC @ concat (map (frame_of E) ?L)"
    using assms(1) by (intro wal_image_frames) (auto simp: frame_ok_def)
  show ?thesis
  proof (cases "n < 8")
    case True
    then have bytes: "hm_get fs path = Some (take n FTS_WAL_MAGIC)" using assms(2) by (simp add: image)
    have "replay_loop E False (take n FTS_WAL_MAGIC) 0 0 st = (st, 0, 0)"
      using torn_magic [OF True] by (simp add: replay_loop.simps)
    then have "replay_wal E fs path st = Inr (0, st, if 0 < n then hm_insert path [] fs else fs)"
      using True bytes by (simp add: replay_wal_def)
    then show ?thesis using True bytes by (intro exI [of _ 0]) (auto simp: hm_get_insert)
  next
    case False
    let ?cut = "take (n - 8) (concat (map (frame_of E) ?L))"
    have bytes: "hm_get fs path = Some (FTS_WAL_MAGIC @ ?cut)" using assms(2) False by (simp add: image)
    from fwal.scan_crash [OF assms(1), of 8 "n - 8"] obtain k where k: "k \<le> length ?L"
      "frames E 8 ?cut = (stamped (frame_of E) (\<lambda>r. r) 8 (take k ?L), 8 + length (concat (map (frame_of E) (take k ?L))))"
      "length (concat (map (frame_of E) (take k ?L))) \<le> n - 8"
      "\<forall>f. length (concat (map (frame_of E) (take f ?L))) \<le> n - 8 \<longrightarrow> f \<le> length ?L \<longrightarrow> f \<le> k"
      by auto
    let ?W = "concat (map (frame_of E) (take k ?L))"
    have loop: "replay_loop E True ?cut 8 0 st = (foldl (\<lambda>s op. replay_op op s) st (map snd (take k ?L)),
        foldl max 0 (map fst (take k ?L)), 8 + length ?W)"
      by (simp only: replay_frames k(2) Let_def prod.case map_snd_stamped list.map_ident)
    have "concat (map (frame_of E) ?L) = ?W @ concat (map (frame_of E) (drop k ?L))"
      by (metis append_take_drop_id concat_append map_append)
    then have "take (8 + length ?W) (FTS_WAL_MAGIC @ ?cut) = FTS_WAL_MAGIC @ ?W"
      using k(3) by (simp add: min_def)
    then have cut: "take (8 + length ?W) (FTS_WAL_MAGIC @ ?cut) = FTS_WAL_MAGIC @ ?W
        \<and> (\<not> 8 + length ?W < length (FTS_WAL_MAGIC @ ?cut) \<longrightarrow> FTS_WAL_MAGIC @ ?cut = FTS_WAL_MAGIC @ ?W)"
      by (metis not_less take_all)
    define fs' where "fs' = (if 8 + length ?W < length (FTS_WAL_MAGIC @ ?cut)
      then hm_insert path (take (8 + length ?W) (FTS_WAL_MAGIC @ ?cut)) fs else fs)"
    have "replay_wal E fs path st = Inr (foldl max 0 (map fst (take k ?L)),
        foldl (\<lambda>s op. replay_op op s) st (map snd (take k ?L)), fs')"
      by (simp add: replay_wal_def bytes loop fs'_def)
    moreover have "hm_get fs' path = Some (FTS_WAL_MAGIC @ ?W)"
      using cut bytes by (auto simp: fs'_def hm_get_insert)
    ultimately show ?thesis using False k(4) by (intro exI [of _ k] exI [of _ fs']) auto
  qed
qed

section \<open>A concrete environment\<close>

text \<open>Codecs that write the bytes of their data: operations on one-word documents, bitmaps as lists.\<close>

fun demo_ser :: "fts_wal_op \<Rightarrow> bytes option" where
  "demo_ser (FDelete d) = Some (to_le_bytes d)"
| "demo_ser (FUpsert d [t] [i]) = (if t \<noteq> [] \<and> i = 1 then Some (to_le_bytes d @ as_bytes t) else None)"
| "demo_ser _ = None"

definition demo_de :: "bytes \<Rightarrow> fts_wal_op option" where
  "demo_de b =
     (if length b < 8 then None
      else if length b = 8 then Some (FDelete (from_le_bytes b))
      else Some (FUpsert (from_le_bytes (take 8 b)) [of_bytes (drop 8 b)] [1]))"

fun words_of :: "nat \<Rightarrow> bytes \<Rightarrow> u64 list" where
  "words_of 0 b = []"
| "words_of (Suc n) b = from_le_bytes (take 8 b) # words_of n (drop 8 b)"

definition demo_env :: fts_env where
  "demo_env = \<lparr>crc32 = (\<lambda>b. of_nat (nat_of_le b)), wal_ser = demo_ser, wal_de = demo_de,
     tm_ser = (\<lambda>s. concat (map to_le_bytes (tm_iter s))),
     tm_de = (\<lambda>b. Some (set (words_of (length b div 8) b), length b)), tables = plain_unicode\<rparr>"

lemma demo_codec: "demo_ser op = Some b \<Longrightarrow> demo_de b = Some op"
  by (induction op rule: demo_ser.induct) (auto simp: demo_de_def as_bytes_def of_as_bytes [unfolded as_bytes_def] split: if_splits)

lemma demo_env_ok: "env_ok demo_env"
proof -
  have len: "length (concat (map to_le_bytes (xs :: u64 list))) = 8 * length xs" for xs
    by (induction xs) auto
  have "words_of (length xs) (concat (map to_le_bytes xs)) = xs" for xs
    by (induction xs) auto
  then show ?thesis
    using demo_codec by (simp add: env_ok_def demo_env_def len)
qed

definition demo_batches :: "(u64 \<times> fts_wal_op list) list" where
  "demo_batches = [(3, [FDelete 5]), (4, [FUpsert 6 [''ab''] [1]])]"

lemma demo_frames: "\<forall>r \<in> set (logged_ops demo_batches). frame_ok demo_env r"
proof -
  have "length (as_bytes ''ab'') = 2" by (simp add: as_bytes_def)
  then show ?thesis
    by (simp add: demo_batches_def frame_ok_def demo_env_def demo_de_def MAX_WAL_RECORD_BYTES_def)
qed

theorem fts_wal_survives_crash_witness:
  "\<exists>k fs'. 1 \<le> k \<and> replay_wal demo_env [(''w'', take 40 (wal_image demo_env demo_batches))] ''w'' index_default
      = Inr (foldl max 0 (map fst (take k (logged_ops demo_batches))),
             foldl (\<lambda>s op. replay_op op s) index_default (map snd (take k (logged_ops demo_batches))), fs')"
proof -
  have "1 \<le> length (logged_ops demo_batches)" "8 + length (concat (map (frame_of demo_env) (take 1 (logged_ops demo_batches)))) \<le> 40"
    by (simp_all add: demo_batches_def frame_of_def demo_env_def)
  then show ?thesis
    using fts_wal_survives_crash [OF demo_frames, of "[(''w'', take 40 (wal_image demo_env demo_batches))]" "''w''" 40 index_default]
    by fastforce
qed

text \<open>
  A record above the limit of the reader cuts the log: a flush writes an operation whose
  encoding is longer than 64 MiB without complaint, but replaying the log stops in front of it, so
  that operation and every later one are dropped, and the file is truncated to the records before it.
\<close>

theorem oversized_record_cuts_log:
  assumes "\<forall>r \<in> set (logged_ops before). frame_ok E r" and "\<forall>r \<in> set (logged_ops after). frame_ok E r"
    and "wal_ser E big = Some payload" and "MAX_WAL_RECORD_BYTES < length payload" and "length payload < 2 ^ 32"
    and "hm_get fs path = Some (wal_image E (before @ (epoch, [big]) # after))"
  shows "\<exists>fs'. replay_wal E fs path st
      = Inr (foldl max 0 (map fst (logged_ops before)), foldl (\<lambda>s op. replay_op op s) st (map snd (logged_ops before)), fs')
    \<and> hm_get fs' path = Some (wal_image E before)"
proof -
  let ?B = "logged_ops before" and ?A = "logged_ops after"
  have ser: "\<forall>r \<in> set (logged_ops (before @ (epoch, [big]) # after)). wal_ser E (snd r) \<noteq> None"
    "\<forall>r \<in> set ?B. wal_ser E (snd r) \<noteq> None"
    using assms(1-3) by (auto simp: frame_ok_def)
  let ?W = "concat (map (frame_of E) ?B)" and ?T = "wal_frame E epoch payload @ concat (map (frame_of E) ?A)"
  have log: "hm_get fs path = Some (FTS_WAL_MAGIC @ ?W @ ?T)"
    using assms(3,6) wal_image_frames [OF ser(1)] by (simp add: frame_of_def)
  have u: "unat (of_nat (length payload) :: u32) = length payload"
    by (rule unat_of_nat_lt) (use assms(5) in simp)
  have "next_frame E True ?T = None"
    using assms(4) by (simp add: next_frame_def wal_frame_def u Let_def)
  then have "frames E pos ?T = ([], pos)" for pos by (simp add: frames.simps)
  then have "frames E 8 (?W @ ?T) = (stamped (frame_of E) (\<lambda>r. r) 8 ?B, 8 + length ?W)"
    using fwal.scan_records [OF assms(1), of ?T 8] by simp
  then have loop: "replay_loop E True (?W @ ?T) 8 0 st = (foldl (\<lambda>s op. replay_op op s) st (map snd ?B),
      foldl max 0 (map fst ?B), 8 + length ?W)"
    by (simp only: replay_frames Let_def prod.case map_snd_stamped list.map_ident)
  then have "replay_wal E fs path st = Inr (foldl max 0 (map fst ?B), foldl (\<lambda>s op. replay_op op s) st (map snd ?B),
      hm_insert path (FTS_WAL_MAGIC @ ?W) fs)"
    by (simp add: replay_wal_def log)
  then show ?thesis using wal_image_frames [OF ser(2)] by (simp add: hm_get_insert)
qed

definition big_op :: fts_wal_op where
  "big_op = FUpsert 9 [replicate 67108864 CHR ''a''] [1]"

theorem oversized_record_cuts_log_witness:
  "\<exists>fs'. replay_wal demo_env [(''w'', wal_image demo_env (demo_batches @ (5, [big_op]) # demo_batches))] ''w'' index_default
      = Inr (foldl max 0 (map fst (logged_ops demo_batches)),
             foldl (\<lambda>s op. replay_op op s) index_default (map snd (logged_ops demo_batches)), fs')
    \<and> hm_get fs' ''w'' = Some (wal_image demo_env demo_batches)"
proof -
  have "wal_ser demo_env big_op = Some (to_le_bytes (9 :: u64) @ as_bytes (replicate 67108864 CHR ''a''))"
    by (simp add: demo_env_def big_op_def)
  then show ?thesis
    by (rule oversized_record_cuts_log [OF demo_frames demo_frames]) (simp_all add: MAX_WAL_RECORD_BYTES_def as_bytes_def)
qed

end
