(* ===== verification/Fts_Snapshot.thy ===== *)
theory Fts_Snapshot
  imports Fts_Wal
begin

text \<open>
  The snapshot file of the full-text index and its sidecar (\<^verbatim>\<open>fts/storage.rs\<close>): the writer of the
  current format, the readers of the current and of the older format, and the source metadata.
  Theorems: a written snapshot loads back as a state with the same terms, postings and token
  streams, memory-mapped or not; the metadata reads back. An error theorem shows the snapshot that
  is written but not accepted again.
\<close>

section \<open>Source metadata\<close>

definition SOURCE_META_MAGIC :: bytes where "SOURCE_META_MAGIC = as_bytes ''APXFTSM1''"
definition SOURCE_META_BYTES :: nat where "SOURCE_META_BYTES = 36"

definition source_meta_path :: "string \<Rightarrow> string" where
  "source_meta_path path = path @ ''.meta''"

definition read_source_meta :: "fts_env \<Rightarrow> files \<Rightarrow> string \<Rightarrow> source_meta option fts" where
  "read_source_meta E fs path =
     (case hm_get fs (source_meta_path path) of
        None \<Rightarrow> Inr None
      | Some bytes \<Rightarrow>
          if length bytes \<noteq> SOURCE_META_BYTES \<or> take 8 bytes \<noteq> SOURCE_META_MAGIC
          then Inl (CorruptIndex ''invalid ApexFTS source metadata'')
          else if crc32 E (take 32 bytes) \<noteq> from_le_bytes (drop 32 bytes)
          then Inl (CorruptIndex ''source metadata checksum mismatch'')
          else Inr (Some \<lparr>sm_rows = from_le_bytes (take 8 (drop 8 bytes)),
                 sm_epoch = from_le_bytes (take 8 (drop 16 bytes)),
                 sm_generation = from_le_bytes (take 8 (drop 24 bytes))\<rparr>))"

definition write_source_meta :: "fts_env \<Rightarrow> source_meta \<Rightarrow> files \<Rightarrow> string \<Rightarrow> files" where
  "write_source_meta E meta fs path =
     (let bytes = SOURCE_META_MAGIC @ to_le_bytes (sm_rows meta) @ to_le_bytes (sm_epoch meta)
                  @ to_le_bytes (sm_generation meta)
      in hm_insert (source_meta_path path) (bytes @ to_le_bytes (crc32 E bytes)) fs)"

definition remove_source_meta :: "files \<Rightarrow> string \<Rightarrow> files" where
  "remove_source_meta fs path = hm_remove (source_meta_path path) fs"

section \<open>Writing\<close>

definition SNAPSHOT_MAGIC :: bytes where "SNAPSHOT_MAGIC = as_bytes ''APEXFTS1''"
definition SNAPSHOT_VERSION :: u32 where "SNAPSHOT_VERSION = 3"
definition LEGACY_SNAPSHOT_VERSION :: u32 where "LEGACY_SNAPSHOT_VERSION = 2"
definition ANALYZER_VERSION :: u32 where "ANALYZER_VERSION = 2"
definition SNAPSHOT_HEADER_BYTES :: nat where "SNAPSHOT_HEADER_BYTES = 72"

fun snapshot_codec :: "posting_docs \<Rightarrow> u32" where
  "snapshot_codec (POne d) = POSTING_CODEC_SINGLE_DOC"
| "snapshot_codec _ = POSTING_CODEC_ROARING"

fun serialize_snapshot :: "fts_env \<Rightarrow> posting_docs \<Rightarrow> bytes" where
  "serialize_snapshot E (PRoaring docs) = tm_ser E docs"
| "serialize_snapshot E _ = []"

fun snapshot_len :: "fts_env \<Rightarrow> posting_docs \<Rightarrow> nat" where
  "snapshot_len E PEmpty = 0"
| "snapshot_len E (POne d) = 0"
| "snapshot_len E (PRoaring docs) = length (tm_ser E docs)"

fun snapshot_value :: "posting_docs \<Rightarrow> nat \<Rightarrow> u64" where
  "snapshot_value (POne d) posting_cursor = d"
| "snapshot_value _ posting_cursor = of_nat posting_cursor"

text \<open>The terms of a snapshot with their postings, in ascending order.\<close>

definition snapshot_terms :: "index_state \<Rightarrow> (string \<times> posting) list" where
  "snapshot_terms st = sort_key fst (filter (\<lambda>(t, p). \<not> pd_is_empty (p_docs p)) (base_postings st))"

definition directory_entry :: "fts_env \<Rightarrow> nat \<Rightarrow> nat \<Rightarrow> string \<times> posting \<Rightarrow> bytes" where
  "directory_entry E term_cursor posting_cursor e =
     to_le_bytes (of_nat term_cursor :: u64) @ to_le_bytes (of_nat (length (fst e)) :: u32)
     @ to_le_bytes (p_term_id (snd e)) @ to_le_bytes (snapshot_value (p_docs (snd e)) posting_cursor)
     @ to_le_bytes (of_nat (snapshot_len E (p_docs (snd e))) :: u64)
     @ to_le_bytes (snapshot_codec (p_docs (snd e))) @ to_le_bytes (0 :: u32)"

fun directory_entries :: "fts_env \<Rightarrow> nat \<Rightarrow> nat \<Rightarrow> (string \<times> posting) list \<Rightarrow> bytes list" where
  "directory_entries E term_cursor posting_cursor [] = []"
| "directory_entries E term_cursor posting_cursor (e # es) =
     directory_entry E term_cursor posting_cursor e
     # directory_entries E (term_cursor + length (fst e)) (posting_cursor + snapshot_len E (p_docs (snd e))) es"

definition token_record :: "u64 \<times> u32 list \<Rightarrow> bytes" where
  "token_record r = to_le_bytes (fst r) @ to_le_bytes (of_nat (length (snd r)) :: u32) @ concat (map to_le_bytes (snd r))"

record snapshot_layout =
  term_data_at :: nat
  postings_at :: nat
  docs_at :: nat
  tokens_at :: nat
  payload_end_at :: nat

definition snapshot_layout_of :: "fts_env \<Rightarrow> index_state \<Rightarrow> snapshot_layout" where
  "snapshot_layout_of E st =
     (let es = snapshot_terms st;
          term_data = SNAPSHOT_HEADER_BYTES + length es * TERM_DIRECTORY_ENTRY_BYTES;
          postings = term_data + sum_list (map (length \<circ> fst) es);
          docs = postings + sum_list (map (snapshot_len E \<circ> p_docs \<circ> snd) es);
          toks = docs + (8 + length (tm_ser E (base_docs st)))
      in \<lparr>term_data_at = term_data, postings_at = postings, docs_at = docs, tokens_at = toks,
          payload_end_at = toks + (8 + (length (doc_ids (base_tokens st)) * 12 + length (packed (base_tokens st)) * 4))\<rparr>)"

definition snapshot_payload :: "fts_env \<Rightarrow> index_state \<Rightarrow> bytes" where
  "snapshot_payload E st =
     (let es = snapshot_terms st; l = snapshot_layout_of E st
      in SNAPSHOT_MAGIC @ to_le_bytes SNAPSHOT_VERSION @ to_le_bytes ANALYZER_VERSION
         @ to_le_bytes (of_nat (length es) :: u64) @ to_le_bytes (of_nat SNAPSHOT_HEADER_BYTES :: u64)
         @ to_le_bytes (of_nat (term_data_at l) :: u64) @ to_le_bytes (of_nat (postings_at l) :: u64)
         @ to_le_bytes (of_nat (docs_at l) :: u64) @ to_le_bytes (of_nat (tokens_at l) :: u64)
         @ to_le_bytes (of_nat (payload_end_at l) :: u64)
         @ concat (directory_entries E (term_data_at l) (postings_at l) es)
         @ concat (map (as_bytes \<circ> fst) es)
         @ concat (map (serialize_snapshot E \<circ> p_docs \<circ> snd) es)
         @ to_le_bytes (of_nat (length (tm_ser E (base_docs st))) :: u64) @ tm_ser E (base_docs st)
         @ to_le_bytes (of_nat (length (doc_ids (base_tokens st))) :: u64)
         @ concat (map token_record (base_records (base_tokens st))))"

text \<open>The bytes of the file, unless the size of a section overflows.\<close>

definition snapshot_image :: "fts_env \<Rightarrow> index_state \<Rightarrow> bytes fts" where
  "snapshot_image E st =
     (let l = snapshot_layout_of E st; payload = snapshot_payload E st in
      if 2 ^ 64 \<le> term_data_at l then Inl (CorruptIndex ''term directory overflow'')
      else if 2 ^ 64 \<le> postings_at l then Inl (CorruptIndex ''term data overflow'')
      else if 2 ^ 64 \<le> docs_at l then Inl (CorruptIndex ''posting data overflow'')
      else if 2 ^ 64 \<le> tokens_at l then Inl (CorruptIndex ''document data overflow'')
      else if 2 ^ 64 \<le> length (doc_ids (base_tokens st)) * 12 + length (packed (base_tokens st)) * 4
      then Inl (CorruptIndex ''token data overflow'')
      else if 2 ^ 64 \<le> payload_end_at l then Inl (CorruptIndex ''snapshot size overflow'')
      else Inr (payload @ to_le_bytes (crc32 E payload)))"

section \<open>Reading\<close>

definition slice_u32 :: "bytes \<Rightarrow> nat \<Rightarrow> u32 fts" where
  "slice_u32 bytes off =
     rbind (ok_or (CorruptIndex ''truncated ApexFTS v3 metadata'') (get_range bytes off (off + 4)))
       (\<lambda>b. Inr (from_le_bytes b))"

definition slice_u64 :: "bytes \<Rightarrow> nat \<Rightarrow> u64 fts" where
  "slice_u64 bytes off =
     rbind (ok_or (CorruptIndex ''truncated ApexFTS v3 metadata'') (get_range bytes off (off + 8)))
       (\<lambda>b. Inr (from_le_bytes b))"

fun token_records :: "bytes \<Rightarrow> nat \<Rightarrow> nat \<Rightarrow> nat \<Rightarrow> ((u64 \<times> u32 list) list \<times> nat) fts" where
  "token_records mm payload_end 0 cursor = Inr ([], cursor)"
| "token_records mm payload_end (Suc n) cursor =
     rbind (slice_u64 mm cursor) (\<lambda>d.
     rbind (slice_u32 mm (cursor + 8)) (\<lambda>c.
       let count = unat c; start = cursor + 12; byte_len = count * 4 in
       if 2 ^ 64 \<le> start then Inl (CorruptIndex ''token directory overflow'')
       else if 2 ^ 64 \<le> byte_len then Inl (CorruptIndex ''token record overflow'')
       else if 2 ^ 64 \<le> start + byte_len \<or> payload_end < start + byte_len
       then Inl (CorruptIndex ''token record exceeds snapshot bounds'')
       else rbind (rmap (\<lambda>i. slice_u32 mm (start + i * 4)) [0..<count]) (\<lambda>ts.
            rbind (token_records mm payload_end n (start + byte_len)) (\<lambda>(rs, e). Inr ((d, ts) # rs, e)))))"

definition max_term_id :: "mmap_term_directory \<Rightarrow> u32" where
  "max_term_id dir = foldl max 0 (List.map_filter
     (\<lambda>i. case dir_meta dir i of Inl _ \<Rightarrow> None | Inr m \<Rightarrow> Some (m_term_id m)) [0..<term_count dir])"

text \<open>
  The capacity reserved for the token records is the count found in the file: reserving more than
  \<open>isize::MAX\<close> bytes panics.
\<close>

definition load_snapshot_v3 :: "fts_env \<Rightarrow> bytes \<Rightarrow> index_state \<Rightarrow> fts_config \<Rightarrow> index_state fts" where
  "load_snapshot_v3 E mm st cfg =
     (if length mm < SNAPSHOT_HEADER_BYTES + 4 then Inl (CorruptIndex ''truncated ApexFTS v3 snapshot'')
      else
        rbind (slice_u32 mm 12) (\<lambda>analyzer.
        if analyzer \<noteq> ANALYZER_VERSION then Inl (CorruptIndex ''analyzer version {analyzer} is not supported'')
        else
        rbind (slice_u64 mm 16) (\<lambda>tc. rbind (slice_u64 mm 24) (\<lambda>dir_off.
        rbind (slice_u64 mm 32) (\<lambda>term_data. rbind (slice_u64 mm 40) (\<lambda>postings.
        rbind (slice_u64 mm 48) (\<lambda>docs. rbind (slice_u64 mm 56) (\<lambda>toks.
        rbind (slice_u64 mm 64) (\<lambda>pe.
        let n = unat tc; directory_off = unat dir_off; docs_off = unat docs; tokens_off = unat toks;
            payload_end = unat pe; directory_end = directory_off + n * TERM_DIRECTORY_ENTRY_BYTES in
        if 2 ^ 64 \<le> n * TERM_DIRECTORY_ENTRY_BYTES \<or> 2 ^ 64 \<le> directory_end
        then Inl (CorruptIndex ''term directory overflow'')
        else if directory_off \<noteq> SNAPSHOT_HEADER_BYTES \<or> unat term_data < directory_end \<or> postings < term_data
          \<or> docs < postings \<or> toks < docs \<or> pe < toks \<or> payload_end + 4 \<noteq> length mm
        then Inl (CorruptIndex ''invalid ApexFTS v3 section directory'')
        else
        rbind (if lazy_load cfg then Inr ()
               else rbind (slice_u32 mm payload_end) (\<lambda>expected.
                 if crc32 E (take payload_end mm) \<noteq> expected
                 then Inl (CorruptIndex ''snapshot checksum mismatch'') else Inr ())) (\<lambda>_.
        rbind (dir_new mm directory_off n (if lazy_load cfg then cache_size cfg else 0)) (\<lambda>dir.
        rbind (slice_u64 mm docs_off) (\<lambda>dl.
        let docs_start = docs_off + 8; docs_end = docs_start + unat dl in
        if 2 ^ 64 \<le> docs_end then Inl (CorruptIndex ''document bitmap overflow'')
        else if tokens_off < docs_end then Inl (CorruptIndex ''document bitmap exceeds its section'')
        else
        (case tm_de E (take (unat dl) (drop docs_start mm)) of
           None \<Rightarrow> Inl (CorruptIndex ''invalid document bitmap: {error}'')
         | Some (bd, _) \<Rightarrow>
        rbind (slice_u64 mm tokens_off) (\<lambda>tdc.
        if 2 ^ 63 \<le> unat tdc * 24 then Inl FtsPanic
        else
        rbind (token_records mm payload_end (unat tdc) (tokens_off + 8)) (\<lambda>(records, cursor).
        if cursor \<noteq> payload_end then Inl (CorruptIndex ''unexpected bytes after token records'')
        else
        let st1 = st\<lparr>base_docs := bd, base_tokens := from_records records,
                     next_term_id := max (sat_inc (max_term_id dir)) 1, needs_rebuild := False\<rparr> in
        if lazy_load cfg then Inr (st1\<lparr>base_postings := [], mmap_postings := Some dir\<rparr>)
        else rbind (materialize (tm_de E) dir) (\<lambda>ps.
               Inr (st1\<lparr>base_postings := ps, mmap_postings := None\<rparr>)))))))))))))))))"

subsection \<open>The older format\<close>

text \<open>A reader is the rest of the payload: \<open>read_exact\<close> splits it, and its length is the limit.\<close>

definition take_bytes :: "string \<Rightarrow> nat \<Rightarrow> bytes \<Rightarrow> (bytes \<times> bytes) fts" where
  "take_bytes msg n bs = (if length bs < n then Inl (CorruptIndex msg) else Inr (take n bs, drop n bs))"

definition take_u32 :: "string \<Rightarrow> bytes \<Rightarrow> (u32 \<times> bytes) fts" where
  "take_u32 msg bs = rbind (take_bytes msg 4 bs) (\<lambda>(b, r). Inr (from_le_bytes b, r))"

definition take_u64 :: "string \<Rightarrow> bytes \<Rightarrow> (u64 \<times> bytes) fts" where
  "take_u64 msg bs = rbind (take_bytes msg 8 bs) (\<lambda>(b, r). Inr (from_le_bytes b, r))"

fun v2_terms :: "fts_env \<Rightarrow> nat \<Rightarrow> bytes \<Rightarrow> index_state \<Rightarrow> (index_state \<times> bytes) fts" where
  "v2_terms E 0 bs st = Inr (st, bs)"
| "v2_terms E (Suc n) bs st =
     rbind (take_u32 ''invalid term length: {e}'' bs) (\<lambda>(tl, r1).
     if MAX_TERM_BYTES < unat tl \<or> length r1 < unat tl then Inl (CorruptIndex ''term exceeds snapshot bounds'')
     else rbind (take_bytes ''truncated term: {e}'' (unat tl) r1) (\<lambda>(tb, r2).
     rbind (take_u32 ''invalid term id: {e}'' r2) (\<lambda>(t_id, r3).
     rbind (take_u64 ''invalid bitmap length: {e}'' r3) (\<lambda>(bl, r4).
     if length r4 < unat bl then Inl (CorruptIndex ''posting bitmap exceeds snapshot bounds'')
     else case tm_de E (take (unat bl) r4) of
            None \<Rightarrow> Inl (CorruptIndex ''invalid posting bitmap: {e}'')
          | Some (docs, _) \<Rightarrow>
              rbind (check_utf8 tb) (\<lambda>t.
                v2_terms E n (drop (unat bl) r4)
                  (st\<lparr>base_postings := hm_insert t \<lparr>p_term_id = t_id, p_docs = pd_from_roaring docs\<rparr> (base_postings st),
                      next_term_id := max (next_term_id st) (sat_inc t_id)\<rparr>))))))"

fun v2_tokens :: "nat \<Rightarrow> bytes \<Rightarrow> (u32 list \<times> bytes) fts" where
  "v2_tokens 0 bs = Inr ([], bs)"
| "v2_tokens (Suc n) bs =
     rbind (take_u32 ''truncated document tokens: {e}'' bs) (\<lambda>(t, r).
     rbind (v2_tokens n r) (\<lambda>(ts, r'). Inr (t # ts, r')))"

fun v2_records :: "nat \<Rightarrow> bytes \<Rightarrow> ((u64 \<times> u32 list) list \<times> bytes) fts" where
  "v2_records 0 bs = Inr ([], bs)"
| "v2_records (Suc n) bs =
     rbind (take_u64 ''invalid token document id: {e}'' bs) (\<lambda>(d, r1).
     rbind (take_u32 ''invalid document token count: {e}'' r1) (\<lambda>(c, r2).
     if length r2 div 4 < unat c then Inl (CorruptIndex ''document tokens exceed snapshot bounds'')
     else rbind (v2_tokens (unat c) r2) (\<lambda>(ts, r3).
          rbind (v2_records n r3) (\<lambda>(rs, r4). Inr ((d, ts) # rs, r4)))))"

definition load_snapshot_v2 :: "fts_env \<Rightarrow> bytes \<Rightarrow> index_state \<Rightarrow> index_state fts" where
  "load_snapshot_v2 E bytes st =
     (if length bytes < 36 then Inl (CorruptIndex ''truncated ApexFTS snapshot'')
      else
        let payload = take (length bytes - 4) bytes;
            expected_crc = from_le_bytes (drop (length bytes - 4) bytes) in
        rbind (take_bytes ''truncated snapshot header: {e}'' 8 payload) (\<lambda>(magic, r0).
        if magic \<noteq> SNAPSHOT_MAGIC then Inl (CorruptIndex ''unsupported index format'')
        else rbind (take_u32 ''invalid snapshot version: {e}'' r0) (\<lambda>(version, r1).
        rbind (take_u32 ''invalid analyzer version: {e}'' r1) (\<lambda>(analyzer, r2).
        if version \<noteq> LEGACY_SNAPSHOT_VERSION \<or> analyzer \<noteq> ANALYZER_VERSION
        then Inl (CorruptIndex ''index/analyzer version {version}/{analyzer} is not supported'')
        else rbind (take_u64 ''invalid term directory: {e}'' r2) (\<lambda>(tc, r3).
        rbind (v2_terms E (unat tc) r3 st) (\<lambda>(st1, r4).
        rbind (take_u64 ''invalid document bitmap length: {e}'' r4) (\<lambda>(dl, r5).
        if length r5 < unat dl then Inl (CorruptIndex ''document bitmap exceeds snapshot bounds'')
        else case tm_de E (take (unat dl) r5) of
               None \<Rightarrow> Inl (CorruptIndex ''invalid document bitmap: {e}'')
             | Some (docs, _) \<Rightarrow>
                 rbind (take_u64 ''invalid token document count: {e}'' (drop (unat dl) r5)) (\<lambda>(tdc, r6).
                 if length r6 div 12 < unat tdc
                 then Inl (CorruptIndex ''token document directory exceeds snapshot bounds'')
                 else rbind (v2_records (unat tdc) r6) (\<lambda>(records, r7).
                 if r7 \<noteq> [] then Inl (CorruptIndex ''unexpected data at end of snapshot'')
                 else if crc32 E payload \<noteq> expected_crc then Inl (CorruptIndex ''snapshot checksum mismatch'')
                 else Inr (st1\<lparr>base_docs := docs, base_tokens := from_records records, needs_rebuild := False\<rparr>))))))))))"

definition load_snapshot :: "fts_env \<Rightarrow> bytes \<Rightarrow> index_state \<Rightarrow> fts_config \<Rightarrow> index_state fts" where
  "load_snapshot E bytes st cfg =
     (if length bytes < 16 then Inl (CorruptIndex ''truncated ApexFTS snapshot'')
      else if take 8 bytes \<noteq> SNAPSHOT_MAGIC then Inl (CorruptIndex ''unsupported index format'')
      else rbind (slice_u32 bytes 8) (\<lambda>version.
        if version = SNAPSHOT_VERSION then load_snapshot_v3 E bytes st cfg
        else if version = LEGACY_SNAPSHOT_VERSION then load_snapshot_v2 E bytes st
        else Inl (CorruptIndex ''index version {version} is not supported'')))"

section \<open>Bytes at an offset\<close>

text \<open>The bytes \<open>b\<close> stand at offset \<open>i\<close> of \<open>m\<close>.\<close>

definition bytes_at :: "bytes \<Rightarrow> nat \<Rightarrow> bytes \<Rightarrow> bool" where
  "bytes_at m i b \<longleftrightarrow> (\<exists>x y. m = x @ b @ y \<and> length x = i)"

lemma bytes_at_range: "bytes_at m i b \<Longrightarrow> get_range m i (i + length b) = Some b"
  by (auto simp: bytes_at_def get_range_def)

lemma bytes_at_take: "bytes_at m i b \<Longrightarrow> take (length b) (drop i m) = b" "bytes_at m i b \<Longrightarrow> i + length b \<le> length m"
  by (auto simp: bytes_at_def)

lemma bytes_at_app: "bytes_at m i (a @ b) \<longleftrightarrow> bytes_at m i a \<and> bytes_at m (i + length a) b"
proof
  assume "bytes_at m i (a @ b)"
  then obtain x y where m: "m = x @ (a @ b) @ y" "length x = i" by (auto simp: bytes_at_def)
  have "m = x @ a @ (b @ y)" "m = (x @ a) @ b @ y" using m by simp_all
  then show "bytes_at m i a \<and> bytes_at m (i + length a) b"
    unfolding bytes_at_def using m(2) by (metis length_append)
next
  assume h: "bytes_at m i a \<and> bytes_at m (i + length a) b"
  then obtain x y where m: "m = x @ a @ y" "length x = i" by (auto simp: bytes_at_def)
  obtain x' y' where m': "m = x' @ b @ y'" "length x' = i + length a" using h by (auto simp: bytes_at_def)
  have "x' = x @ a" using m m' by (simp add: append_eq_append_conv_if split: if_splits) (metis append_eq_conv_conj length_append append_assoc)
  then show "bytes_at m i (a @ b)" unfolding bytes_at_def using m' m(2) by auto
qed

lemma bytes_at_self: "bytes_at (b @ y) 0 b"
  by (auto simp: bytes_at_def)

lemma slice_at:
  "bytes_at m i (to_le_bytes (w :: u32)) \<Longrightarrow> slice_u32 m i = Inr w"
  "bytes_at m i (to_le_bytes (v :: u64)) \<Longrightarrow> slice_u64 m i = Inr v"
  using bytes_at_range [of m i "to_le_bytes w"] bytes_at_range [of m i "to_le_bytes v"]
  by (simp_all add: slice_u32_def slice_u64_def)

lemma read_at:
  "bytes_at (mmap dir) i (to_le_bytes (w :: u32)) \<Longrightarrow> read_u32_at dir i = Inr w"
  "bytes_at (mmap dir) i (to_le_bytes (v :: u64)) \<Longrightarrow> read_u64_at dir i = Inr v"
  using bytes_at_range [of "mmap dir" i "to_le_bytes w"] bytes_at_range [of "mmap dir" i "to_le_bytes v"]
  by (simp_all add: read_u32_at_def read_u64_at_def)

lemma bytes_at_concat:
  "bytes_at m i (concat bs) \<Longrightarrow> k < length bs \<Longrightarrow> bytes_at m (i + sum_list (map length (take k bs))) (bs ! k)"
proof (induction bs arbitrary: i k)
  case (Cons b bs)
  then show ?case by (cases k) (auto simp: bytes_at_app simp flip: add.assoc)
qed simp

section \<open>Sections of a snapshot\<close>

lemma length_serialize_snapshot [simp]: "length (serialize_snapshot E d) = snapshot_len E d"
  by (cases d) simp_all

lemma length_directory_entry [simp]: "length (directory_entry E tc pc e) = 40"
  by (simp add: directory_entry_def)

lemma length_directory_entries [simp]:
  "length (directory_entries E tc pc es) = length es"
  "length (concat (directory_entries E tc pc es)) = length es * 40"
  by (induction es arbitrary: tc pc) auto

lemma nth_directory_entries:
  "k < length es \<Longrightarrow> directory_entries E tc pc es ! k =
     directory_entry E (tc + sum_list (map (length \<circ> fst) (take k es)))
       (pc + sum_list (map (snapshot_len E \<circ> p_docs \<circ> snd) (take k es))) (es ! k)"
  by (induction es arbitrary: tc pc k) (auto simp: nth_Cons' less_Suc_eq_0_disj add.assoc split: nat.splits)

lemma sum_entries: "sum_list (map length (take k (directory_entries E tc pc es))) = min k (length es) * 40"
proof (induction es arbitrary: tc pc k)
  case (Cons e es)
  then show ?case by (cases k) simp_all
qed simp

lemma length_token_record [simp]: "length (token_record r) = 12 + 4 * length (snd r)"
proof -
  have "length (concat (map to_le_bytes (ts :: u32 list))) = 4 * length ts" for ts by (induction ts) auto
  then show ?thesis by (simp add: token_record_def)
qed

lemma from_records_fields:
  "doc_ids (from_records rs) = map fst (sort_key fst rs)" "packed (from_records rs) = concat (map snd (sort_key fst rs))"
  using packed_fold [where p = "packed_empty\<lparr>offsets := [0]\<rparr>" and ts = "[]" and ds = "[]" and rs = "sort_key fst rs"]
  by (simp_all add: from_records_def packed_empty_def)

lemma packs_tokens:
  assumes "packs p D"
  shows "length (concat (map token_record (base_records p))) = length (doc_ids p) * 12 + length (packed p) * 4"
    and "length (base_records p) = length (doc_ids p)"
proof -
  have sum: "length (concat (map token_record rs)) = length rs * 12 + length (concat (map snd rs)) * 4" for rs
    by (induction rs) auto
  obtain rs where rs: "p = from_records rs \<or> p = packed_empty \<and> rs = []" "hm_wf rs"
    "sum_list (map (length \<circ> snd) rs) < 2 ^ 64" using assms by (auto simp: packs_def)
  have "base_records p = sort_key fst rs \<and> doc_ids p = map fst (sort_key fst rs) \<and> packed p = concat (map snd (sort_key fst rs))"
    using rs packed_records(4) [OF rs(3,2)] by (auto simp: from_records_fields packed_empty_def base_records_def)
  then show "length (concat (map token_record (base_records p))) = length (doc_ids p) * 12 + length (packed p) * 4"
    "length (base_records p) = length (doc_ids p)"
    using sum [of "sort_key fst rs"] by simp_all
qed

lemma length_snapshot_magic [simp]: "length SNAPSHOT_MAGIC = 8"
  by (simp add: SNAPSHOT_MAGIC_def)

text \<open>Where the sections of a written snapshot stand.\<close>

lemma snapshot_sections:
  fixes st :: index_state and E :: fts_env and c :: bytes
  defines "es \<equiv> snapshot_terms st" and "l \<equiv> snapshot_layout_of E st" and "m \<equiv> snapshot_payload E st @ c"
  assumes "packs (base_tokens st) D"
  shows "take 8 m = SNAPSHOT_MAGIC" and "slice_u32 m 8 = Inr SNAPSHOT_VERSION" and "slice_u32 m 12 = Inr ANALYZER_VERSION"
    and "slice_u64 m 16 = Inr (of_nat (length es))" and "slice_u64 m 24 = Inr (of_nat 72)"
    and "slice_u64 m 32 = Inr (of_nat (term_data_at l))" and "slice_u64 m 40 = Inr (of_nat (postings_at l))"
    and "slice_u64 m 48 = Inr (of_nat (docs_at l))" and "slice_u64 m 56 = Inr (of_nat (tokens_at l))"
    and "slice_u64 m 64 = Inr (of_nat (payload_end_at l))"
    and "bytes_at m 72 (concat (directory_entries E (term_data_at l) (postings_at l) es))"
    and "bytes_at m (term_data_at l) (concat (map (as_bytes \<circ> fst) es))"
    and "bytes_at m (postings_at l) (concat (map (serialize_snapshot E \<circ> p_docs \<circ> snd) es))"
    and "slice_u64 m (docs_at l) = Inr (of_nat (length (tm_ser E (base_docs st))))"
    and "bytes_at m (docs_at l + 8) (tm_ser E (base_docs st))"
    and "slice_u64 m (tokens_at l) = Inr (of_nat (length (doc_ids (base_tokens st))))"
    and "bytes_at m (tokens_at l + 8) (concat (map token_record (base_records (base_tokens st))))"
    and "length (snapshot_payload E st) = payload_end_at l"
proof -
  have pay: "bytes_at m 0 (snapshot_payload E st)" by (simp add: m_def bytes_at_self)
  have lens: "length (concat (map (as_bytes \<circ> fst) xs)) = sum_list (map (length \<circ> fst) xs)"
    "length (concat (map (serialize_snapshot E \<circ> p_docs \<circ> snd) xs)) = sum_list (map (snapshot_len E \<circ> p_docs \<circ> snd) xs)" for xs
    by (induction xs) simp_all
  note d = snapshot_payload_def [of E st, unfolded Let_def, folded es_def l_def]
    and la = snapshot_layout_of_def [of E st, unfolded Let_def, folded es_def]
  have l: "term_data_at l = 72 + length es * 40" "postings_at l = term_data_at l + sum_list (map (length \<circ> fst) es)"
    "docs_at l = postings_at l + sum_list (map (snapshot_len E \<circ> p_docs \<circ> snd) es)"
    "tokens_at l = docs_at l + (8 + length (tm_ser E (base_docs st)))"
    "payload_end_at l = tokens_at l + (8 + (length (doc_ids (base_tokens st)) * 12 + length (packed (base_tokens st)) * 4))"
    by (simp_all add: l_def la SNAPSHOT_HEADER_BYTES_def TERM_DIRECTORY_ENTRY_BYTES_def)
  note at = pay [unfolded d bytes_at_app, simplified lens length_directory_entries, simplified]
  show "take 8 m = SNAPSHOT_MAGIC" by (simp add: m_def d)
  show "length (snapshot_payload E st) = payload_end_at l"
    unfolding d l by (simp add: lens packs_tokens(1) [OF assms(4)] del: length_concat)
  show "slice_u32 m 8 = Inr SNAPSHOT_VERSION" "slice_u32 m 12 = Inr ANALYZER_VERSION"
    "slice_u64 m 16 = Inr (of_nat (length es))" "slice_u64 m 24 = Inr (of_nat 72)"
    "slice_u64 m 32 = Inr (of_nat (term_data_at l))" "slice_u64 m 40 = Inr (of_nat (postings_at l))"
    "slice_u64 m 48 = Inr (of_nat (docs_at l))" "slice_u64 m 56 = Inr (of_nat (tokens_at l))"
    "slice_u64 m 64 = Inr (of_nat (payload_end_at l))"
    using at by (intro slice_at; simp add: SNAPSHOT_HEADER_BYTES_def)+
  show "bytes_at m 72 (concat (directory_entries E (term_data_at l) (postings_at l) es))"
    "bytes_at m (term_data_at l) (concat (map (as_bytes \<circ> fst) es))"
    "bytes_at m (postings_at l) (concat (map (serialize_snapshot E \<circ> p_docs \<circ> snd) es))"
    "bytes_at m (docs_at l + 8) (tm_ser E (base_docs st))"
    "bytes_at m (tokens_at l + 8) (concat (map token_record (base_records (base_tokens st))))"
    using at l by (simp_all add: ac_simps)
  show "slice_u64 m (docs_at l) = Inr (of_nat (length (tm_ser E (base_docs st))))"
    "slice_u64 m (tokens_at l) = Inr (of_nat (length (doc_ids (base_tokens st))))"
    using at l by (auto intro!: slice_at simp: ac_simps)
qed

section \<open>The term directory of a snapshot\<close>

text \<open>What the format can carry: terms the reader accepts, token counts of 32 bits, offsets of 64.\<close>

definition snapshot_fits :: "fts_env \<Rightarrow> index_state \<Rightarrow> bool" where
  "snapshot_fits E st \<longleftrightarrow> payload_end_at (snapshot_layout_of E st) + 4 < 2 ^ 64
     \<and> length (doc_ids (base_tokens st)) * 24 < 2 ^ 63
     \<and> list_all (\<lambda>(t, p). utf8_valid (as_bytes t) \<and> length t \<le> MAX_TERM_BYTES) (snapshot_terms st)
     \<and> list_all (\<lambda>(d, ts). length ts < 2 ^ 32) (base_records (base_tokens st))"

lemma sum_take_le: "k < length xs \<Longrightarrow> sum_list (map f (take k xs)) + f (xs ! k) \<le> sum_list (map f xs)" for f :: "'a \<Rightarrow> nat"
  by (induction xs arbitrary: k) (auto simp: less_Suc_eq_0_disj)

lemma layout_order:
  defines "l E st \<equiv> snapshot_layout_of E st"
  shows "term_data_at (l E st) \<le> postings_at (l E st)" and "postings_at (l E st) \<le> docs_at (l E st)"
    and "docs_at (l E st) + 8 + length (tm_ser E (base_docs st)) = tokens_at (l E st)"
    and "tokens_at (l E st) + 8 \<le> payload_end_at (l E st)" and "term_data_at (l E st) = 72 + length (snapshot_terms st) * 40"
    and "postings_at (l E st) = term_data_at (l E st) + sum_list (map (length \<circ> fst) (snapshot_terms st))"
    and "docs_at (l E st) = postings_at (l E st) + sum_list (map (snapshot_len E \<circ> p_docs \<circ> snd) (snapshot_terms st))"
  by (simp_all add: l_def snapshot_layout_of_def Let_def SNAPSHOT_HEADER_BYTES_def TERM_DIRECTORY_ENTRY_BYTES_def)

lemma roaring_pd: "pd_ok (PRoaring s) \<Longrightarrow> pd_from_roaring s = PRoaring s"
  by (auto simp: pd_from_roaring_def)

lemma snapshot_entry:
  fixes st :: index_state and E :: fts_env and c :: bytes
  defines "es \<equiv> snapshot_terms st" and "l \<equiv> snapshot_layout_of E st" and "m \<equiv> snapshot_payload E st @ c"
  assumes env: "env_ok E" and toks: "packs (base_tokens st) D" and fits: "snapshot_fits E st" and "length c = 4"
    and ok: "\<forall>e \<in> set es. pd_ok (p_docs (snd e)) \<and> \<not> pd_is_empty (p_docs (snd e))"
    and k: "k < length es" and dir: "mmap dir = m" "directory_offset dir = 72" "term_count dir = length es"
  shows "entry_holds (tm_de E) dir k (es ! k)"
proof -
  obtain t p where e: "es ! k = (t, p)" by fastforce
  define tc pc where "tc = term_data_at l + sum_list (map (length \<circ> fst) (take k es))"
    and "pc = postings_at l + sum_list (map (snapshot_len E \<circ> p_docs \<circ> snd) (take k es))"
  note sec = snapshot_sections(1-17) [OF toks, where E = E and c = c, folded es_def l_def m_def]
    and plen = snapshot_sections(18) [OF toks, where E = E, folded l_def]
    and ord = layout_order [where E = E and st = st, folded es_def l_def]
  have len: "length m = payload_end_at l + 4" using plen \<open>length c = 4\<close> by (simp add: m_def)
  have big: "payload_end_at l < 2 ^ 64" using fits by (simp add: snapshot_fits_def l_def)
  have tin: "utf8_valid (as_bytes t)" "length t \<le> MAX_TERM_BYTES"
    using fits k e nth_mem [of k es] by (auto simp: snapshot_fits_def es_def list_all_iff)
  have tcb: "tc + length t \<le> postings_at l" "pc + snapshot_len E (p_docs p) \<le> docs_at l"
    using sum_take_le [OF k, of "length \<circ> fst"] sum_take_le [OF k, of "snapshot_len E \<circ> p_docs \<circ> snd"] ord(6,7)
    by (simp_all add: tc_def pc_def e)
  have "pc \<le> docs_at l" "tc \<le> postings_at l" "postings_at l \<le> payload_end_at l" "docs_at l \<le> payload_end_at l"
    using tcb ord by linarith+
  then have small: "tc < 2 ^ 64" "pc < 2 ^ 64" "snapshot_len E (p_docs p) < 2 ^ 64" "length t < 2 ^ 32"
    using big tcb tin(2) by (auto simp: MAX_TERM_BYTES_def)
  have u: "unat (of_nat tc :: u64) = tc" "unat (of_nat pc :: u64) = pc"
    "unat (of_nat (snapshot_len E (p_docs p)) :: u64) = snapshot_len E (p_docs p)" "unat (of_nat (length t) :: u32) = length t"
    using small by (simp_all add: unat_of_nat_lt)
  have "bytes_at m (72 + k * 40) (directory_entry E tc pc (t, p))"
    using bytes_at_concat [OF sec(11), of k] k
    by (simp add: sum_entries nth_directory_entries tc_def pc_def e min_def)
  note at = this [unfolded directory_entry_def bytes_at_app, simplified]
  have rd: "read_u64_at dir (72 + k * 40) = Inr (of_nat tc)" "read_u32_at dir (80 + k * 40) = Inr (of_nat (length t))"
    "read_u32_at dir (84 + k * 40) = Inr (p_term_id p)" "read_u64_at dir (88 + k * 40) = Inr (snapshot_value (p_docs p) pc)"
    "read_u64_at dir (96 + k * 40) = Inr (of_nat (snapshot_len E (p_docs p)))"
    "read_u32_at dir (104 + k * 40) = Inr (snapshot_codec (p_docs p))"
    using at unfolding dir(1) [symmetric] by (auto intro!: read_at simp: ac_simps)
  define x where "x = \<lparr>term_offset = tc, term_len = length t, m_term_id = p_term_id p,
    posting_value = snapshot_value (p_docs p) pc, posting_len = snapshot_len E (p_docs p), posting_codec = snapshot_codec (p_docs p)\<rparr>"
  have pdok: "pd_ok (p_docs p)" "\<not> pd_is_empty (p_docs p)" using ok k e nth_mem [of k es] by auto
  have chk: "check_posting dir x = Inr x"
  proof (cases "p_docs p")
    case (PRoaring s)
    have "pc + snapshot_len E (p_docs p) \<le> payload_end_at l"
      using tcb(2) ord by linarith
    then show ?thesis
      using PRoaring big u(2) by (simp add: check_posting_def x_def POSTING_CODEC_ROARING_def dir(1) len)
  qed (use pdok in \<open>simp_all add: check_posting_def x_def POSTING_CODEC_ROARING_def POSTING_CODEC_SINGLE_DOC_def\<close>)
  have "tc + length t \<le> payload_end_at l" using tcb(1) ord by linarith
  then have "dir_meta dir k = Inr x"
    using k chk tin(2) big
    by (simp add: dir_meta_def dir rd u Let_def TERM_DIRECTORY_ENTRY_BYTES_def x_def len ac_simps)
  moreover have "dir_term_bytes dir x = Inr (as_bytes t)"
  proof -
    have "bytes_at m tc (as_bytes t)"
      using bytes_at_concat [OF sec(12), of k] k by (simp add: tc_def e take_map comp_def)
    from bytes_at_range [OF this] show ?thesis by (simp add: dir_term_bytes_def x_def dir(1))
  qed
  moreover have "decode_posting (tm_de E) dir x = Inr p"
  proof (cases "p_docs p")
    case (PRoaring s)
    have "bytes_at m pc (tm_ser E s)"
      using bytes_at_concat [OF sec(13), of k] k PRoaring by (simp add: pc_def e take_map comp_def)
    from bytes_at_range [OF this] show ?thesis
      using PRoaring env roaring_pd pdok(1) u(2)
      by (auto simp: decode_posting_def x_def dir(1) POSTING_CODEC_ROARING_def POSTING_CODEC_SINGLE_DOC_def env_ok_def)
  qed (use pdok in \<open>auto simp: decode_posting_def x_def POSTING_CODEC_SINGLE_DOC_def\<close>)
  ultimately show ?thesis using tin(1) by (auto simp: entry_holds_def e x_def)
qed

lemma snapshot_terms_props:
  assumes "hm_wf (base_postings st)"
  shows "sorted_wrt (<) (map fst (snapshot_terms st))" and "hm_wf (snapshot_terms st)"
    and "set (snapshot_terms st) = {e \<in> set (base_postings st). \<not> pd_is_empty (p_docs (snd e))}"
    and "hm_get (snapshot_terms st) t = (case hm_get (base_postings st) t of
      None \<Rightarrow> None | Some p \<Rightarrow> if pd_is_empty (p_docs p) then None else Some p)"
proof -
  show wf: "hm_wf (snapshot_terms st)"
    using assms by (auto simp: snapshot_terms_def distinct_map inj_on_def)
  then show "sorted_wrt (<) (map fst (snapshot_terms st))"
    by (simp add: snapshot_terms_def strict_sorted_iff)
  show set: "set (snapshot_terms st) = {e \<in> set (base_postings st). \<not> pd_is_empty (p_docs (snd e))}"
    by (auto simp: snapshot_terms_def)
  show "hm_get (snapshot_terms st) t = (case hm_get (base_postings st) t of
      None \<Rightarrow> None | Some p \<Rightarrow> if pd_is_empty (p_docs p) then None else Some p)"
  proof (cases "hm_get (snapshot_terms st) t")
    case (Some p)
    then have "(t, p) \<in> set (base_postings st)" "\<not> pd_is_empty (p_docs p)"
      using map_of_SomeD [OF Some] set by auto
    then show ?thesis using Some hm_get_mem [OF assms] by auto
  next
    case None
    then have "t \<notin> fst ` set (snapshot_terms st)" by (simp add: hm_get_None)
    then have "pd_is_empty (p_docs p)" if "hm_get (base_postings st) t = Some p" for p
      using map_of_SomeD [OF that] set by force
    then show ?thesis using None by (auto split: option.splits)
  qed
qed

lemma dir_check_holds:
  assumes "dir_holds R dir es" and "k \<le> length es"
    and "case previous of None \<Rightarrow> True | Some b \<Rightarrow> \<exists>j < k. b = as_bytes (fst (es ! j))"
  shows "dir_check dir [k..<length es] previous = Inr ()"
  using assms(2,3)
proof (induction "length es - k" arbitrary: k previous)
  case (Suc n)
  then have k: "k < length es" by simp
  have sorted: "fst (es ! a) < fst (es ! b)" if "a < b" "b < length es" for a b
    using assms(1) sorted_wrt_nth_less [of "(<)" "map fst es" a b] that by (simp add: dir_holds_def)
  obtain m where m: "dir_meta dir k = Inr m" "dir_term_bytes dir m = Inr (as_bytes (fst (es ! k)))"
    "utf8_valid (as_bytes (fst (es ! k)))" using assms(1) k by (auto simp: dir_holds_def entry_holds_def)
  have "\<not> as_bytes (fst (es ! k)) \<le> b" if "previous = Some b" for b
    using Suc.prems(2) sorted k that by (auto simp: not_le as_bytes_less)
  moreover have "dir_check dir [Suc k..<length es] (Some (as_bytes (fst (es ! k)))) = Inr ()"
    using Suc.hyps(2) k by (intro Suc.hyps(1)) auto
  ultimately show ?case using k m by (auto simp: upt_conv_Cons check_utf8_def split: option.splits)
qed simp

lemma token_records_read:
  assumes "bytes_at m cursor (concat (map token_record rs))"
    and "cursor + length (concat (map token_record rs)) = payload_end" and "payload_end < 2 ^ 64"
    and "\<forall>r \<in> set rs. length (snd r) < 2 ^ 32"
  shows "token_records m payload_end (length rs) cursor = Inr (rs, payload_end)"
  using assms
proof (induction rs arbitrary: cursor)
  case (Cons r rs)
  obtain d ts where r: "r = (d, ts)" by fastforce
  have at: "bytes_at m cursor (to_le_bytes d)" "bytes_at m (cursor + 8) (to_le_bytes (of_nat (length ts) :: u32))"
    "bytes_at m (cursor + 12) (concat (map to_le_bytes ts))"
    "bytes_at m (cursor + (12 + 4 * length ts)) (concat (map token_record rs))"
  proof -
    have "bytes_at m cursor (token_record (d, ts))" "bytes_at m (cursor + (12 + 4 * length ts)) (concat (map token_record rs))"
      using Cons.prems(1) by (simp_all add: r bytes_at_app)
    then show "bytes_at m cursor (to_le_bytes d)" "bytes_at m (cursor + 8) (to_le_bytes (of_nat (length ts) :: u32))"
      "bytes_at m (cursor + 12) (concat (map to_le_bytes ts))"
      "bytes_at m (cursor + (12 + 4 * length ts)) (concat (map token_record rs))"
      by (simp_all add: token_record_def bytes_at_app ac_simps)
  qed
  have u: "unat (of_nat (length ts) :: u32) = length ts" using Cons.prems(4) by (simp add: r unat_of_nat_lt)
  have "slice_u32 m (cursor + 12 + i * 4) = Inr (ts ! i)" if "i < length ts" for i
  proof -
    have "sum_list (map length (take i (map to_le_bytes ts))) = i * 4"
      using that by (simp add: take_map comp_def sum_list_triv)
    then show ?thesis using bytes_at_concat [OF at(3), of i] that by (simp add: slice_at)
  qed
  then have toks: "rmap (\<lambda>i. slice_u32 m (cursor + 12 + i * 4)) [0..<length ts] = Inr ts"
    unfolding rmap_Inr by (simp add: list_all2_conv_all_nth)
  have "cursor + 12 + length ts * 4 \<le> payload_end" using Cons.prems(2) by (simp add: r)
  moreover have "token_records m payload_end (length rs) (cursor + 12 + length ts * 4) = Inr (rs, payload_end)"
    using Cons.IH [of "cursor + 12 + length ts * 4"] Cons.prems(2-) at(4) by (simp add: r ac_simps)
  ultimately show ?case
    using slice_at(2) [OF at(1)] slice_at(1) [OF at(2)] toks Cons.prems(3) by (simp add: u r Let_def ac_simps)
qed simp

section \<open>Loading what was written\<close>

text \<open>The state read from a snapshot, on top of the state it is read into.\<close>

definition loaded :: "(string \<times> posting) list \<Rightarrow> index_state \<Rightarrow> index_state \<Rightarrow> mmap_term_directory option \<Rightarrow> index_state" where
  "loaded es st st0 dir = st0\<lparr>base_docs := base_docs st, base_tokens := from_records (base_records (base_tokens st)),
     next_term_id := max (sat_inc (foldl max 0 (map (p_term_id \<circ> snd) es))) 1, needs_rebuild := False,
     base_postings := (if dir = None then es else []), mmap_postings := dir\<rparr>"

lemma max_term_id_holds:
  assumes "dir_holds R dir es"
  shows "max_term_id dir = foldl max 0 (map (p_term_id \<circ> snd) es)"
proof -
  have "(case dir_meta dir i of Inl _ \<Rightarrow> None | Inr m \<Rightarrow> Some (m_term_id m)) = Some (p_term_id (snd (es ! i)))"
    if "i < length es" for i
    using assms that by (auto simp: dir_holds_def entry_holds_def)
  then have "List.map_filter (\<lambda>i. case dir_meta dir i of Inl _ \<Rightarrow> None | Inr m \<Rightarrow> Some (m_term_id m)) [0..<length es]
      = map (\<lambda>i. p_term_id (snd (es ! i))) [0..<length es]"
    unfolding List.map_filter_def by (simp add: filter_True comp_def cong: map_cong)
  also have "\<dots> = map (p_term_id \<circ> snd) es"
    by (rule nth_equalityI) auto
  finally show ?thesis using assms by (simp add: max_term_id_def dir_holds_def)
qed

text \<open>The header of a written snapshot passes the checks of the reader.\<close>

lemma snapshot_header:
  fixes E :: fts_env and st :: index_state
  defines "es \<equiv> snapshot_terms st" and "l \<equiv> snapshot_layout_of E st"
    and "m \<equiv> snapshot_payload E st @ to_le_bytes (crc32 E (snapshot_payload E st))"
  assumes toks: "packs (base_tokens st) D" and big: "payload_end_at l + 4 < 2 ^ 64"
  shows "length m = payload_end_at l + 4"
    and "unat (of_nat (term_data_at l) :: u64) = term_data_at l" and "unat (of_nat (docs_at l) :: u64) = docs_at l"
    and "unat (of_nat (tokens_at l) :: u64) = tokens_at l" and "unat (of_nat (payload_end_at l) :: u64) = payload_end_at l"
    and "unat (of_nat (length es) :: u64) = length es"
    and "72 \<le> payload_end_at l" and "length es * 40 < 2 ^ 64" and "72 + length es * 40 < 2 ^ 64" and "tokens_at l < 2 ^ 64"
    and "length es * 40 + 72 = term_data_at l"
    and "\<not> (of_nat (postings_at l) :: u64) < of_nat (term_data_at l)" and "\<not> (of_nat (docs_at l) :: u64) < of_nat (postings_at l)"
    and "\<not> (of_nat (tokens_at l) :: u64) < of_nat (docs_at l)" and "\<not> (of_nat (payload_end_at l) :: u64) < of_nat (tokens_at l)"
    and "slice_u32 m (payload_end_at l) = Inr (crc32 E (take (payload_end_at l) m))"
    and "load_snapshot E m st0 cfg = load_snapshot_v3 E m st0 cfg"
proof -
  note sec = snapshot_sections(1-2) [OF toks, where E = E and c = "to_le_bytes (crc32 E (snapshot_payload E st))", folded m_def]
    and plen = snapshot_sections(18) [OF toks, where E = E, folded l_def]
    and ord = layout_order [where E = E and st = st, folded es_def l_def]
  show len: "length m = payload_end_at l + 4" using plen by (simp add: m_def)
  have b: "term_data_at l < 2 ^ 64" "postings_at l < 2 ^ 64" "docs_at l < 2 ^ 64" "tokens_at l < 2 ^ 64"
    "payload_end_at l < 2 ^ 64" "length es < 2 ^ 64" using ord(1-5) big by linarith+
  show u: "unat (of_nat (term_data_at l) :: u64) = term_data_at l" "unat (of_nat (docs_at l) :: u64) = docs_at l"
    "unat (of_nat (tokens_at l) :: u64) = tokens_at l"
    "unat (of_nat (payload_end_at l) :: u64) = payload_end_at l" "unat (of_nat (length es) :: u64) = length es"
    using b by (simp_all add: unat_of_nat_lt)
  have u': "unat (of_nat (postings_at l) :: u64) = postings_at l" using b by (simp add: unat_of_nat_lt)
  show "72 \<le> payload_end_at l" "length es * 40 < 2 ^ 64" "72 + length es * 40 < 2 ^ 64" "tokens_at l < 2 ^ 64"
    "length es * 40 + 72 = term_data_at l" using ord(1-5) big by linarith+
  show "\<not> (of_nat (postings_at l) :: u64) < of_nat (term_data_at l)" "\<not> (of_nat (docs_at l) :: u64) < of_nat (postings_at l)"
    "\<not> (of_nat (tokens_at l) :: u64) < of_nat (docs_at l)" "\<not> (of_nat (payload_end_at l) :: u64) < of_nat (tokens_at l)"
    unfolding word_less_nat_alt u u' using ord(1-4) by linarith+
  have "bytes_at m (payload_end_at l) (to_le_bytes (crc32 E (snapshot_payload E st)))"
    unfolding bytes_at_def m_def using plen by (metis append_Nil2)
  then show "slice_u32 m (payload_end_at l) = Inr (crc32 E (take (payload_end_at l) m))"
    using plen by (simp add: slice_at m_def)
  show "load_snapshot E m st0 cfg = load_snapshot_v3 E m st0 cfg"
    using len ord(1-5) by (simp add: load_snapshot_def sec)
qed

lemma snapshot_loads:
  fixes E :: fts_env and st st0 :: index_state and cfg :: fts_config
  defines "es \<equiv> snapshot_terms st" and "m \<equiv> snapshot_payload E st @ to_le_bytes (crc32 E (snapshot_payload E st))"
  assumes env: "env_ok E" and wf: "hm_wf (base_postings st)" and toks: "packs (base_tokens st) D"
    and ok: "\<forall>t p. hm_get (base_postings st) t = Some p \<longrightarrow> pd_ok (p_docs p)" and fits: "snapshot_fits E st"
  shows "\<exists>dir. dir_holds (tm_de E) dir es \<and> cache_ok (tm_de E) dir
    \<and> dir_new m 72 (length es) (if lazy_load cfg then cache_size cfg else 0) = Inr dir
    \<and> load_snapshot E m st0 cfg = Inr (loaded es st st0 (if lazy_load cfg then Some dir else None))"
proof -
  define l where "l = snapshot_layout_of E st"
  define dir where "dir = \<lparr>mmap = m, directory_offset = 72, term_count = length es,
    cache_capacity = (if lazy_load cfg then cache_size cfg else 0), dir_cache = ([], [])\<rparr>"
  have big: "payload_end_at l + 4 < 2 ^ 64" using fits by (simp add: snapshot_fits_def l_def)
  note sec = snapshot_sections(1-17) [OF toks, where E = E and c = "to_le_bytes (crc32 E (snapshot_payload E st))",
      folded es_def l_def m_def]
    and ord = layout_order [where E = E and st = st, folded es_def l_def]
    and pr = snapshot_terms_props [OF wf, folded es_def]
    and hd = snapshot_header [OF toks big [unfolded l_def], folded es_def l_def m_def]
  have small: "length (tm_ser E (base_docs st)) < 2 ^ 64" "length (doc_ids (base_tokens st)) < 2 ^ 64"
    "\<not> 2 ^ 63 \<le> length (doc_ids (base_tokens st)) * 24"
    using ord(3,4) big fits by (auto simp: snapshot_fits_def)
  then have u: "unat (of_nat (length (tm_ser E (base_docs st))) :: u64) = length (tm_ser E (base_docs st))"
    "unat (of_nat (length (doc_ids (base_tokens st))) :: u64) = length (doc_ids (base_tokens st))"
    by (simp_all add: unat_of_nat_lt)
  have ne: "\<forall>e \<in> set es. pd_ok (p_docs (snd e)) \<and> \<not> pd_is_empty (p_docs (snd e))"
    using ok hm_get_mem [OF wf] pr(3) by auto
  have dirf: "mmap dir = m" "directory_offset dir = 72" "term_count dir = length es" by (simp_all add: dir_def)
  have "entry_holds (tm_de E) dir k (es ! k)" if "k < length es" for k
    using snapshot_entry [OF env toks fits _ ne [unfolded es_def] that [unfolded es_def] dirf [unfolded m_def es_def]]
    by (simp add: es_def)
  then have holds: "dir_holds (tm_de E) dir es" using pr(1) by (simp add: dir_holds_def dir_def)
  have cache: "cache_ok (tm_de E) dir" by (simp add: cache_ok_def dir_def)
  have "dir_check dir [0..<length es] None = Inr ()" using dir_check_holds [OF holds, of 0 None] by simp
  then have new: "dir_new m 72 (length es) (if lazy_load cfg then cache_size cfg else 0) = Inr dir"
    by (simp add: dir_new_def dir_def Let_def)
  have recs: "token_records m (payload_end_at l) (length (doc_ids (base_tokens st))) (tokens_at l + 8)
      = Inr (base_records (base_tokens st), payload_end_at l)"
  proof -
    have "tokens_at l + 8 + length (concat (map token_record (base_records (base_tokens st)))) = payload_end_at l"
      unfolding packs_tokens(1) [OF toks] by (simp add: l_def snapshot_layout_of_def Let_def)
    moreover have "\<forall>r \<in> set (base_records (base_tokens st)). length (snd r) < 2 ^ 32"
      using fits by (auto simp: snapshot_fits_def list_all_iff)
    ultimately show ?thesis
      using token_records_read [OF sec(17), of "payload_end_at l"] big packs_tokens(2) [OF toks] by simp
  qed
  have docs: "tm_de E (take (length (tm_ser E (base_docs st))) (drop (docs_at l + 8) m))
      = Some (base_docs st, length (tm_ser E (base_docs st)))"
    using bytes_at_take(1) [OF sec(15)] env by (simp add: env_ok_def)
  have "load_snapshot_v3 E m st0 cfg = Inr (loaded es st st0 (if lazy_load cfg then Some dir else None))"
    unfolding load_snapshot_v3_def sec rbind_simps hd(2-6) u SNAPSHOT_HEADER_BYTES_def TERM_DIRECTORY_ENTRY_BYTES_def Let_def
    using hd(7-15) ord(3) new recs docs big small(3)
    by (simp add: hd(1,16) materialize_holds [OF holds] max_term_id_holds [OF holds] loaded_def)
  then show ?thesis using holds cache new hd(17) by auto
qed

text \<open>A state whose delta has been merged.\<close>

definition merged_state :: "index_state \<Rightarrow> bool" where
  "merged_state st \<longleftrightarrow> mmap_postings st = None \<and> delta_postings st = [] \<and> delta_docs st = {} \<and> delta_tokens st = []
     \<and> shadowed_docs st = {} \<and> deleted_docs st = {}"

lemma merge_base_merged: "mmap_postings st = None \<Longrightarrow> merged_state (merge_base st)"
  by (simp add: merged_state_def merge_base_def Let_def)

lemma packs_reload:
  assumes "packs p D"
  shows "packs (from_records (base_records p)) D" and "packed_get (from_records (base_records p)) d = packed_get p d"
    and "base_records (from_records (base_records p)) = base_records p"
proof -
  note r = packs_records [OF assms]
  obtain rs where rs: "p = from_records rs \<or> p = packed_empty \<and> rs = []" "hm_wf rs"
    "sum_list (map (length \<circ> snd) rs) < 2 ^ 64" using assms by (auto simp: packs_def)
  have b: "base_records p = sort_key fst rs"
    using rs packed_records(4) [OF rs(3,2)] by (auto simp: packed_empty_def base_records_def)
  have sum: "sum_list (map (length \<circ> snd) (base_records p)) < 2 ^ 64"
    using rs(3) unfolding b by (metis mset_map mset_sort sum_mset_sum_list)
  show "packs (from_records (base_records p)) D"
    unfolding packs_def using r sum by (intro exI [of _ "base_records p"]) simp
  show "packed_get (from_records (base_records p)) d = packed_get p d"
    using packed_records(1) [OF sum r(1)] r(2) by simp
  show "base_records (from_records (base_records p)) = base_records p"
    using packed_records(4) [OF sum r(1)] unfolding b by (simp add: sort_key_id_if_sorted)
qed

lemma foldl_max: "x \<le> foldl max x xs" "y \<in> set xs \<Longrightarrow> y \<le> foldl max x xs" "foldl max x xs = x \<or> foldl max x xs \<in> set xs"
  for x :: "'a::linorder"
proof -
  have le: "x \<le> foldl max x xs" for x and xs :: "'a list" by (induction xs arbitrary: x) (auto intro: max.coboundedI1 order_trans)
  show "x \<le> foldl max x xs" by (rule le)
  show "y \<in> set xs \<Longrightarrow> y \<le> foldl max x xs"
  proof (induction xs arbitrary: x)
    case (Cons a xs)
    then show ?case using order_trans [OF max.cobounded2 le [of "max x a"]] by auto
  qed simp
  show "foldl max x xs = x \<or> foldl max x xs \<in> set xs" by (induction xs arbitrary: x) (auto simp: max_def split: if_splits)
qed

lemma sat_inc_less: "x < n \<Longrightarrow> x < sat_inc x" "x < n \<Longrightarrow> sat_inc x \<le> n"
proof -
  assume "x < n"
  then have "x \<noteq> - 1" by (metis word_n1_ge leD word_order.extremum)
  then have "1 + x \<noteq> 0" by (simp add: add_eq_0_iff)
  with \<open>x \<noteq> - 1\<close> have "unat (sat_inc x) = Suc (unat x)" using unatSuc [of x] by (simp add: sat_inc_def add.commute)
  with \<open>x < n\<close> show "x < sat_inc x" "sat_inc x \<le> n" by (simp_all add: word_less_nat_alt word_le_nat_alt)
qed

text \<open>
  A state with the terms of a snapshot, in memory or mapped, and its documents and token streams
  represents the same documents.
\<close>

lemma rebased_index:
  assumes ok: "index_ok R B st" and m: "merged_state st"
    and rep: "base_rep R st' (hm_get (snapshot_terms st))"
    and f: "base_docs st' = base_docs st" "delta_postings st' = []" "delta_docs st' = {}" "delta_tokens st' = []"
      "shadowed_docs st' = {}" "deleted_docs st' = {}"
    and toks: "packs (base_tokens st') (base_docs st)"
  defines "B' \<equiv> hm_get (snapshot_terms st)"
  shows "index_ok R B' st'" and "doc_terms B' st' = doc_terms B st" and "B' t = Some p \<Longrightarrow> B t = Some p"
proof -
  note o = index_okD [OF ok]
  have md: "mmap_postings st = None" "delta_postings st = []" "delta_docs st = {}" "delta_tokens st = []"
    "shadowed_docs st = {}" "deleted_docs st = {}" using m by (simp_all add: merged_state_def)
  have wf: "hm_wf (base_postings st)" and B: "B = hm_get (base_postings st)"
    using o(1) md(1) by (simp_all add: base_rep_def)
  note pr = snapshot_terms_props [OF wf]
  show sub: "B' t = Some p \<Longrightarrow> B t = Some p" for t p
    unfolding B'_def pr(4) B by (auto split: option.splits if_splits)
  have docs: "docs_of B' t = docs_of B t" for t
    using o(2) unfolding docs_of_def B'_def pr(4) B by (auto split: option.splits)
  have "\<forall>t p. B' t = Some p \<longrightarrow> pd_ok (p_docs p)" using o(2) sub by blast
  then show "index_ok R B' st'"
    using rep o(3) toks(1) by (intro index_okI) (auto simp: f docs docs_of_def [of "\<lambda>_. None"] B'_def [symmetric])
  show "doc_terms B' st' = doc_terms B st"
    by (simp add: fun_eq_iff doc_terms_def f md docs)
qed

lemma rebased_represents:
  assumes ok: "index_ok R B st" and h: "holds B st M" and m: "merged_state st"
    and rep: "base_rep R st' (hm_get (snapshot_terms st))"
    and f: "base_docs st' = base_docs st" "delta_postings st' = []" "delta_docs st' = {}" "delta_tokens st' = []"
      "shadowed_docs st' = {}" "deleted_docs st' = {}"
    and toks: "packs (base_tokens st') (base_docs st)" "\<And>d. packed_get (base_tokens st') d = packed_get (base_tokens st) d"
    and ids_below: "\<And>t p. (t, p) \<in> set (snapshot_terms st) \<Longrightarrow> p_term_id p < next_term_id st'"
  shows "represents R st' M"
proof -
  let ?B = "hm_get (snapshot_terms st)"
  note re = rebased_index [OF ok m rep f toks(1)]
  have md: "mmap_postings st = None" "delta_postings st = []" "delta_docs st = {}" "delta_tokens st = []"
    "shadowed_docs st = {}" "deleted_docs st = {}" using m by (simp_all add: merged_state_def)
  note sub = re(3) and terms = re(2)
  have tk: "tokens_for_doc st' d = tokens_for_doc st d" for d
    using toks(2) by (simp add: tokens_for_doc_def f md)
  have ids: "ids_ok B st" using h by (simp add: holds_def)
  have t': "tid ?B st' t = map_option p_term_id (?B t)" "tid B st t = map_option p_term_id (B t)" for t
    by (simp_all add: tid_def f md)
  have down: "tid ?B st' t = Some i \<Longrightarrow> tid B st t = Some i" for t i
    using sub unfolding t' by auto
  have "i < next_term_id st'" if i: "tid ?B st' t = Some i" for t i
  proof -
    obtain p where p: "?B t = Some p" "i = p_term_id p" using i by (auto simp: t')
    then show ?thesis using ids_below [OF map_of_SomeD [OF p(1)]] by simp
  qed
  then have ids': "ids_ok ?B st'"
    using ids_okD(1,2) [OF ids] down unfolding ids_ok_def by (simp add: f(2)) blast
  have "holds ?B st' M" unfolding holds_def terms tk
  proof (intro conjI allI impI ids')
    show "doc_terms B st = map_option fst \<circ> M" using h by (simp add: holds_def)
    fix d T W assume d: "M d = Some (T, W)"
    then have T: "doc_terms ?B st' d = Some T" using h unfolding terms by (simp add: holds_def)
    from d h obtain ts where ts: "tokens_for_doc st d = Some ts" "spelled (tid B st) ts W"
      and subW: "\<forall>t. Some t \<in> set W \<longrightarrow> t \<in> T" unfolding holds_def by blast
    have "tid ?B st' t = Some i" if "Some t \<in> set W" "tid B st t = Some i" for t i
    proof -
      have "d \<in> docs_of ?B t" using T subW that(1) by (auto simp: doc_terms_def f split: if_splits)
      then have "?B t \<noteq> None" by (auto simp: docs_of_def split: option.splits)
      then show ?thesis using down [of t] that(2) by (auto simp: t')
    qed
    then show "\<exists>ts. tokens_for_doc st d = Some ts \<and> spelled (tid ?B st') ts W"
      using ts spelled_mono [OF ts(2)] by blast
    show "t \<in> T" if "Some t \<in> set W" for t using subW that by blast
  qed
  then show ?thesis using re(1) unfolding represents_def by blast
qed

lemma snapshot_ids_below:
  assumes ok: "index_ok R B st" and h: "holds B st M" and m: "merged_state st" and "(t, p) \<in> set (snapshot_terms st)"
  shows "p_term_id p < next_term_id st"
proof -
  have wf: "hm_wf (base_postings st)" and B: "B = hm_get (base_postings st)"
    using index_okD(1) [OF ok] m by (simp_all add: base_rep_def merged_state_def)
  have "B t = Some p" using assms(4) snapshot_terms_props(3) [OF wf] hm_get_mem [OF wf] by (auto simp: B)
  then have "tid B st t = Some (p_term_id p)" using m by (simp add: tid_def merged_state_def)
  then show ?thesis using ids_okD(1) h by (auto simp: holds_def)
qed

text \<open>A reloaded snapshot holds the documents of the state it was written from.\<close>

lemma loaded_fields:
  assumes ok: "index_ok R B st" and m: "merged_state st"
    and dir: "case dir of None \<Rightarrow> True | Some d \<Rightarrow> dir_holds R d (snapshot_terms st) \<and> cache_ok R d"
  defines "st' \<equiv> loaded (snapshot_terms st) st index_default dir"
  shows "base_rep R st' (hm_get (snapshot_terms st))" and "base_docs st' = base_docs st"
    and "delta_postings st' = []" and "delta_docs st' = {}" and "delta_tokens st' = []" and "shadowed_docs st' = {}"
    and "deleted_docs st' = {}" and "packs (base_tokens st') (base_docs st)"
    and "packed_get (base_tokens st') d = packed_get (base_tokens st) d"
    and "token_total st' = token_total st" and "pending_wal st' = []"
proof -
  let ?es = "snapshot_terms st"
  show f: "base_docs st' = base_docs st" "delta_postings st' = []" "delta_docs st' = {}" "delta_tokens st' = []"
    "shadowed_docs st' = {}" "deleted_docs st' = {}" "pending_wal st' = []"
    by (simp_all add: st'_def loaded_def index_default_def)
  have g: "base_tokens st' = from_records (base_records (base_tokens st))"
    "mmap_postings st' = dir" "base_postings st' = (if dir = None then ?es else [])"
    by (simp_all add: st'_def loaded_def index_default_def)
  have toks: "packs (base_tokens st) (base_docs st)" using ok by (simp add: index_ok_def)
  note rl = packs_reload [OF toks]
  have wf: "hm_wf (base_postings st)" using index_okD(1) [OF ok] by (simp add: base_rep_def)
  show "base_rep R st' (hm_get ?es)"
    using dir snapshot_terms_props(2) [OF wf] by (cases dir) (auto simp: base_rep_def g)
  show "packs (base_tokens st') (base_docs st)" "packed_get (base_tokens st') d = packed_get (base_tokens st) d"
    using rl(1,2) by (simp_all add: g)
  show "token_total st' = token_total st" using rl(3) m by (simp add: token_total_def f g merged_state_def)
qed

lemma loaded_represents:
  assumes ok: "index_ok R B st" and h: "holds B st M" and m: "merged_state st"
    and dir: "case dir of None \<Rightarrow> True | Some d \<Rightarrow> dir_holds R d (snapshot_terms st) \<and> cache_ok R d"
  defines "st' \<equiv> loaded (snapshot_terms st) st index_default dir"
  shows "represents R st' M"
proof -
  let ?es = "snapshot_terms st" and ?max = "foldl max 0 (map (p_term_id \<circ> snd) (snapshot_terms st))"
  note f = loaded_fields [OF ok m dir, folded st'_def]
  have n: "next_term_id st' = max (sat_inc ?max) 1" by (simp add: st'_def loaded_def)
  have top: "?max < next_term_id st \<or> ?max = 0"
    using foldl_max(3) [of 0 "map (p_term_id \<circ> snd) ?es"] snapshot_ids_below [OF ok h m] by auto
  have "p_term_id p < next_term_id st'" if "(t, p) \<in> set ?es" for t p
  proof -
    have "p_term_id p \<le> ?max" using that by (intro foldl_max(2)) force
    moreover have "?max < sat_inc ?max" using top sat_inc_less(1) [of ?max] by (auto simp: sat_inc_def)
    ultimately have "p_term_id p < sat_inc ?max" by (rule le_less_trans)
    then show ?thesis unfolding n by (simp add: less_max_iff_disj)
  qed
  then show ?thesis by (intro rebased_represents [OF ok h m f(1-8)]) (simp_all add: f(9))
qed

text \<open>Merging the delta of a state and writing it.\<close>

lemma merged_index:
  assumes ok: "index_ok R B st" and "token_total st < 2 ^ 64"
  obtains st1 B' where "merge_delta R st = (Inr (), st1)" "index_ok R B' st1" "doc_terms B' st1 = doc_terms B st"
    "merged_state st1" "token_total st1 \<le> token_total st" "\<And>M. holds B st M \<Longrightarrow> holds B' st1 M"
proof -
  from merge_delta_loads [OF ok] obtain st1 where s: "merge_delta R st = (Inr (), merge_base st1)"
    "index_ok R B st1" "mmap_postings st1 = None" "same_delta st st1" by blast
  note sd = same_deltaD [OF s(4)]
  have "tokens_fit st" using assms(2) by (simp add: tokens_fit_def token_total_def)
  then have fit: "tokens_fit st1" by (simp add: sd(3))
  have "tid B st1 = tid B st" by (simp add: fun_eq_iff tid_def sd(4))
  then have h1: "holds B st M \<Longrightarrow> holds B st1 M" for M unfolding holds_def ids_ok_def by (simp add: sd)
  have "token_total st1 = token_total st" using s(4) by (simp add: token_total_def same_delta_def)
  then show ?thesis
    using that [OF s(1) merge_base_ok(1,2) [OF s(2,3) fit, unfolded sd(1)] merge_base_merged [OF s(3)]]
      merge_base_holds [OF s(2,3) fit h1] merge_total [OF s(2) fit] by simp
qed

lemma fits_image:
  assumes "snapshot_fits E st"
  shows "snapshot_image E st = Inr (snapshot_payload E st @ to_le_bytes (crc32 E (snapshot_payload E st)))"
proof -
  note ord = layout_order [where E = E and st = st]
  have "payload_end_at (snapshot_layout_of E st) + 4 < 2 ^ 64" using assms by (simp add: snapshot_fits_def)
  moreover have "length (doc_ids (base_tokens st)) * 12 + length (packed (base_tokens st)) * 4 \<le> payload_end_at (snapshot_layout_of E st)"
    by (simp add: snapshot_layout_of_def Let_def)
  ultimately show ?thesis using ord(1-4) by (simp add: snapshot_image_def Let_def)
qed

lemma image_payload:
  assumes "snapshot_image E st = Inr img"
  shows "img = snapshot_payload E st @ to_le_bytes (crc32 E (snapshot_payload E st))"
  using assms by (auto simp: snapshot_image_def Let_def split: if_splits)

lemma snapshot_reload:
  assumes "env_ok E" and ok: "index_ok (tm_de E) B st" and m: "merged_state st"
    and "snapshot_fits E st" and "snapshot_image E st = Inr img"
  obtains st' where "load_snapshot E img index_default cfg = Inr st'" "indexes (tm_de E) st' (doc_terms B st)"
    "token_total st' = token_total st" "pending_wal st' = []" "\<And>M. holds B st M \<Longrightarrow> represents (tm_de E) st' M"
proof -
  note o = index_okD [OF ok]
  have wf: "hm_wf (base_postings st)" and B: "B = hm_get (base_postings st)"
    using o(1) m by (simp_all add: base_rep_def merged_state_def)
  have toks: "packs (base_tokens st) (base_docs st)" using ok by (simp add: index_ok_def)
  from snapshot_loads [OF assms(1) wf toks o(2) [unfolded B] assms(4), of cfg index_default] obtain dir where
    d: "dir_holds (tm_de E) dir (snapshot_terms st)" "cache_ok (tm_de E) dir"
    "load_snapshot E img index_default cfg = Inr (loaded (snapshot_terms st) st index_default (if lazy_load cfg then Some dir else None))"
    unfolding image_payload [OF assms(5)] by blast
  let ?st = "loaded (snapshot_terms st) st index_default (if lazy_load cfg then Some dir else None)"
  have dir: "case if lazy_load cfg then Some dir else None of None \<Rightarrow> True
      | Some d \<Rightarrow> dir_holds (tm_de E) d (snapshot_terms st) \<and> cache_ok (tm_de E) d" using d by simp
  note f = loaded_fields [OF ok m dir]
  have "indexes (tm_de E) ?st (doc_terms B st)"
    unfolding indexes_def using rebased_index(1,2) [OF ok m f(1-8)] by blast
  from that [OF d(3) this f(10,11) loaded_represents [OF ok _ m dir]] show ?thesis .
qed

text \<open>
  C37. A snapshot of the full-text index loads back: for an index that represents a set of
  documents, merging its delta and writing a snapshot that fits the format gives a file that loads,
  with or without memory mapping, into an index that represents the same documents with their
  terms and words.
\<close>

theorem snapshot_round_trip:
  assumes "env_ok E" and "represents (tm_de E) st M" and "token_total st < 2 ^ 64"
    and "merge_delta (tm_de E) st = (Inr (), st1)" and "snapshot_fits E st1" and "snapshot_image E st1 = Inr img"
  shows "\<exists>st'. load_snapshot E img index_default cfg = Inr st' \<and> represents (tm_de E) st' M"
proof -
  from assms(2) obtain B0 where B0: "index_ok (tm_de E) B0 st" "holds B0 st M" by (auto simp: represents_def)
  obtain B where B: "index_ok (tm_de E) B st1" "merged_state st1" "holds B st1 M"
    using merged_index [OF B0(1) assms(3)] assms(4) B0(2) by (metis prod.inject)
  from snapshot_reload [OF assms(1) B(1,2) assms(5,6)] B(3) show ?thesis by metis
qed

definition demo_doc :: index_state where
  "demo_doc = apply_upsert 1 (word_doc [''ab''] [1]) False index_default"

definition demo_merged :: index_state where
  "demo_merged = snd (merge_delta (tm_de demo_env) demo_doc)"

lemma demo_represents:
  "represents R demo_doc [1 \<mapsto> ({''ab''}, [Some ''ab''])]" "token_total demo_doc < 2 ^ 64"
proof -
  let ?ops = "[IUpsert 1 (word_doc [''ab''] [1]) False]"
  have "list_all op_ok ?ops" by (simp add: word_doc_def analyzed_ok_def)
  moreover have "max 1 (unat (next_term_id index_default)) + sum_list (map op_terms ?ops) < 2 ^ 32 - 2"
    "token_total index_default + sum_list (map op_tokens ?ops) < 2 ^ 64"
    by (simp_all add: index_default_def word_doc_def token_total_def base_records_def packed_empty_def)
  moreover have "foldl doc_exec Map.empty ?ops = [1 \<mapsto> ({''ab''}, [Some ''ab''])]"
    by (auto simp: fun_eq_iff entry_of_def word_doc_def doc_words_def spell_def)
  ultimately show "represents R demo_doc [1 \<mapsto> ({''ab''}, [Some ''ab''])]"
    using index_run [OF default_represents, of ?ops R] by (simp add: demo_doc_def)
  have "token_total demo_doc = 1" by code_simp
  then show "token_total demo_doc < 2 ^ 64" by simp
qed

lemma demo_fits:
  "merge_delta (tm_de demo_env) demo_doc = (Inr (), demo_merged)" "snapshot_fits demo_env demo_merged"
  "\<exists>img. snapshot_image demo_env demo_merged = Inr img"
proof -
  have "fst (merge_delta (tm_de demo_env) demo_doc) = Inr ()" by code_simp
  then show "merge_delta (tm_de demo_env) demo_doc = (Inr (), demo_merged)" by (simp add: demo_merged_def prod_eq_iff)
  have l: "term_data_at (snapshot_layout_of demo_env demo_merged) = 112" "postings_at (snapshot_layout_of demo_env demo_merged) = 114"
    "docs_at (snapshot_layout_of demo_env demo_merged) = 114" "tokens_at (snapshot_layout_of demo_env demo_merged) = 130"
    "payload_end_at (snapshot_layout_of demo_env demo_merged) = 154"
    "length (doc_ids (base_tokens demo_merged)) = 1" "length (packed (base_tokens demo_merged)) = 1" by code_simp+
  have t: "map fst (snapshot_terms demo_merged) = [''ab'']" "map (length \<circ> snd) (base_records (base_tokens demo_merged)) = [1]"
    "utf8_valid (as_bytes ''ab'')" by code_simp+
  have "utf8_valid (as_bytes x) \<and> length x \<le> MAX_TERM_BYTES" if "(x, p) \<in> set (snapshot_terms demo_merged)" for x p
  proof -
    have "x \<in> set (map fst (snapshot_terms demo_merged))" using that by force
    then show ?thesis using t(3) unfolding t(1) by (simp add: MAX_TERM_BYTES_def)
  qed
  moreover have "length ts < 2 ^ 32" if "(d, ts) \<in> set (base_records (base_tokens demo_merged))" for d ts
  proof -
    have "length ts \<in> set (map (length \<circ> snd) (base_records (base_tokens demo_merged)))" using that by force
    then show ?thesis unfolding t(2) by simp
  qed
  ultimately show "snapshot_fits demo_env demo_merged" by (auto simp: snapshot_fits_def l list_all_iff)
  show "\<exists>img. snapshot_image demo_env demo_merged = Inr img" by (simp add: snapshot_image_def l Let_def)
qed

theorem snapshot_round_trip_witness:
  "\<exists>img st'. snapshot_image demo_env demo_merged = Inr img \<and> load_snapshot demo_env img index_default default_config = Inr st'
    \<and> represents (tm_de demo_env) st' [1 \<mapsto> ({''ab''}, [Some ''ab''])]"
  using snapshot_round_trip [OF demo_env_ok demo_represents demo_fits(1,2)] demo_fits(3) by meson

text \<open>
  The source metadata of an index reads back as it was written.
\<close>

theorem source_meta_round_trip:
  "read_source_meta E (write_source_meta E meta fs path) path = Inr (Some meta)"
proof -
  have "length SOURCE_META_MAGIC = 8" by (simp add: SOURCE_META_MAGIC_def)
  then show ?thesis
    by (simp add: read_source_meta_def write_source_meta_def Let_def SOURCE_META_BYTES_def hm_get_insert)
qed

section \<open>A snapshot that does not load\<close>

lemma rbind_Inl: "rbind (Inl e) f = Inl e"
  by simp

lemma dir_check_fails:
  assumes "k \<in> set ks" and "dir_meta dir k = Inl (CorruptIndex msg)"
    and "\<And>i e. dir_meta dir i = Inl e \<Longrightarrow> \<exists>msg. e = CorruptIndex msg"
  shows "\<exists>msg. dir_check dir ks previous = Inl (CorruptIndex msg)"
  using assms(1)
proof (induction ks arbitrary: previous)
  case (Cons i ks)
  show ?case
  proof (cases "dir_meta dir i")
    case (Inl e)
    then show ?thesis using assms(3) [OF Inl] by auto
  next
    case (Inr m)
    then have "k \<in> set ks" using Cons.prems assms(2) by auto
    then have IH: "\<exists>msg. dir_check dir ks p = Inl (CorruptIndex msg)" for p by (rule Cons.IH)
    show ?thesis
    proof (cases "dir_term_bytes dir m")
      case (Inr b)
      then show ?thesis using \<open>dir_meta dir i = Inr m\<close> IH [of "Some b"]
        by (cases "check_utf8 b") (auto simp: check_utf8_def split: if_splits)
    qed (use Inr in \<open>auto simp: dir_term_bytes_def ok_or_def split: option.splits\<close>)
  qed
qed simp

lemma dir_meta_errors: "dir_meta dir i = Inl e \<Longrightarrow> \<exists>msg. e = CorruptIndex msg"
  by (auto simp: dir_meta_def check_posting_def read_u32_at_def read_u64_at_def ok_or_def rbind_def Let_def
      split: if_splits sum.splits option.splits)

text \<open>
  A snapshot with a long word is written but never loads: the writer accepts a term of any
  length below four gigabytes, the reader refuses the whole file when a term is longer than one
  mebibyte, so reopening the index finds it corrupt.
\<close>

theorem long_term_breaks_snapshot:
  assumes "packs (base_tokens st) D" and "(t, p) \<in> set (snapshot_terms st)"
    and "MAX_TERM_BYTES < length t" and "length t < 2 ^ 32" and "snapshot_image E st = Inr img"
    and "payload_end_at (snapshot_layout_of E st) + 4 < 2 ^ 64"
  shows "\<exists>msg. load_snapshot E img st0 cfg = Inl (CorruptIndex msg)"
proof -
  define l where "l = snapshot_layout_of E st"
  define es where "es = snapshot_terms st"
  define cap where "cap = (if lazy_load cfg then cache_size cfg else 0)"
  define dir where "dir = \<lparr>mmap = img, directory_offset = 72, term_count = length es,
    cache_capacity = cap, dir_cache = ([], [])\<rparr>"
  have img: "img = snapshot_payload E st @ to_le_bytes (crc32 E (snapshot_payload E st))"
    by (rule image_payload [OF assms(5)])
  have big: "payload_end_at l + 4 < 2 ^ 64" using assms(6) by (simp add: l_def)
  note sec = snapshot_sections(1-17) [OF assms(1), where E = E and c = "to_le_bytes (crc32 E (snapshot_payload E st))",
      folded es_def l_def img]
    and hd = snapshot_header [OF assms(1) big [unfolded l_def], folded es_def l_def img]
  obtain k where k: "k < length es" "es ! k = (t, p)" using assms(2) by (auto simp: es_def in_set_conv_nth)
  have meta: "\<exists>msg. dir_meta dir k = Inl (CorruptIndex msg)"
  proof (cases "dir_meta dir k")
    case (Inr m)
    have "bytes_at img (72 + k * 40) (directory_entries E (term_data_at l) (postings_at l) es ! k)"
      using bytes_at_concat [OF sec(11), of k] k by (simp add: sum_entries min_def)
    then have "bytes_at img (80 + k * 40) (to_le_bytes (of_nat (length t) :: u32))"
      using k by (simp add: nth_directory_entries directory_entry_def bytes_at_app ac_simps)
    then have "read_u32_at dir (72 + k * 40 + 8) = Inr (of_nat (length t))"
      by (intro read_at) (simp add: dir_def ac_simps)
    moreover have "unat (of_nat (length t) :: u32) = length t" using assms(4) by (simp add: unat_of_nat_lt)
    ultimately have False using Inr assms(3)
      by (auto simp: dir_meta_def dir_def TERM_DIRECTORY_ENTRY_BYTES_def rbind_eq_Inr Let_def split: if_splits)
    then show ?thesis ..
  qed (use dir_meta_errors in auto)
  then obtain msg where "dir_check dir [0..<length es] None = Inl (CorruptIndex msg)"
    using dir_check_fails [of k "[0..<length es]" dir _ None] dir_meta_errors k(1) by fastforce
  then have new: "dir_new img 72 (length es) cap = Inl (CorruptIndex msg)"
    by (simp add: dir_new_def dir_def Let_def)
  have "load_snapshot_v3 E img st0 cfg = Inl (CorruptIndex msg)"
    unfolding load_snapshot_v3_def sec rbind_simps hd(2-6) SNAPSHOT_HEADER_BYTES_def TERM_DIRECTORY_ENTRY_BYTES_def Let_def
    using hd(7-15) new by (simp add: hd(1,16) cap_def)
  then show ?thesis using hd(17) by simp
qed

definition long_doc :: index_state where
  "long_doc = index_default\<lparr>base_postings := [(replicate 1048577 CHR ''a'', \<lparr>p_term_id = 1, p_docs = POne 7\<rparr>)]\<rparr>"

theorem long_term_breaks_snapshot_witness:
  "\<exists>img msg. snapshot_image demo_env long_doc = Inr img
    \<and> load_snapshot demo_env img index_default default_config = Inl (CorruptIndex msg)"
proof -
  have t: "snapshot_terms long_doc = [(replicate 1048577 CHR ''a'', \<lparr>p_term_id = 1, p_docs = POne 7\<rparr>)]"
    by (simp add: snapshot_terms_def long_doc_def)
  have f: "base_tokens long_doc = packed_empty" "base_docs long_doc = {}"
    by (simp_all add: long_doc_def index_default_def)
  have l: "snapshot_layout_of demo_env long_doc = \<lparr>term_data_at = 112, postings_at = 1048689, docs_at = 1048689,
      tokens_at = 1048697, payload_end_at = 1048705\<rparr>"
    by (simp add: snapshot_layout_of_def t f Let_def packed_empty_def demo_env_def tm_iter_def
        SNAPSHOT_HEADER_BYTES_def TERM_DIRECTORY_ENTRY_BYTES_def)
  obtain img where img: "snapshot_image demo_env long_doc = Inr img"
    by (simp add: snapshot_image_def l f packed_empty_def Let_def)
  have "packs packed_empty {}" unfolding packs_def by (intro exI [of _ "[]"]) simp
  then have "packs (base_tokens long_doc) {}" by (simp add: f)
  from long_term_breaks_snapshot [OF this _ _ _ img, of "replicate 1048577 CHR ''a''" "\<lparr>p_term_id = 1, p_docs = POne 7\<rparr>"]
  show ?thesis using img by (simp add: t l MAX_TERM_BYTES_def)
qed

end
