(* ===== verification/Fts_Engine.thy ===== *)
theory Fts_Engine
  imports Fts_Snapshot
begin

text \<open>
  The full-text engine (\<^verbatim>\<open>fts/engine.rs\<close>, and \<open>persist_snapshot\<close> of \<^verbatim>\<open>fts/storage.rs\<close>): opening an index
  with its snapshot and its log, updates, flushes, compaction and search. The main theorem: an
  engine refines a map of documents with its durable copy, under any sequence of updates, batches,
  deletions, flushes, compactions and restarts.
\<close>

section \<open>Snapshots\<close>

definition WAL_SNAPSHOT_THRESHOLD :: nat where "WAL_SNAPSHOT_THRESHOLD = 100000"

text \<open>\<open>Path::exists\<close>; the empty path of an in-memory engine never does.\<close>

definition path_exists :: "files \<Rightarrow> string \<Rightarrow> bool" where
  "path_exists fs p \<longleftrightarrow> p \<noteq> [] \<and> hm_contains fs p"

definition rename_file :: "string \<Rightarrow> string \<Rightarrow> files \<Rightarrow> files" where
  "rename_file p q fs = (case hm_get fs p of None \<Rightarrow> fs | Some b \<Rightarrow> hm_insert q b (hm_remove p fs))"

text \<open>
  The temporary file is written, checksummed and renamed in one step here: its name is reserved and
  nothing reads it. The log that the snapshot accounts for is removed; the buffered operations are not.
\<close>

definition persist_snapshot :: "fts_env \<Rightarrow> (string \<Rightarrow> u64) \<Rightarrow> files \<Rightarrow> engine_core \<Rightarrow> nat fts \<times> files \<times> engine_core" where
  "persist_snapshot E ep fs core =
     (case merge_delta (tm_de E) (e_state core) of
        (Inl e, st) \<Rightarrow> (Inl e, fs, core\<lparr>e_state := st\<rparr>)
      | (Inr _, st0) \<Rightarrow>
          let st = st0\<lparr>needs_rebuild := False\<rparr>; core1 = core\<lparr>e_state := st\<rparr>;
              written = length (snapshot_terms st) in
          (case snapshot_image E st of
             Inl e \<Rightarrow> (Inl e, fs, core1)
           | Inr img \<Rightarrow>
               let fs1 = hm_remove (wal_path core) (hm_insert (index_path core) img fs);
                   previous = (case snapshot_meta core of None \<Rightarrow> 0 | Some m \<Rightarrow> sm_generation m);
                   meta = \<lparr>sm_rows = of_nat (card (live_docs st)), sm_epoch = core_epoch ep core,
                           sm_generation = sat_add previous 1\<rparr>;
                   fs2 = write_source_meta E meta fs1 (index_path core);
                   core2 = core1\<lparr>snapshot_meta := Some meta, wal_epoch := 0, stale_reason := None\<rparr>
               in if lazy_load (e_config core) then
                    (case dir_new img SNAPSHOT_HEADER_BYTES written (cache_size (e_config core)) of
                       Inl e \<Rightarrow> (Inl e, fs2, core2)
                     | Inr dir \<Rightarrow> (Inr written, fs2,
                         core2\<lparr>e_state := st\<lparr>base_postings := [], mmap_postings := Some dir\<rparr>\<rparr>))
                  else (Inr written, fs2, core2)))"

section \<open>Opening\<close>

definition engine_core_with :: "string \<Rightarrow> fts_config \<Rightarrow> string option \<Rightarrow> index_state \<Rightarrow> source_meta option \<Rightarrow> u64 \<Rightarrow> bool \<Rightarrow>
    engine_core" where
  "engine_core_with path cfg table st meta epoch from_disk =
     \<lparr>index_path = path, wal_path = path @ ''.wal'', e_config = cfg, e_state = st, search_count = 0, table_path = table,
      snapshot_meta = meta, wal_epoch = epoch, stale_reason = None, reconciled = False, loaded_snapshot = from_disk\<rparr>"

definition open_snapshot :: "fts_env \<Rightarrow> files \<Rightarrow> string \<Rightarrow> fts_config \<Rightarrow>
    (index_state \<times> source_meta option \<times> bool \<times> files) fts" where
  "open_snapshot E fs path cfg =
     (if \<not> path_exists fs path then Inr (index_default\<lparr>needs_rebuild := True\<rparr>, None, False, fs)
      else
        (case load_snapshot E (the (hm_get fs path)) (index_default\<lparr>needs_rebuild := False\<rparr>) cfg of
           Inl (CorruptIndex msg) \<Rightarrow>
             Inr (index_default\<lparr>needs_rebuild := True\<rparr>, None, False,
               remove_source_meta (hm_remove (path @ ''.wal'') (rename_file path (path @ ''.incompatible'') fs)) path)
         | Inl e \<Rightarrow> Inl e
         | Inr st \<Rightarrow>
             Inr (st, (case read_source_meta E fs path of Inl _ \<Rightarrow> None | Inr m \<Rightarrow> m), True, fs)))"

definition new_with_table :: "fts_env \<Rightarrow> files \<Rightarrow> string \<Rightarrow> fts_config \<Rightarrow> string option \<Rightarrow> (engine_core \<times> files) fts" where
  "new_with_table E fs path cfg table =
     rbind (open_snapshot E fs path cfg) (\<lambda>(st, meta, from_disk, fs1).
       if path_exists fs1 (path @ ''.wal'') then
         rbind (replay_wal E fs1 (path @ ''.wal'') st) (\<lambda>(epoch, st', fs2).
           Inr (engine_core_with path cfg table st' meta epoch from_disk, fs2))
       else Inr (engine_core_with path cfg table st meta 0 from_disk, fs1))"

definition memory_only :: "fts_config \<Rightarrow> engine_core" where
  "memory_only cfg =
     (engine_core_with [] cfg None (index_default\<lparr>needs_rebuild := True\<rparr>) None 0 False)\<lparr>wal_path := []\<rparr>"

section \<open>Updates\<close>

definition index_exists :: "files \<Rightarrow> engine_core \<Rightarrow> bool" where
  "index_exists fs core = path_exists fs (index_path core)"

definition add_document :: "fts_env \<Rightarrow> files \<Rightarrow> u64 \<Rightarrow> (string, string) hmap \<Rightarrow> engine_core \<Rightarrow> engine_core" where
  "add_document E fs d vs core =
     core\<lparr>e_state := apply_upsert d (analyze_values (tables E) (e_config core) (map snd vs)) (index_exists fs core) (e_state core)\<rparr>"

definition update_document :: "fts_env \<Rightarrow> files \<Rightarrow> u64 \<Rightarrow> (string, string) hmap \<Rightarrow> engine_core \<Rightarrow> engine_core" where
  "update_document = add_document"

definition apply_analyzed :: "files \<Rightarrow> (u64 \<times> analyzed_document) list \<Rightarrow> engine_core \<Rightarrow> engine_core" where
  "apply_analyzed fs analyzed core =
     (if analyzed = [] then core
      else if \<not> index_exists fs core \<and> can_build_base (e_state core)
      then core\<lparr>e_state := build_base analyzed (e_state core)\<rparr>
      else core\<lparr>e_state := foldl (\<lambda>st (d, a). apply_upsert d a (index_exists fs core) st)
                  ((e_state core)\<lparr>needs_rebuild := False\<rparr>) analyzed\<rparr>)"

definition add_documents :: "fts_env \<Rightarrow> files \<Rightarrow> (u64 \<times> (string, string) hmap) list \<Rightarrow> engine_core \<Rightarrow> engine_core" where
  "add_documents E fs docs core =
     apply_analyzed fs (map (\<lambda>(d, vs). (d, analyze_values (tables E) (e_config core) (map snd vs))) docs) core"

definition add_documents_texts :: "fts_env \<Rightarrow> files \<Rightarrow> u64 list \<Rightarrow> string list \<Rightarrow> engine_core \<Rightarrow> unit fts \<times> engine_core" where
  "add_documents_texts E fs ids texts core =
     (if length ids \<noteq> length texts then (Inl (CorruptIndex ''document/text length mismatch''), core)
      else (Inr (), apply_analyzed fs (zip ids (map (analyze_document (tables E) (e_config core)) texts)) core))"

definition add_documents_arrow_str :: "fts_env \<Rightarrow> files \<Rightarrow> u64 list \<Rightarrow> (string \<times> string list) list \<Rightarrow> engine_core \<Rightarrow>
    unit fts \<times> engine_core" where
  "add_documents_arrow_str E fs ids columns core =
     (if list_ex (\<lambda>(_, vs). length vs \<noteq> length ids) columns
      then (Inl (CorruptIndex ''document/column length mismatch''), core)
      else (Inr (), apply_analyzed fs
             (map (\<lambda>row. (ids ! row, analyze_values (tables E) (e_config core) (map (\<lambda>(_, vs). vs ! row) columns)))
                [0..<length ids]) core))"

definition add_documents_columnar :: "fts_env \<Rightarrow> files \<Rightarrow> u64 list \<Rightarrow> (string \<times> string list) list \<Rightarrow> engine_core \<Rightarrow>
    unit fts \<times> engine_core" where
  "add_documents_columnar = add_documents_arrow_str"

definition add_documents_arrow_texts :: "fts_env \<Rightarrow> files \<Rightarrow> u64 list \<Rightarrow> string list \<Rightarrow> engine_core \<Rightarrow> unit fts \<times> engine_core" where
  "add_documents_arrow_texts E fs ids texts core =
     (if length ids \<noteq> length texts then (Inl (CorruptIndex ''document/text length mismatch''), core)
      else (Inr (), apply_analyzed fs (map2 (\<lambda>d text. (d, analyze_document (tables E) (e_config core) text)) ids texts) core))"

definition remove_document :: "files \<Rightarrow> u64 \<Rightarrow> engine_core \<Rightarrow> engine_core" where
  "remove_document fs d core = core\<lparr>e_state := apply_delete d (index_exists fs core) (e_state core)\<rparr>"

definition remove_documents :: "files \<Rightarrow> u64 list \<Rightarrow> engine_core \<Rightarrow> engine_core" where
  "remove_documents fs ds core =
     core\<lparr>e_state := foldl (\<lambda>st d. apply_delete d (index_exists fs core) st) (e_state core) ds\<rparr>"

section \<open>Flushes and searches\<close>

definition flush_snapshot :: "files \<Rightarrow> engine_core \<Rightarrow> bool" where
  "flush_snapshot fs core \<longleftrightarrow> \<not> index_exists fs core \<or> WAL_SNAPSHOT_THRESHOLD \<le> length (pending_wal (e_state core))"

definition engine_flush :: "fts_env \<Rightarrow> (string \<Rightarrow> u64) \<Rightarrow> files \<Rightarrow> engine_core \<Rightarrow> unit fts \<times> files \<times> engine_core" where
  "engine_flush E ep fs core =
     (if index_path core = [] then (Inr (), fs, core)
      else
        (case (if flush_snapshot fs core then persist_snapshot E ep fs core else append_pending_wal E ep fs core) of
           (res, fs', core') \<Rightarrow> (rbind res (\<lambda>_. Inr ()), fs', core')))"

definition compact :: "fts_env \<Rightarrow> (string \<Rightarrow> u64) \<Rightarrow> files \<Rightarrow> engine_core \<Rightarrow> unit fts \<times> files \<times> engine_core" where
  "compact E ep fs core =
     (if index_path core = [] then (Inr (), fs, core)
      else (case persist_snapshot E ep fs core of (res, fs', core') \<Rightarrow> (rbind res (\<lambda>_. Inr ()), fs', core')))"

definition engine_search :: "fts_env \<Rightarrow> string \<Rightarrow> engine_core \<Rightarrow> treemap fts \<times> engine_core" where
  "engine_search E query core =
     (search_state (tables E) (tm_de E) (e_config core) (e_state core) query, core\<lparr>search_count := search_count core + 1\<rparr>)"

definition search_ids :: "fts_env \<Rightarrow> string \<Rightarrow> engine_core \<Rightarrow> u64 list fts \<times> engine_core" where
  "search_ids E query core =
     (let (res, core') = engine_search E query core in (rbind res (\<lambda>docs. Inr (tm_iter docs)), core'))"

definition warmup_terms :: "fts_env \<Rightarrow> string list \<Rightarrow> engine_core \<Rightarrow> nat" where
  "warmup_terms E ts core =
     card {t \<in> set (concat (map (analyze (tables E) (e_config core)) ts)).
             case posting_of (tm_de E) (e_state core) t of Inl _ \<Rightarrow> False | Inr docs \<Rightarrow> docs \<noteq> {}}"

text \<open>\<open>ResultHandle::page\<close> and \<open>total_hits\<close>.\<close>

definition result_page :: "treemap \<Rightarrow> nat \<Rightarrow> nat \<Rightarrow> u64 list" where
  "result_page docs off limit = take limit (drop off (tm_iter docs))"

definition total_hits :: "treemap \<Rightarrow> u64" where
  "total_hits docs = of_nat (card docs)"

section \<open>Logged operations and documents\<close>

text \<open>The documents of a store, each with its terms.\<close>

type_synonym filing = "u64 \<rightharpoonup> string set"

fun doc_replay :: "filing \<Rightarrow> fts_wal_op \<Rightarrow> filing" where
  "doc_replay M (FUpsert d ts is) = M(d \<mapsto> set ts)"
| "doc_replay M (FDelete d) = M(d := None)"

fun wop_doc :: "fts_wal_op \<Rightarrow> u64" where
  "wop_doc (FUpsert d ts is) = d"
| "wop_doc (FDelete d) = d"

lemma doc_replay_same: "doc_replay M op (wop_doc op) = doc_replay N op (wop_doc op)"
  by (cases op) simp_all

lemma doc_replay_other: "d \<noteq> wop_doc op \<Longrightarrow> doc_replay M op d = M d"
  by (cases op) simp_all

text \<open>Operations that were already applied change nothing when they are applied again.\<close>

lemma replay_outside: "d \<notin> wop_doc ` set ops \<Longrightarrow> foldl doc_replay M ops d = M d"
  by (induction ops arbitrary: M) (auto simp: doc_replay_other)

lemma replay_inside: "d \<in> wop_doc ` set ops \<Longrightarrow> foldl doc_replay M ops d = foldl doc_replay N ops d"
proof (induction ops arbitrary: M N)
  case (Cons op ops)
  show ?case
  proof (cases "d \<in> wop_doc ` set ops")
    case True
    then show ?thesis using Cons.IH by simp
  next
    case False
    then show ?thesis using Cons.prems doc_replay_same by (auto simp: replay_outside)
  qed
qed simp

lemma replay_twice: "foldl doc_replay (foldl doc_replay M ops) ops = foldl doc_replay M ops"
proof
  fix d
  show "foldl doc_replay (foldl doc_replay M ops) ops d = foldl doc_replay M ops d"
  proof (cases "d \<in> wop_doc ` set ops")
    case True
    then show ?thesis by (rule replay_inside)
  qed (simp add: replay_outside)
qed

text \<open>Replaying the log refines replaying it on the documents.\<close>

fun wop_tokens :: "fts_wal_op \<Rightarrow> nat" where
  "wop_tokens (FUpsert d ts is) = length is"
| "wop_tokens (FDelete d) = 0"

definition wops_tokens :: "fts_wal_op list \<Rightarrow> nat" where
  "wops_tokens ops = sum_list (map wop_tokens ops)"

lemma wops_simps [simp]:
  "wops_tokens [] = 0" "wops_tokens (op # ops) = wop_tokens op + wops_tokens ops"
  "wops_tokens (as @ bs) = wops_tokens as + wops_tokens bs"
  by (simp_all add: wops_tokens_def)

fun wop_apply :: "bool \<Rightarrow> index_state \<Rightarrow> fts_wal_op \<Rightarrow> index_state" where
  "wop_apply w st (FUpsert d ts is) = apply_upsert d \<lparr>a_terms = ts, a_tokens = is\<rparr> w st"
| "wop_apply w st (FDelete d) = apply_delete d w st"

lemma replay_op_apply: "replay_op op st = wop_apply False st op"
  by (cases op) simp_all

lemma wop_apply_indexes:
  assumes "indexes R st M"
  shows "indexes R (wop_apply w st op) (doc_replay M op)"
    and "token_total (wop_apply w st op) \<le> token_total st + wop_tokens op"
proof -
  from assms obtain B where ok: "index_ok R B st" by (auto simp: indexes_def)
  show "indexes R (wop_apply w st op) (doc_replay M op)"
    using indexes_upsert [OF assms, of _ "\<lparr>a_terms = _, a_tokens = _\<rparr>"] indexes_delete [OF assms]
    by (cases op) simp_all
  show "token_total (wop_apply w st op) \<le> token_total st + wop_tokens op"
    using upsert_total [OF ok, of _ "\<lparr>a_terms = _, a_tokens = _\<rparr>"] delete_total [OF ok] by (cases op) simp_all
qed

lemma replay_indexes:
  assumes "indexes R st M"
  shows "indexes R (foldl (\<lambda>s op. replay_op op s) st ops) (foldl doc_replay M ops)
    \<and> token_total (foldl (\<lambda>s op. replay_op op s) st ops) \<le> token_total st + wops_tokens ops"
  using assms
proof (induction ops arbitrary: st M)
  case (Cons op ops)
  note s = wop_apply_indexes [OF Cons.prems, of False op, folded replay_op_apply]
  from Cons.IH [OF s(1)] s(2) show ?case by simp
qed simp

lemma upsert_terms_pending: "pending_wal (fst (foldl (upsert_term d) acc ts)) = pending_wal (fst acc)"
proof (induction ts arbitrary: acc)
  case (Cons t ts)
  have "pending_wal (fst (upsert_term d acc t)) = pending_wal (fst acc)"
    by (auto simp: upsert_term_def Let_def split: prod.splits option.splits)
  then show ?case using Cons by simp
qed simp

lemma pending_upsert:
  "pending_wal (apply_upsert d a w st) = pending_wal st @ (if w then [FUpsert d (a_terms a) (a_tokens a)] else [])"
proof -
  obtain st3 ids where f: "foldl (upsert_term d) (staged d st, []) (a_terms a) = (st3, ids)" by fastforce
  have "pending_wal (staged d st) = pending_wal st" by (simp add: staged_def remove_from_delta_def Let_def)
  then have "pending_wal st3 = pending_wal st"
    using upsert_terms_pending [of d "(staged d st, [])" "a_terms a"] by (simp add: f)
  then show ?thesis using f by (simp add: apply_upsert_def staged_def Let_def)
qed

lemma pending_delete: "pending_wal (apply_delete d w st) = pending_wal st @ (if w then [FDelete d] else [])"
  by (simp add: apply_delete_def remove_from_delta_def Let_def)

lemma replay_pending: "pending_wal (foldl (\<lambda>s op. replay_op op s) st ops) = pending_wal st"
proof (induction ops arbitrary: st)
  case (Cons op ops)
  then show ?case by (cases op) (simp_all add: pending_upsert pending_delete)
qed simp

lemma replay_whole_log:
  assumes "hm_get fs path = Some (FTS_WAL_MAGIC @ concat (map (frame_of E) L))" and "\<forall>r \<in> set L. frame_ok E r"
  shows "replay_wal E fs path st = Inr (foldl max 0 (map fst L), foldl (\<lambda>s op. replay_op op s) st (map snd L), fs)"
proof -
  have "frames E 8 (concat (map (frame_of E) L)) = (stamped (frame_of E) (\<lambda>r. r) 8 L, 8 + length (concat (map (frame_of E) L)))"
    using fwal.scan_records [OF assms(2), of "[]" 8] by (simp add: frames.simps)
  then have "replay_loop E True (concat (map (frame_of E) L)) 8 0 st = (foldl (\<lambda>s op. replay_op op s) st (map snd L),
      foldl max 0 (map fst L), 8 + length (concat (map (frame_of E) L)))"
    by (simp only: replay_frames Let_def prod.case map_snd_stamped list.map_ident)
  then show ?thesis by (simp add: replay_wal_def assms(1))
qed

text \<open>Fields that do not hold documents.\<close>

lemma reads_update:
  assumes "base_postings st' = base_postings st" "mmap_postings st' = mmap_postings st" "base_docs st' = base_docs st"
    "base_tokens st' = base_tokens st" "delta_postings st' = delta_postings st" "delta_docs st' = delta_docs st"
    "delta_tokens st' = delta_tokens st" "shadowed_docs st' = shadowed_docs st" "deleted_docs st' = deleted_docs st"
    "next_term_id st' = next_term_id st"
  shows "index_ok R B st' = index_ok R B st" and "indexes R st' M' = indexes R st M'"
    and "token_total st' = token_total st" and "merged_state st' = merged_state st" and "snapshot_fits E st' = snapshot_fits E st"
proof -
  have rep: "base_rep R st' B = base_rep R st B" for B unfolding base_rep_def assms by (rule refl)
  show i: "index_ok R B st' = index_ok R B st" for B unfolding index_ok_def rep assms by (rule refl)
  have "doc_terms B st' = doc_terms B st" for B unfolding fun_eq_iff doc_terms_def assms by simp
  then show "indexes R st' M' = indexes R st M'" by (simp add: indexes_def i)
  show "token_total st' = token_total st" "merged_state st' = merged_state st"
    unfolding token_total_def merged_state_def assms by simp_all
  show "snapshot_fits E st' = snapshot_fits E st"
    unfolding snapshot_fits_def snapshot_layout_of_def snapshot_terms_def assms by (rule refl)
qed

lemma indexes_update [simp]:
  "indexes R (st\<lparr>needs_rebuild := b\<rparr>) M = indexes R st M" "indexes R (st\<lparr>pending_wal := w\<rparr>) M = indexes R st M"
  "token_total (st\<lparr>needs_rebuild := b\<rparr>) = token_total st" "token_total (st\<lparr>pending_wal := w\<rparr>) = token_total st"
  "index_ok R B (st\<lparr>needs_rebuild := b\<rparr>) = index_ok R B st"
  "merged_state (st\<lparr>needs_rebuild := b\<rparr>) = merged_state st" "snapshot_fits E (st\<lparr>needs_rebuild := b\<rparr>) = snapshot_fits E st"
  by (rule reads_update; simp)+

lemma snapshot_fits_counter: "snapshot_fits E (st\<lparr>next_term_id := n\<rparr>) = snapshot_fits E st"
  by (simp add: snapshot_fits_def snapshot_layout_of_def snapshot_terms_def)

lemma doc_terms_update [simp]: "doc_terms B (st\<lparr>needs_rebuild := b\<rparr>) = doc_terms B st"
  by (simp add: fun_eq_iff doc_terms_def)

section \<open>Documents in memory and on disk\<close>

definition wop_ok :: "fts_env \<Rightarrow> fts_wal_op \<Rightarrow> bool" where
  "wop_ok E op \<longleftrightarrow> frame_ok E (0, op)"

text \<open>The snapshot of a state that held the documents \<open>S\<close>, with at most \<open>k\<close> tokens.\<close>

definition snapshot_of :: "fts_env \<Rightarrow> bytes \<Rightarrow> filing \<Rightarrow> nat \<Rightarrow> bool" where
  "snapshot_of E img S k \<longleftrightarrow> (\<exists>B st. index_ok (tm_de E) B st \<and> doc_terms B st = S \<and> merged_state st
     \<and> snapshot_fits E st \<and> snapshot_image E st = Inr img \<and> token_total st \<le> k)"

definition log_of :: "fts_env \<Rightarrow> files \<Rightarrow> string \<Rightarrow> (u64 \<times> fts_wal_op) list \<Rightarrow> bool" where
  "log_of E fs path L \<longleftrightarrow> list_all (wop_ok E \<circ> snd) L
     \<and> (case hm_get fs path of None \<Rightarrow> L = [] | Some b \<Rightarrow> b = FTS_WAL_MAGIC @ concat (map (frame_of E) L))"

text \<open>
  \<open>engine_ok E fs core M D k\<close>: the engine holds the documents \<open>M\<close>, its files hold \<open>D\<close>, and the
  operations so far have \<open>k\<close> tokens. Operations wait in the buffer that a snapshot already
  accounts for; each is counted twice.
\<close>

definition engine_ok :: "fts_env \<Rightarrow> files \<Rightarrow> engine_core \<Rightarrow> filing \<Rightarrow> filing \<Rightarrow> nat \<Rightarrow> bool" where
  "engine_ok E fs core M D k \<longleftrightarrow>
     index_path core \<noteq> [] \<and> wal_path core = index_path core @ ''.wal'' \<and> indexes (tm_de E) (e_state core) M
     \<and> list_all (wop_ok E) (pending_wal (e_state core))
     \<and> token_total (e_state core) + wops_tokens (pending_wal (e_state core)) \<le> 2 * k
     \<and> (case hm_get fs (index_path core) of
          None \<Rightarrow> hm_get fs (wal_path core) = None \<and> D = Map.empty \<and> pending_wal (e_state core) = []
        | Some img \<Rightarrow> \<exists>S L j. snapshot_of E img S j \<and> log_of E fs (wal_path core) L
            \<and> D = foldl doc_replay S (map snd L) \<and> M = foldl doc_replay D (pending_wal (e_state core))
            \<and> j + wops_tokens (map snd L) + wops_tokens (pending_wal (e_state core)) \<le> 2 * k)"

subsection \<open>Updates\<close>

text \<open>An operation on the state, logged when a snapshot exists.\<close>

lemma pending_apply: "pending_wal (wop_apply w st op) = pending_wal st @ (if w then [op] else [])"
  by (cases op) (simp_all add: pending_upsert pending_delete)

lemma update_keeps:
  assumes ok: "engine_ok E fs core M D k" and w: "wop_ok E op"
  shows "engine_ok E fs (core\<lparr>e_state := wop_apply (index_exists fs core) (e_state core) op\<rparr>)
    (doc_replay M op) D (k + wop_tokens op)"
proof -
  let ?st = "wop_apply (index_exists fs core) (e_state core) op"
  have r: "indexes (tm_de E) (e_state core) M" using ok by (simp add: engine_ok_def)
  note st' = wop_apply_indexes [OF r, of "index_exists fs core" op]
  show ?thesis
  proof (cases "hm_get fs (index_path core)")
    case None
    then have "\<not> index_exists fs core" by (simp add: index_exists_def path_exists_def hm_contains_def)
    then show ?thesis using ok st' None by (auto simp: engine_ok_def pending_apply)
  next
    case (Some img)
    then have "index_exists fs core" using ok by (simp add: engine_ok_def index_exists_def path_exists_def hm_contains_def)
    then have p: "pending_wal ?st = pending_wal (e_state core) @ [op]" by (simp add: pending_apply)
    obtain S L j where d: "snapshot_of E img S j" "log_of E fs (wal_path core) L"
      "D = foldl doc_replay S (map snd L)" "M = foldl doc_replay D (pending_wal (e_state core))"
      "j + wops_tokens (map snd L) + wops_tokens (pending_wal (e_state core)) \<le> 2 * k"
      using ok Some by (auto simp: engine_ok_def)
    have "\<exists>S L j. snapshot_of E img S j \<and> log_of E fs (wal_path core) L
        \<and> D = foldl doc_replay S (map snd L) \<and> doc_replay M op = foldl doc_replay D (pending_wal ?st)
        \<and> j + wops_tokens (map snd L) + wops_tokens (pending_wal ?st) \<le> 2 * (k + wop_tokens op)"
      using d by (intro exI [of _ S] exI [of _ L] exI [of _ j]) (simp add: p)
    then show ?thesis using ok w st' Some p by (auto simp: engine_ok_def)
  qed
qed

subsection \<open>Flushes\<close>

lemma append_keeps:
  assumes ok: "engine_ok E fs core M D k" and "index_exists fs core"
  shows "\<exists>n fs' core'. append_pending_wal E ep fs core = (Inr n, fs', core') \<and> engine_ok E fs' core' M M k
    \<and> e_config core' = e_config core \<and> index_path core' = index_path core \<and> table_path core' = table_path core"
proof (cases "pending_wal (e_state core) = []")
  case True
  have "M = D" using ok assms(2) True
    by (auto simp: engine_ok_def index_exists_def path_exists_def hm_contains_def split: option.splits)
  then show ?thesis using ok True by (simp add: append_pending_wal_def)
next
  case False
  let ?ops = "pending_wal (e_state core)" and ?epoch = "core_epoch ep core"
  obtain img where img: "hm_get fs (index_path core) = Some img"
    using assms(2) by (auto simp: index_exists_def path_exists_def hm_contains_def)
  obtain S L j where d: "snapshot_of E img S j" "log_of E fs (wal_path core) L"
    "D = foldl doc_replay S (map snd L)" "M = foldl doc_replay D ?ops"
    "j + wops_tokens (map snd L) + wops_tokens ?ops \<le> 2 * k"
    using ok img by (auto simp: engine_ok_def)
  have wal: "wal_path core = index_path core @ ''.wal''" "list_all (wop_ok E) ?ops" using ok by (auto simp: engine_ok_def)
  let ?L = "L @ map (Pair ?epoch) ?ops"
  have ser: "\<forall>op \<in> set ?ops. wal_ser E op \<noteq> None"
    using wal(2) by (auto simp: list_all_iff wop_ok_def frame_ok_def)
  define f where "f = (case hm_get fs (wal_path core) of None \<Rightarrow> [] | Some b \<Rightarrow> b)"
  have "FTS_WAL_MAGIC \<noteq> []" using length_fts_magic by (metis length_0_conv zero_neq_numeral)
  then have "(if f = [] then FTS_WAL_MAGIC else f) = FTS_WAL_MAGIC @ concat (map (frame_of E) L)"
    using d(2) by (auto simp: f_def log_of_def split: option.splits)
  then have app: "append_frames E ?epoch ?ops (if f = [] then FTS_WAL_MAGIC else f)
      = (Inr (), FTS_WAL_MAGIC @ concat (map (frame_of E) ?L))"
    using append_frames_ok [OF ser] by (simp add: comp_def)
  define fs' where "fs' = hm_insert (wal_path core) (FTS_WAL_MAGIC @ concat (map (frame_of E) ?L)) fs"
  define core' where "core' = core\<lparr>wal_epoch := max (wal_epoch core) ?epoch, e_state := (e_state core)\<lparr>pending_wal := []\<rparr>\<rparr>"
  have eq: "append_pending_wal E ep fs core = (Inr (length ?ops), fs', core')"
    unfolding append_pending_wal_def Let_def f_def [symmetric] app by (simp add: False fs'_def core'_def)
  have log: "log_of E fs' (wal_path core) ?L"
    using d(2) wal(2) by (auto simp: log_of_def fs'_def hm_get_insert list_all_iff)
  have img': "hm_get fs' (index_path core) = Some img" using img wal(1) by (simp add: fs'_def hm_get_insert)
  have "map snd ?L = map snd L @ ?ops" by (simp add: comp_def)
  then have "\<exists>S L j. snapshot_of E img S j \<and> log_of E fs' (wal_path core) L \<and> M = foldl doc_replay S (map snd L)
      \<and> j + wops_tokens (map snd L) \<le> 2 * k"
    using d log by (intro exI [of _ S] exI [of _ ?L] exI [of _ j]) simp
  moreover have "token_total (e_state core) \<le> 2 * k" using ok unfolding engine_ok_def by linarith
  ultimately have "engine_ok E fs' core' M M k"
    using ok img' by (simp add: engine_ok_def core'_def)
  then show ?thesis using eq by (auto simp: core'_def)
qed

lemma pending_merge: "pending_wal (snd (merge_delta R st)) = pending_wal st"
  by (auto simp: merge_delta_def merge_base_def Let_def split: option.splits prod.splits sum.splits)

lemma persist_keeps:
  assumes env: "env_ok E" and ok: "engine_ok E fs core M D k" and "2 * k < 2 ^ 64"
    and fits: "snapshot_fits E (snd (merge_delta (tm_de E) (e_state core)))"
  shows "\<exists>n fs' core'. persist_snapshot E ep fs core = (Inr n, fs', core') \<and> engine_ok E fs' core' M M k
    \<and> e_config core' = e_config core \<and> index_path core' = index_path core \<and> table_path core' = table_path core"
proof -
  let ?R = "tm_de E" and ?ops = "pending_wal (e_state core)"
  obtain B0 where B0: "index_ok ?R B0 (e_state core)" "doc_terms B0 (e_state core) = M"
    using ok by (auto simp: engine_ok_def indexes_def)
  have o: "token_total (e_state core) < 2 ^ 64" "index_path core \<noteq> []"
    "wal_path core = index_path core @ ''.wal''" "list_all (wop_ok E) ?ops"
    "token_total (e_state core) + wops_tokens ?ops \<le> 2 * k"
    using ok assms(3) by (auto simp: engine_ok_def)
  obtain st0 B where m: "merge_delta ?R (e_state core) = (Inr (), st0)" "index_ok ?R B st0" "doc_terms B st0 = M" "merged_state st0"
    "token_total st0 \<le> token_total (e_state core)"
    using merged_index [OF B0(1) o(1)] B0(2) by metis
  have pend: "pending_wal st0 = ?ops" using pending_merge [of ?R "e_state core"] m(1) by simp
  define st where "st = st0\<lparr>needs_rebuild := False\<rparr>"
  have s: "index_ok ?R B st" "doc_terms B st = M" "merged_state st" "snapshot_fits E st"
    "token_total st \<le> token_total (e_state core)" "pending_wal st = ?ops"
    using m fits pend by (simp_all add: st_def)
  define img where "img = snapshot_payload E st @ to_le_bytes (crc32 E (snapshot_payload E st))"
  have image: "snapshot_image E st = Inr img" unfolding img_def by (rule fits_image [OF s(4)])
  have wf: "hm_wf (base_postings st)" and Bst: "B = hm_get (base_postings st)"
    using index_okD(1) [OF s(1)] s(3) by (simp_all add: base_rep_def merged_state_def)
  have toks: "packs (base_tokens st) (base_docs st)" using s(1) by (simp add: index_ok_def)
  define meta where "meta = \<lparr>sm_rows = of_nat (card (live_docs st)), sm_epoch = core_epoch ep core,
    sm_generation = sat_add (case snapshot_meta core of None \<Rightarrow> 0 | Some m \<Rightarrow> sm_generation m) 1\<rparr>"
  define fs' where "fs' = write_source_meta E meta (hm_remove (wal_path core) (hm_insert (index_path core) img fs)) (index_path core)"
  define core2 where "core2 = core\<lparr>e_state := st, snapshot_meta := Some meta, wal_epoch := 0, stale_reason := None\<rparr>"
  have files: "hm_get fs' (index_path core) = Some img" "hm_get fs' (wal_path core) = None"
    using o(3) by (simp_all add: fs'_def write_source_meta_def source_meta_path_def Let_def hm_get_insert hm_get_remove)
  have snap: "snapshot_of E img M (token_total (e_state core))"
    unfolding snapshot_of_def using s image by (intro exI [of _ B] exI [of _ st]) simp
  have durable: "engine_ok E fs' core' M M k"
    if c: "index_path core' = index_path core" "wal_path core' = wal_path core" "indexes ?R (e_state core') M"
      "pending_wal (e_state core') = ?ops" "token_total (e_state core') = token_total st"
    for core'
  proof -
    have M: "M = foldl doc_replay M ?ops"
      using ok replay_twice by (auto simp: engine_ok_def split: option.splits)
    have "\<exists>S L j. snapshot_of E img S j \<and> log_of E fs' (wal_path core) L \<and> M = foldl doc_replay S (map snd L)
        \<and> M = foldl doc_replay M ?ops \<and> j + wops_tokens (map snd L) + wops_tokens ?ops \<le> 2 * k"
      using snap files(2) o(5) M
      by (intro exI [of _ M] exI [of _ "[]"] exI [of _ "token_total (e_state core)"]) (simp add: log_of_def)
    moreover have "token_total (e_state core') + wops_tokens ?ops \<le> 2 * k" using c(5) s(5) o(5) by linarith
    ultimately show ?thesis using c o files(1) by (simp add: engine_ok_def)
  qed
  have persist: "persist_snapshot E ep fs core =
    (if lazy_load (e_config core) then
       (case dir_new img 72 (length (snapshot_terms st)) (cache_size (e_config core)) of
          Inl e \<Rightarrow> (Inl e, fs', core2)
        | Inr dir \<Rightarrow> (Inr (length (snapshot_terms st)), fs', core2\<lparr>e_state := st\<lparr>base_postings := [], mmap_postings := Some dir\<rparr>\<rparr>))
     else (Inr (length (snapshot_terms st)), fs', core2))"
    using image by (simp add: persist_snapshot_def m(1) st_def Let_def fs'_def core2_def meta_def SNAPSHOT_HEADER_BYTES_def split: sum.split)
  show ?thesis
  proof (cases "lazy_load (e_config core)")
    case False
    have "indexes ?R st M" using s(1,2) by (auto simp: indexes_def)
    then have "engine_ok E fs' core2 M M k" by (intro durable) (simp_all add: core2_def s(6))
    then show ?thesis using False persist by (simp add: core2_def)
  next
    case True
    obtain dir where d: "dir_holds ?R dir (snapshot_terms st)" "cache_ok ?R dir"
      "dir_new img 72 (length (snapshot_terms st)) (cache_size (e_config core)) = Inr dir"
      using snapshot_loads [OF env wf toks _ s(4), of "e_config core" index_default] index_okD(2) [OF s(1)] True
      unfolding img_def [symmetric] Bst by auto
    let ?st = "st\<lparr>base_postings := [], mmap_postings := Some dir\<rparr>"
    have "base_rep ?R ?st (hm_get (snapshot_terms st))" using d(1,2) by (auto simp: base_rep_def)
    from rebased_index(1,2) [OF s(1,3) this] have "indexes ?R ?st M"
      unfolding indexes_def using s(2,3) toks by (auto simp: merged_state_def)
    moreover have "token_total ?st = token_total st" by (simp add: token_total_def)
    ultimately have "engine_ok E fs' (core2\<lparr>e_state := ?st\<rparr>) M M k" by (intro durable) (simp_all add: core2_def s(6))
    then show ?thesis using True persist d(3) by (simp add: core2_def)
  qed
qed

subsection \<open>Restarts\<close>

lemma default_indexes: "indexes R index_default Map.empty"
  using represents_indexes [OF default_represents] by (simp add: comp_def)

lemma default_tokens [simp]: "token_total index_default = 0" "pending_wal index_default = []"
  by (simp_all add: token_total_def index_default_def packed_empty_def base_records_def)

lemma reopen_keeps:
  assumes env: "env_ok E" and ok: "engine_ok E fs core M D k"
  shows "\<exists>core'. new_with_table E fs (index_path core) cfg table = Inr (core', fs) \<and> engine_ok E fs core' D D k
    \<and> index_path core' = index_path core \<and> e_config core' = cfg \<and> table_path core' = table"
proof -
  let ?R = "tm_de E" and ?p = "index_path core"
  have o: "?p \<noteq> []" "wal_path core = ?p @ ''.wal''" using ok by (auto simp: engine_ok_def)
  show ?thesis
  proof (cases "hm_get fs ?p")
    case None
    then have e: "hm_get fs (?p @ ''.wal'') = None" "D = Map.empty" using ok o(2) by (auto simp: engine_ok_def)
    define core' where "core' = engine_core_with ?p cfg table (index_default\<lparr>needs_rebuild := True\<rparr>) None 0 False"
    have "new_with_table E fs ?p cfg table = Inr (core', fs)"
      using None e by (simp add: new_with_table_def open_snapshot_def path_exists_def hm_contains_def core'_def rbind_def)
    moreover have "engine_ok E fs core' D D k"
      using None e o default_indexes [of ?R] by (simp add: engine_ok_def core'_def engine_core_with_def)
    ultimately show ?thesis by (auto simp: core'_def engine_core_with_def)
  next
    case (Some img)
    obtain S L j where d: "snapshot_of E img S j" "log_of E fs (wal_path core) L"
      "D = foldl doc_replay S (map snd L)"
      "j + wops_tokens (map snd L) + wops_tokens (pending_wal (e_state core)) \<le> 2 * k"
      using ok Some by (auto simp: engine_ok_def)
    obtain B st where s: "index_ok ?R B st" "doc_terms B st = S" "merged_state st" "snapshot_fits E st" "snapshot_image E st = Inr img"
      "token_total st \<le> j"
      using d(1) unfolding snapshot_of_def by blast
    obtain st1 where l: "load_snapshot E img index_default cfg = Inr st1" "indexes ?R st1 S"
      "token_total st1 = token_total st" "pending_wal st1 = []"
      using snapshot_reload [OF env s(1,3-5)] s(2) by metis
    define meta where "meta = (case read_source_meta E fs ?p of Inl _ \<Rightarrow> None | Inr m \<Rightarrow> m)"
    have op: "open_snapshot E fs ?p cfg = Inr (st1, meta, True, fs)"
      using Some o l(1) by (simp add: open_snapshot_def path_exists_def hm_contains_def index_default_def meta_def)
    let ?st = "foldl (\<lambda>s op. replay_op op s) st1 (map snd L)"
    have r: "indexes ?R ?st D" "token_total ?st \<le> 2 * k"
      using replay_indexes [OF l(2), of "map snd L"] l(3) s(6) d(3,4) by auto
    have pend: "pending_wal ?st = []" by (simp add: replay_pending l(4))
    obtain epoch where nw: "new_with_table E fs ?p cfg table = Inr (engine_core_with ?p cfg table ?st meta epoch True, fs)"
    proof (cases "hm_get fs (?p @ ''.wal'')")
      case None
      then have "L = []" using d(2) o(2) by (simp add: log_of_def)
      then show ?thesis using that [of 0] None
        by (simp add: new_with_table_def op rbind_def path_exists_def hm_contains_def)
    next
      case (Some b)
      then have "b = FTS_WAL_MAGIC @ concat (map (frame_of E) L)" "\<forall>r \<in> set L. frame_ok E r"
        using d(2) o(2) by (auto simp: log_of_def list_all_iff wop_ok_def frame_ok_def)
      from replay_whole_log [OF Some [unfolded this(1)] this(2), of st1] show ?thesis
        using that [of "foldl max 0 (map fst L)"] Some
        by (simp add: new_with_table_def op rbind_def path_exists_def hm_contains_def)
    qed
    have "\<exists>S L j. snapshot_of E img S j \<and> log_of E fs (wal_path core) L \<and> D = foldl doc_replay S (map snd L)
        \<and> j + wops_tokens (map snd L) \<le> 2 * k"
      using d by (intro exI [of _ S] exI [of _ L] exI [of _ j]) simp
    then have "engine_ok E fs (engine_core_with ?p cfg table ?st meta epoch True) D D k"
      using r o Some pend by (simp add: engine_ok_def engine_core_with_def)
    then show ?thesis using nw by (auto simp: engine_core_with_def)
  qed
qed

section \<open>Runs of an engine\<close>

text \<open>Requests to an engine: a document, a batch of texts, deletions, a flush, a compaction, a restart of the process.\<close>

datatype engine_op = EAdd u64 "(string, string) hmap" | EBatch "u64 list" "string list" | ERemove "u64 list"
  | EFlush "string \<Rightarrow> u64" | ECompact "string \<Rightarrow> u64" | EReopen

fun engine_exec :: "fts_env \<Rightarrow> fts_config \<Rightarrow> string option \<Rightarrow> engine_op \<Rightarrow> files \<times> engine_core \<Rightarrow> (files \<times> engine_core) fts" where
  "engine_exec E cfg table (EAdd d vs) (fs, core) = Inr (fs, add_document E fs d vs core)"
| "engine_exec E cfg table (EBatch ids texts) (fs, core) =
     (case add_documents_texts E fs ids texts core of (res, core') \<Rightarrow> rbind res (\<lambda>_. Inr (fs, core')))"
| "engine_exec E cfg table (ERemove ds) (fs, core) = Inr (fs, remove_documents fs ds core)"
| "engine_exec E cfg table (EFlush ep) (fs, core) =
     (case engine_flush E ep fs core of (res, fs', core') \<Rightarrow> rbind res (\<lambda>_. Inr (fs', core')))"
| "engine_exec E cfg table (ECompact ep) (fs, core) =
     (case compact E ep fs core of (res, fs', core') \<Rightarrow> rbind res (\<lambda>_. Inr (fs', core')))"
| "engine_exec E cfg table EReopen (fs, core) =
     rbind (new_with_table E fs (index_path core) cfg table) (\<lambda>(core', fs'). Inr (fs', core'))"

fun engine_run :: "fts_env \<Rightarrow> fts_config \<Rightarrow> string option \<Rightarrow> engine_op list \<Rightarrow> files \<times> engine_core \<Rightarrow> (files \<times> engine_core) fts" where
  "engine_run E cfg table [] s = Inr s"
| "engine_run E cfg table (op # ops) s = rbind (engine_exec E cfg table op s) (engine_run E cfg table ops)"

definition upsert_of :: "u64 \<Rightarrow> analyzed_document \<Rightarrow> fts_wal_op" where
  "upsert_of d a = FUpsert d (a_terms a) (a_tokens a)"

text \<open>The updates of a request, and the specification: the documents in memory and the durable ones.\<close>

fun request_ops :: "fts_env \<Rightarrow> fts_config \<Rightarrow> engine_op \<Rightarrow> fts_wal_op list" where
  "request_ops E cfg (EAdd d vs) = [upsert_of d (analyze_values (tables E) cfg (map snd vs))]"
| "request_ops E cfg (EBatch ids texts) = map2 upsert_of ids (map (analyze_document (tables E) cfg) texts)"
| "request_ops E cfg (ERemove ds) = map FDelete ds"
| "request_ops E cfg _ = []"

fun store_exec :: "fts_env \<Rightarrow> fts_config \<Rightarrow> filing \<times> filing \<Rightarrow> engine_op \<Rightarrow> filing \<times> filing" where
  "store_exec E cfg (M, D) (EFlush ep) = (M, M)"
| "store_exec E cfg (M, D) (ECompact ep) = (M, M)"
| "store_exec E cfg (M, D) EReopen = (D, D)"
| "store_exec E cfg (M, D) op = (foldl doc_replay M (request_ops E cfg op), D)"

text \<open>
  What a request needs: records that the log can hold, a text for every document of a batch, and a
  snapshot within the limits of its format. The first batch of a new index, which is built
  without the delta, has no document twice and follows no deletion.
\<close>

fun step_ok :: "fts_env \<Rightarrow> files \<times> engine_core \<Rightarrow> engine_op \<Rightarrow> bool" where
  "step_ok E (fs, core) (EBatch ids texts) \<longleftrightarrow> length ids = length texts
     \<and> (ids = [] \<or> index_exists fs core \<or> \<not> can_build_base (e_state core)
        \<or> distinct ids \<and> shadowed_docs (e_state core) = {} \<and> deleted_docs (e_state core) = {})"
| "step_ok E (fs, core) (EFlush ep) \<longleftrightarrow>
     (flush_snapshot fs core \<longrightarrow> snapshot_fits E (snd (merge_delta (tm_de E) (e_state core))))"
| "step_ok E (fs, core) (ECompact ep) \<longleftrightarrow> snapshot_fits E (snd (merge_delta (tm_de E) (e_state core)))"
| "step_ok E (fs, core) _ \<longleftrightarrow> True"

lemma step_ok_free [simp]: "step_ok E s (EAdd d vs)" "step_ok E s (ERemove ds)" "step_ok E s EReopen"
  by (cases s; simp)+

fun run_ok :: "fts_env \<Rightarrow> fts_config \<Rightarrow> string option \<Rightarrow> engine_op list \<Rightarrow> files \<times> engine_core \<Rightarrow> bool" where
  "run_ok E cfg table [] s \<longleftrightarrow> True"
| "run_ok E cfg table (op # ops) s \<longleftrightarrow> list_all (wop_ok E) (request_ops E cfg op) \<and> step_ok E s op
     \<and> (case engine_exec E cfg table op s of Inl _ \<Rightarrow> True | Inr s' \<Rightarrow> run_ok E cfg table ops s')"

definition request_tokens :: "fts_env \<Rightarrow> fts_config \<Rightarrow> engine_op \<Rightarrow> nat" where
  "request_tokens E cfg op = wops_tokens (request_ops E cfg op)"

lemma updates_keep:
  assumes "engine_ok E fs core M D k" and "list_all (wop_ok E) ops"
  shows "engine_ok E fs (core\<lparr>e_state := foldl (wop_apply (index_exists fs core)) (e_state core) ops\<rparr>)
    (foldl doc_replay M ops) D (k + wops_tokens ops)"
  using assms
proof (induction ops arbitrary: core M k)
  case (Cons op ops)
  have "engine_ok E fs (core\<lparr>e_state := wop_apply (index_exists fs core) (e_state core) op\<rparr>) (doc_replay M op) D
      (k + wop_tokens op)"
    using update_keeps [OF Cons.prems(1)] Cons.prems(2) by simp
  from Cons.IH [OF this] Cons.prems(2) show ?case by (simp add: index_exists_def add.assoc)
qed simp

lemma analyzed_eta [simp]: "\<lparr>a_terms = a_terms a, a_tokens = a_tokens a\<rparr> = a"
  by (cases a) simp

lemma batch_updates:
  assumes "length ids = length texts"
  shows "foldl (\<lambda>st (d, a). apply_upsert d a w st) st (zip ids (map f texts)) = foldl (wop_apply w) st (map2 upsert_of ids (map f texts))"
  using assms by (induction ids texts arbitrary: st rule: list_induct2) (simp_all add: upsert_of_def)

lemma rebuild_ok: "engine_ok E fs (core\<lparr>e_state := (e_state core)\<lparr>needs_rebuild := b\<rparr>\<rparr>) M D k = engine_ok E fs core M D k"
  by (simp add: engine_ok_def cong: option.case_cong)

subsection \<open>The first batch\<close>

lemma replay_distinct:
  assumes "distinct (map fst docs)"
  shows "foldl doc_replay M (map (\<lambda>(d, a). upsert_of d a) docs) = M ++ map_of (map (\<lambda>(d, a). (d, set (a_terms a))) docs)"
  using assms
proof (induction docs arbitrary: M)
  case (Cons da docs)
  obtain d a where da: "da = (d, a)" by fastforce
  have "d \<notin> dom (map_of (map (\<lambda>(d, a). (d, set (a_terms a))) docs))"
    using Cons.prems by (auto simp: da dom_map_of_conv_image_fst image_iff split_def)
  then have "M(d \<mapsto> set (a_terms a)) ++ map_of (map (\<lambda>(d, a). (d, set (a_terms a))) docs) =
      M ++ (map_of (map (\<lambda>(d, a). (d, set (a_terms a))) docs))(d \<mapsto> set (a_terms a))"
    by (auto simp: fun_eq_iff map_add_def split: option.split)
  moreover have "map_of (map (\<lambda>(d, a). (d, set (a_terms a))) (da # docs)) =
      (map_of (map (\<lambda>(d, a). (d, set (a_terms a))) docs))(d \<mapsto> set (a_terms a))"
    by (simp add: da fun_eq_iff)
  moreover have "foldl doc_replay M (map (\<lambda>(d, a). upsert_of d a) (da # docs)) =
      M(d \<mapsto> set (a_terms a)) ++ map_of (map (\<lambda>(d, a). (d, set (a_terms a))) docs)"
    using Cons by (simp add: da upsert_of_def)
  ultimately show ?case by metis
qed simp

lemma first_batch_keeps:
  assumes ok: "engine_ok E fs core M D k" and new: "\<not> index_exists fs core" "can_build_base (e_state core)"
    "shadowed_docs (e_state core) = {}" "deleted_docs (e_state core) = {}"
    and docs: "distinct (map fst docs)" and b: "2 * (k + wops_tokens (map (\<lambda>(d, a). upsert_of d a) docs)) < 2 ^ 64"
  shows "engine_ok E fs (core\<lparr>e_state := build_base docs (e_state core)\<rparr>)
    (foldl doc_replay M (map (\<lambda>(d, a). upsert_of d a) docs)) D (k + wops_tokens (map (\<lambda>(d, a). upsert_of d a) docs))"
proof -
  let ?st = "build_base docs (e_state core)" and ?n = "sum_list (map (\<lambda>(d, a). length (a_tokens a)) docs)"
  have n: "wops_tokens (map (\<lambda>(d, a). upsert_of d a) docs) = ?n"
    unfolding wops_tokens_def map_map by (rule arg_cong [where f = sum_list]) (auto simp: upsert_of_def)
  then have small: "?n < 2 ^ 64" using b by simp
  have "indexes (tm_de E) (e_state core) M" using ok by (simp add: engine_ok_def)
  from indexes_live [OF this] new(2) have M: "M = Map.empty" by (auto simp: live_docs_def can_build_base_def)
  have idx: "indexes (tm_de E) ?st (foldl doc_replay M (map (\<lambda>(d, a). upsert_of d a) docs))"
    using build_base_indexes [OF new(2-4) docs small] by (simp add: replay_distinct [OF docs] M)
  obtain st' rs where f: "foldl base_document ((e_state core)\<lparr>base_postings := []\<rparr>, []) docs = (st', rs)" by fastforce
  note bf = build_base_fields [OF new(2) f]
  have rs: "sum_list (map (length \<circ> snd) rs) < 2 ^ 64" using small unfolding bf(7) .
  have wf: "hm_wf rs" using docs unfolding bf(6) .
  have "sum_list (map (length \<circ> snd) (base_records (from_records rs))) = ?n"
    unfolding packed_records(4) [OF rs wf] bf(7) [symmetric] by (metis mset_map mset_sort sum_mset_sum_list)
  moreover have "delta_tokens ?st = []" "pending_wal ?st = []" "base_tokens ?st = from_records rs"
    using bf(4) new(2) by (simp_all add: bf(1) same_rest_def can_build_base_def)
  ultimately have "token_total ?st = ?n" "pending_wal ?st = []" by (simp_all add: token_total_def)
  moreover have "hm_get fs (index_path core) = None"
    using new(1) ok by (simp add: engine_ok_def index_exists_def path_exists_def hm_contains_def)
  ultimately show ?thesis using ok idx by (auto simp: engine_ok_def n)
qed

lemma request_keeps:
  assumes env: "env_ok E" and ok: "engine_ok E fs core M D k" and w: "list_all (wop_ok E) (request_ops E cfg op)"
    and step: "step_ok E (fs, core) op" and cfg: "e_config core = cfg"
    and b: "2 * (k + request_tokens E cfg op) < 2 ^ 64"
  shows "\<exists>fs' core'. engine_exec E cfg table op (fs, core) = Inr (fs', core') \<and> e_config core' = cfg
    \<and> index_path core' = index_path core
    \<and> engine_ok E fs' core' (fst (store_exec E cfg (M, D) op)) (snd (store_exec E cfg (M, D) op))
        (k + request_tokens E cfg op)"
proof -
  note u = updates_keep [OF ok w]
  have p: "index_path core \<noteq> []" using ok by (simp add: engine_ok_def)
  have b0: "2 * k < 2 ^ 64" using b by simp
  show ?thesis
  proof (cases op)
    case (EAdd d vs)
    then show ?thesis using u cfg by (simp add: add_document_def upsert_of_def request_tokens_def)
  next
    case (EBatch ids texts)
    let ?docs = "zip ids (map (analyze_document (tables E) cfg) texts)"
    have len: "length ids = length texts" using step EBatch by auto
    have e: "engine_exec E cfg table op (fs, core) = Inr (fs, apply_analyzed fs ?docs core)"
      using len cfg by (simp add: EBatch add_documents_texts_def)
    have ops: "request_ops E cfg op = map (\<lambda>(d, a). upsert_of d a) ?docs" by (simp add: EBatch)
    have st: "store_exec E cfg (M, D) op = (foldl doc_replay M (request_ops E cfg op), D)" by (simp add: EBatch)
    have "engine_ok E fs (apply_analyzed fs ?docs core) (foldl doc_replay M (request_ops E cfg op)) D
        (k + request_tokens E cfg op)"
    proof (cases "?docs = []")
      case True
      then have "request_ops E cfg op = []" "apply_analyzed fs ?docs core = core"
        unfolding ops by (simp_all only: list.map apply_analyzed_def simp_thms if_True)
      then show ?thesis using ok by (simp add: request_tokens_def)
    next
      case ne: False
      then have ids: "ids \<noteq> []" by auto
      show ?thesis
      proof (cases "\<not> index_exists fs core \<and> can_build_base (e_state core)")
        case True
        then have s: "distinct ids" "shadowed_docs (e_state core) = {}" "deleted_docs (e_state core) = {}"
          using step ids by (auto simp: EBatch)
        have "distinct (map fst ?docs)" using s(1) len by simp
        note first = first_batch_keeps [OF ok _ _ s(2,3) this, folded ops, folded request_tokens_def]
        show ?thesis using first True b ne by (simp add: apply_analyzed_def)
      next
        case False
        have "engine_ok E fs (core\<lparr>e_state := (e_state core)\<lparr>needs_rebuild := False\<rparr>\<rparr>) M D k"
          using ok by (simp only: rebuild_ok)
        note u = updates_keep [OF this w]
        have "apply_analyzed fs ?docs core = core\<lparr>e_state := foldl (wop_apply (index_exists fs core))
            ((e_state core)\<lparr>needs_rebuild := False\<rparr>) (request_ops E cfg op)\<rparr>"
          using ne False unfolding apply_analyzed_def batch_updates [OF len] by (simp only: EBatch request_ops.simps) auto
        then show ?thesis using u by (simp add: request_tokens_def index_exists_def)
      qed
    qed
    moreover have "e_config (apply_analyzed fs ?docs core) = cfg" "index_path (apply_analyzed fs ?docs core) = index_path core"
      using cfg by (simp_all add: apply_analyzed_def)
    ultimately show ?thesis by (simp add: e st)
  next
    case (ERemove ds)
    have "foldl (\<lambda>st d. apply_delete d w st) st ds = foldl (wop_apply w) st (map FDelete ds)" for w st
      by (induction ds arbitrary: st) simp_all
    then show ?thesis using u cfg ERemove by (simp add: remove_documents_def request_tokens_def)
  next
    case (EFlush ep)
    have "\<exists>n fs' core'. (if flush_snapshot fs core then persist_snapshot E ep fs core else append_pending_wal E ep fs core)
        = (Inr n, fs', core') \<and> engine_ok E fs' core' M M k \<and> e_config core' = cfg \<and> index_path core' = index_path core"
      using persist_keeps [OF env ok b0, of ep] append_keeps [OF ok, of ep] step cfg EFlush
      by (auto simp: flush_snapshot_def)
    then show ?thesis using p EFlush by (auto simp: engine_flush_def request_tokens_def)
  next
    case (ECompact ep)
    then show ?thesis
      using persist_keeps [OF env ok b0, of ep] step p cfg by (auto simp: compact_def request_tokens_def)
  next
    case EReopen
    then show ?thesis using reopen_keeps [OF env ok, of cfg table] by (auto simp: request_tokens_def)
  qed
qed

lemma run_keeps:
  assumes env: "env_ok E" and "engine_ok E fs core M D k" and "run_ok E cfg table ops (fs, core)" and "e_config core = cfg"
    and "2 * (k + sum_list (map (request_tokens E cfg) ops)) < 2 ^ 64"
  shows "\<exists>fs' core' k'. engine_run E cfg table ops (fs, core) = Inr (fs', core') \<and> index_path core' = index_path core
    \<and> engine_ok E fs' core' (fst (foldl (store_exec E cfg) (M, D) ops)) (snd (foldl (store_exec E cfg) (M, D) ops)) k'"
  using assms(2-)
proof (induction ops arbitrary: fs core M D k)
  case Nil
  then show ?case by auto
next
  case (Cons op ops)
  have b: "2 * (k + request_tokens E cfg op) < 2 ^ 64"
    "2 * ((k + request_tokens E cfg op) + sum_list (map (request_tokens E cfg) ops)) < 2 ^ 64"
    using Cons.prems(4) by simp_all
  obtain fs1 core1 where s: "engine_exec E cfg table op (fs, core) = Inr (fs1, core1)" "e_config core1 = cfg"
    "index_path core1 = index_path core"
    "engine_ok E fs1 core1 (fst (store_exec E cfg (M, D) op)) (snd (store_exec E cfg (M, D) op))
        (k + request_tokens E cfg op)"
    using request_keeps [OF env Cons.prems(1) _ _ Cons.prems(3) b(1), of table] Cons.prems(2) by auto
  have "run_ok E cfg table ops (fs1, core1)" using Cons.prems(2) s(1) by simp
  from Cons.IH [OF s(4) this s(2) b(2)] s(1,3) show ?case by simp
qed

text \<open>
  The documents that an engine answers for: a term is filed under exactly the documents that have
  it, and the live documents are those of the map.
\<close>

definition answers_for :: "fts_env \<Rightarrow> engine_core \<Rightarrow> filing \<Rightarrow> bool" where
  "answers_for E core M \<longleftrightarrow> live_docs (e_state core) = dom M
     \<and> (\<forall>t. posting_of (tm_de E) (e_state core) t = Inr {d. \<exists>T. M d = Some T \<and> t \<in> T})"

lemma engine_answers: "engine_ok E fs core M D k \<Longrightarrow> answers_for E core M"
  using indexes_posting indexes_live by (fastforce simp: engine_ok_def answers_for_def having_def)

text \<open>
  C15. A full-text engine refines a store of documents, each with its terms, and a durable copy of
  it: on a new index, a sequence of updates, batches, deletions, flushes, compactions and
  restarts runs without an error; the engine then answers for exactly the documents in memory, and
  a process that opens its files again answers for exactly the documents of the last flush or
  compaction. The conditions on the sequence: log records stay below 64 MiB, snapshots within
  the limits of their format (terms of at most 1 MiB), all tokens below \<open>2 ^ 63\<close>, and a batch that is the
  first content of a new index lists no document twice and follows no deletion. Without them the
  code loses documents (\<open>oversized_record_cuts_log\<close>, \<open>long_term_breaks_snapshot\<close>,
  \<open>deleted_before_batch_hidden\<close>).
\<close>

theorem engine_durable:
  assumes "env_ok E" and "path \<noteq> []" and "hm_get fs path = None" and "hm_get fs (path @ ''.wal'') = None"
    and "new_with_table E fs path cfg table = Inr (core, fs0)" and "run_ok E cfg table ops (fs0, core)"
    and "2 * sum_list (map (request_tokens E cfg) ops) < 2 ^ 64"
  defines "S \<equiv> foldl (store_exec E cfg) (Map.empty, Map.empty) ops"
  shows "\<exists>fs1 core1 fs2 core2. engine_run E cfg table ops (fs0, core) = Inr (fs1, core1) \<and> answers_for E core1 (fst S)
    \<and> new_with_table E fs1 path cfg table = Inr (core2, fs2) \<and> answers_for E core2 (snd S)"
proof -
  have new: "core = engine_core_with path cfg table (index_default\<lparr>needs_rebuild := True\<rparr>) None 0 False" "fs0 = fs"
    using assms(3-5) by (auto simp: new_with_table_def open_snapshot_def path_exists_def hm_contains_def)
  have "engine_ok E fs0 core Map.empty Map.empty 0"
    using assms(2-4) default_indexes [of "tm_de E"] by (simp add: new engine_ok_def engine_core_with_def)
  moreover have "e_config core = cfg" "index_path core = path" by (simp_all add: new engine_core_with_def)
  ultimately obtain fs1 core1 k where r: "engine_run E cfg table ops (fs0, core) = Inr (fs1, core1)" "index_path core1 = path"
    "engine_ok E fs1 core1 (fst S) (snd S) k"
    using run_keeps [OF assms(1) _ assms(6), of Map.empty Map.empty 0] assms(7) unfolding S_def by auto
  from reopen_keeps [OF assms(1) r(3), of cfg table] obtain core2 where
    "new_with_table E fs1 path cfg table = Inr (core2, fs1)" "engine_ok E fs1 core2 (snd S) (snd S) k" using r(2) by auto
  then show ?thesis using r engine_answers by blast
qed

definition demo_run :: "engine_op list" where
  "demo_run = [EBatch [1] [''ab''], EFlush (\<lambda>_. 4), ERemove [1], EAdd 2 [(''title'', ''ab'')], EReopen]"

theorem engine_durable_witness:
  "\<exists>core fs1 core1. new_with_table demo_env [] ''i'' default_config None = Inr (core, [])
     \<and> engine_run demo_env default_config None demo_run ([], core) = Inr (fs1, core1)
     \<and> posting_of (tm_de demo_env) (e_state core1) ''ab'' = Inr {1}"
proof -
  let ?core = "engine_core_with ''i'' default_config None (index_default\<lparr>needs_rebuild := True\<rparr>) None 0 False"
  have new: "new_with_table demo_env [] ''i'' default_config None = Inr (?core, [])"
    by (simp add: new_with_table_def open_snapshot_def path_exists_def hm_contains_def)
  have a: "a_terms (analyze_values plain_unicode default_config [''ab'']) = [''ab'']"
    "a_tokens (analyze_values plain_unicode default_config [''ab'']) = [1]"
    "a_terms (analyze_document plain_unicode default_config ''ab'') = [''ab'']"
    "a_tokens (analyze_document plain_unicode default_config ''ab'') = [1]" by code_simp+
  have ops: "map (request_ops demo_env default_config) demo_run = [[FUpsert 1 [''ab''] [1]], [], [FDelete 1], [FUpsert 2 [''ab''] [1]], []]"
    by (simp add: demo_run_def demo_env_def upsert_of_def a)
  define st where "st = build_base [(1, word_doc [''ab''] [1])] (index_default\<lparr>needs_rebuild := True\<rparr>)"
  have "snd (merge_delta (tm_de demo_env) st) = demo_merged\<lparr>next_term_id := 1\<rparr>"
    unfolding st_def by code_simp
  then have fits: "snapshot_fits demo_env (snd (merge_delta (tm_de demo_env) st))" using demo_fits(2) by (simp add: snapshot_fits_counter)
  have "of_bytes [97, 98] = ''ab''" by code_simp
  then have ok: "list_all (wop_ok demo_env) ops" if "ops \<in> set (map (request_ops demo_env default_config) demo_run)" for ops
    using that unfolding ops by (auto simp: wop_ok_def frame_ok_def demo_env_def demo_de_def as_bytes_def MAX_WAL_RECORD_BYTES_def)
  have "analyze_document plain_unicode default_config ''ab'' = word_doc [''ab''] [1]"
    using a(3,4) analyzed_eta [of "analyze_document plain_unicode default_config ''ab''"] by (simp add: word_doc_def)
  moreover have "can_build_base (index_default\<lparr>needs_rebuild := True\<rparr>)" by (simp add: can_build_base_def index_default_def packed_empty_def)
  ultimately have app: "apply_analyzed [] [(1, analyze_document (tables demo_env) default_config ''ab'')] ?core
      = ?core\<lparr>e_state := st\<rparr>"
    by (simp add: apply_analyzed_def engine_core_with_def st_def demo_env_def index_exists_def path_exists_def hm_contains_def)
  have cfg: "e_config ?core = default_config" "shadowed_docs (e_state ?core) = {}" "deleted_docs (e_state ?core) = {}"
    by (simp_all add: engine_core_with_def index_default_def)
  have first: "add_documents_texts demo_env [] [1] [''ab''] ?core = (Inr (), ?core\<lparr>e_state := st\<rparr>)"
    by (simp add: add_documents_texts_def cfg app)
  have run: "run_ok demo_env default_config None demo_run ([], ?core)"
    using ok fits by (simp add: demo_run_def first cfg split: sum.split del: request_ops.simps)
  have toks: "map (request_tokens demo_env default_config) demo_run = [1, 0, 0, 1, 0]"
    using ops unfolding request_tokens_def by (auto simp: demo_run_def)
  have S: "foldl (store_exec demo_env default_config) (Map.empty, Map.empty) demo_run = ([1 \<mapsto> {''ab''}], [1 \<mapsto> {''ab''}])"
    using ops by (simp add: demo_run_def del: request_ops.simps)
  have "2 * sum_list (map (request_tokens demo_env default_config) demo_run) < 2 ^ 64"
    unfolding toks by simp
  from engine_durable [OF demo_env_ok _ _ _ new run this] S new show ?thesis
    by (auto simp: answers_for_def)
qed

end
