(* ===== verification/Fts_Manager.thy ===== *)
theory Fts_Manager
  imports Fts_Engine Partition
begin

text \<open>
  Reconciliation of a recovered index with its table, and the manager of the engines of a database
  (\<open>reconcile_source\<close>, \<open>FtsManager\<close> and \<open>remove_table_index_files\<close> of \<^verbatim>\<open>fts/engine.rs\<close>). Theorems: an
  index that is rejected is gone for this process and the next; removing the index of a
  table forgets its documents and leaves the files of every other table. An error theorem shows
  the change of the table that goes unnoticed behind a log.
\<close>

section \<open>Reconciliation\<close>

text \<open>The reasons, with the numbers that the messages print.\<close>

definition missing_meta_reason :: string where
  "missing_meta_reason = ''index has no source generation metadata (created by an older build or copied from elsewhere)''"

definition rows_reason :: "u64 \<Rightarrow> u64 \<Rightarrow> string" where
  "rows_reason expected rows = ''table has '' @ show_nat (unat expected) @ '' rows but the index covers '' @ show_nat (unat rows)
     @ '' (WAL tail lost or writes bypassed FTS)''"

definition generation_reason :: "u64 \<Rightarrow> u64 \<Rightarrow> string" where
  "generation_reason current epoch = ''table generation advanced to '' @ show_nat (unat current)
     @ '' after the index snapshot (generation '' @ show_nat (unat epoch) @ '')''"

text \<open>The three checks in order; the first that fails gives the reason.\<close>

definition reconcile_reason :: "files \<Rightarrow> u64 option \<Rightarrow> u64 option \<Rightarrow> engine_core \<Rightarrow> string option" where
  "reconcile_reason fs expected_rows current_epoch core =
     (let st = e_state core; rows = of_nat (card (live_docs st)) :: u64;
          has_terms = (base_postings st \<noteq> [] \<or> mmap_postings st \<noteq> None) in
      if snapshot_meta core = None \<and> loaded_snapshot core \<and> index_exists fs core then Some missing_meta_reason
      else if (case expected_rows of None \<Rightarrow> False | Some n \<Rightarrow> (has_terms \<or> 0 < rows) \<and> rows \<noteq> n)
      then Some (rows_reason (the expected_rows) rows)
      else if wal_epoch core = 0 then
        (case (snapshot_meta core, current_epoch) of
           (Some expected, Some current) \<Rightarrow>
             if sm_epoch expected < current then Some (generation_reason current (sm_epoch expected)) else None
         | _ \<Rightarrow> None)
      else None)"

text \<open>The first call decides; later calls repeat its answer. \<open>source\<close> is what the table reports.\<close>

definition reconcile_source :: "u64 option \<times> u64 option \<Rightarrow> files \<Rightarrow> engine_core \<Rightarrow> string option \<times> files \<times> engine_core" where
  "reconcile_source source fs core =
     (if table_path core = None then (None, fs, core)
      else if reconciled core then (stale_reason core, fs, core)
      else
        let core1 = core\<lparr>reconciled := True\<rparr> in
        (case reconcile_reason fs (fst source) (snd source) core1 of
           None \<Rightarrow> (None, fs, core1)
         | Some reason \<Rightarrow>
             let fs1 = remove_source_meta (hm_remove (wal_path core) fs) (index_path core);
                 fs2 = (if path_exists fs1 (index_path core)
                        then rename_file (index_path core) (index_path core @ ''.stale'') fs1 else fs1)
             in (Some reason, fs2,
                 core1\<lparr>snapshot_meta := None, wal_epoch := 0, e_state := index_default\<lparr>needs_rebuild := True\<rparr>,
                       stale_reason := Some reason\<rparr>)))"

section \<open>The manager\<close>

definition MEMORY_PATH_PREFIX :: string where "MEMORY_PATH_PREFIX = ''apexbase_memory:''"

definition is_memory_path :: "string \<Rightarrow> bool" where
  "is_memory_path path \<longleftrightarrow> take (length MEMORY_PATH_PREFIX) path = MEMORY_PATH_PREFIX"

record fts_manager =
  fm_base_path :: string
  fm_in_memory :: bool
  engines :: "(string, engine_core) hmap"
  table_configs :: "(string, fts_config) hmap"
  default_fts_config :: fts_config

text \<open>\<open>Path::join\<close> and \<open>Path::parent\<close>, on paths without \<open>.\<close> components.\<close>

definition join_path :: "string \<Rightarrow> string \<Rightarrow> string" where
  "join_path d f =
     (if f \<noteq> [] \<and> hd f = CHR ''/'' then f
      else if d = [] then f
      else if last d = CHR ''/'' then d @ f
      else d @ CHR ''/'' # f)"

definition strip_slashes :: "string \<Rightarrow> string" where
  "strip_slashes p = rev (dropWhile (\<lambda>c. c = CHR ''/'') (rev p))"

definition path_parent :: "string \<Rightarrow> string option" where
  "path_parent p =
     (let q = strip_slashes p in
      if q = [] then None
      else let r = rev (dropWhile (\<lambda>c. c \<noteq> CHR ''/'') (rev q)) in
        Some (if r \<noteq> [] \<and> strip_slashes r = [] then ''/'' else strip_slashes r))"

definition manager_new :: "string \<Rightarrow> fts_config \<Rightarrow> fts_manager" where
  "manager_new path cfg =
     \<lparr>fm_base_path = path, fm_in_memory = is_memory_path path, engines = [], table_configs = [], default_fts_config = cfg\<rparr>"

definition configure_table :: "string \<Rightarrow> fts_config \<Rightarrow> fts_manager \<Rightarrow> fts_manager" where
  "configure_table name cfg m =
     (let m1 = m\<lparr>table_configs := hm_insert name cfg (table_configs m)\<rparr> in
      case hm_get (engines m1) name of
        None \<Rightarrow> m1
      | Some core \<Rightarrow> m1\<lparr>engines := hm_insert name (core\<lparr>e_config := cfg\<rparr>) (engines m1)\<rparr>)"

definition get_engine :: "fts_env \<Rightarrow> files \<Rightarrow> string \<Rightarrow> fts_manager \<Rightarrow> engine_core fts \<times> files \<times> fts_manager" where
  "get_engine E fs name m =
     (case hm_get (engines m) name of
        Some core \<Rightarrow> (Inr core, fs, m)
      | None \<Rightarrow>
          let cfg = (case hm_get (table_configs m) name of None \<Rightarrow> default_fts_config m | Some c \<Rightarrow> c);
              opened = (if fm_in_memory m then Inr (memory_only cfg, fs)
                        else new_with_table E fs (join_path (fm_base_path m) (name @ ''.afts'')) cfg
                               (map_option (\<lambda>dir. join_path dir (name @ ''.apex'')) (path_parent (fm_base_path m))))
          in case opened of
               Inl e \<Rightarrow> (Inl e, fs, m)
             | Inr (core, fs') \<Rightarrow> (Inr core, fs', m\<lparr>engines := hm_insert name core (engines m)\<rparr>))"

definition TABLE_INDEX_FILE_SUFFIXES :: "string list" where
  "TABLE_INDEX_FILE_SUFFIXES = [''afts'', ''afts.wal'', ''afts.tmp'', ''afts.meta'', ''afts.meta.tmp'', ''afts.stale'',
     ''afts.incompatible'', ''nfts'', ''nfts.wal'']"

definition table_index_file :: "string \<Rightarrow> string \<Rightarrow> string \<Rightarrow> string" where
  "table_index_file base name sfx = join_path base (name @ ''.'' @ sfx)"

definition remove_table_index_files :: "string \<Rightarrow> string \<Rightarrow> files \<Rightarrow> files" where
  "remove_table_index_files base name fs =
     (if is_memory_path base then fs
      else foldl (\<lambda>fs sfx. let p = table_index_file base name sfx in if path_exists fs p then hm_remove p fs else fs)
             fs TABLE_INDEX_FILE_SUFFIXES)"

definition remove_engine :: "string \<Rightarrow> bool \<Rightarrow> files \<Rightarrow> fts_manager \<Rightarrow> files \<times> fts_manager" where
  "remove_engine name delete_files fs m =
     (if delete_files then remove_table_index_files (fm_base_path m) name fs else fs,
      m\<lparr>engines := hm_remove name (engines m), table_configs := hm_remove name (table_configs m)\<rparr>)"

text \<open>The first engine whose flush fails ends the loop.\<close>

fun flush_engines :: "fts_env \<Rightarrow> (string \<Rightarrow> u64) \<Rightarrow> files \<Rightarrow> (string, engine_core) hmap \<Rightarrow>
    unit fts \<times> files \<times> (string, engine_core) hmap" where
  "flush_engines E ep fs [] = (Inr (), fs, [])"
| "flush_engines E ep fs ((name, core) # es) =
     (case engine_flush E ep fs core of
        (Inl e, fs', core') \<Rightarrow> (Inl e, fs', (name, core') # es)
      | (Inr _, fs', core') \<Rightarrow>
          (case flush_engines E ep fs' es of (res, fs'', es') \<Rightarrow> (res, fs'', (name, core') # es')))"

definition flush_all :: "fts_env \<Rightarrow> (string \<Rightarrow> u64) \<Rightarrow> files \<Rightarrow> fts_manager \<Rightarrow> unit fts \<times> files \<times> fts_manager" where
  "flush_all E ep fs m =
     (case flush_engines E ep fs (engines m) of (res, fs', es) \<Rightarrow> (res, fs', m\<lparr>engines := es\<rparr>))"

section \<open>Rejected indexes\<close>

text \<open>
  A rejected index is gone: when reconciliation rejects an index, the engine holds no document and
  asks to be rebuilt, further calls repeat the reason, and a new process that opens the same path
  starts from an empty index that asks to be rebuilt.
\<close>

theorem rejected_index_forgotten:
  assumes "reconcile_source source fs core = (Some reason, fs', core')" and "\<not> reconciled core"
    and "wal_path core = index_path core @ ''.wal''"
  shows "live_docs (e_state core') = {} \<and> needs_rebuild (e_state core')
    \<and> reconcile_source source' fs' core' = (Some reason, fs', core')
    \<and> (\<exists>core2. new_with_table E fs' (index_path core) cfg table = Inr (core2, fs')
         \<and> live_docs (e_state core2) = {} \<and> needs_rebuild (e_state core2))"
proof -
  let ?p = "index_path core" and ?st = "index_default\<lparr>needs_rebuild := True\<rparr>"
  define fs1 where "fs1 = remove_source_meta (hm_remove (wal_path core) fs) ?p"
  have t: "table_path core \<noteq> None" using assms(1) by (cases "table_path core") (simp_all add: reconcile_source_def)
  have r: "fs' = (if path_exists fs1 ?p then rename_file ?p (?p @ ''.stale'') fs1 else fs1)"
    "core' = core\<lparr>reconciled := True, snapshot_meta := None, wal_epoch := 0, e_state := ?st, stale_reason := Some reason\<rparr>"
    using assms(1,2) t by (auto simp: reconcile_source_def fs1_def Let_def split: option.splits)
  have live: "live_docs ?st = {}" by (simp add: live_docs_def index_default_def)
  have "hm_get fs1 (?p @ ''.wal'') = None"
    using assms(3) by (simp add: fs1_def remove_source_meta_def hm_get_remove)
  then have gone: "\<not> path_exists fs' ?p" "\<not> path_exists fs' (?p @ ''.wal'')"
    unfolding r(1) by (auto simp: rename_file_def path_exists_def hm_contains_def hm_get_insert hm_get_remove split: option.splits)
  then have "new_with_table E fs' ?p cfg table = Inr (engine_core_with ?p cfg table ?st None 0 False, fs')"
    by (simp add: new_with_table_def open_snapshot_def)
  moreover have "reconcile_source source' fs' core' = (Some reason, fs', core')"
    using t by (simp add: r(2) reconcile_source_def)
  ultimately show ?thesis using live by (simp add: r(2) engine_core_with_def)
qed

text \<open>
  A change of the table goes unnoticed behind a log: when an index is recovered with records of
  its log, written at any generation but zero, and its row count equals that of the table, reconciliation accepts it
  whatever the generation of the table is now, so rows that were changed or replaced without the
  index are not detected.
\<close>

theorem log_hides_table_changes:
  assumes "table_path core \<noteq> None" and "\<not> reconciled core" and "wal_epoch core \<noteq> 0" and "snapshot_meta core \<noteq> None"
    and "rows = of_nat (card (live_docs (e_state core)))"
  shows "reconcile_source (Some rows, Some current) fs core = (None, fs, core\<lparr>reconciled := True\<rparr>)"
  using assms by (auto simp: reconcile_source_def reconcile_reason_def Let_def)

definition reloaded_core :: engine_core where
  "reloaded_core = (engine_core_with ''i'' default_config (Some ''t'') demo_doc (Some \<lparr>sm_rows = 1, sm_epoch = 4, sm_generation = 1\<rparr>) 5 True)"

theorem log_hides_table_changes_witness:
  "reconcile_source (Some 1, Some 9) [] reloaded_core = (None, [], reloaded_core\<lparr>reconciled := True\<rparr>)"
proof -
  have "card (live_docs demo_doc) = 1"
    using represents_reads(2) [OF demo_represents(1) [of no_treemap]] by simp
  then show ?thesis
    using log_hides_table_changes [of reloaded_core 1 9 "[]"] by (simp add: reloaded_core_def engine_core_with_def)
qed

text \<open>Without a log the generation is checked.\<close>

theorem generation_checked:
  assumes "table_path core \<noteq> None" and "\<not> reconciled core" and "wal_epoch core = 0" and "snapshot_meta core = Some meta"
  shows "fst (reconcile_source (Some rows, Some current) fs core) = None \<longleftrightarrow>
    current \<le> sm_epoch meta \<and> (rows = of_nat (card (live_docs (e_state core)))
      \<or> (base_postings (e_state core) = [] \<and> mmap_postings (e_state core) = None \<and> of_nat (card (live_docs (e_state core))) = (0 :: u64)))"
  using assms by (auto simp: reconcile_source_def reconcile_reason_def Let_def not_less word_gt_0 split: option.splits if_splits)

section \<open>Removed tables\<close>

text \<open>No name of an index file ends like another one after a dot, so the files of two tables differ.\<close>

lemma index_files_differ:
  assumes "table_index_file base name s = table_index_file base name' s'"
    and "s \<in> set TABLE_INDEX_FILE_SUFFIXES" and "s' \<in> set TABLE_INDEX_FILE_SUFFIXES"
    and "name = [] \<or> hd name \<noteq> CHR ''/''" and "name' = [] \<or> hd name' \<noteq> CHR ''/''"
  shows "name = name' \<and> s = s'"
proof -
  have plain: "hd (n @ ''.'' @ x) \<noteq> CHR ''/''" if "n = [] \<or> hd n \<noteq> CHR ''/''" for n x
    using that by (cases n) auto
  have "name @ ''.'' @ s = name' @ ''.'' @ s'"
    using assms(1) plain [OF assms(4), of s] plain [OF assms(5), of s']
    by (auto simp: table_index_file_def join_path_def split: if_splits)
  then consider us where "name = name' @ us" "us @ ''.'' @ s = ''.'' @ s'" | us where "name @ us = name'" "''.'' @ s = us @ ''.'' @ s'"
    by (auto simp: append_eq_append_conv2)
  then have "suffix (''.'' @ s) (''.'' @ s') \<or> suffix (''.'' @ s') (''.'' @ s)"
    unfolding suffix_def by metis
  moreover have "\<forall>s \<in> set TABLE_INDEX_FILE_SUFFIXES. \<forall>s' \<in> set TABLE_INDEX_FILE_SUFFIXES. suffix (''.'' @ s) (''.'' @ s') \<longrightarrow> s = s'"
    unfolding TABLE_INDEX_FILE_SUFFIXES_def by code_simp
  ultimately have "s = s'" using assms(2,3) by blast
  then show ?thesis using \<open>name @ ''.'' @ s = name' @ ''.'' @ s'\<close> by simp
qed

lemma remove_files_get:
  "hm_get (foldl (\<lambda>fs sfx. let p = table_index_file base name sfx in if path_exists fs p then hm_remove p fs else fs) fs xs) q
   = (if q \<noteq> [] \<and> q \<in> table_index_file base name ` set xs then None else hm_get fs q)"
  by (induction xs arbitrary: fs) (auto simp: Let_def path_exists_def hm_contains_def hm_get_remove)

text \<open>
  C26. Dropping the index of a table removes that table's index and no other: the next engine of the
  table is empty and asks to be rebuilt, and every index file of every other table is unchanged.
\<close>

theorem remove_engine_exact:
  assumes "\<not> is_memory_path (fm_base_path m)" and "\<not> fm_in_memory m" and "name = [] \<or> hd name \<noteq> CHR ''/''"
    and "remove_engine name True fs m = (fs', m')"
  shows "(\<exists>core. fst (get_engine E fs' name m') = Inr core \<and> live_docs (e_state core) = {} \<and> needs_rebuild (e_state core))
    \<and> (\<forall>other s. other \<noteq> name \<and> (other = [] \<or> hd other \<noteq> CHR ''/'') \<and> s \<in> set TABLE_INDEX_FILE_SUFFIXES \<longrightarrow>
         hm_get fs' (table_index_file (fm_base_path m) other s) = hm_get fs (table_index_file (fm_base_path m) other s))"
proof (intro conjI allI impI)
  let ?p = "table_index_file (fm_base_path m) name ''afts''"
  have fs': "hm_get fs' q = (if q \<noteq> [] \<and> q \<in> table_index_file (fm_base_path m) name ` set TABLE_INDEX_FILE_SUFFIXES
      then None else hm_get fs q)" for q
    using assms(1,4) by (auto simp: remove_engine_def remove_table_index_files_def remove_files_get)
  have m': "hm_get (engines m') name = None" "fm_base_path m' = fm_base_path m" "fm_in_memory m' = fm_in_memory m"
    using assms(4) by (auto simp: remove_engine_def hm_get_remove)
  have wal: "?p @ ''.wal'' = table_index_file (fm_base_path m) name ''afts.wal''"
    by (cases name) (simp_all add: table_index_file_def join_path_def)
  have "\<not> path_exists fs' ?p" "\<not> path_exists fs' (?p @ ''.wal'')"
    unfolding wal by (auto simp: path_exists_def hm_contains_def fs' TABLE_INDEX_FILE_SUFFIXES_def)
  then have "new_with_table E fs' ?p cfg table
      = Inr (engine_core_with ?p cfg table (index_default\<lparr>needs_rebuild := True\<rparr>) None 0 False, fs')" for cfg table
    by (simp add: new_with_table_def open_snapshot_def)
  moreover have "live_docs (index_default\<lparr>needs_rebuild := True\<rparr>) = {}" by (simp add: live_docs_def index_default_def)
  ultimately show "\<exists>core. fst (get_engine E fs' name m') = Inr core \<and> live_docs (e_state core) = {} \<and> needs_rebuild (e_state core)"
    using m' assms(2) by (simp add: get_engine_def table_index_file_def engine_core_with_def Let_def)
  fix other s
  assume o: "other \<noteq> name \<and> (other = [] \<or> hd other \<noteq> CHR ''/'') \<and> s \<in> set TABLE_INDEX_FILE_SUFFIXES"
  then show "hm_get fs' (table_index_file (fm_base_path m) other s) = hm_get fs (table_index_file (fm_base_path m) other s)"
    using index_files_differ [OF _ _ _ _ assms(3)] unfolding fs' by auto
qed

definition two_tables :: files where
  "two_tables = [(''fts/a.afts'', [1]), (''fts/a.afts.wal'', [2]), (''fts/a.afts.afts'', [3]), (''fts/b.afts'', [4])]"

theorem remove_engine_exact_witness:
  "\<exists>fs' m'. remove_engine ''a'' True two_tables (manager_new ''fts'' default_config) = (fs', m')
     \<and> (\<exists>core. fst (get_engine demo_env fs' ''a'' m') = Inr core \<and> live_docs (e_state core) = {})
     \<and> hm_get fs' ''fts/a.afts.afts'' = Some [3] \<and> hm_get fs' ''fts/b.afts'' = Some [4]"
proof -
  let ?m = "manager_new ''fts'' default_config"
  obtain fs' m' where r: "remove_engine ''a'' True two_tables ?m = (fs', m')" by fastforce
  have f: "table_index_file ''fts'' ''a.afts'' ''afts'' = ''fts/a.afts.afts''" "table_index_file ''fts'' ''b'' ''afts'' = ''fts/b.afts''"
    by (simp_all add: table_index_file_def join_path_def)
  have h: "\<not> is_memory_path (fm_base_path ?m)" "\<not> fm_in_memory ?m" "fm_base_path ?m = ''fts''"
    by (simp_all add: manager_new_def is_memory_path_def MEMORY_PATH_PREFIX_def)
  note e = remove_engine_exact [OF h(1,2) _ r, unfolded h(3), where E = demo_env]
  have c: "\<exists>core. fst (get_engine demo_env fs' ''a'' m') = Inr core \<and> live_docs (e_state core) = {}"
    using e by auto
  have k: "hm_get fs' (table_index_file ''fts'' other ''afts'') = hm_get two_tables (table_index_file ''fts'' other ''afts'')"
    if "other \<noteq> ''a''" "other = [] \<or> hd other \<noteq> CHR ''/''" for other
    by (rule conjunct2 [OF e, rule_format]) (use that in \<open>simp_all add: TABLE_INDEX_FILE_SUFFIXES_def\<close>)
  have "hm_get fs' ''fts/a.afts.afts'' = Some [3]" "hm_get fs' ''fts/b.afts'' = Some [4]"
    using k [of "''a.afts''"] k [of "''b''"] unfolding f by (simp_all add: two_tables_def)
  then show ?thesis using r c by blast
qed

end
