(* ===== verification/Spec2Isabelle.thy ===== *)
theory Spec2Isabelle
  imports Snapshot_Isolation Wal_Recovery Index_Manager Delta_Merge Admission Bloom_Index Shard_Router
    Node_Manager Table_Epoch Fts_Manager
begin

text \<open>
  \<^bold>\<open>ApexBase: a verification development of the storage and transaction core.\<close>

  ApexBase is an embedded analytical and transactional database written in Rust
  (\<^verbatim>\<open>src/apexbase/src\<close>). A statement that writes goes to the transaction manager, which buffers
  it in a transaction context, checks it for conflicts at commit, and records row versions so
  that other transactions keep reading the state they began with. Committed rows reach a
  columnar file; between two rewrites of that file they live in a write-ahead log, a delta
  store of deleted rows and updated cells, and the secondary indexes of the table. Around that
  core stand the admission of statements under a memory budget, Bloom filters that let a scan
  skip row groups, the epochs that tell readers of a table that it changed, the full-text engine
  that indexes the text columns of a table with a log and snapshots of its own, and the catalog
  that partitions a table over shards and nodes. This development models these parts and proves the
  properties they rely on.

  \<^bold>\<open>Theories and the code they model.\<close>

  \<^item> \<^verbatim>\<open>Prelude\<close>: machine integers, results, the standard containers (\<open>HashMap\<close> as an association
    list in iteration order, \<open>Vec\<close>, \<open>BTreeMap\<close> of \<open>u64\<close>), binary search, the file system as a
    map from paths to bytes. \<^verbatim>\<open>Float_Bits\<close>: comparison, equality and integer conversion of \<open>f64\<close>
    and \<open>f32\<close> on their bit patterns.
  \<^item> \<^verbatim>\<open>Data_Value\<close> (\<^verbatim>\<open>data/types.rs\<close>, \<^verbatim>\<open>data/value.rs\<close>): data types, their sizes and SQL names; values,
    their accessors, equality and ordering.
  \<^item> \<^verbatim>\<open>Version_Store\<close> (\<^verbatim>\<open>storage/mvcc/version_store.rs\<close>): row versions and version chains, the store
    and its garbage collection. \<^verbatim>\<open>Snapshot_Manager\<close> (\<^verbatim>\<open>storage/mvcc/snapshot.rs\<close>, \<^verbatim>\<open>gc.rs\<close>): the
    registry of active snapshots, the timestamp source and the collector that consults them.
  \<^item> \<^verbatim>\<open>Txn_Context\<close>, \<^verbatim>\<open>Conflict_Detector\<close>, \<^verbatim>\<open>Txn_Manager\<close> (\<^verbatim>\<open>txn/context.rs\<close>, \<^verbatim>\<open>txn/conflict.rs\<close>,
    \<^verbatim>\<open>txn/manager.rs\<close>): the write buffer with savepoints, validation and write intents, and the
    manager that ties them to the version store. \<^verbatim>\<open>Txn_Safety\<close> turns the manager into a
    transition system whose steps are whole calls, in any order, with the invariant of its
    reachable states; \<^verbatim>\<open>Txn_Interleaving\<close> splits \<open>begin\<close> and \<open>finalize_commit\<close> at the points
    where the code holds no lock on \<open>active_txns\<close> and interleaves the parts of many sessions;
    \<^verbatim>\<open>Snapshot_Isolation\<close> states what open transactions read and who holds write intents.
  \<^item> \<^verbatim>\<open>Record_Log\<close>: logs of self-delimiting records, for both logs of the program. \<^verbatim>\<open>Wal_Record\<close>,
    \<^verbatim>\<open>Wal_Log\<close> (\<^verbatim>\<open>storage/incremental.rs\<close>): the wire format of log records, the writers and the
    reader. \<^verbatim>\<open>Wal_Recovery\<close> (\<^verbatim>\<open>storage/on_demand/storage_core.rs\<close>): the scan of the
    log when a table opens, which records it replays, and the applied-offset sidecar.
  \<^item> \<^verbatim>\<open>Ordered_Map\<close>, \<^verbatim>\<open>Index_Key\<close>, \<^verbatim>\<open>Key_Index\<close>, \<^verbatim>\<open>Index_Manager\<close> (\<^verbatim>\<open>storage/index/btree.rs\<close>,
    \<^verbatim>\<open>hash_index.rs\<close>, \<^verbatim>\<open>index_manager.rs\<close>): a \<open>BTreeMap\<close> over a comparison, index keys and their
    order, the two kinds of index behind one dispatcher, and the manager with its catalog, lazy
    loading, maintenance on every write, index selection and persistence.
  \<^item> \<^verbatim>\<open>Delta_Store\<close>, \<^verbatim>\<open>Delta_Merge\<close> (\<^verbatim>\<open>storage/delta/update_log.rs\<close>, \<^verbatim>\<open>merge.rs\<close>): the bitmap of
    deleted rows and the pending cell updates, and their overlay on a record batch.
  \<^item> \<^verbatim>\<open>Admission\<close> (\<^verbatim>\<open>admission.rs\<close>, \<^verbatim>\<open>query/executor/memory.rs\<close>): the configuration read from the
    environment, the classification of statements and the admission controller, as a transition
    system of statements that arrive, wait, wake and finish.
  \<^item> \<^verbatim>\<open>Bloom_Index\<close> (\<^verbatim>\<open>storage/bloom.rs\<close>): a filter per row group, the index of a column over its
    row groups, and its serialized form.
  \<^item> \<^verbatim>\<open>Partition\<close>, \<^verbatim>\<open>Shard_Manager\<close>, \<^verbatim>\<open>Shard_Router\<close>, \<^verbatim>\<open>Node_Manager\<close> (\<^verbatim>\<open>scaling/partition.rs\<close>,
    \<^verbatim>\<open>shard.rs\<close>, \<^verbatim>\<open>router.rs\<close>, \<^verbatim>\<open>node.rs\<close>): hash and range partitioning, the catalog of shards and its
    persistence, the routing of reads and writes, and the membership of nodes.
  \<^item> \<^verbatim>\<open>Table_Epoch\<close> (\<^verbatim>\<open>storage/epoch.rs\<close>): the epoch file shared between processes, write scopes
    that publish once, and the reservation of row ids by compare-and-swap.
  \<^item> \<^verbatim>\<open>Edit_Distance\<close>, \<^verbatim>\<open>Fts_Analyzer\<close> (\<^verbatim>\<open>fts/analyzer.rs\<close>): the bounded edit distance; words, n-grams
    and the numbered tokens of a document. \<^verbatim>\<open>Fts_Postings\<close>, \<^verbatim>\<open>Fts_Directory\<close>, \<^verbatim>\<open>Fts_Index\<close>, \<^verbatim>\<open>Fts_Build\<close>
    (\<^verbatim>\<open>fts/index.rs\<close>): postings and packed token streams, the memory-mapped term directory with its
    cache, the index state with its base and delta, and the first batch. \<^verbatim>\<open>Fts_Query\<close>
    (\<^verbatim>\<open>fts/query.rs\<close>): phrase, term and boolean search. \<^verbatim>\<open>Fts_Wal\<close>, \<^verbatim>\<open>Fts_Snapshot\<close>
    (\<^verbatim>\<open>fts/storage.rs\<close>): the log, the source metadata and the snapshot formats. \<^verbatim>\<open>Fts_Engine\<close>,
    \<^verbatim>\<open>Fts_Manager\<close> (\<^verbatim>\<open>fts/engine.rs\<close>): opening, updates, flushes and compaction of an engine, its
    reconciliation with the table, and the engines of a database.

  \<^bold>\<open>How state and operations correspond.\<close> A Rust struct is a record with the source's fields, an
  enum a datatype, an integer a word of its width. A method that takes \<open>&mut self\<close> returns the
  updated record; a fallible one returns \<open>Inl\<close> of an error or \<open>Inr\<close> of a result, and where the code
  may panic (a slice out of bounds, an arithmetic underflow in a checked build) the panic is a
  value of its own. Locks and atomics become steps. In \<^verbatim>\<open>Txn_Safety\<close> each method of the
  transaction manager is one step, which is exact for what runs under the lock on \<open>active_txns\<close>
  (preparing a commit, acquiring and releasing intents, a rollback); a \<open>finalize_commit\<close> drops that
  lock after it has stamped and logged the commit, and a \<open>begin\<close> takes it only to enter its
  transaction. \<^verbatim>\<open>Txn_Interleaving\<close> therefore makes the draw of a timestamp, the entry, the locked
  stage of a commit, each write to a version store, the release of the snapshot, the reading of the
  oldest timestamp, the trimming and the clearing of the conflict log, and the collection steps of
  their own. Its flag \<open>late\<close> records that the conflict log was trimmed past the snapshot of a
  transaction that is open or starting.

  \<^bold>\<open>Interfaces.\<close> \<open>versioned_store\<close> states what a multi-version store promises its readers,
  \<open>byte_source\<close> what a record decoder needs of a cursor, \<open>record_log\<close> what a self-delimiting record
  format promises a log reader (of the table log and of the full-text log), \<open>total_cmp\<close> the laws a comparison owes a search tree, \<open>row_index\<close>
  what an index promises the manager, and \<open>partition_strategy\<close> what a partitioner promises the
  router. Each is interpreted on the definitions of the component that
  provides it.

  \<^bold>\<open>What is shown.\<close>

  \<^item> Transactions: of two committed writers of a row one began after the other committed, under
    every interleaving of the unlocked parts in which the conflict log is not trimmed too early; write
    intents are exclusive and never leak; while a commit is applied and after it,
    \<open>read_versioned\<close> answers every open read-write transaction as before for a row with versions
    and with the before image for a row without, when calls are made one at a time; savepoints restore
    the buffer. Lemmas show where isolation ends: two interleavings in which the log is trimmed too
    early and an update is lost (\<open>begin_race_loses_update\<close>, \<open>stale_trim_loses_update\<close>), and the snapshot of a
    read-only transaction, which moves (\<open>read_only_snapshot_moves\<close>).
  \<^item> Versions: a snapshot read is stable under later writes and admissible collections; the
    version counter is exact under collection, but for tombstones of dropped chains.
  \<^item> Log: records round-trip; after a crash the log reads back as a prefix of what was appended
    that includes all that was flushed; recovery replays an update exactly when its transaction
    committed; recovered identifiers are fresh; the sidecar suppresses exactly what was applied.
    Error theorems cover the records that cannot be read back and the writes that get lost.
  \<^item> Indexes: the key order is a total preorder on keys without NaN; both kinds of index refine a
    map from keys to multisets of row ids; the catalog stays consistent; a lookup through an index
    returns what a scan of the table selects under the comparison of values, when the column and the
    literals are of one type and a range is not crossed; saved indexes load back. Error theorems cover
    inverted ranges, unloaded indexes, refused insertions and literals of another type.
  \<^item> Delta store: reads return the last update since the last delete; merging into a batch equals
    the row-by-row overlay on every fast path, for nullable and non-nullable columns; saving and
    loading keeps every read.
  \<^item> Admission: what is admitted never exceeds the budget but for a single oversized statement; a
    release never leaves a statement asleep that would be admitted; a waiting statement is decided
    once it wakes with room or past its deadline.
  \<^item> Bloom filters: a scan that skips the row groups a filter excludes selects the rows a full
    scan selects, for strings and for dictionary codes; the index survives serialization.
  \<^item> Sharding: while no shard is read-only and the boundaries are fewer than the readable shards, a
    point query of a key goes to the shard the key was written to, which every range query around it
    visits; the catalog stays consistent and survives a restart, but for the
    shard-id counter, which starts again and lets a new shard overwrite an old one. The local node
    is never suspected; replicas are chosen among distinct live nodes by load.
  \<^item> Epochs: nested write scopes publish one epoch; reservations of row ids by any interleaving of
    processes are disjoint, and one of the contending compare-and-swap attempts succeeds.
  \<^item> Full-text search: the bounded edit distance is exact; the analysis of a document keeps its
    words in order; the index refines a map from documents to terms and words under updates,
    deletions and merges; phrase, term and boolean queries select what they should on it (phrases
    not on an index whose first content was a batch, which numbers two terms alike); a snapshot
    loads back, with or without memory mapping; a torn log replays as a prefix. Together: an engine
    refines a store of documents with a durable copy over sequences of requests and restarts, batches
    included; the batch that is the first content of an index must list no document twice and follow no
    deletion.
    Dropping an index touches no other. Error theorems cover the term numbers of a first batch,
    deletions before it, long terms and records, and table changes that hide behind a log.

  \<^bold>\<open>Bounds and fuel.\<close> The transaction theorems bound a run by \<open>call_bound\<close>, that is \<open>2 ^ 64 - 4\<close>
  calls: below it the timestamp and transaction counters do not wrap. The decoder of nested
  values takes the length of its buffer as fuel, which is enough because each level consumes a
  byte; the reader of the log is a terminating function because every record has a positive
  length. A record batch has at most \<open>2 ^ 32\<close> rows, the range of the row numbers in the delete
  bitmap. Each format theorem states as a predicate on the record what its length fields can
  carry. The admission theorems exclude the budget \<open>usize::MAX\<close>, at which the sum of admitted
  estimates can wrap; the catalog theorems bound the shard-id counter by \<open>2 ^ 32\<close>; reservations
  are disjoint below the mark at which the row-id counter saturates. The full-text index theorems bound
  the terms ever added so that the 32-bit term counter stays below its maximum; the engine
  theorem bounds the tokens by the 64-bit offsets, counting an operation twice, as a replay may
  apply it twice. A log record has at most 64 MiB, the limit of its reader, and a term of a
  snapshot 1 MiB.

  \<^bold>\<open>Parameters.\<close> Code outside the repository is an argument of the definitions that use it: the
  checksum \<open>crc32\<close>, the JSON printer and parser, the bincode codecs of indexes and catalogs, the
  Arrow kernels of the merger, the \<open>bloomfilter\<close> package, the hash of a partition key, the printers
  of floating-point and JSON values, the clock, the Unicode tables, the codec of roaring bitmaps
  and the encoding of full-text log operations. The hypotheses on them are that a parser inverts
  its printer (\<open>env_ok\<close> for the full-text engine), that a kernel computes its documented result,
  and that a Bloom filter has no false negatives (\<open>bloom_laws\<close>).

  \<^bold>\<open>Not modelled.\<close> Hash maps are visited in insertion order, so theorems about order do not depend
  on a hash function but neither do they cover every iteration order. Writes to files succeed
  except where an operation is given a failing file. Of \<^verbatim>\<open>storage/incremental.rs\<close> the in-memory
  table on top of the log is left out, and of \<^verbatim>\<open>data/value.rs\<close> printing and JSON conversion. The
  column file format and its memory-mapped scans (\<^verbatim>\<open>storage/on_demand\<close>), the vectorised executor
  and its compiler (\<^verbatim>\<open>query\<close>), the network servers and the Python bindings are byte-layout, SIMD
  or third-party code. Of full-text search the ranked and the fuzzy queries, whose
  scores are floating-point numbers, the background flush thread and the statistics are left out. The SQL
  parser, the table catalog and the planner are not modelled. \<^verbatim>\<open>txn/commit.rs\<close> holds only the payload of commit
  errors.
\<close>

end
